(* ===== verification/Prelude.thy ===== *)
theory Prelude
  imports Main "HOL-Library.Word"
begin

text \<open>
  Shared foundations of the DualFuse kernel development: the machine-integer types, the
  ways a kernel function can stop without returning, the state-passing commands the
  stateful C functions are written in, little-endian struct codecs, buffers as byte
  lists, and the byte-array bitmap primitives of \<^verbatim>\<open>utility.cpp\<close>.

  Conventions. A C function that reads and writes kernel state is a command
  \<open>('s, 'a) cmd\<close>: it takes the state and gives either a fault or its return value
  with the new state. Values stored in structs are words of the C width; \<^verbatim>\<open>size_t\<close>
  quantities that index memory or disk are natural numbers, with the truncation to
  \<^verbatim>\<open>uint32_t\<close> or \<^verbatim>\<open>uint16_t\<close> written out where the source truncates.
\<close>

unbundle bit_operations_syntax

named_theorems cmd_simps \<open>unfolding rules for the command combinators\<close>
named_theorems codec_simps \<open>round-trip and length rules of the struct codecs\<close>

type_synonym byte = "8 word"
type_synonym u16 = "16 word"
type_synonym u32 = "32 word"
type_synonym u64 = "64 word"

section \<open>Faults and commands\<close>

text \<open>
  How control can be lost: \<open>Halted\<close> is \<^verbatim>\<open>Halt()\<close> of \<^verbatim>\<open>hcf.hpp\<close> (a \<^verbatim>\<open>hlt\<close> loop);
  \<open>Assert_failed\<close> a failed \<^verbatim>\<open>assert\<close>; \<open>Out_of_bounds\<close> an access outside the buffer or
  array the source allocated; \<open>Blocked\<close> a spin on a lock that the running task alone can
  not release; \<open>Diverges\<close> a loop whose state no longer changes; \<open>Undefined\<close> an operation
  C leaves undefined; \<open>Device_absent\<close> disk access with no SATA device behind it.
\<close>

datatype fault =
    Halted | Assert_failed | Out_of_bounds | Blocked | Diverges | Undefined | Device_absent

type_synonym 'a res = "fault + 'a"
type_synonym ('s, 'a) cmd = "'s \<Rightarrow> fault + ('a \<times> 's)"

definition ret :: "'a \<Rightarrow> ('s, 'a) cmd" where
  "ret x = (\<lambda>s. Inr (x, s))"

definition fail :: "fault \<Rightarrow> ('s, 'a) cmd" where
  "fail e = (\<lambda>s. Inl e)"

definition bnd :: "('s, 'a) cmd \<Rightarrow> ('a \<Rightarrow> ('s, 'b) cmd) \<Rightarrow> ('s, 'b) cmd" where
  "bnd m f = (\<lambda>s. case m s of Inl e \<Rightarrow> Inl e | Inr (x, s') \<Rightarrow> f x s')"

definition andthen :: "('s, 'a) cmd \<Rightarrow> ('s, 'b) cmd \<Rightarrow> ('s, 'b) cmd" where
  "andthen m k = bnd m (\<lambda>_. k)"

definition gets :: "('s \<Rightarrow> 'a) \<Rightarrow> ('s, 'a) cmd" where
  "gets f = (\<lambda>s. Inr (f s, s))"

definition modify :: "('s \<Rightarrow> 's) \<Rightarrow> ('s, unit) cmd" where
  "modify f = (\<lambda>s. Inr ((), f s))"

definition check :: "fault \<Rightarrow> bool \<Rightarrow> ('s, unit) cmd" where
  "check e b = (if b then ret () else fail e)"

definition lift :: "'a res \<Rightarrow> ('s, 'a) cmd" where
  "lift r = (\<lambda>s. case r of Inl e \<Rightarrow> Inl e | Inr x \<Rightarrow> Inr (x, s))"

definition bindR :: "'a res \<Rightarrow> ('a \<Rightarrow> 'b res) \<Rightarrow> 'b res" where
  "bindR r f = (case r of Inl e \<Rightarrow> Inl e | Inr x \<Rightarrow> f x)"

lemma bindR_simps [simp]:
  "bindR (Inl e) f = Inl e"
  "bindR (Inr x) f = f x"
  by (simp_all add: bindR_def)

lemma bindR_eq_Inr:
  "bindR r f = Inr y \<longleftrightarrow> (\<exists>x. r = Inr x \<and> f x = Inr y)"
  by (cases r) auto

lemma ret_run [cmd_simps]: "ret x s = Inr (x, s)"
  by (simp add: ret_def)

lemma fail_run [cmd_simps]: "fail e s = Inl e"
  by (simp add: fail_def)

lemma gets_run [cmd_simps]: "gets f s = Inr (f s, s)"
  by (simp add: gets_def)

lemma modify_run [cmd_simps]: "modify f s = Inr ((), f s)"
  by (simp add: modify_def)

lemma check_run [cmd_simps]: "check e b s = (if b then Inr ((), s) else Inl e)"
  by (simp add: check_def ret_def fail_def)

lemma lift_run [cmd_simps]:
  "lift (Inl e) s = Inl e"
  "lift (Inr x) s = Inr (x, s)"
  by (simp_all add: lift_def)

lemma bnd_run [cmd_simps]:
  "bnd m f s = (case m s of Inl e \<Rightarrow> Inl e | Inr (x, s') \<Rightarrow> f x s')"
  by (simp add: bnd_def)

lemma andthen_run [cmd_simps]:
  "andthen m k s = (case m s of Inl e \<Rightarrow> Inl e | Inr (x, s') \<Rightarrow> k s')"
  by (simp add: andthen_def bnd_def)

lemma bnd_Inr:
  "bnd m f s = Inr r \<longleftrightarrow> (\<exists>x s'. m s = Inr (x, s') \<and> f x s' = Inr r)"
  by (auto simp: bnd_def split: sum.splits)

lemma bnd_step: "m s = Inr (x, s') \<Longrightarrow> bnd m f s = f x s'"
  by (simp add: bnd_def)

lemma andthen_step: "m s = Inr (x, s') \<Longrightarrow> andthen m k s = k s'"
  by (simp add: andthen_def bnd_def)

text \<open>A \<^verbatim>\<open>for\<close> loop whose body returns nothing, over the list of the values its index takes.\<close>

primrec for_each :: "('a \<Rightarrow> ('s, unit) cmd) \<Rightarrow> 'a list \<Rightarrow> ('s, unit) cmd" where
  "for_each f [] = ret ()"
| "for_each f (x # xs) = andthen (f x) (for_each f xs)"

lemma for_each_append: "for_each f (xs @ ys) s = andthen (for_each f xs) (for_each f ys) s"
  by (induction xs arbitrary: s) (auto simp: cmd_simps split: sum.splits)

lemma for_each_foldl:
  assumes "\<And>x s. x \<in> set xs \<Longrightarrow> P s \<Longrightarrow> f x s = Inr ((), g s x) \<and> P (g s x)" "P s"
  shows "for_each f xs s = Inr ((), foldl g s xs) \<and> P (foldl g s xs)"
  using assms by (induction xs arbitrary: s) (simp_all add: cmd_simps)

section \<open>Searching\<close>

lemma find_append: "find P (xs @ ys) = (case find P xs of None \<Rightarrow> find P ys | Some x \<Rightarrow> Some x)"
  by (induction xs) auto

lemma find_upt_Some:
  assumes "lo \<le> k" "k < hi" "P k" "\<forall>j. lo \<le> j \<and> j < k \<longrightarrow> \<not> P j"
  shows "find P [lo..<hi] = Some k"
  unfolding find_Some_iff using assms by (intro exI [of _ "k - lo"]) auto

lemma find_upt_None:
  "(find P [lo..<hi] = None) = (\<forall>j. lo \<le> j \<and> j < hi \<longrightarrow> \<not> P j)"
  by (auto simp: find_None_iff)

section \<open>Arithmetic macros\<close>

text \<open>\<^verbatim>\<open>utility.h\<close>: \<open>CEILING_DIVISION\<close> and \<open>COMBINE_64\<close>; \<^verbatim>\<open>types.h\<close>: \<open>MIN\<close> is HOL's \<open>min\<close>.\<close>

definition CEILING_DIVISION :: "nat \<Rightarrow> nat \<Rightarrow> nat" where
  "CEILING_DIVISION a b = ((a + b) - 1) div b"

definition COMBINE_64 :: "u32 \<Rightarrow> u32 \<Rightarrow> u64" where
  "COMBINE_64 higher lower = (push_bit 32 (ucast higher) OR ucast lower)"

definition trunc32 :: "nat \<Rightarrow> nat" where
  "trunc32 n = n mod 2 ^ 32"

lemma CEILING_DIVISION_0 [simp]: "0 < b \<Longrightarrow> CEILING_DIVISION 0 b = 0"
  by (simp add: CEILING_DIVISION_def)

lemma CEILING_DIVISION_ge: "0 < b \<Longrightarrow> a \<le> CEILING_DIVISION a b * b"
proof -
  assume b: "0 < b"
  define c where "c = (a + b - 1) div b"
  have "a + b - 1 = c * b + (a + b - 1) mod b"
    by (simp add: c_def div_mult_mod_eq)
  moreover have "(a + b - 1) mod b < b"
    using b by simp
  ultimately have "a + b - 1 \<le> c * b + (b - 1)"
    by linarith
  then show ?thesis
    using b by (simp add: CEILING_DIVISION_def c_def)
qed

lemma CEILING_DIVISION_le: "0 < b \<Longrightarrow> CEILING_DIVISION a b * b < a + b"
proof -
  assume b: "0 < b"
  have "(a + b - 1) div b * b \<le> a + b - 1"
    by simp
  also have "\<dots> < a + b"
    using b by simp
  finally show ?thesis
    by (simp add: CEILING_DIVISION_def)
qed

lemma CEILING_DIVISION_mult [simp]: "0 < b \<Longrightarrow> CEILING_DIVISION (k * b) b = k"
proof -
  assume b: "0 < b"
  have "(k * b + b - 1) div b = k + (b - 1) div b"
    using b by (metis Nat.add_diff_assoc Suc_leI One_nat_def div_mult_self3 not_less_zero gr_implies_not0)
  then show ?thesis
    using b by (simp add: CEILING_DIVISION_def)
qed

lemma trunc32_id [simp]: "n < 2 ^ 32 \<Longrightarrow> trunc32 n = n"
  by (simp add: trunc32_def)

lemma unat_less_u32: "unat (w :: u32) < 2 ^ 32"
  using unsigned_less [of w, where 'a = nat] by simp

lemma unat_less_u16: "unat (w :: u16) < 2 ^ 16"
  using unsigned_less [of w, where 'a = nat] by simp

lemma unat_less_byte: "unat (w :: byte) < 2 ^ 8"
  using unsigned_less [of w, where 'a = nat] by simp

lemma unat_of_nat_id:
  "n < 2 ^ 8 \<Longrightarrow> unat (of_nat n :: byte) = n"
  "n < 2 ^ 16 \<Longrightarrow> unat (of_nat n :: u16) = n"
  "n < 2 ^ 32 \<Longrightarrow> unat (of_nat n :: u32) = n"
  by (simp_all add: unsigned_of_nat take_bit_nat_eq_self)

lemma unat_COMBINE_64:
  "unat (COMBINE_64 hi lo) = unat hi * 2 ^ 32 + unat lo"
proof -
  have "COMBINE_64 hi lo = push_bit 32 (ucast hi) + (ucast lo :: u64)"
    unfolding COMBINE_64_def
    by (rule disjunctive_add [symmetric])
       (auto simp: bit_simps dest: bit_imp_le_length)
  also have "unat \<dots> = unat hi * 2 ^ 32 + unat lo"
  proof -
    have hi: "unat hi < 2 ^ 32" and lo: "unat lo < 2 ^ 32"
      by (rule unat_less_u32)+
    have p: "unat (push_bit 32 (ucast hi) :: u64) = unat hi * 2 ^ 32"
      using hi by (simp add: push_bit_eq_mult unat_word_ariths unsigned_ucast_eq take_bit_nat_eq_self)
    have l: "unat (ucast lo :: u64) = unat lo"
      using lo by (simp add: unsigned_ucast_eq take_bit_nat_eq_self)
    have "unat hi * 2 ^ 32 + unat lo < 2 ^ 64"
      using hi lo by simp
    then show ?thesis
      by (simp add: unat_word_ariths p l)
  qed
  finally show ?thesis .
qed

section \<open>Buffers and little-endian fields\<close>

text \<open>
  A malloc'ed buffer is the list of its bytes. \<open>seg b off n\<close> is the \<open>n\<close> bytes at offset
  \<open>off\<close>; \<open>blit b off xs\<close> is the buffer after \<^verbatim>\<open>memcpy(&b[off], xs, length xs)\<close>. The checked
  forms \<open>rd8\<close>, \<open>rd16\<close>, \<open>rd32\<close>, \<open>rdseg\<close> and \<open>wr\<close> fault when an access leaves the buffer.
\<close>

definition seg :: "'a list \<Rightarrow> nat \<Rightarrow> nat \<Rightarrow> 'a list" where
  "seg b off n = take n (drop off b)"

definition blit :: "'a list \<Rightarrow> nat \<Rightarrow> 'a list \<Rightarrow> 'a list" where
  "blit b off xs = take off b @ xs @ drop (off + length xs) b"

definition le16 :: "byte \<Rightarrow> byte \<Rightarrow> u16" where
  "le16 a b = ucast a OR push_bit 8 (ucast b)"

definition le32 :: "byte \<Rightarrow> byte \<Rightarrow> byte \<Rightarrow> byte \<Rightarrow> u32" where
  "le32 a b c d = ucast a OR push_bit 8 (ucast b) OR push_bit 16 (ucast c) OR push_bit 24 (ucast d)"

definition bytes16 :: "u16 \<Rightarrow> byte list" where
  "bytes16 w = [ucast w, ucast (drop_bit 8 w)]"

definition bytes32 :: "u32 \<Rightarrow> byte list" where
  "bytes32 w = [ucast w, ucast (drop_bit 8 w), ucast (drop_bit 16 w), ucast (drop_bit 24 w)]"

definition dec16 :: "byte list \<Rightarrow> nat \<Rightarrow> u16" where
  "dec16 b off = le16 (b ! off) (b ! (off + 1))"

definition dec32 :: "byte list \<Rightarrow> nat \<Rightarrow> u32" where
  "dec32 b off = le32 (b ! off) (b ! (off + 1)) (b ! (off + 2)) (b ! (off + 3))"

definition rd8 :: "byte list \<Rightarrow> nat \<Rightarrow> byte res" where
  "rd8 b off = (if off < length b then Inr (b ! off) else Inl Out_of_bounds)"

definition rd16 :: "byte list \<Rightarrow> nat \<Rightarrow> u16 res" where
  "rd16 b off = (if off + 2 \<le> length b then Inr (dec16 b off) else Inl Out_of_bounds)"

definition rd32 :: "byte list \<Rightarrow> nat \<Rightarrow> u32 res" where
  "rd32 b off = (if off + 4 \<le> length b then Inr (dec32 b off) else Inl Out_of_bounds)"

definition rdseg :: "'a list \<Rightarrow> nat \<Rightarrow> nat \<Rightarrow> 'a list res" where
  "rdseg b off n = (if off + n \<le> length b then Inr (seg b off n) else Inl Out_of_bounds)"

definition wr :: "'a list \<Rightarrow> nat \<Rightarrow> 'a list \<Rightarrow> 'a list res" where
  "wr b off xs = (if off + length xs \<le> length b then Inr (blit b off xs) else Inl Out_of_bounds)"

fun words_of :: "byte list \<Rightarrow> u32 list" where
  "words_of (a # b # c # d # bs) = le32 a b c d # words_of bs"
| "words_of _ = []"

definition bytes_of_words :: "u32 list \<Rightarrow> byte list" where
  "bytes_of_words ws = concat (map bytes32 ws)"

lemma length_seg [simp]: "length (seg b off n) = min n (length b - off)"
  by (simp add: seg_def)

lemma nth_seg [simp]: "i < n \<Longrightarrow> off + n \<le> length b \<Longrightarrow> seg b off n ! i = b ! (off + i)"
  by (simp add: seg_def)

lemma seg_full [simp]: "length b = n \<Longrightarrow> seg b 0 n = b"
  by (simp add: seg_def)

lemma seg_join:
  "o2 = o1 + m \<Longrightarrow> seg b o1 m @ seg b o2 n = seg b o1 (m + n)"
  by (simp add: seg_def take_add add.commute)

lemma seg_join_more:
  "o2 = o1 + m \<Longrightarrow> seg b o1 m @ seg b o2 n @ r = seg b o1 (m + n) @ r"
  by (simp add: seg_join flip: append_assoc)

lemma length_blit [simp]:
  "off + length xs \<le> length b \<Longrightarrow> length (blit b off xs) = length b"
  by (simp add: blit_def)

lemma nth_blit:
  "off + length xs \<le> length b \<Longrightarrow> i < length b \<Longrightarrow>
   blit b off xs ! i = (if off \<le> i \<and> i < off + length xs then xs ! (i - off) else b ! i)"
  by (auto simp: blit_def nth_append min_def)

lemma seg_blit_same [simp]:
  "off + length xs \<le> length b \<Longrightarrow> seg (blit b off xs) off (length xs) = xs"
  by (simp add: seg_def blit_def min_def)

lemma seg_blit_other:
  "off + length xs \<le> length b \<Longrightarrow> o2 + n \<le> length b \<Longrightarrow>
   o2 + n \<le> off \<or> off + length xs \<le> o2 \<Longrightarrow> seg (blit b off xs) o2 n = seg b o2 n"
  by (rule nth_equalityI) (auto simp: nth_blit)

lemma seg_blit_within:
  "off \<le> o2 \<Longrightarrow> o2 + length xs \<le> off + n \<Longrightarrow> off + n \<le> length b \<Longrightarrow>
   seg (blit b o2 xs) off n = blit (seg b off n) (o2 - off) xs"
  by (rule nth_equalityI) (auto simp: nth_blit add.commute)

lemma blit_blit_end:
  "off + length xs + length ys \<le> length b \<Longrightarrow> o2 = off + length xs \<Longrightarrow>
   blit (blit b off xs) o2 ys = blit b off (xs @ ys)"
  by (rule nth_equalityI) (auto simp: nth_blit nth_append)

lemma seg_eqI:
  "length b' = length b \<Longrightarrow> (\<And>i. off \<le> i \<Longrightarrow> i < off + n \<Longrightarrow> i < length b \<Longrightarrow> b' ! i = b ! i) \<Longrightarrow>
   seg b' off n = seg b off n"
  by (rule nth_equalityI) (auto simp: seg_def)

lemma blit_seg_id [simp]: "off + n \<le> length b \<Longrightarrow> blit b off (seg b off n) = b"
  by (rule nth_equalityI) (auto simp: nth_blit)

lemma length_bytes [simp]: "length (bytes16 v) = 2" "length (bytes32 w) = 4"
  by (simp_all add: bytes16_def bytes32_def)

lemma le16_bytes [codec_simps]: "le16 (ucast w) (ucast (drop_bit 8 w)) = w"
  unfolding le16_def by (rule bit_word_eqI) (auto simp: bit_simps)

lemma le32_bytes [codec_simps]:
  "le32 (ucast w) (ucast (drop_bit 8 w)) (ucast (drop_bit 16 w)) (ucast (drop_bit 24 w)) = w"
proof (rule bit_word_eqI)
  fix n assume "n < LENGTH(32)"
  then consider "n < 8" | "8 \<le> n" "n < 16" | "16 \<le> n" "n < 24" | "24 \<le> n" "n < 32"
    by fastforce
  then show "bit (le32 (ucast w) (ucast (drop_bit 8 w)) (ucast (drop_bit 16 w))
                    (ucast (drop_bit 24 w))) n = bit w n"
    by cases (auto simp: le32_def bit_simps)
qed

lemma bit_byte_high: "8 \<le> n \<Longrightarrow> \<not> bit (a :: byte) n"
  by (auto dest: bit_imp_le_length)

lemma bytes16_le16 [codec_simps]: "bytes16 (le16 a b) = [a, b]"
  unfolding le16_def bytes16_def
  by (auto intro!: bit_word_eqI simp: bit_simps bit_byte_high)

lemma bytes32_le32 [codec_simps]: "bytes32 (le32 a b c d) = [a, b, c, d]"
  unfolding le32_def bytes32_def
  by (auto intro!: bit_word_eqI simp: bit_simps bit_byte_high)

lemma seg_Cons_nth:
  "off < length b \<Longrightarrow> seg b off (Suc n) = b ! off # seg b (Suc off) n"
  by (simp add: seg_def Cons_nth_drop_Suc [symmetric])

lemma seg_0 [simp]: "seg b off 0 = []"
  by (simp add: seg_def)

lemma bytes16_dec16: "off + 2 \<le> length b \<Longrightarrow> bytes16 (dec16 b off) = seg b off 2"
  by (simp add: dec16_def bytes16_le16 numeral_2_eq_2 seg_Cons_nth)

lemma bytes32_dec32: "off + 4 \<le> length b \<Longrightarrow> bytes32 (dec32 b off) = seg b off 4"
  by (simp add: dec32_def bytes32_le32 numeral_eq_Suc seg_Cons_nth)

lemma byte_seg: "off < length b \<Longrightarrow> [b ! off] = seg b off 1"
  by (simp add: seg_Cons_nth)

lemma dec16_bytes [codec_simps]:
  "dec16 (bytes16 w @ r) 0 = w"
  by (simp add: dec16_def bytes16_def le16_bytes)

lemma dec32_bytes [codec_simps]:
  "dec32 (bytes32 w @ r) 0 = w"
  by (simp add: dec32_def bytes32_def le32_bytes)

lemma dec16_skip [codec_simps]:
  "length xs \<le> off \<Longrightarrow> dec16 (xs @ r) off = dec16 r (off - length xs)"
  by (simp add: dec16_def nth_append Suc_diff_le)

lemma dec32_skip [codec_simps]:
  "length xs \<le> off \<Longrightarrow> dec32 (xs @ r) off = dec32 r (off - length xs)"
  by (simp add: dec32_def nth_append Suc_diff_le)

lemma seg_skip [codec_simps]:
  "length xs \<le> off \<Longrightarrow> seg (xs @ r) off n = seg r (off - length xs) n"
  by (simp add: seg_def)

lemma dec16_Cons [codec_simps]: "0 < off \<Longrightarrow> dec16 (x # r) off = dec16 r (off - 1)"
  using dec16_skip [of "[x]" off r] by simp

lemma dec32_Cons [codec_simps]: "0 < off \<Longrightarrow> dec32 (x # r) off = dec32 r (off - 1)"
  using dec32_skip [of "[x]" off r] by simp

lemma seg_Cons [codec_simps]: "0 < off \<Longrightarrow> seg (x # r) off n = seg r (off - 1) n"
  using seg_skip [of "[x]" off r] by simp

lemma seg_here [codec_simps]: "length xs = n \<Longrightarrow> seg (xs @ r) 0 n = xs"
  by (simp add: seg_def)

lemma dec16_blit_same:
  "off + 2 \<le> length b \<Longrightarrow> dec16 (blit b off (bytes16 w)) off = w"
  by (simp add: dec16_def nth_blit bytes16_def le16_bytes)

lemma dec32_blit_same:
  "off + 4 \<le> length b \<Longrightarrow> dec32 (blit b off (bytes32 w)) off = w"
  by (simp add: dec32_def nth_blit bytes32_def le32_bytes)

lemma dec16_blit_other:
  "off + length xs \<le> length b \<Longrightarrow> o2 + 2 \<le> length b \<Longrightarrow>
   o2 + 2 \<le> off \<or> off + length xs \<le> o2 \<Longrightarrow> dec16 (blit b off xs) o2 = dec16 b o2"
  by (auto simp: dec16_def nth_blit)

lemma dec32_blit_other:
  "off + length xs \<le> length b \<Longrightarrow> o2 + 4 \<le> length b \<Longrightarrow>
   o2 + 4 \<le> off \<or> off + length xs \<le> o2 \<Longrightarrow> dec32 (blit b off xs) o2 = dec32 b o2"
  by (auto simp: dec32_def nth_blit)

lemma length_words_of [simp]: "length (words_of bs) = length bs div 4"
  by (induction bs rule: words_of.induct) auto

lemma words_of_bytes [simp]: "words_of (bytes_of_words ws) = ws"
  by (induction ws) (simp_all add: bytes_of_words_def bytes32_def le32_bytes)

lemma length_bytes_of_words [simp]: "length (bytes_of_words ws) = 4 * length ws"
  by (induction ws) (simp_all add: bytes_of_words_def)

lemma bytes_of_words_of: "4 dvd length bs \<Longrightarrow> bytes_of_words (words_of bs) = bs"
  by (induction bs rule: words_of.induct)
     (auto simp: bytes_of_words_def bytes32_le32 dvd_eq_mod_eq_0 mod_Suc split: if_splits)

lemma words_of_nth: "4 * i + 4 \<le> length bs \<Longrightarrow> words_of bs ! i = dec32 bs (4 * i)"
proof (induction bs arbitrary: i rule: words_of.induct)
  case (1 a b c d bs)
  then show ?case
    by (cases i) (simp_all add: dec32_def numeral_eq_Suc)
qed auto

end
