(* ===== verification/Spinlock.thy ===== *)
theory Spinlock
  imports Prelude
begin

text \<open>
  The locks of \<^verbatim>\<open>multitasking/spinlock.cpp\<close>: the plain \<open>Spinlock\<close> (a flag) and the counting
  reader/writer lock \<open>SpinlockCnt\<close> (\<open>cnt > 0\<close> readers, \<open>-1\<close> one writer). An operation is a
  function on the lock word that either gives the new word, spins (\<open>Blocked\<close>: the loop around
  \<^verbatim>\<open>hand_control()\<close> cannot be left while the word stays as it is) or halts the machine.

  The tasks that use one counting lock form a transition system. In \<open>coop_step\<close> a task gives
  up the processor only inside \<^verbatim>\<open>hand_control()\<close>, so leaving the spin loop and writing the
  counter are one step. In \<open>preempt_step\<close> a task can be interrupted between the two, as
  the timer interrupt permits.
\<close>

type_synonym Spinlock = bool
type_synonym SpinlockCnt = int

definition spinlock_acquire :: "Spinlock \<Rightarrow> Spinlock res" where
  "spinlock_acquire locked = (if locked then Inl Blocked else Inr locked)"

definition spinlock_release :: "Spinlock \<Rightarrow> Spinlock" where
  "spinlock_release locked = False"

definition spinlock_cnt_read_acquire :: "SpinlockCnt \<Rightarrow> SpinlockCnt res" where
  "spinlock_cnt_read_acquire cnt = (if cnt < 0 then Inl Blocked else Inr (cnt + 1))"

definition spinlock_cnt_read_release :: "SpinlockCnt \<Rightarrow> SpinlockCnt res" where
  "spinlock_cnt_read_release cnt = (if cnt < 0 then Inl Halted else Inr (cnt - 1))"

definition spinlock_cnt_write_acquire :: "SpinlockCnt \<Rightarrow> SpinlockCnt res" where
  "spinlock_cnt_write_acquire cnt = (if cnt \<noteq> 0 then Inl Blocked else Inr (- 1))"

definition spinlock_cnt_write_release :: "SpinlockCnt \<Rightarrow> SpinlockCnt res" where
  "spinlock_cnt_write_release cnt = (if cnt \<noteq> - 1 then Inl Halted else Inr 0)"

lemmas spinlock_cnt_defs =
  spinlock_cnt_read_acquire_def spinlock_cnt_read_release_def
  spinlock_cnt_write_acquire_def spinlock_cnt_write_release_def

section \<open>The lock interface of a critical section\<close>

text \<open>
  What a client of an array of locks relies on: releasing what was acquired gives the old
  lock word back, so a critical section that does not touch the array leaves it as it was.
\<close>

locale section_lock =
  fixes acq :: "'l \<Rightarrow> 'l res" and rel :: "'l \<Rightarrow> 'l res"
  assumes rel_acq: "acq l = Inr l' \<Longrightarrow> rel l' = Inr l"
begin

lemma array_section:
  assumes "g < length L" "acq (L ! g) = Inr l'"
  shows "rel (L[g := l'] ! g) = Inr (L ! g)" and "L[g := l', g := L ! g] = L"
  using assms by (simp_all add: rel_acq)

end

interpretation rlock: section_lock spinlock_cnt_read_acquire spinlock_cnt_read_release
  by unfold_locales (auto simp: spinlock_cnt_defs split: if_splits)

interpretation wlock: section_lock spinlock_cnt_write_acquire spinlock_cnt_write_release
  by unfold_locales (auto simp: spinlock_cnt_defs split: if_splits)

section \<open>Tasks sharing one counting lock\<close>

datatype lock_pc = Idle | Read_test | Reading | Write_test | Writing

record lock_sys =
  cnt :: SpinlockCnt
  pcs :: "nat \<Rightarrow> lock_pc"

definition lock_init :: lock_sys where
  "lock_init = \<lparr>cnt = 0, pcs = (\<lambda>_. Idle)\<rparr>"

inductive coop_step :: "lock_sys \<Rightarrow> lock_sys \<Rightarrow> bool" where
  coop_read: "pcs s i = Idle \<Longrightarrow> spinlock_cnt_read_acquire (cnt s) = Inr c \<Longrightarrow>
     coop_step s (s\<lparr>cnt := c, pcs := (pcs s)(i := Reading)\<rparr>)"
| coop_read_done: "pcs s i = Reading \<Longrightarrow> spinlock_cnt_read_release (cnt s) = Inr c \<Longrightarrow>
     coop_step s (s\<lparr>cnt := c, pcs := (pcs s)(i := Idle)\<rparr>)"
| coop_write: "pcs s i = Idle \<Longrightarrow> spinlock_cnt_write_acquire (cnt s) = Inr c \<Longrightarrow>
     coop_step s (s\<lparr>cnt := c, pcs := (pcs s)(i := Writing)\<rparr>)"
| coop_write_done: "pcs s i = Writing \<Longrightarrow> spinlock_cnt_write_release (cnt s) = Inr c \<Longrightarrow>
     coop_step s (s\<lparr>cnt := c, pcs := (pcs s)(i := Idle)\<rparr>)"

inductive coop_reach :: "lock_sys \<Rightarrow> bool" where
  coop_start: "coop_reach lock_init"
| coop_more: "coop_reach s \<Longrightarrow> coop_step s t \<Longrightarrow> coop_reach t"

inductive_cases coop_stepE: "coop_step s t"

text \<open>
  The fine-grained system: \<open>Read_test\<close> and \<open>Write_test\<close> are the points after the test of
  the loop came out false and before the counter is written.
\<close>

inductive preempt_step :: "lock_sys \<Rightarrow> lock_sys \<Rightarrow> bool" where
  pre_read_test: "pcs s i = Idle \<Longrightarrow> \<not> cnt s < 0 \<Longrightarrow>
     preempt_step s (s\<lparr>pcs := (pcs s)(i := Read_test)\<rparr>)"
| pre_read_set: "pcs s i = Read_test \<Longrightarrow>
     preempt_step s (s\<lparr>cnt := cnt s + 1, pcs := (pcs s)(i := Reading)\<rparr>)"
| pre_write_test: "pcs s i = Idle \<Longrightarrow> cnt s = 0 \<Longrightarrow>
     preempt_step s (s\<lparr>pcs := (pcs s)(i := Write_test)\<rparr>)"
| pre_write_set: "pcs s i = Write_test \<Longrightarrow>
     preempt_step s (s\<lparr>cnt := - 1, pcs := (pcs s)(i := Writing)\<rparr>)"
| pre_read_done: "pcs s i = Reading \<Longrightarrow> spinlock_cnt_read_release (cnt s) = Inr c \<Longrightarrow>
     preempt_step s (s\<lparr>cnt := c, pcs := (pcs s)(i := Idle)\<rparr>)"
| pre_write_done: "pcs s i = Writing \<Longrightarrow> spinlock_cnt_write_release (cnt s) = Inr c \<Longrightarrow>
     preempt_step s (s\<lparr>cnt := c, pcs := (pcs s)(i := Idle)\<rparr>)"

inductive preempt_reach :: "lock_sys \<Rightarrow> bool" where
  pre_start: "preempt_reach lock_init"
| pre_more: "preempt_reach s \<Longrightarrow> preempt_step s t \<Longrightarrow> preempt_reach t"

text \<open>The invariant: the counter is the number of readers, or \<open>-1\<close> with exactly one writer.\<close>

definition readers :: "lock_sys \<Rightarrow> nat set" where
  "readers s = {i. pcs s i = Reading}"

definition writers :: "lock_sys \<Rightarrow> nat set" where
  "writers s = {i. pcs s i = Writing}"

definition lock_inv :: "lock_sys \<Rightarrow> bool" where
  "lock_inv s \<longleftrightarrow> finite (readers s) \<and>
     (cnt s = - 1 \<and> readers s = {} \<and> (\<exists>i. writers s = {i}) \<or>
      cnt s = int (card (readers s)) \<and> writers s = {})"

lemma lock_inv_init: "lock_inv lock_init"
  by (simp add: lock_inv_def lock_init_def readers_def writers_def)

lemma readers_upd:
  "readers (s\<lparr>cnt := c, pcs := (pcs s)(i := p)\<rparr>)
   = (if p = Reading then insert i (readers s) else readers s - {i})"
  by (auto simp: readers_def)

lemma writers_upd:
  "writers (s\<lparr>cnt := c, pcs := (pcs s)(i := p)\<rparr>)
   = (if p = Writing then insert i (writers s) else writers s - {i})"
  by (auto simp: writers_def)

lemma pcs_sets: "pcs s i = Reading \<longleftrightarrow> i \<in> readers s" "pcs s i = Writing \<longleftrightarrow> i \<in> writers s"
  "pcs s i = Idle \<Longrightarrow> i \<notin> readers s \<and> i \<notin> writers s"
  by (auto simp: readers_def writers_def)

lemma coop_step_inv: "coop_step s t \<Longrightarrow> lock_inv s \<Longrightarrow> lock_inv t"
proof (induction rule: coop_step.induct)
  case (coop_read s i c)
  then have "i \<notin> readers s" "writers s = {}" "cnt s = int (card (readers s))" "c = cnt s + 1"
    by (auto simp: lock_inv_def pcs_sets(3) spinlock_cnt_defs split: if_splits)
  with coop_read show ?case
    by (auto simp: lock_inv_def readers_upd writers_upd)
next
  case (coop_read_done s i c)
  then have "i \<in> readers s" "writers s = {}" "cnt s = int (card (readers s))" "c = cnt s - 1"
    by (auto simp: lock_inv_def pcs_sets spinlock_cnt_defs split: if_splits)
  moreover from this coop_read_done.prems have "0 < card (readers s)"
    by (auto simp: lock_inv_def card_gt_0_iff)
  ultimately show ?case
    using coop_read_done.prems
    by (auto simp: lock_inv_def readers_upd writers_upd of_nat_diff)
next
  case (coop_write s i c)
  then have "readers s = {}" "writers s = {}" "c = - 1"
    by (auto simp: lock_inv_def spinlock_cnt_defs split: if_splits)
  with coop_write show ?case
    by (auto simp: lock_inv_def readers_upd writers_upd)
next
  case (coop_write_done s i c)
  then have "i \<in> writers s" "c = 0"
    by (auto simp: pcs_sets spinlock_cnt_defs split: if_splits)
  with coop_write_done show ?case
    by (auto simp: lock_inv_def readers_upd writers_upd)
qed

lemma coop_reach_inv: "coop_reach s \<Longrightarrow> lock_inv s"
  by (induction rule: coop_reach.induct) (auto intro: lock_inv_init coop_step_inv)

text \<open>
  C25. With tasks that switch only inside \<^verbatim>\<open>hand_control()\<close>, the counting lock is a
  reader/writer lock: in every reachable state a writer is alone (no other writer and no
  reader), and every holder can release without reaching the \<^verbatim>\<open>Halt()\<close> of the release
  functions.
\<close>

theorem spinlock_cnt_exclusion:
  assumes "coop_reach s"
  shows "(\<forall>i j. pcs s i = Writing \<and> (pcs s j = Writing \<or> pcs s j = Reading) \<longrightarrow> i = j) \<and>
         (\<forall>i. pcs s i = Writing \<longrightarrow> (\<exists>c. spinlock_cnt_write_release (cnt s) = Inr c)) \<and>
         (\<forall>i. pcs s i = Reading \<longrightarrow> (\<exists>c. spinlock_cnt_read_release (cnt s) = Inr c))"
  using coop_reach_inv [OF assms]
  by (auto simp: lock_inv_def pcs_sets spinlock_cnt_defs)

lemma coop_two_readers:
  "coop_reach (lock_init\<lparr>cnt := 2, pcs := ((pcs lock_init)(0 := Reading))(1 := Reading)\<rparr>)"
proof -
  let ?s = "lock_init\<lparr>cnt := 1, pcs := (pcs lock_init)(0 := Reading)\<rparr>"
  have "coop_step lock_init ?s"
    by (rule coop_read) (simp_all add: lock_init_def spinlock_cnt_defs)
  then have s: "coop_reach ?s"
    by (rule coop_more [OF coop_start])
  have "coop_step ?s (?s\<lparr>cnt := 2, pcs := (pcs ?s)(1 := Reading)\<rparr>)"
    by (rule coop_read) (simp_all add: lock_init_def spinlock_cnt_defs)
  then have "coop_reach (?s\<lparr>cnt := 2, pcs := (pcs ?s)(1 := Reading)\<rparr>)"
    by (rule coop_more [OF s])
  then show ?thesis
    by simp
qed

theorem spinlock_cnt_exclusion_witness:
  "\<exists>c. spinlock_cnt_read_release (cnt (lock_init\<lparr>cnt := 2,
         pcs := ((pcs lock_init)(0 := Reading))(1 := Reading)\<rparr>)) = Inr c"
  (is "\<exists>c. spinlock_cnt_read_release (cnt ?s) = Inr c")
proof -
  have "pcs ?s 1 = Reading"
    by simp
  with spinlock_cnt_exclusion [OF coop_two_readers] show ?thesis
    by blast
qed


fun acquire_times :: "nat \<Rightarrow> Spinlock \<Rightarrow> Spinlock res" where
  "acquire_times 0 l = Inr l"
| "acquire_times (Suc n) l = bindR (spinlock_acquire l) (acquire_times n)"

text \<open>
  The plain spinlock excludes nobody even without preemption: \<open>spinlock_acquire\<close>
  waits for the flag to be clear and never sets it, so a lock that was just acquired can be
  acquired again, any number of times.
\<close>

theorem spinlock_acquire_no_exclusion:
  "acquire_times n (spinlock_release l) = Inr (spinlock_release l)"
  by (induction n) (simp_all add: spinlock_acquire_def spinlock_release_def)

end
