(* ===== verification/Avl_Tree.thy ===== *)
theory Avl_Tree
  imports Prelude
begin

text \<open>
  The AVL tree of \<^verbatim>\<open>utility/avl_tree.cpp\<close>, which holds the open files of a task. A tree is
  the value of its nodes; \<^verbatim>\<open>NULL\<close> is \<open>Null\<close>, and a node carries the fields of \<^verbatim>\<open>AVLheader\<close> in
  their order (key, left, right, height, value). Dereferencing a null child faults with
  \<open>Undefined\<close>; the theorems show that no such fault is reached on a balanced tree.

  The interface \<open>key_map\<close> states what the file table needs of the container; it is
  interpreted on the operations of this file.
\<close>

type_synonym avlkey = u64
type_synonym avlval = u64

datatype AVLheader = Null | Node avlkey AVLheader AVLheader int avlval

fun CALC_HEIGHT :: "AVLheader \<Rightarrow> int" where
  "CALC_HEIGHT Null = 0"
| "CALC_HEIGHT (Node k l r h v) = h"

fun CALC_BALANCE :: "AVLheader \<Rightarrow> int" where
  "CALC_BALANCE Null = 0"
| "CALC_BALANCE (Node k l r h v) = CALC_HEIGHT l - CALC_HEIGHT r"

definition AVLAllocateNode :: "avlkey \<Rightarrow> AVLheader" where
  "AVLAllocateNode key = Node key Null Null 1 0"

text \<open>A node with its height recomputed from its children.\<close>

definition node_h :: "avlkey \<Rightarrow> AVLheader \<Rightarrow> AVLheader \<Rightarrow> avlval \<Rightarrow> AVLheader" where
  "node_h k l r v = Node k l r (max (CALC_HEIGHT l) (CALC_HEIGHT r) + 1) v"

fun AVLRotationsRight :: "AVLheader \<Rightarrow> AVLheader res" where
  "AVLRotationsRight (Node yk (Node xk xl T2 xh xv) yr yh yv) =
     Inr (node_h xk xl (node_h yk T2 yr yv) xv)"
| "AVLRotationsRight _ = Inl Undefined"

fun AVLRotationsLeft :: "AVLheader \<Rightarrow> AVLheader res" where
  "AVLRotationsLeft (Node xk xl (Node yk T2 yr yh yv) xh xv) =
     Inr (node_h yk (node_h xk xl T2 xv) yr yv)"
| "AVLRotationsLeft _ = Inl Undefined"

fun AVLMinKeyNode :: "AVLheader \<Rightarrow> AVLheader" where
  "AVLMinKeyNode Null = Null"
| "AVLMinKeyNode (Node k Null r h v) = Node k Null r h v"
| "AVLMinKeyNode (Node k l r h v) = AVLMinKeyNode l"

text \<open>
  Steps 2 and 3 of \<^verbatim>\<open>AVLAllocateL\<close>: the four tests on the balance, where a positive and a
  negative balance exclude each other.
\<close>

definition insert_fix :: "avlkey \<Rightarrow> avlkey \<Rightarrow> AVLheader \<Rightarrow> AVLheader \<Rightarrow> avlval \<Rightarrow> AVLheader res" where
  "insert_fix key k l r v =
     (let node = node_h k l r v; balance = CALC_BALANCE node in
      if balance > 1 then
        (case l of Null \<Rightarrow> Inl Undefined
         | Node lk _ _ _ _ \<Rightarrow>
             if key < lk then AVLRotationsRight node
             else if key > lk then
               bindR (AVLRotationsLeft l) (\<lambda>l'. AVLRotationsRight (node_h k l' r v))
             else Inr node)
      else if balance < - 1 then
        (case r of Null \<Rightarrow> Inl Undefined
         | Node rk _ _ _ _ \<Rightarrow>
             if key > rk then AVLRotationsLeft node
             else if key < rk then
               bindR (AVLRotationsRight r) (\<lambda>r'. AVLRotationsLeft (node_h k l r' v))
             else Inr node)
      else Inr node)"

text \<open>The flag stands for \<^verbatim>\<open>*target != 0\<close>: whether the new node was already handed out.\<close>

fun AVLAllocateL :: "AVLheader \<Rightarrow> avlkey \<Rightarrow> bool \<Rightarrow> (AVLheader \<times> bool) res" where
  "AVLAllocateL Null key target =
     (if target then Inl Assert_failed else Inr (AVLAllocateNode key, True))"
| "AVLAllocateL (Node k l r h v) key target =
     (if key < k then
        bindR (AVLAllocateL l key target) (\<lambda>(l', t). bindR (insert_fix key k l' r v) (\<lambda>n. Inr (n, t)))
      else if key > k then
        bindR (AVLAllocateL r key target) (\<lambda>(r', t). bindR (insert_fix key k l r' v) (\<lambda>n. Inr (n, t)))
      else Inl Halted)"

text \<open>\<^verbatim>\<open>target->value = value\<close>: the write through the pointer to the new node.\<close>

fun set_value :: "AVLheader \<Rightarrow> avlkey \<Rightarrow> avlval \<Rightarrow> AVLheader" where
  "set_value Null key value = Null"
| "set_value (Node k l r h v) key value =
     (if key < k then Node k (set_value l key value) r h v
      else if key > k then Node k l (set_value r key value) h v
      else Node k l r h value)"

definition AVLAllocate :: "AVLheader \<Rightarrow> avlkey \<Rightarrow> avlval \<Rightarrow> AVLheader res" where
  "AVLAllocate first key value =
     bindR (AVLAllocateL first key False)
       (\<lambda>(t, target). if target then Inr (set_value t key value) else Inl Assert_failed)"

definition delete_fix :: "AVLheader \<Rightarrow> AVLheader res" where
  "delete_fix root =
     (case root of Null \<Rightarrow> Inr Null
      | Node k l r h v \<Rightarrow>
         (let node = node_h k l r v; balance = CALC_BALANCE node in
          if balance > 1 \<and> CALC_BALANCE l \<ge> 0 then AVLRotationsRight node
          else if balance > 1 \<and> CALC_BALANCE l < 0 then
            bindR (AVLRotationsLeft l) (\<lambda>l'. AVLRotationsRight (node_h k l' r v))
          else if balance < - 1 \<and> CALC_BALANCE r \<le> 0 then AVLRotationsLeft node
          else if balance < - 1 \<and> CALC_BALANCE r > 0 then
            bindR (AVLRotationsRight r) (\<lambda>r'. AVLRotationsLeft (node_h k l r' v))
          else Inr node))"

text \<open>
  With one child or none, the child's contents are copied over the node (\<^verbatim>\<open>memcpy\<close>) and
  \<^verbatim>\<open>*target\<close> receives the value found in \<^verbatim>\<open>temp\<close>: the child's value when there is a child.
\<close>

fun AVLUnregisterL :: "AVLheader \<Rightarrow> avlkey \<Rightarrow> avlval \<Rightarrow> (AVLheader \<times> avlval) res" where
  "AVLUnregisterL Null key target = Inr (Null, target)"
| "AVLUnregisterL (Node k l r h v) key target =
     (if key < k then
        bindR (AVLUnregisterL l key target)
          (\<lambda>(l', t). bindR (delete_fix (Node k l' r h v)) (\<lambda>n. Inr (n, t)))
      else if key > k then
        bindR (AVLUnregisterL r key target)
          (\<lambda>(r', t). bindR (delete_fix (Node k l r' h v)) (\<lambda>n. Inr (n, t)))
      else if l = Null \<or> r = Null then
        (let temp = (if l \<noteq> Null then l else r) in
         if target \<noteq> 0 then Inl Assert_failed
         else case temp of
             Null \<Rightarrow> Inr (Null, v)
           | Node tk tleft tright th tv \<Rightarrow>
               bindR (delete_fix (Node tk tleft tright th tv)) (\<lambda>n. Inr (n, tv)))
      else (case AVLMinKeyNode r of
              Null \<Rightarrow> Inl Undefined
            | Node tk _ _ _ tv \<Rightarrow>
                bindR (AVLUnregisterL r tk target)
                  (\<lambda>(r', t). bindR (delete_fix (Node tk l r' h tv)) (\<lambda>n. Inr (n, t)))))"

definition AVLUnregister :: "AVLheader \<Rightarrow> avlkey \<Rightarrow> (AVLheader \<times> bool) res" where
  "AVLUnregister first key =
     bindR (AVLUnregisterL first key 0) (\<lambda>(t, target). Inr (t, target \<noteq> 0))"

fun AVLLookup :: "AVLheader \<Rightarrow> avlkey \<Rightarrow> avlval" where
  "AVLLookup Null key = 0"
| "AVLLookup (Node k l r h v) key =
     (if key > k then AVLLookup r key
      else if key < k then AVLLookup l key
      else v)"

text \<open>\<^verbatim>\<open>AVLTraverse\<close> with the callback as a function on its context.\<close>

fun AVLTraverse :: "AVLheader \<Rightarrow> (avlkey \<Rightarrow> avlval \<Rightarrow> 'c \<Rightarrow> 'c) \<Rightarrow> 'c \<Rightarrow> 'c" where
  "AVLTraverse Null callback ctx = ctx"
| "AVLTraverse (Node k l r h v) callback ctx =
     AVLTraverse r callback (callback k v (AVLTraverse l callback ctx))"

section \<open>In-order contents\<close>

fun inorder :: "AVLheader \<Rightarrow> (avlkey \<times> avlval) list" where
  "inorder Null = []"
| "inorder (Node k l r h v) = inorder l @ (k, v) # inorder r"

definition search_tree :: "AVLheader \<Rightarrow> bool" where
  "search_tree t \<longleftrightarrow> sorted_wrt (<) (map fst (inorder t))"

fun balanced :: "AVLheader \<Rightarrow> bool" where
  "balanced Null = True"
| "balanced (Node k l r h v) =
     (h = max (CALC_HEIGHT l) (CALC_HEIGHT r) + 1 \<and>
      \<bar>CALC_HEIGHT l - CALC_HEIGHT r\<bar> \<le> 1 \<and> balanced l \<and> balanced r)"

definition avl_ok :: "AVLheader \<Rightarrow> bool" where
  "avl_ok t \<longleftrightarrow> search_tree t \<and> balanced t"

definition contents :: "AVLheader \<Rightarrow> avlkey \<rightharpoonup> avlval" where
  "contents t = map_of (inorder t)"

definition ins_list :: "avlkey \<Rightarrow> avlval \<Rightarrow> (avlkey \<times> avlval) list \<Rightarrow> (avlkey \<times> avlval) list" where
  "ins_list k v xs = takeWhile (\<lambda>p. fst p < k) xs @ (k, v) # dropWhile (\<lambda>p. fst p < k) xs"

definition del_list :: "avlkey \<Rightarrow> (avlkey \<times> avlval) list \<Rightarrow> (avlkey \<times> avlval) list" where
  "del_list k xs = filter (\<lambda>p. fst p \<noteq> k) xs"

lemma search_tree_node:
  "search_tree (Node k l r h v) \<longleftrightarrow> search_tree l \<and> search_tree r \<and>
     (\<forall>p \<in> set (inorder l). fst p < k) \<and> (\<forall>p \<in> set (inorder r). k < fst p)"
  unfolding search_tree_def by (fastforce simp: sorted_wrt_append)

lemma ins_list_left:
  "k < x \<Longrightarrow> ins_list k v (xs @ (x, w) # ys) = ins_list k v xs @ (x, w) # ys"
  by (induction xs) (auto simp: ins_list_def)

lemma ins_list_right:
  "\<forall>p \<in> set xs. fst p < k \<Longrightarrow> x < k \<Longrightarrow>
   ins_list k v (xs @ (x, w) # ys) = xs @ (x, w) # ins_list k v ys"
  by (auto simp: ins_list_def takeWhile_append dropWhile_append)

lemma inorder_node_h [simp]: "inorder (node_h k l r v) = inorder l @ (k, v) # inorder r"
  by (simp add: node_h_def)

lemma height_node_h [simp]: "CALC_HEIGHT (node_h k l r v) = max (CALC_HEIGHT l) (CALC_HEIGHT r) + 1"
  by (simp add: node_h_def)

lemma inorder_right: "AVLRotationsRight t = Inr t' \<Longrightarrow> inorder t' = inorder t"
  by (induction t rule: AVLRotationsRight.induct) auto

lemma inorder_left: "AVLRotationsLeft t = Inr t' \<Longrightarrow> inorder t' = inorder t"
  by (induction t rule: AVLRotationsLeft.induct) auto

lemma inorder_insert_fix:
  "insert_fix key k l r v = Inr t' \<Longrightarrow> inorder t' = inorder l @ (k, v) # inorder r"
  by (auto simp: insert_fix_def Let_def bindR_eq_Inr split: if_splits AVLheader.splits
      dest!: inorder_right inorder_left)

lemma inorder_delete_fix:
  "delete_fix t = Inr t' \<Longrightarrow> inorder t' = inorder t"
  by (auto simp: delete_fix_def Let_def bindR_eq_Inr split: if_splits AVLheader.splits
      dest!: inorder_right inorder_left)

lemma inorder_AVLAllocateL:
  "AVLAllocateL t key b = Inr (t', b') \<Longrightarrow> search_tree t \<Longrightarrow>
   inorder t' = ins_list key 0 (inorder t) \<and> b'"
proof (induction t key b arbitrary: t' b' rule: AVLAllocateL.induct)
  case (1 key target)
  then show ?case
    by (auto simp: AVLAllocateNode_def ins_list_def split: if_splits)
next
  case (2 k l r h v key target)
  then have st: "search_tree l" "search_tree r" "\<forall>p \<in> set (inorder l). fst p < k"
    by (auto simp: search_tree_node)
  consider "key < k" | "k < key" | "key = k"
    by fastforce
  then show ?case
  proof cases
    case lt: 1
    with 2(3) obtain l' where
      l': "AVLAllocateL l key target = Inr (l', b')" "insert_fix key k l' r v = Inr t'"
      by (auto simp: bindR_eq_Inr)
    with 2(1) lt st have "inorder l' = ins_list key 0 (inorder l) \<and> b'"
      by blast
    with lt l'(2) show ?thesis
      by (simp add: ins_list_left inorder_insert_fix)
  next
    case gt: 2
    then have nlt: "\<not> key < k" by simp
    with gt 2(3) obtain r' where
      r': "AVLAllocateL r key target = Inr (r', b')" "insert_fix key k l r' v = Inr t'"
      by (auto simp: bindR_eq_Inr)
    with 2(2) nlt gt r' st have "inorder r' = ins_list key 0 (inorder r) \<and> b'"
      by blast
    moreover from gt st have "\<forall>p \<in> set (inorder l). fst p < key"
      by auto
    ultimately show ?thesis
      using gt r'(2) by (simp add: ins_list_right inorder_insert_fix)
  next
    case 3
    with 2(3) show ?thesis
      by simp
  qed
qed

section \<open>Balance\<close>

lemma height_nonneg: "balanced t \<Longrightarrow> 0 \<le> CALC_HEIGHT t"
  by (induction t) auto

lemma height_pos: "balanced t \<Longrightarrow> t \<noteq> Null \<Longrightarrow> 1 \<le> CALC_HEIGHT t"
  by (cases t) (auto dest: height_nonneg)

lemma height_zero: "balanced t \<Longrightarrow> CALC_HEIGHT t = 0 \<longleftrightarrow> t = Null"
  using height_pos by force

text \<open>
  How an insertion can deepen a subtree: the new subtree is the fresh leaf, or its root leans
  by one to the side the key went to. This is what makes the key comparisons of the
  rebalancing step choose the right rotation.
\<close>

definition leans :: "avlkey \<Rightarrow> AVLheader \<Rightarrow> bool" where
  "leans key t = (case t of Null \<Rightarrow> False
     | Node k l r h v \<Rightarrow> (l = Null \<and> r = Null) \<or>
         (key < k \<and> CALC_HEIGHT l = CALC_HEIGHT r + 1) \<or>
         (k < key \<and> CALC_HEIGHT r = CALC_HEIGHT l + 1))"

definition grown :: "avlkey \<Rightarrow> AVLheader \<Rightarrow> AVLheader \<Rightarrow> bool" where
  "grown key t t' \<longleftrightarrow> balanced t' \<and> t' \<noteq> Null \<and>
     (CALC_HEIGHT t' = CALC_HEIGHT t \<or> CALC_HEIGHT t' = CALC_HEIGHT t + 1 \<and> leans key t')"

lemma balanced_node_h:
  "balanced (node_h k l r v) \<longleftrightarrow>
   \<bar>CALC_HEIGHT l - CALC_HEIGHT r\<bar> \<le> 1 \<and> balanced l \<and> balanced r"
  by (simp add: node_h_def)

lemma rotate_right:
  assumes "l = Node lk ll lr lh lv" "balanced l" "balanced r"
    "CALC_HEIGHT l = CALC_HEIGHT r + 2" "CALC_HEIGHT ll \<ge> CALC_HEIGHT lr"
  shows "\<exists>t. AVLRotationsRight (node_h k l r v) = Inr t \<and> balanced t \<and> t \<noteq> Null \<and>
    CALC_HEIGHT t = (if CALC_HEIGHT ll = CALC_HEIGHT lr then CALC_HEIGHT l + 1 else CALC_HEIGHT l)"
  using assms by (auto simp: node_h_def)

lemma rotate_left:
  assumes "r = Node rk rl rr rh rv" "balanced l" "balanced r"
    "CALC_HEIGHT r = CALC_HEIGHT l + 2" "CALC_HEIGHT rr \<ge> CALC_HEIGHT rl"
  shows "\<exists>t. AVLRotationsLeft (node_h k l r v) = Inr t \<and> balanced t \<and> t \<noteq> Null \<and>
    CALC_HEIGHT t = (if CALC_HEIGHT rl = CALC_HEIGHT rr then CALC_HEIGHT r + 1 else CALC_HEIGHT r)"
  using assms by (auto simp: node_h_def)

lemma rotate_left_right:
  assumes l: "l = Node lk ll lr lh lv" and "balanced l" "balanced r"
    "CALC_HEIGHT l = CALC_HEIGHT r + 2" "CALC_HEIGHT lr = CALC_HEIGHT ll + 1"
  shows "\<exists>t. bindR (AVLRotationsLeft l) (\<lambda>l'. AVLRotationsRight (node_h k l' r v)) = Inr t \<and>
    balanced t \<and> t \<noteq> Null \<and> CALC_HEIGHT t = CALC_HEIGHT l"
proof -
  have "lr \<noteq> Null"
    using assms height_nonneg [of ll] by auto
  then obtain k' a b h' v' where "lr = Node k' a b h' v'"
    by (cases lr) auto
  with assms show ?thesis
    by (auto simp: node_h_def)
qed

lemma rotate_right_left:
  assumes r: "r = Node rk rl rr rh rv" and "balanced l" "balanced r"
    "CALC_HEIGHT r = CALC_HEIGHT l + 2" "CALC_HEIGHT rl = CALC_HEIGHT rr + 1"
  shows "\<exists>t. bindR (AVLRotationsRight r) (\<lambda>r'. AVLRotationsLeft (node_h k l r' v)) = Inr t \<and>
    balanced t \<and> t \<noteq> Null \<and> CALC_HEIGHT t = CALC_HEIGHT r"
proof -
  have "rl \<noteq> Null"
    using assms height_nonneg [of rr] by auto
  then obtain k' a b h' v' where "rl = Node k' a b h' v'"
    by (cases rl) auto
  with assms show ?thesis
    by (auto simp: node_h_def)
qed

lemma insert_fix_left:
  assumes g: "grown key l l'" and b: "balanced l" "balanced r" "\<bar>CALC_HEIGHT l - CALC_HEIGHT r\<bar> \<le> 1"
    and lt: "key < k"
  shows "\<exists>t. insert_fix key k l' r v = Inr t \<and> grown key (node_h k l r w) t"
proof (cases "CALC_HEIGHT l' = CALC_HEIGHT r + 2")
  case False
  with g b have "insert_fix key k l' r v = Inr (node_h k l' r v)"
    by (auto simp: insert_fix_def Let_def grown_def node_h_def)
  with False g b lt show ?thesis
    by (auto simp: grown_def balanced_node_h leans_def node_h_def max_def)
next
  case True
  with g b have h: "CALC_HEIGHT l' = CALC_HEIGHT l + 1" "CALC_HEIGHT l = CALC_HEIGHT r + 1"
    "leans key l'" "balanced l'"
    by (auto simp: grown_def)
  then obtain lk ll lr lh lv where l': "l' = Node lk ll lr lh lv"
    by (cases l') (auto simp: leans_def)
  have "\<not> (ll = Null \<and> lr = Null)"
    using h l' True height_nonneg [OF b(2)] by auto
  with h l' consider "key < lk" "CALC_HEIGHT ll = CALC_HEIGHT lr + 1"
    | "lk < key" "CALC_HEIGHT lr = CALC_HEIGHT ll + 1"
    by (auto simp: leans_def)
  then show ?thesis
  proof cases
    case 1
    then show ?thesis
      using rotate_right [OF l' h(4) b(2) True, of k v] l' True h
      by (auto simp: insert_fix_def Let_def grown_def node_h_def)
  next
    case 2
    then show ?thesis
      using rotate_left_right [OF l' h(4) b(2) True, of k v] l' True h
      by (auto simp: insert_fix_def Let_def grown_def node_h_def)
  qed
qed

lemma insert_fix_right:
  assumes g: "grown key r r'" and b: "balanced l" "balanced r" "\<bar>CALC_HEIGHT l - CALC_HEIGHT r\<bar> \<le> 1"
    and gt: "k < key"
  shows "\<exists>t. insert_fix key k l r' v = Inr t \<and> grown key (node_h k l r w) t"
proof (cases "CALC_HEIGHT r' = CALC_HEIGHT l + 2")
  case False
  with g b have "insert_fix key k l r' v = Inr (node_h k l r' v)"
    by (auto simp: insert_fix_def Let_def grown_def node_h_def)
  with False g b gt show ?thesis
    by (auto simp: grown_def balanced_node_h leans_def node_h_def max_def)
next
  case True
  with g b have h: "CALC_HEIGHT r' = CALC_HEIGHT r + 1" "CALC_HEIGHT r = CALC_HEIGHT l + 1"
    "leans key r'" "balanced r'"
    by (auto simp: grown_def)
  then obtain rk rl rr rh rv where r': "r' = Node rk rl rr rh rv"
    by (cases r') (auto simp: leans_def)
  have "\<not> (rl = Null \<and> rr = Null)"
    using h r' True height_nonneg [OF b(1)] by auto
  with h r' consider "rk < key" "CALC_HEIGHT rr = CALC_HEIGHT rl + 1"
    | "key < rk" "CALC_HEIGHT rl = CALC_HEIGHT rr + 1"
    by (auto simp: leans_def)
  then show ?thesis
  proof cases
    case 1
    then show ?thesis
      using rotate_left [OF r' b(1) h(4) True, of k v] r' True h
      by (auto simp: insert_fix_def Let_def grown_def node_h_def)
  next
    case 2
    then show ?thesis
      using rotate_right_left [OF r' b(1) h(4) True, of k v] r' True h
      by (auto simp: insert_fix_def Let_def grown_def node_h_def)
  qed
qed

lemma AVLAllocateL_grown:
  "balanced t \<Longrightarrow> key \<notin> fst ` set (inorder t) \<Longrightarrow>
   \<exists>t'. AVLAllocateL t key False = Inr (t', True) \<and> grown key t t'"
proof (induction t)
  case Null
  then show ?case
    by (simp add: AVLAllocateNode_def grown_def leans_def)
next
  case (Node k l r h v)
  have eq: "Node k l r h v = node_h k l r v"
    using Node.prems by (simp add: node_h_def)
  from Node.prems consider "key < k" | "k < key"
    by (auto simp: neq_iff)
  then show ?case
  proof cases
    case 1
    from Node obtain l' where l': "AVLAllocateL l key False = Inr (l', True)" and g: "grown key l l'"
      by auto
    obtain t where "insert_fix key k l' r v = Inr t" "grown key (node_h k l r v) t"
      using insert_fix_left [OF g, of r k v v] Node.prems 1 by auto
    with 1 l' show ?thesis
      by (simp add: eq [symmetric])
  next
    case 2
    from Node obtain r' where r': "AVLAllocateL r key False = Inr (r', True)" and g: "grown key r r'"
      by auto
    obtain t where "insert_fix key k l r' v = Inr t" "grown key (node_h k l r v) t"
      using insert_fix_right [OF g, of l k v v] Node.prems 2 by auto
    with 2 r' show ?thesis
      by (auto simp: eq [symmetric])
  qed
qed

lemma AVLAllocateL_dup:
  "search_tree t \<Longrightarrow> key \<in> fst ` set (inorder t) \<Longrightarrow> AVLAllocateL t key b = Inl Halted"
proof (induction t)
  case (Node k l r h v)
  have st: "search_tree l" "search_tree r"
    "\<forall>p \<in> set (inorder l). fst p < k" "\<forall>p \<in> set (inorder r). k < fst p"
    using Node.prems(1) by (simp_all add: search_tree_node)
  show ?case
  proof (cases "key = k")
    case False
    with Node.prems(2) consider "key \<in> fst ` set (inorder l)" | "key \<in> fst ` set (inorder r)"
      by auto
    then show ?thesis
    proof cases
      case 1
      with st have "key < k" by auto
      with Node.IH(1) 1 st show ?thesis by simp
    next
      case 2
      with st have "k < key" "\<not> key < k" by auto
      with Node.IH(2) 2 st show ?thesis by simp
    qed
  qed simp
qed simp

lemma set_value_height [simp]: "CALC_HEIGHT (set_value t key w) = CALC_HEIGHT t"
  by (cases t) auto

lemma balanced_set_value: "balanced t \<Longrightarrow> balanced (set_value t key w)"
  by (induction t) auto

definition upd_list :: "avlkey \<Rightarrow> avlval \<Rightarrow> (avlkey \<times> avlval) list \<Rightarrow> (avlkey \<times> avlval) list" where
  "upd_list key w = map (\<lambda>(k, v). (k, if k = key then w else v))"

lemma upd_list_other: "\<forall>p \<in> set xs. fst p \<noteq> key \<Longrightarrow> upd_list key w xs = xs"
  by (induction xs) (auto simp: upd_list_def)

lemma inorder_set_value:
  "search_tree t \<Longrightarrow> inorder (set_value t key w) = upd_list key w (inorder t)"
proof (induction t)
  case (Node k l r h v)
  then have "key < k \<Longrightarrow> upd_list key w (inorder r) = inorder r"
    and "\<not> key < k \<Longrightarrow> upd_list key w (inorder l) = inorder l"
    and "\<not> k < key \<Longrightarrow> upd_list key w (inorder r) = inorder r"
    by (intro upd_list_other; force simp: search_tree_node)+
  with Node show ?case
    by (auto simp: search_tree_node upd_list_def)
qed (simp add: upd_list_def)

lemma upd_ins_list:
  "key \<notin> fst ` set xs \<Longrightarrow> upd_list key w (ins_list key u xs) = ins_list key w xs"
proof -
  assume k: "key \<notin> fst ` set xs"
  have "upd_list key w (takeWhile (\<lambda>p. fst p < key) xs) = takeWhile (\<lambda>p. fst p < key) xs"
    and "upd_list key w (dropWhile (\<lambda>p. fst p < key) xs) = dropWhile (\<lambda>p. fst p < key) xs"
    using k by (intro upd_list_other; force dest: set_takeWhileD set_dropWhileD)+
  then show ?thesis
    by (simp add: ins_list_def upd_list_def)
qed

section \<open>Removal\<close>

definition shrunk :: "AVLheader \<Rightarrow> AVLheader \<Rightarrow> bool" where
  "shrunk t t' \<longleftrightarrow> balanced t' \<and> (CALC_HEIGHT t' = CALC_HEIGHT t \<or> CALC_HEIGHT t' = CALC_HEIGHT t - 1)"

lemma shrunk_refl: "balanced t \<Longrightarrow> shrunk t t"
  by (simp add: shrunk_def)

lemma delete_fix_near:
  assumes "balanced l" "balanced r" "\<bar>CALC_HEIGHT l - CALC_HEIGHT r\<bar> \<le> 1"
  shows "delete_fix (Node k l r h v) = Inr (node_h k l r v)"
  using assms by (auto simp: delete_fix_def Let_def node_h_def)

lemma delete_fix_left_heavy:
  assumes b: "balanced l" "balanced r" and h: "CALC_HEIGHT l = CALC_HEIGHT r + 2"
  shows "\<exists>t. delete_fix (Node k l r d v) = Inr t \<and> balanced t \<and>
    (CALC_HEIGHT t = CALC_HEIGHT l \<or> CALC_HEIGHT t = CALC_HEIGHT l + 1)"
proof -
  obtain lk ll lr lh lv where l: "l = Node lk ll lr lh lv"
    using h height_nonneg [OF b(2)] by (cases l) auto
  show ?thesis
  proof (cases "CALC_HEIGHT ll \<ge> CALC_HEIGHT lr")
    case True
    then show ?thesis
      using rotate_right [OF l b h, of k v] h l
      by (auto simp: delete_fix_def Let_def node_h_def split: if_splits)
  next
    case False
    with b l have "CALC_HEIGHT lr = CALC_HEIGHT ll + 1"
      by auto
    with False show ?thesis
      using rotate_left_right [OF l b h, of k v] h l
      by (auto simp: delete_fix_def Let_def node_h_def)
  qed
qed

lemma delete_fix_right_heavy:
  assumes b: "balanced l" "balanced r" and h: "CALC_HEIGHT r = CALC_HEIGHT l + 2"
  shows "\<exists>t. delete_fix (Node k l r d v) = Inr t \<and> balanced t \<and>
    (CALC_HEIGHT t = CALC_HEIGHT r \<or> CALC_HEIGHT t = CALC_HEIGHT r + 1)"
proof -
  obtain rk rl rr rh rv where r: "r = Node rk rl rr rh rv"
    using h height_nonneg [OF b(1)] by (cases r) auto
  show ?thesis
  proof (cases "CALC_HEIGHT rr \<ge> CALC_HEIGHT rl")
    case True
    then show ?thesis
      using rotate_left [OF r b h, of k v] h r
      by (auto simp: delete_fix_def Let_def node_h_def split: if_splits)
  next
    case False
    with b r have "CALC_HEIGHT rl = CALC_HEIGHT rr + 1"
      by auto
    with False show ?thesis
      using rotate_right_left [OF r b h, of k v] h r
      by (auto simp: delete_fix_def Let_def node_h_def)
  qed
qed

lemma delete_fix_left:
  assumes "balanced (Node k l r h v)" "shrunk l l'"
  shows "\<exists>t. delete_fix (Node k2 l' r h v2) = Inr t \<and> shrunk (Node k l r h v) t"
proof (cases "CALC_HEIGHT r = CALC_HEIGHT l' + 2")
  case True
  with assms delete_fix_right_heavy [of l' r k2 h v2] show ?thesis
    by (auto simp: shrunk_def)
next
  case False
  with assms have "delete_fix (Node k2 l' r h v2) = Inr (node_h k2 l' r v2)"
    by (intro delete_fix_near) (auto simp: shrunk_def)
  with False assms show ?thesis
    by (auto simp: shrunk_def balanced_node_h)
qed

lemma delete_fix_right:
  assumes "balanced (Node k l r h v)" "shrunk r r'"
  shows "\<exists>t. delete_fix (Node k2 l r' h v2) = Inr t \<and> shrunk (Node k l r h v) t"
proof (cases "CALC_HEIGHT l = CALC_HEIGHT r' + 2")
  case True
  with assms delete_fix_left_heavy [of l r' k2 h v2] show ?thesis
    by (auto simp: shrunk_def)
next
  case False
  with assms have "delete_fix (Node k2 l r' h v2) = Inr (node_h k2 l r' v2)"
    by (intro delete_fix_near) (auto simp: shrunk_def)
  with False assms show ?thesis
    by (auto simp: shrunk_def balanced_node_h)
qed

lemma AVLMinKeyNode_hd:
  "t \<noteq> Null \<Longrightarrow> \<exists>k l r h v xs. AVLMinKeyNode t = Node k l r h v \<and> inorder t = (k, v) # xs"
proof (induction t rule: AVLMinKeyNode.induct)
  case (3 k k' l' r' h' v' r h v)
  then obtain tk a b th tv xs where
    "AVLMinKeyNode (Node k' l' r' h' v') = Node tk a b th tv"
    "inorder (Node k' l' r' h' v') = (tk, tv) # xs"
    by blast
  then show ?case
    by (metis AVLMinKeyNode.simps(3) append_Cons inorder.simps(2))
qed auto

lemma one_child:
  assumes "balanced (Node k l r h v)" "l = Null \<or> r = Null"
    "c = (if l \<noteq> Null then l else r)" "c = Node tk a b th tv"
  shows "delete_fix c = Inr (node_h tk a b tv)" "shrunk (Node k l r h v) (node_h tk a b tv)"
    "inorder c = inorder l @ inorder r"
proof -
  have "balanced c"
    using assms(1,3) by auto
  with assms(4) show "delete_fix c = Inr (node_h tk a b tv)"
    by (simp add: delete_fix_near)
  show "inorder c = inorder l @ inorder r"
    using assms(2,3) by auto
  have "node_h tk a b tv = c"
    using \<open>balanced c\<close> assms(4) by (simp add: node_h_def)
  moreover have "shrunk (Node k l r h v) c"
    using assms(1,2,3) by (auto simp: shrunk_def dest: height_nonneg)
  ultimately show "shrunk (Node k l r h v) (node_h tk a b tv)"
    by simp
qed

lemma AVLUnregisterL_shrunk:
  "balanced t \<Longrightarrow> \<exists>t' w. AVLUnregisterL t key 0 = Inr (t', w) \<and> shrunk t t' \<and>
     (w \<noteq> 0 \<longrightarrow> w \<in> snd ` set (inorder t))"
proof (induction t arbitrary: key)
  case Null
  then show ?case
    by (simp add: shrunk_def)
next
  case (Node k l r h v)
  have b: "balanced l" "balanced r"
    using Node.prems by simp_all
  consider (lt) "key < k" | (gt) "k < key" | (eq) "key = k"
    by fastforce
  then show ?case
  proof cases
    case lt
    obtain l' w where l': "AVLUnregisterL l key 0 = Inr (l', w)" "shrunk l l'"
      "w \<noteq> 0 \<longrightarrow> w \<in> snd ` set (inorder l)"
      using Node.IH(1) [OF b(1)] by blast
    obtain t where "delete_fix (Node k l' r h v) = Inr t" "shrunk (Node k l r h v) t"
      using delete_fix_left [OF Node.prems l'(2), of k v] by blast
    with lt l' show ?thesis
      by auto
  next
    case gt
    obtain r' w where r': "AVLUnregisterL r key 0 = Inr (r', w)" "shrunk r r'"
      "w \<noteq> 0 \<longrightarrow> w \<in> snd ` set (inorder r)"
      using Node.IH(2) [OF b(2)] by blast
    obtain t where "delete_fix (Node k l r' h v) = Inr t" "shrunk (Node k l r h v) t"
      using delete_fix_right [OF Node.prems r'(2), of k v] by blast
    with gt r' show ?thesis
      by auto
  next
    case eq
    show ?thesis
    proof (cases "l = Null \<or> r = Null")
      case True
      show ?thesis
      proof (cases "l = Null \<and> r = Null")
        case True
        with eq Node.prems show ?thesis
          by (auto simp: shrunk_def)
      next
        case False
        define c where "c = (if l \<noteq> Null then l else r)"
        with True False obtain tk a b' th tv where c: "c = Node tk a b' th tv"
          by (cases c) auto
        note oc = one_child [OF Node.prems True c_def c]
        have "tv \<in> snd ` set (inorder c)"
          by (simp add: c)
        with oc(3) have "tv \<in> snd ` set (inorder (Node k l r h v))"
          by auto
        moreover have "AVLUnregisterL (Node k l r h v) key 0 = Inr (node_h tk a b' tv, tv)"
          using eq True oc(1) c by (simp add: c_def [symmetric] Let_def)
        ultimately show ?thesis
          using oc(2) by blast
      qed
    next
      case False
      then obtain tk a b' th tv xs where m: "AVLMinKeyNode r = Node tk a b' th tv"
        using AVLMinKeyNode_hd [of r] by blast
      obtain r' w where r': "AVLUnregisterL r tk 0 = Inr (r', w)" "shrunk r r'"
        "w \<noteq> 0 \<longrightarrow> w \<in> snd ` set (inorder r)"
        using Node.IH(2) [OF b(2)] by blast
      obtain t where "delete_fix (Node tk l r' h tv) = Inr t" "shrunk (Node k l r h v) t"
        using delete_fix_right [OF Node.prems r'(2), of tk tv] by blast
      with False eq m r' show ?thesis
        by auto
    qed
  qed
qed

lemma del_list_append [simp]: "del_list k (xs @ ys) = del_list k xs @ del_list k ys"
  by (simp add: del_list_def)

lemma del_list_Cons [simp]:
  "del_list k ((x, w) # ys) = (if x = k then del_list k ys else (x, w) # del_list k ys)"
  by (simp add: del_list_def)

lemma del_list_id: "\<forall>p \<in> set xs. fst p \<noteq> k \<Longrightarrow> del_list k xs = xs"
  by (simp add: del_list_def)

lemma AVLUnregisterL_contents:
  "AVLUnregisterL t key 0 = Inr (t', w) \<Longrightarrow> search_tree t \<Longrightarrow>
   inorder t' = del_list key (inorder t) \<and>
   (if key \<in> fst ` set (inorder t) then w \<in> snd ` set (inorder t) else w = 0)"
proof (induction t arbitrary: key t' w)
  case Null
  then show ?case
    by (simp add: del_list_def)
next
  case (Node k l r h v)
  have st: "search_tree l" "search_tree r"
    "\<forall>p \<in> set (inorder l). fst p < k" "\<forall>p \<in> set (inorder r). k < fst p"
    using Node.prems(2) by (simp_all add: search_tree_node)
  consider (lt) "key < k" | (gt) "k < key" | (eq) "key = k"
    by fastforce
  then show ?case
  proof cases
    case lt
    with Node.prems(1) obtain l' where
      l': "AVLUnregisterL l key 0 = Inr (l', w)" "delete_fix (Node k l' r h v) = Inr t'"
      by (auto simp: bindR_eq_Inr)
    have nr: "del_list key (inorder r) = inorder r" "key \<notin> fst ` set (inorder r)"
      using lt st(4) by (auto intro!: del_list_id)
    show ?thesis
      using Node.IH(1) [OF l'(1) st(1)] inorder_delete_fix [OF l'(2)] nr lt
      by (auto split: if_splits)
  next
    case gt
    then have "\<not> key < k" by simp
    with gt Node.prems(1) obtain r' where
      r': "AVLUnregisterL r key 0 = Inr (r', w)" "delete_fix (Node k l r' h v) = Inr t'"
      by (auto simp: bindR_eq_Inr)
    have nl: "del_list key (inorder l) = inorder l" "key \<notin> fst ` set (inorder l)"
      using gt st(3) by (auto intro!: del_list_id)
    show ?thesis
      using Node.IH(2) [OF r'(1) st(2)] inorder_delete_fix [OF r'(2)] nl gt
      by (auto split: if_splits)
  next
    case eq
    have d: "del_list key (inorder (Node k l r h v)) = inorder l @ inorder r"
      using eq del_list_id [of "inorder l" k] del_list_id [of "inorder r" k] st(3,4)
      by (simp add: less_imp_neq less_imp_neq [symmetric])
    show ?thesis
    proof (cases "l = Null \<or> r = Null")
      case True
      define c where "c = (if l \<noteq> Null then l else r)"
      with True have io: "inorder c = inorder l @ inorder r"
        by auto
      show ?thesis
      proof (cases c)
        case Null
        with c_def True eq Node.prems(1) io d show ?thesis
          by (auto simp: Let_def split: if_splits)
      next
        case (Node tk a b th tv)
        have "bindR (delete_fix c) (\<lambda>n. Inr (n, tv)) = Inr (t', w)"
          using eq True Node.prems(1) Node by (simp add: c_def [symmetric] Let_def)
        then have t': "delete_fix c = Inr t'" "w = tv"
          by (auto simp: bindR_eq_Inr)
        have "tv \<in> snd ` set (inorder c)"
          by (simp add: Node)
        then have "w \<in> snd ` set (inorder (Node k l r h v))"
          using io t'(2) by auto
        then show ?thesis
          using inorder_delete_fix [OF t'(1)] io d eq by simp
      qed
    next
      case False
      then obtain tk a b th tv xs where m: "AVLMinKeyNode r = Node tk a b th tv"
        "inorder r = (tk, tv) # xs"
        using AVLMinKeyNode_hd [of r] by blast
      with False eq Node.prems(1) obtain r' where
        r': "AVLUnregisterL r tk 0 = Inr (r', w)" "delete_fix (Node tk l r' h tv) = Inr t'"
        by (auto simp: bindR_eq_Inr)
      have "del_list tk xs = xs"
        using st(2) m(2) by (intro del_list_id) (auto simp: search_tree_def)
      with Node.IH(2) [OF r'(1) st(2)] m(2) have "inorder r' = xs" "w \<in> snd ` set (inorder r)"
        by (auto split: if_splits)
      then show ?thesis
        using inorder_delete_fix [OF r'(2)] d m(2) eq by auto
    qed
  qed
qed

section \<open>The map the tree stands for\<close>

lemma search_tree_distinct: "search_tree t \<Longrightarrow> distinct (map fst (inorder t))"
  by (simp add: search_tree_def strict_sorted_iff)

lemma map_of_ins_list:
  "k \<notin> fst ` set xs \<Longrightarrow> map_of (ins_list k v xs) = (map_of xs)(k \<mapsto> v)"
proof -
  assume k: "k \<notin> fst ` set xs"
  let ?a = "takeWhile (\<lambda>p. fst p < k) xs" and ?b = "dropWhile (\<lambda>p. fst p < k) xs"
  have "map_of xs = map_of ?b ++ map_of ?a"
    by (metis map_of_append takeWhile_dropWhile_id)
  moreover have "map_of ?a k = None"
    using k by (force simp: map_of_eq_None_iff dest: set_takeWhileD)
  ultimately show ?thesis
    by (auto simp: ins_list_def fun_eq_iff map_add_def split: option.splits)
qed

lemma map_of_del_list: "map_of (del_list k xs) = (map_of xs)(k := None)"
  by (induction xs) (auto simp: del_list_def fun_eq_iff)

lemma sorted_ins_list:
  "sorted_wrt (<) (map fst xs) \<Longrightarrow> k \<notin> fst ` set xs \<Longrightarrow> sorted_wrt (<) (map fst (ins_list k v xs))"
proof (induction xs)
  case Nil
  then show ?case
    by (simp add: ins_list_def)
next
  case (Cons p xs)
  obtain x w where p: "p = (x, w)" by (cases p)
  show ?case
  proof (cases "x < k")
    case True
    then have "ins_list k v (p # xs) = p # ins_list k v xs"
      by (simp add: ins_list_def p)
    moreover have "set (ins_list k v xs) = insert (k, v) (set xs)"
      unfolding ins_list_def
      by (metis Un_insert_right list.simps(15) set_append takeWhile_dropWhile_id)
    ultimately show ?thesis
      using True Cons p by auto
  next
    case False
    with Cons.prems p have "k < x"
      by auto
    with False Cons.prems p show ?thesis
      by (auto simp: ins_list_def)
  qed
qed

lemma contents_None: "contents t k = None \<longleftrightarrow> k \<notin> fst ` set (inorder t)"
  by (simp add: contents_def map_of_eq_None_iff)

lemma AVLAllocate_new:
  assumes "avl_ok t" "contents t key = None"
  shows "\<exists>t'. AVLAllocate t key value = Inr t' \<and> avl_ok t' \<and> contents t' = (contents t)(key \<mapsto> value)"
proof -
  have st: "search_tree t" and b: "balanced t" and k: "key \<notin> fst ` set (inorder t)"
    using assms by (simp_all add: avl_ok_def contents_None)
  obtain t1 where t1: "AVLAllocateL t key False = Inr (t1, True)" "grown key t t1"
    using AVLAllocateL_grown [OF b k] by blast
  have io: "inorder t1 = ins_list key 0 (inorder t)"
    using inorder_AVLAllocateL [OF t1(1) st] by simp
  have s1: "search_tree t1"
    using st k by (simp add: search_tree_def io sorted_ins_list)
  define t' where "t' = set_value t1 key value"
  have io': "inorder t' = ins_list key value (inorder t)"
    by (simp add: t'_def inorder_set_value [OF s1] io upd_ins_list [OF k])
  have "search_tree t'"
    using st k by (simp add: search_tree_def io' sorted_ins_list)
  moreover have "balanced t'"
    using t1(2) by (simp add: t'_def grown_def balanced_set_value)
  moreover have "contents t' = (contents t)(key \<mapsto> value)"
    by (simp add: contents_def io' map_of_ins_list [OF k])
  moreover have "AVLAllocate t key value = Inr t'"
    by (simp add: AVLAllocate_def t1(1) t'_def)
  ultimately show ?thesis
    by (simp add: avl_ok_def)
qed

lemma AVLUnregister_ok:
  assumes "avl_ok t"
  shows "\<exists>t' b. AVLUnregister t key = Inr (t', b) \<and> avl_ok t' \<and>
    contents t' = (contents t)(key := None) \<and>
    (if contents t key = None then \<not> b else 0 \<notin> ran (contents t) \<longrightarrow> b)"
proof -
  have st: "search_tree t" and b: "balanced t"
    using assms by (simp_all add: avl_ok_def)
  obtain t' w where u: "AVLUnregisterL t key 0 = Inr (t', w)" "shrunk t t'"
    using AVLUnregisterL_shrunk [OF b, of key] by blast
  note c = AVLUnregisterL_contents [OF u(1) st]
  have "search_tree t'"
    using st c by (simp add: search_tree_def del_list_def sorted_wrt_map sorted_wrt_filter)
  moreover have "contents t' = (contents t)(key := None)"
    using c by (simp add: contents_def map_of_del_list)
  moreover have "w \<in> ran (contents t)" if "contents t key \<noteq> None"
  proof -
    have "key \<in> fst ` set (inorder t)"
      using that unfolding contents_None by simp
    with c have "w \<in> snd ` set (inorder t)"
      by simp
    then show ?thesis
      by (simp add: contents_def ran_distinct [OF search_tree_distinct [OF st]])
  qed
  ultimately show ?thesis
    using u c by (auto simp: AVLUnregister_def avl_ok_def shrunk_def contents_None)
qed

lemma AVLLookup_contents:
  "search_tree t \<Longrightarrow> AVLLookup t key = (case contents t key of None \<Rightarrow> 0 | Some v \<Rightarrow> v)"
proof (induction t)
  case Null
  then show ?case
    by (simp add: contents_def)
next
  case (Node k l r h v)
  have st: "search_tree l" "search_tree r"
    "\<forall>p \<in> set (inorder l). fst p < k" "\<forall>p \<in> set (inorder r). k < fst p"
    using Node.prems by (simp_all add: search_tree_node)
  have "map_of (inorder l) key = None" if "\<not> key < k"
    using st(3) that by (auto simp: map_of_eq_None_iff)
  moreover have "map_of (inorder r) key = None" if "\<not> k < key"
    using st(4) that by (auto simp: map_of_eq_None_iff)
  ultimately show ?case
    using Node.IH st by (auto simp: contents_def map_add_def split: option.splits)
qed

section \<open>The container interface\<close>

locale key_map =
  fixes empty :: 't
    and insert_new :: "'t \<Rightarrow> 'k \<Rightarrow> 'v \<Rightarrow> 't res"
    and remove :: "'t \<Rightarrow> 'k \<Rightarrow> ('t \<times> bool) res"
    and lookup :: "'t \<Rightarrow> 'k \<Rightarrow> 'v"
    and absent :: 'v
    and invar :: "'t \<Rightarrow> bool"
    and abs :: "'t \<Rightarrow> 'k \<rightharpoonup> 'v"
  assumes invar_empty: "invar empty"
    and abs_empty: "abs empty = Map.empty"
    and insert_ok: "invar t \<Longrightarrow> abs t k = None \<Longrightarrow>
          \<exists>t'. insert_new t k v = Inr t' \<and> invar t' \<and> abs t' = (abs t)(k \<mapsto> v)"
    and remove_ok: "invar t \<Longrightarrow>
          \<exists>t' b. remove t k = Inr (t', b) \<and> invar t' \<and> abs t' = (abs t)(k := None)"
    and lookup_ok: "invar t \<Longrightarrow> lookup t k = (case abs t k of None \<Rightarrow> absent | Some v \<Rightarrow> v)"
begin

lemma lookup_insert:
  "invar t \<Longrightarrow> abs t k = None \<Longrightarrow> insert_new t k v = Inr t' \<Longrightarrow>
   invar t' \<and> lookup t' k' = (if k' = k then v else lookup t k')"
  using insert_ok [of t k v] by (auto simp: lookup_ok)

lemma lookup_remove:
  "invar t \<Longrightarrow> remove t k = Inr (t', b) \<Longrightarrow>
   invar t' \<and> lookup t' k' = (if k' = k then absent else lookup t k')"
  using remove_ok [of t k] by (auto simp: lookup_ok)

lemma insert_remove:
  "invar t \<Longrightarrow> abs t k = None \<Longrightarrow> insert_new t k v = Inr t' \<Longrightarrow> remove t' k = Inr (t'', b) \<Longrightarrow>
   lookup t'' k' = lookup t k'"
  using insert_ok [of t k v] remove_ok [of t' k] by (auto simp: lookup_ok)

end

lemma avl_ok_Null: "avl_ok Null" "contents Null = Map.empty"
  by (simp_all add: avl_ok_def search_tree_def contents_def)

interpretation avl: key_map Null AVLAllocate AVLUnregister AVLLookup 0 avl_ok contents
proof
  fix t k and v :: avlval
  show "avl_ok t \<Longrightarrow> contents t k = None \<Longrightarrow>
      \<exists>t'. AVLAllocate t k v = Inr t' \<and> avl_ok t' \<and> contents t' = (contents t)(k \<mapsto> v)"
    by (rule AVLAllocate_new)
  show "avl_ok t \<Longrightarrow>
      \<exists>t' b. AVLUnregister t k = Inr (t', b) \<and> avl_ok t' \<and> contents t' = (contents t)(k := None)"
    using AVLUnregister_ok by blast
  show "avl_ok t \<Longrightarrow> AVLLookup t k = (case contents t k of None \<Rightarrow> 0 | Some v \<Rightarrow> v)"
    by (simp add: avl_ok_def AVLLookup_contents)
qed (simp_all add: avl_ok_Null)

text \<open>
  C23. On a balanced search tree \<open>AVLAllocate\<close> of a key that is not there succeeds, keeps the
  tree a balanced search tree and adds exactly that binding; on a key that is there it
  halts the machine.
\<close>

theorem AVLAllocate_correct:
  assumes "avl_ok t"
  shows "if contents t key = None
         then \<exists>t'. AVLAllocate t key value = Inr t' \<and> avl_ok t' \<and>
                   contents t' = (contents t)(key \<mapsto> value)
         else AVLAllocate t key value = Inl Halted"
proof (cases "contents t key = None")
  case True
  with AVLAllocate_new [OF assms True] show ?thesis
    by simp
next
  case False
  with assms have "AVLAllocateL t key False = Inl Halted"
    using contents_None [of t key] by (auto simp: avl_ok_def intro: AVLAllocateL_dup)
  with False show ?thesis
    by (simp add: AVLAllocate_def)
qed

theorem AVLAllocate_correct_witness:
  "avl_ok (Node 5 Null Null 1 9) \<and>
   (\<exists>t'. AVLAllocate (Node 5 Null Null 1 9) 7 8 = Inr t' \<and> contents t' 7 = Some 8)"
proof -
  have ok: "avl_ok (Node 5 Null Null 1 9)"
    by (simp add: avl_ok_def search_tree_def)
  have "contents (Node 5 Null Null 1 9) 7 = None"
    by (simp add: contents_def)
  with AVLAllocate_correct [OF ok, of 7 8] ok show ?thesis
    by (auto simp: fun_upd_apply)
qed

text \<open>
  C24. \<open>AVLUnregister\<close> always returns on a balanced search tree: the result is again a
  balanced search tree without the key and with every other binding, and when no stored
  value is zero the returned flag says whether the key was there.
\<close>

theorem AVLUnregister_correct:
  assumes "avl_ok t"
  shows "\<exists>t' b. AVLUnregister t key = Inr (t', b) \<and> avl_ok t' \<and>
           contents t' = (contents t)(key := None) \<and>
           (0 \<notin> ran (contents t) \<longrightarrow> b = (contents t key \<noteq> None))"
  using AVLUnregister_ok [OF assms, of key] by (auto split: if_splits)

theorem AVLUnregister_correct_witness:
  "\<exists>t' b. AVLUnregister (Node 5 (Node 3 Null Null 1 4) Null 2 9) 5 = Inr (t', b) \<and>
     avl_ok t' \<and> contents t' 3 = Some 4 \<and> b"
proof -
  have ok: "avl_ok (Node 5 (Node 3 Null Null 1 4) Null 2 9)"
    by (simp add: avl_ok_def search_tree_def)
  moreover have "contents (Node 5 (Node 3 Null Null 1 4) Null 2 9) = [3 \<mapsto> 4, 5 \<mapsto> 9]"
    by (auto simp: contents_def fun_eq_iff)
  ultimately show ?thesis
    using AVLUnregister_correct [OF ok, of 5] by (auto simp: ran_def split: if_splits)
qed

text \<open>
  The tree stays shallow: a balanced tree of stored height \<open>h\<close> has at least
  \<open>2 ^ (h div 2) - 1\<close> nodes, so the recursive lookup goes at most about
  \<open>2 * log2 (n + 1)\<close> levels deep.
\<close>

theorem avl_height_bound:
  "balanced t \<Longrightarrow> 2 ^ (nat (CALC_HEIGHT t) div 2) \<le> length (inorder t) + 1"
proof (induction t)
  case Null
  then show ?case by simp
next
  case (Node k l r h v)
  define a b where "a = nat (CALC_HEIGHT l)" and "b = nat (CALC_HEIGHT r)"
  have pos: "0 \<le> CALC_HEIGHT l" "0 \<le> CALC_HEIGHT r"
    using Node.prems by (auto intro: height_nonneg)
  have ab: "nat h = max a b + 1" "a \<le> b + 1" "b \<le> a + 1"
    using Node.prems pos by (auto simp: a_def b_def)
  have e: "(max a b + 1) div 2 \<le> Suc (a div 2)" "(max a b + 1) div 2 \<le> Suc (b div 2)"
    using ab(2,3) by (simp_all add: max_def, presburger+)
  have "2 ^ ((max a b + 1) div 2) \<le> (2 ^ (a div 2) + 2 ^ (b div 2) :: nat)"
  proof -
    have "(2::nat) ^ ((max a b + 1) div 2) \<le> 2 ^ Suc (min (a div 2) (b div 2))"
      using e by (intro power_increasing) (auto simp: min_def)
    also have "\<dots> \<le> 2 ^ (a div 2) + 2 ^ (b div 2)"
      by (auto simp: min_def power_increasing)
    finally show ?thesis .
  qed
  also have "\<dots> \<le> length (inorder l) + 1 + (length (inorder r) + 1)"
    using Node by (simp add: a_def b_def)
  finally show ?case
    using ab(1) by simp
qed

theorem avl_height_bound_witness:
  "2 ^ (nat (CALC_HEIGHT (Node 5 (Node 3 Null Null 1 4) Null 2 9)) div 2)
     \<le> length (inorder (Node 5 (Node 3 Null Null 1 4) Null 2 9)) + 1"
  by (rule avl_height_bound) simp

text \<open>Traversal visits the bindings in ascending key order.\<close>

lemma AVLTraverse_inorder:
  "AVLTraverse t f ctx = fold (\<lambda>(k, v). f k v) (inorder t) ctx"
  by (induction t arbitrary: ctx) auto

end
