(* ===== verification/Byte_Bitmap.thy ===== *)
theory Byte_Bitmap
  imports Prelude
begin

text \<open>
  The byte-array bitmaps of the kernel (\<^verbatim>\<open>bitmapGenericGet\<close> and \<^verbatim>\<open>bitmapGenericSet\<close> of
  \<^verbatim>\<open>utility.cpp\<close>), and the interface \<open>bit_array\<close> every bitmap client relies on: what a read
  returns after a write, and that a write keeps the capacity. The page-frame bitmap
  (\<^verbatim>\<open>bitmap.cpp\<close>), the ext2 block and inode bitmaps and the descriptor bitmap of a task are
  all instances, and the lemmas on runs of writes are proved once, in the locale.
\<close>

section \<open>The bit-array interface\<close>

locale bit_array =
  fixes get :: "'b \<Rightarrow> nat \<Rightarrow> bool"
    and put :: "'b \<Rightarrow> nat \<Rightarrow> bool \<Rightarrow> 'b"
    and cap :: "'b \<Rightarrow> nat"
  assumes get_put: "i < cap b \<Longrightarrow> j < cap b \<Longrightarrow> get (put b i v) j = (if i = j then v else get b j)"
    and cap_put: "i < cap b \<Longrightarrow> cap (put b i v) = cap b"
begin

lemma cap_fold:
  "\<forall>i \<in> set is. i < cap b \<Longrightarrow> cap (foldl (\<lambda>b i. put b i v) b is) = cap b"
proof (induction "is" arbitrary: b)
  case Nil
  then show ?case by simp
next
  case (Cons i js)
  then have "cap (put b i v) = cap b"
    by (simp add: cap_put)
  with Cons show ?case
    by simp
qed

lemma get_fold:
  "\<forall>i \<in> set is. i < cap b \<Longrightarrow> j < cap b \<Longrightarrow>
   get (foldl (\<lambda>b i. put b i v) b is) j = (if j \<in> set is then v else get b j)"
proof (induction "is" arbitrary: b)
  case Nil
  then show ?case by simp
next
  case (Cons i js)
  then show ?case
    by (auto simp: cap_put get_put)
qed

lemma used_after_mark:
  assumes "n \<le> cap b" "s + k \<le> n" "\<forall>i. s \<le> i \<and> i < s + k \<longrightarrow> \<not> get b i"
  shows "card {i. i < n \<and> get (foldl (\<lambda>b i. put b i True) b [s..<s + k]) i}
       = card {i. i < n \<and> get b i} + k"
proof -
  let ?b' = "foldl (\<lambda>b i. put b i True) b [s..<s + k]"
  have "get ?b' i = (i \<in> {s..<s + k} \<or> get b i)" if "i < n" for i
    using assms that by (subst get_fold) auto
  then have "{i. i < n \<and> get ?b' i} = {i. i < n \<and> get b i} \<union> {s..<s + k}"
    using assms by auto
  moreover have "{i. i < n \<and> get b i} \<inter> {s..<s + k} = {}"
    using assms by auto
  ultimately show ?thesis
    by (simp add: card_Un_disjoint)
qed

end

section \<open>First fit\<close>

text \<open>
  The reference for the two searches of the kernel for a run of free entries, in the page
  bitmap (\<^verbatim>\<open>find_free_region\<close>) and in the ext2 block bitmaps (\<^verbatim>\<open>ext2BlockFindL\<close>): \<open>free_at used lim s n\<close>
  says that the \<open>n\<close> entries from \<open>s\<close> on are unused, \<open>first_fit\<close> is the common loop with the
  start and the length of the current run.
\<close>

definition free_at :: "(nat \<Rightarrow> bool) \<Rightarrow> nat \<Rightarrow> nat \<Rightarrow> nat \<Rightarrow> bool" where
  "free_at used lim s n \<longleftrightarrow> s + n \<le> lim \<and> (\<forall>i. s \<le> i \<and> i < s + n \<longrightarrow> \<not> used i)"

function first_fit :: "(nat \<Rightarrow> bool) \<Rightarrow> nat \<Rightarrow> nat \<Rightarrow> nat \<Rightarrow> nat \<Rightarrow> nat \<Rightarrow> nat option" where
  "first_fit used lim n i start len =
     (if i < lim then
        (if used i then first_fit used lim n (i + 1) (i + 1) 0
         else if len + 1 \<ge> n then Some start
         else first_fit used lim n (i + 1) start (len + 1))
      else None)"
  by pat_completeness auto
termination
  by (relation "measure (\<lambda>(u, l, n, i, s, k). l - i)") auto

declare first_fit.simps [simp del]

lemma first_fit_spec:
  assumes "0 < n" "start + len = i" "len < n" "\<forall>j. start \<le> j \<and> j < i \<longrightarrow> \<not> used j"
  shows "case first_fit used lim n i start len of
      None \<Rightarrow> \<forall>s \<ge> start. \<not> free_at used lim s n
    | Some r \<Rightarrow> start \<le> r \<and> free_at used lim r n \<and> (\<forall>s. start \<le> s \<and> s < r \<longrightarrow> \<not> free_at used lim s n)"
  using assms
proof (induction used lim n i start len rule: first_fit.induct)
  case (1 used lim n i start len)
  show ?case
  proof (cases "i < lim")
    case False
    have "\<not> free_at used lim s n" if "start \<le> s" for s
      using that False "1.prems"(2,3) by (auto simp: free_at_def)
    with False show ?thesis
      by (simp add: first_fit.simps [of used lim n i])
  next
    case in_range: True
    show ?thesis
    proof (cases "used i")
      case True
      have none: "\<not> free_at used lim s n" if "start \<le> s" "s \<le> i" for s
        using that True "1.prems"(2,3) by (auto simp: free_at_def)
      have "first_fit used lim n i start len = first_fit used lim n (i + 1) (i + 1) 0"
        using in_range True by (simp add: first_fit.simps [of used lim n i])
      moreover have "case first_fit used lim n (i + 1) (i + 1) 0 of
          None \<Rightarrow> \<forall>s \<ge> i + 1. \<not> free_at used lim s n
        | Some r \<Rightarrow> i + 1 \<le> r \<and> free_at used lim r n \<and>
            (\<forall>s. i + 1 \<le> s \<and> s < r \<longrightarrow> \<not> free_at used lim s n)"
        using "1.prems"(1) by (intro "1.IH"(1) [OF in_range True]) auto
      moreover have "\<not> free_at used lim s n" if "start \<le> s" "\<not> i + 1 \<le> s" for s
        using none that by simp
      moreover have "start \<le> i"
        using "1.prems"(2) by simp
      ultimately show ?thesis
        by (cases "first_fit used lim n (i + 1) (i + 1) 0") auto
    next
      case False
      have run: "\<forall>j. start \<le> j \<and> j < i + 1 \<longrightarrow> \<not> used j"
        using "1.prems"(4) False less_Suc_eq by auto
      show ?thesis
      proof (cases "len + 1 \<ge> n")
        case True
        with "1.prems"(2,3) in_range run have "free_at used lim start n"
          by (auto simp: free_at_def)
        with True False in_range show ?thesis
          by (auto simp: first_fit.simps [of used lim n i])
      next
        case more: False
        then show ?thesis
          using "1.IH"(2) [OF in_range False more] "1.prems"(1,2) run in_range False
          by (simp add: first_fit.simps [of used lim n i])
      qed
    qed
  qed
qed

lemma first_fit_start:
  assumes "0 < n"
  shows "case first_fit used lim n i i 0 of
      None \<Rightarrow> \<forall>s \<ge> i. \<not> free_at used lim s n
    | Some r \<Rightarrow> i \<le> r \<and> free_at used lim r n \<and> (\<forall>s. i \<le> s \<and> s < r \<longrightarrow> \<not> free_at used lim s n)"
  using assms by (intro first_fit_spec) auto

section \<open>The generic byte bitmap\<close>

text \<open>\<open>mask1 k\<close> is the mask \<^verbatim>\<open>(uint8_t)(1 << k)\<close>.\<close>

definition mask1 :: "nat \<Rightarrow> byte" where
  "mask1 k = push_bit k 1"

definition bitmapGenericGet :: "byte list \<Rightarrow> nat \<Rightarrow> bool" where
  "bitmapGenericGet bitmap index =
     (let dv = index div 8; md = index mod 8
      in bitmap ! dv AND mask1 md \<noteq> 0)"

definition bitmapGenericSet :: "byte list \<Rightarrow> nat \<Rightarrow> bool \<Rightarrow> byte list" where
  "bitmapGenericSet bitmap index v =
     (let dv = index div 8; md = index mod 8
      in if v then bitmap[dv := bitmap ! dv OR mask1 md]
         else bitmap[dv := bitmap ! dv AND NOT (mask1 md)])"

lemma bit_mask1: "bit (mask1 k) j = (j = k \<and> k < 8)"
  unfolding mask1_def push_bit_of_1 bit_exp_iff by auto

lemma and_mask_bit: "(w AND mask1 k \<noteq> 0) = bit w k" if "k < 8"
proof -
  have "w AND mask1 k = (if bit w k then mask1 k else 0)"
    using that by (intro bit_word_eqI) (auto simp: bit_simps bit_mask1)
  moreover have "mask1 k \<noteq> 0"
    using that bit_mask1 [of k k] by auto
  ultimately show ?thesis
    by simp
qed

lemma bit_or_mask: "k < 8 \<Longrightarrow> bit (w OR mask1 k) j = (bit w j \<or> j = k)"
  by (auto simp: bit_simps bit_mask1)

lemma bit_andnot_mask: "bit (w AND NOT (mask1 k)) j = (bit w j \<and> j \<noteq> k)"
  by (auto simp: bit_simps bit_mask1 dest: bit_imp_le_length)

lemma bitmapGenericGet_bit: "bitmapGenericGet b i = bit (b ! (i div 8)) (i mod 8)"
  by (simp add: bitmapGenericGet_def Let_def and_mask_bit)

lemma length_bitmapGenericSet [simp]: "length (bitmapGenericSet b i v) = length b"
  by (simp add: bitmapGenericSet_def Let_def)

lemma div_mod_eq_iff: "(i div 8 = j div 8 \<and> i mod 8 = j mod 8) = (i = (j :: nat))"
  by (metis div_mult_mod_eq)

lemma bitmapGenericGet_Set:
  assumes "i < 8 * length b" "j < 8 * length b"
  shows "bitmapGenericGet (bitmapGenericSet b i v) j = (if i = j then v else bitmapGenericGet b j)"
proof -
  have *: "i div 8 < length b" "j div 8 < length b"
    using assms by auto
  show ?thesis
  proof (cases "i div 8 = j div 8")
    case True
    with * show ?thesis
      using div_mod_eq_iff [of i j]
      by (auto simp: bitmapGenericGet_bit bitmapGenericSet_def Let_def bit_or_mask bit_andnot_mask)
  next
    case False
    with * show ?thesis
      by (auto simp: bitmapGenericGet_bit bitmapGenericSet_def Let_def)
  qed
qed

interpretation gbits: bit_array bitmapGenericGet bitmapGenericSet "\<lambda>b. 8 * length b"
  by unfold_locales (simp_all add: bitmapGenericGet_Set)

lemma length_fold_bitmapGenericSet [simp]:
  "length (foldl (\<lambda>b i. bitmapGenericSet b i v) b is) = length b"
  by (induction "is" arbitrary: b) auto

lemma bitmap_eqI:
  assumes "length a = length b" "\<And>i. i < 8 * length b \<Longrightarrow> bitmapGenericGet a i = bitmapGenericGet b i"
  shows "a = b"
proof (rule nth_equalityI)
  fix i assume "i < length a"
  with assms(1) have i: "i < length b"
    by simp
  show "a ! i = b ! i"
  proof (rule bit_word_eqI)
    fix n assume "n < LENGTH(8)"
    then have "n < 8" by simp
    with i assms(2) [of "i * 8 + n"] show "bit (a ! i) n = bit (b ! i) n"
      by (simp add: bitmapGenericGet_bit)
  qed
qed (rule assms(1))

lemma bitmap_set_clear:
  "i < 8 * length b \<Longrightarrow> \<not> bitmapGenericGet b i \<Longrightarrow>
   bitmapGenericSet (bitmapGenericSet b i True) i False = b"
  by (rule bitmap_eqI) (auto simp: bitmapGenericGet_Set)

end
