(* ===== verification/Page_Bitmap.thy ===== *)
theory Page_Bitmap
  imports Byte_Bitmap
begin

text \<open>
  The page-frame allocator of \<^verbatim>\<open>memory/bitmap.cpp\<close>. The struct \<^verbatim>\<open>Bitmap\<close> is the record of that name; the array it points to
  is the list \<open>bm_bytes\<close>. Sizes and addresses are natural numbers with the wrap-around of
  \<^verbatim>\<open>size_t\<close> written out where the code can reach it (\<open>INVALID_BLOCK\<close> is \<open>2 ^ 64 - 1\<close>).

  The invariant \<open>bitmap_ok\<close> carries what the \<open>lastDeepFragmented\<close> shortcut relies on: every
  block below it is in use.
\<close>

definition BLOCK_SIZE :: nat where "BLOCK_SIZE = 4096"
definition BLOCKS_PER_BYTE :: nat where "BLOCKS_PER_BYTE = 8"
definition INVALID_BLOCK :: nat where "INVALID_BLOCK = 2 ^ 64 - 1"

definition size_t :: "nat \<Rightarrow> nat" where
  "size_t n = n mod 2 ^ 64"

definition sub_t :: "nat \<Rightarrow> nat \<Rightarrow> nat" where
  "sub_t a b = size_t (a + (2 ^ 64 - size_t b))"

record Bitmap =
  bm_bytes :: "byte list"
  BitmapSizeInBlocks :: nat
  BitmapSizeInBytes :: nat
  lastDeepFragmented :: nat
  mem_start :: nat
  lock_id :: nat
  lock :: bool
  ready :: bool

definition spinlock :: "Bitmap \<Rightarrow> unit res" where
  "spinlock bitmap = (if lock bitmap then Inl Blocked else Inr ())"

definition lock_bitmap :: "Bitmap \<Rightarrow> Bitmap res" where
  "lock_bitmap bitmap = bindR (spinlock bitmap) (\<lambda>_. Inr (bitmap\<lparr>lock := True\<rparr>))"

definition unlock_bitmap :: "Bitmap \<Rightarrow> Bitmap" where
  "unlock_bitmap bitmap = bitmap\<lparr>lock := False\<rparr>"

definition block_to_pointer :: "Bitmap \<Rightarrow> nat \<Rightarrow> nat" where
  "block_to_pointer bitmap block = size_t (mem_start bitmap + block * BLOCK_SIZE)"

definition pointer_to_block :: "Bitmap \<Rightarrow> nat \<Rightarrow> nat" where
  "pointer_to_block bitmap ptr = sub_t ptr (mem_start bitmap) div BLOCK_SIZE"

definition pointer_to_block_roundup :: "Bitmap \<Rightarrow> nat \<Rightarrow> nat" where
  "pointer_to_block_roundup bitmap ptr =
     (size_t (sub_t ptr (mem_start bitmap) + BLOCK_SIZE - 1)) div BLOCK_SIZE"

definition bitmap_get_size :: "nat \<Rightarrow> nat" where
  "bitmap_get_size totalSize = CEILING_DIVISION (CEILING_DIVISION totalSize BLOCK_SIZE) 8"

definition bitmap_get :: "Bitmap \<Rightarrow> nat \<Rightarrow> bool" where
  "bitmap_get bitmap block =
     (let addr = block div BLOCKS_PER_BYTE; offset = block mod BLOCKS_PER_BYTE
      in bm_bytes bitmap ! addr AND mask1 offset \<noteq> 0)"

definition bitmap_set :: "Bitmap \<Rightarrow> nat \<Rightarrow> bool \<Rightarrow> Bitmap" where
  "bitmap_set bitmap block v =
     (let addr = block div BLOCKS_PER_BYTE; offset = block mod BLOCKS_PER_BYTE in
      if v then bitmap\<lparr>bm_bytes := (bm_bytes bitmap)[addr := bm_bytes bitmap ! addr OR mask1 offset]\<rparr>
      else bitmap\<lparr>bm_bytes := (bm_bytes bitmap)[addr := bm_bytes bitmap ! addr AND NOT (mask1 offset)]\<rparr>)"

definition mark_blocks :: "Bitmap \<Rightarrow> nat \<Rightarrow> nat \<Rightarrow> bool \<Rightarrow> Bitmap res" where
  "mark_blocks bitmap start sz val =
     (let bitmap1 = (if \<not> val \<and> start < lastDeepFragmented bitmap
                     then bitmap\<lparr>lastDeepFragmented := start\<rparr> else bitmap);
          stop = size_t (start + sz)
      in if start < stop \<and> 8 * length (bm_bytes bitmap) < stop then Inl Out_of_bounds
         else Inr (foldl (\<lambda>b i. bitmap_set b i val) bitmap1 [start..<stop]))"

definition mark_region :: "Bitmap \<Rightarrow> nat \<Rightarrow> nat \<Rightarrow> bool \<Rightarrow> Bitmap res" where
  "mark_region bitmap basePtr sizeBytes isUsed =
     (if isUsed
      then mark_blocks bitmap (pointer_to_block bitmap basePtr)
             (CEILING_DIVISION sizeBytes BLOCK_SIZE) True
      else mark_blocks bitmap (pointer_to_block_roundup bitmap basePtr)
             (sizeBytes div BLOCK_SIZE) False)"

text \<open>The loop of \<^verbatim>\<open>find_free_region\<close>: index, start and size of the current free run.\<close>

function find_free_loop :: "Bitmap \<Rightarrow> nat \<Rightarrow> nat \<Rightarrow> nat \<Rightarrow> nat \<Rightarrow> nat \<times> Bitmap" where
  "find_free_loop bitmap blocks i regionStart regionSize =
     (if i < BitmapSizeInBlocks bitmap then
        (if bitmap_get bitmap i then find_free_loop bitmap blocks (i + 1) (i + 1) 0
         else
           (let bitmap1 = (if blocks = 1 then bitmap\<lparr>lastDeepFragmented := regionStart + 1\<rparr> else bitmap)
            in if regionSize + 1 \<ge> blocks then (regionStart, bitmap1)
               else find_free_loop bitmap1 blocks (i + 1) regionStart (regionSize + 1)))
      else (INVALID_BLOCK, bitmap))"
  by pat_completeness auto
termination
  by (relation "measure (\<lambda>(b, n, i, s, k). BitmapSizeInBlocks b - i)") auto

declare find_free_loop.simps [simp del]

definition find_free_region :: "Bitmap \<Rightarrow> nat \<Rightarrow> nat \<times> Bitmap" where
  "find_free_region bitmap blocks =
     find_free_loop bitmap blocks (lastDeepFragmented bitmap) (lastDeepFragmented bitmap) 0"

definition bitmap_allocate :: "Bitmap \<Rightarrow> nat \<Rightarrow> (nat \<times> Bitmap) res" where
  "bitmap_allocate bitmap blocks =
     (if blocks = 0 then Inr (0, bitmap)
      else case find_free_region bitmap blocks of (pickedRegion, bitmap1) \<Rightarrow>
        if pickedRegion = INVALID_BLOCK then Inr (0, bitmap1)
        else bindR (mark_blocks bitmap1 pickedRegion blocks True)
               (\<lambda>bitmap2. Inr (block_to_pointer bitmap2 pickedRegion, bitmap2)))"

definition bitmap_free :: "Bitmap \<Rightarrow> nat \<Rightarrow> nat \<Rightarrow> Bitmap res" where
  "bitmap_free bitmap base blocks = mark_region bitmap base (size_t (BLOCK_SIZE * blocks)) False"

definition bitmap_allocate_pageframe :: "Bitmap \<Rightarrow> (nat \<times> Bitmap) res" where
  "bitmap_allocate_pageframe bitmap =
     (case find_free_region bitmap 1 of (pickedRegion, bitmap1) \<Rightarrow>
        bindR (mark_blocks bitmap1 pickedRegion 1 True)
          (\<lambda>bitmap2. Inr (size_t (mem_start bitmap2 + pickedRegion * BLOCK_SIZE), bitmap2)))"

definition bitmap_free_pageframe :: "Bitmap \<Rightarrow> nat \<Rightarrow> Bitmap res" where
  "bitmap_free_pageframe bitmap addr = mark_region bitmap addr (BLOCK_SIZE * 1) False"

section \<open>Bits and capacity\<close>

lemma bitmap_get_generic: "bitmap_get b i = bitmapGenericGet (bm_bytes b) i"
  by (simp add: bitmap_get_def bitmapGenericGet_def BLOCKS_PER_BYTE_def)

lemma bitmap_set_generic: "bitmap_set b i v = b\<lparr>bm_bytes := bitmapGenericSet (bm_bytes b) i v\<rparr>"
  by (simp add: bitmap_set_def bitmapGenericSet_def BLOCKS_PER_BYTE_def Let_def)

interpretation page_bits: bit_array bitmap_get bitmap_set "\<lambda>b. 8 * length (bm_bytes b)"
  by unfold_locales (simp_all add: bitmap_get_generic bitmap_set_generic bitmapGenericGet_Set)

lemma fold_bitmap_set:
  "foldl (\<lambda>b i. bitmap_set b i v) b is =
   b\<lparr>bm_bytes := foldl (\<lambda>c i. bitmapGenericSet c i v) (bm_bytes b) is\<rparr>"
  by (induction "is" arbitrary: b) (simp_all add: bitmap_set_generic)

text \<open>
  A bitmap is well formed when its array holds a bit per block, addresses do not wrap, and
  everything below the shortcut is taken.
\<close>

definition bitmap_ok :: "Bitmap \<Rightarrow> bool" where
  "bitmap_ok b \<longleftrightarrow> BitmapSizeInBlocks b \<le> 8 * length (bm_bytes b) \<and>
     mem_start b + BitmapSizeInBlocks b * BLOCK_SIZE < 2 ^ 64 \<and>
     (\<forall>i < lastDeepFragmented b. i < BitmapSizeInBlocks b \<longrightarrow> bitmap_get b i)"

definition free_run :: "Bitmap \<Rightarrow> nat \<Rightarrow> nat \<Rightarrow> bool" where
  "free_run b s n \<longleftrightarrow> s + n \<le> BitmapSizeInBlocks b \<and> (\<forall>i. s \<le> i \<and> i < s + n \<longrightarrow> \<not> bitmap_get b i)"

lemma bitmap_get_upd [simp]:
  "bitmap_get (b\<lparr>lastDeepFragmented := x\<rparr>) i = bitmap_get b i"
  by (simp add: bitmap_get_def)

lemma free_run_upd [simp]: "free_run (b\<lparr>lastDeepFragmented := x\<rparr>) s n = free_run b s n"
  by (simp add: free_run_def)

section \<open>First fit\<close>

lemma free_run_free_at: "free_run b s n = free_at (bitmap_get b) (BitmapSizeInBlocks b) s n"
  by (simp add: free_run_def free_at_def)

lemma find_free_loop_first_fit:
  assumes "0 < blocks" "regionSize < blocks"
  shows "find_free_loop b blocks i regionStart regionSize =
    (case first_fit (bitmap_get b) (BitmapSizeInBlocks b) blocks i regionStart regionSize of
       None \<Rightarrow> (INVALID_BLOCK, b)
     | Some r \<Rightarrow> (r, if blocks = 1 then b\<lparr>lastDeepFragmented := r + 1\<rparr> else b))"
  using assms
proof (induction b blocks i regionStart regionSize rule: find_free_loop.induct)
  case (1 b blocks i start sz)
  show ?case
  proof (cases "i < BitmapSizeInBlocks b \<and> \<not> bitmap_get b i \<and> sz + 1 < blocks")
    case True
    then have "blocks \<noteq> 1" by simp
    with True "1.IH"(2) [OF _ _ refl] "1.prems"(1) show ?thesis
      by (simp add: find_free_loop.simps [of b blocks i] first_fit.simps [of _ _ _ i])
  next
    case False
    with "1.IH"(1) "1.prems"(1) show ?thesis
      by (auto simp: find_free_loop.simps [of b blocks i] first_fit.simps [of _ _ _ i])
  qed
qed

lemma find_free_loop_spec:
  assumes "0 < blocks" "find_free_loop b blocks i i 0 = (r, b')"
  shows "(r = INVALID_BLOCK \<and> b' = b \<and> (\<forall>s \<ge> i. \<not> free_run b s blocks)) \<or>
    (i \<le> r \<and> free_run b r blocks \<and> (\<forall>s. i \<le> s \<and> s < r \<longrightarrow> \<not> free_run b s blocks) \<and>
     b' = (if blocks = 1 then b\<lparr>lastDeepFragmented := r + 1\<rparr> else b))"
  using assms first_fit_start [where n = blocks and used = "bitmap_get b" and lim = "BitmapSizeInBlocks b" and i = i]
  by (auto simp: find_free_loop_first_fit free_run_free_at split: option.splits)

lemma find_free_region_spec:
  assumes "bitmap_ok b" "0 < blocks" "find_free_region b blocks = (r, b')"
  shows "(r = INVALID_BLOCK \<and> b' = b \<and> (\<forall>s. \<not> free_run b s blocks)) \<or>
    (free_run b r blocks \<and> r < INVALID_BLOCK \<and> (\<forall>s < r. \<not> free_run b s blocks) \<and>
     b' = (if blocks = 1 then b\<lparr>lastDeepFragmented := r + 1\<rparr> else b))"
proof -
  let ?l = "lastDeepFragmented b"
  have below: "\<not> free_run b s blocks" if "s < ?l" for s
    using assms(1,2) that by (auto simp: free_run_def bitmap_ok_def)
  have bound: "r < INVALID_BLOCK" if "free_run b r blocks"
    using that assms(1,2) by (auto simp: free_run_def bitmap_ok_def INVALID_BLOCK_def BLOCK_SIZE_def)
  have "find_free_loop b blocks ?l ?l 0 = (r, b')"
    using assms(3) by (simp add: find_free_region_def)
  from find_free_loop_spec [OF assms(2) this]
  consider (none) "r = INVALID_BLOCK" "b' = b" "\<forall>s \<ge> ?l. \<not> free_run b s blocks"
    | (some) "free_run b r blocks" "\<forall>s. ?l \<le> s \<and> s < r \<longrightarrow> \<not> free_run b s blocks"
        "b' = (if blocks = 1 then b\<lparr>lastDeepFragmented := r + 1\<rparr> else b)"
    by force
  then show ?thesis
  proof cases
    case none
    then show ?thesis
      using below not_less by blast
  next
    case some
    then show ?thesis
      using below bound not_less by blast
  qed
qed

lemma mark_blocks_ok:
  assumes "8 * length (bm_bytes b) \<ge> s + n" "s + n < 2 ^ 64"
  shows "mark_blocks b s n v = Inr (foldl (\<lambda>b i. bitmap_set b i v)
      (if \<not> v \<and> s < lastDeepFragmented b then b\<lparr>lastDeepFragmented := s\<rparr> else b) [s..<s + n])"
  using assms by (auto simp: mark_blocks_def Let_def size_t_def)

lemma bitmap_get_fold:
  assumes "s + n \<le> 8 * length (bm_bytes b)" "j < 8 * length (bm_bytes b)"
  shows "bitmap_get (foldl (\<lambda>b i. bitmap_set b i v) b [s..<s + n]) j =
    (if s \<le> j \<and> j < s + n then v else bitmap_get b j)"
  using assms by (subst page_bits.get_fold) auto

section \<open>Allocation and release\<close>

lemma fold_fields [simp]:
  "length (bm_bytes (foldl (\<lambda>b i. bitmap_set b i v) b is)) = length (bm_bytes b)"
  "BitmapSizeInBlocks (foldl (\<lambda>b i. bitmap_set b i v) b is) = BitmapSizeInBlocks b"
  "mem_start (foldl (\<lambda>b i. bitmap_set b i v) b is) = mem_start b"
  "lastDeepFragmented (foldl (\<lambda>b i. bitmap_set b i v) b is) = lastDeepFragmented b"
  by (simp_all add: fold_bitmap_set)

lemma bitmap_ok_bounds:
  assumes "bitmap_ok b" "free_run b r n"
  shows "r + n \<le> 8 * length (bm_bytes b)" "r + n < 2 ^ 64" "mem_start b + r * BLOCK_SIZE < 2 ^ 64"
proof -
  have c: "r + n \<le> BitmapSizeInBlocks b" "BitmapSizeInBlocks b \<le> 8 * length (bm_bytes b)"
    "mem_start b + BitmapSizeInBlocks b * BLOCK_SIZE < 2 ^ 64"
    using assms by (simp_all add: bitmap_ok_def free_run_def)
  then show "r + n \<le> 8 * length (bm_bytes b)" by linarith
  have "r + n \<le> BitmapSizeInBlocks b * BLOCK_SIZE" "r * BLOCK_SIZE \<le> BitmapSizeInBlocks b * BLOCK_SIZE"
    using c(1) by (simp_all add: BLOCK_SIZE_def)
  with c(3) show "r + n < 2 ^ 64" "mem_start b + r * BLOCK_SIZE < 2 ^ 64"
    by linarith+
qed

lemma bitmap_allocate_run:
  assumes ok: "bitmap_ok b" and n: "0 < n" and run: "free_run b s n"
  shows "\<exists>r b'. bitmap_allocate b n = Inr (mem_start b + r * BLOCK_SIZE, b') \<and>
    free_run b r n \<and> (\<forall>s < r. \<not> free_run b s n) \<and> bitmap_ok b' \<and>
    BitmapSizeInBlocks b' = BitmapSizeInBlocks b \<and> mem_start b' = mem_start b \<and>
    (\<forall>j < BitmapSizeInBlocks b. bitmap_get b' j = (bitmap_get b j \<or> r \<le> j \<and> j < r + n))"
proof -
  obtain r b1 where fr: "find_free_region b n = (r, b1)"
    by (cases "find_free_region b n")
  with find_free_region_spec [OF ok n fr] run
  have r: "free_run b r n" "r < INVALID_BLOCK" "\<forall>s < r. \<not> free_run b s n"
    and b1: "b1 = (if n = 1 then b\<lparr>lastDeepFragmented := r + 1\<rparr> else b)"
    by blast+
  note bnd = bitmap_ok_bounds [OF ok r(1)]
  define b' where "b' = foldl (\<lambda>b i. bitmap_set b i True) b1 [r..<r + n]"
  have mk: "mark_blocks b1 r n True = Inr b'"
    using bnd by (simp add: mark_blocks_ok b1 b'_def)
  have get: "bitmap_get b' j = (bitmap_get b j \<or> r \<le> j \<and> j < r + n)" if "j < BitmapSizeInBlocks b" for j
    using that bnd ok by (auto simp: b'_def b1 bitmap_get_fold bitmap_ok_def)
  have "bitmap_get b' i" if "i < lastDeepFragmented b'" "i < BitmapSizeInBlocks b" for i
  proof (cases "n = 1")
    case True
    have "lastDeepFragmented b' = lastDeepFragmented b1"
      unfolding b'_def by simp
    with True that(1) have "i \<le> r"
      by (simp add: b1)
    with True r(3) that(2) have "i = r \<or> bitmap_get b i"
      by (auto simp: free_run_def le_less less_Suc_eq)
    with get [OF that(2)] True show ?thesis
      by auto
  next
    case False
    with that ok have "bitmap_get b i"
      by (simp add: b'_def b1 bitmap_ok_def)
    with get [OF that(2)] show ?thesis
      by simp
  qed
  then have "bitmap_ok b'"
    using ok by (auto simp: bitmap_ok_def b'_def b1)
  moreover have same: "BitmapSizeInBlocks b' = BitmapSizeInBlocks b" "mem_start b' = mem_start b"
    unfolding b'_def by (simp_all add: b1)
  moreover have "bitmap_allocate b n = Inr (mem_start b + r * BLOCK_SIZE, b')"
    using n r(2) bnd(3)
    by (simp add: bitmap_allocate_def fr mk block_to_pointer_def size_t_def same)
  ultimately show ?thesis
    using r get by blast
qed

text \<open>
  First fit: on a well-formed bitmap \<open>bitmap_allocate\<close> of \<open>n > 0\<close> blocks returns the
  address of the lowest run of \<open>n\<close> free blocks, marks exactly that run as used and keeps
  the bitmap well formed (the \<open>lastDeepFragmented\<close> shortcut included); it returns null,
  changing nothing, only when no such run exists anywhere in the bitmap.
\<close>

theorem bitmap_allocate_correct:
  assumes "bitmap_ok b" "0 < n"
  shows "if \<exists>s. free_run b s n
    then \<exists>r b'. bitmap_allocate b n = Inr (mem_start b + r * BLOCK_SIZE, b') \<and>
      free_run b r n \<and> (\<forall>s < r. \<not> free_run b s n) \<and> bitmap_ok b' \<and>
      (\<forall>j < BitmapSizeInBlocks b. bitmap_get b' j = (bitmap_get b j \<or> r \<le> j \<and> j < r + n))
    else bitmap_allocate b n = Inr (0, b)"
proof (cases "\<exists>s. free_run b s n")
  case True
  then obtain s where s: "free_run b s n" by blast
  then have "\<exists>r b'. bitmap_allocate b n = Inr (mem_start b + r * BLOCK_SIZE, b') \<and>
      free_run b r n \<and> (\<forall>s < r. \<not> free_run b s n) \<and> bitmap_ok b' \<and>
      (\<forall>j < BitmapSizeInBlocks b. bitmap_get b' j = (bitmap_get b j \<or> r \<le> j \<and> j < r + n))"
    using bitmap_allocate_run [OF assms s] by blast
  with True show ?thesis
    by simp
next
  case False
  obtain r b1 where fr: "find_free_region b n = (r, b1)"
    by (cases "find_free_region b n")
  with find_free_region_spec [OF assms fr] False have "r = INVALID_BLOCK" "b1 = b"
    by blast+
  with False fr assms(2) show ?thesis
    by (simp add: bitmap_allocate_def)
qed

definition demo_bitmap :: Bitmap where
  "demo_bitmap = \<lparr>bm_bytes = [7], BitmapSizeInBlocks = 8, BitmapSizeInBytes = 1,
     lastDeepFragmented = 2, mem_start = 8192, lock_id = 0, lock = False, ready = True\<rparr>"

lemma demo_bitmap_get: "i < 8 \<Longrightarrow> bitmap_get demo_bitmap i = (i < 3)"
proof -
  assume "i < 8"
  then consider "i = 0" | "i = 1" | "i = 2" | "i = 3" | "i = 4" | "i = 5" | "i = 6" | "i = 7"
    by linarith
  then show ?thesis
    by cases (simp_all add: demo_bitmap_def bitmap_get_def BLOCKS_PER_BYTE_def mask1_def)
qed

lemma demo_bitmap_ok: "bitmap_ok demo_bitmap" "free_run demo_bitmap 3 2"
proof -
  have f: "BitmapSizeInBlocks demo_bitmap = 8" "length (bm_bytes demo_bitmap) = 1"
    "mem_start demo_bitmap = 8192" "lastDeepFragmented demo_bitmap = 2"
    by (simp_all add: demo_bitmap_def)
  show "bitmap_ok demo_bitmap" "free_run demo_bitmap 3 2"
    by (auto simp: bitmap_ok_def free_run_def f BLOCK_SIZE_def demo_bitmap_get)
qed

theorem bitmap_allocate_correct_witness:
  "bitmap_ok demo_bitmap \<and>
   (\<exists>r b'. bitmap_allocate demo_bitmap 2 = Inr (8192 + r * BLOCK_SIZE, b') \<and> free_run demo_bitmap r 2)"
proof -
  have "mem_start demo_bitmap = 8192"
    by (simp add: demo_bitmap_def)
  moreover have "\<exists>s. free_run demo_bitmap s 2"
    using demo_bitmap_ok(2) by blast
  ultimately show ?thesis
    using bitmap_allocate_correct [OF demo_bitmap_ok(1), of 2] demo_bitmap_ok(1) by auto
qed

end
