(* ===== verification/Physical_Memory.thy ===== *)
theory Physical_Memory
  imports Page_Bitmap
begin

text \<open>
  The physical and virtual memory managers (\<^verbatim>\<open>memory/pmm.cpp\<close>, \<^verbatim>\<open>memory/vmm.cpp\<close>), the start-up of
  both (\<^verbatim>\<open>memory/memory.cpp\<close>) and the totals \<^verbatim>\<open>bootloader.cpp\<close> takes from the memory map. The
  static variables \<^verbatim>\<open>physical\<close>, \<^verbatim>\<open>_virtual\<close> and \<^verbatim>\<open>hhdmOffset\<close> are the state \<open>mm\<close>; the addresses
  of the two bitmaps are kept beside their contents. The memory map is the list of entries
  the boot loader passes.
\<close>

datatype limine_memmap_type =
    LIMINE_MEMMAP_USABLE | LIMINE_MEMMAP_RESERVED | LIMINE_MEMMAP_ACPI_RECLAIMABLE
  | LIMINE_MEMMAP_ACPI_NVS | LIMINE_MEMMAP_BAD_MEMORY | LIMINE_MEMMAP_BOOTLOADER_RECLAIMABLE
  | LIMINE_MEMMAP_KERNEL_AND_MODULES | LIMINE_MEMMAP_FRAMEBUFFER

record limine_memmap_entry =
  me_base :: nat
  me_length :: nat
  me_type :: limine_memmap_type

record Bootloader =
  mmEntries :: "limine_memmap_entry list"
  mmTotal :: nat
  mmExecTotal :: nat
  mmPhysExtent :: nat
  boot_hhdmOffset :: nat

record mm =
  physical :: Bitmap
  physical_at :: nat
  virt :: Bitmap
  virt_at :: nat
  hhdmOffset :: nat

type_synonym 'a mm_cmd = "(mm, 'a) cmd"

definition PAGE_SIZE :: nat where "PAGE_SIZE = 0x1000"
definition VMM_POS_ENSURE :: nat where "VMM_POS_ENSURE = 0x40000000"

text \<open>\<^verbatim>\<open>CEILING_DIVISION\<close> on \<^verbatim>\<open>uint64_t\<close> operands, and the conversion of an \<^verbatim>\<open>int\<close> to \<^verbatim>\<open>size_t\<close>.\<close>

definition ceil_t :: "nat \<Rightarrow> nat \<Rightarrow> nat" where
  "ceil_t a b = size_t (a + b - 1) div b"

definition int_to_size_t :: "int \<Rightarrow> nat" where
  "int_to_size_t i = nat (i mod 2 ^ 64)"

section \<open>The boot loader's totals\<close>

fun count_entry :: "Bootloader \<Rightarrow> limine_memmap_entry \<Rightarrow> Bootloader" where
  "count_entry bl e =
     (case me_type e of
        LIMINE_MEMMAP_USABLE \<Rightarrow> bl\<lparr>mmTotal := size_t (mmTotal bl + me_length e)\<rparr>
      | LIMINE_MEMMAP_KERNEL_AND_MODULES \<Rightarrow> bl\<lparr>mmExecTotal := size_t (mmExecTotal bl + me_length e)\<rparr>
      | LIMINE_MEMMAP_BOOTLOADER_RECLAIMABLE \<Rightarrow> bl\<lparr>mmTotal := size_t (mmTotal bl + me_length e)\<rparr>
      | _ \<Rightarrow> bl)"

definition extend_entry :: "Bootloader \<Rightarrow> limine_memmap_entry \<Rightarrow> Bootloader" where
  "extend_entry bl e =
     (let top = size_t (me_base e + me_length e)
      in if top > mmPhysExtent bl then bl\<lparr>mmPhysExtent := top\<rparr> else bl)"

definition bootloader_memory_map :: "nat \<Rightarrow> limine_memmap_entry list \<Rightarrow> Bootloader" where
  "bootloader_memory_map hhdm entries =
     (let bl = \<lparr>mmEntries = entries, mmTotal = 0, mmExecTotal = 0, mmPhysExtent = 0, boot_hhdmOffset = hhdm\<rparr>
      in foldl extend_entry (foldl count_entry bl entries) entries)"

section \<open>The physical memory manager\<close>

definition set_physical :: "(Bitmap \<Rightarrow> Bitmap) \<Rightarrow> unit mm_cmd" where
  "set_physical f = modify (\<lambda>s. s\<lparr>physical := f (physical s)\<rparr>)"

definition physical_mark :: "nat \<Rightarrow> nat \<Rightarrow> bool \<Rightarrow> unit mm_cmd" where
  "physical_mark base sz v =
     bnd (gets physical) (\<lambda>b. bnd (lift (mark_region b base sz v)) (\<lambda>b'. set_physical (\<lambda>_. b')))"

text \<open>The bodies of the two loops: usable entries are released, all others marked as used.\<close>

definition mark_entry :: "bool \<Rightarrow> limine_memmap_entry \<Rightarrow> unit mm_cmd" where
  "mark_entry isUsed e =
     (if (me_type e = LIMINE_MEMMAP_USABLE) \<noteq> isUsed
      then physical_mark (me_base e) (me_length e) isUsed else ret ())"

definition physical_memory_manager_initialize :: "nat \<Rightarrow> limine_memmap_entry list \<Rightarrow> nat \<Rightarrow> unit mm_cmd" where
  "physical_memory_manager_initialize memory_map_Total entries hhdm =
     andthen (set_physical (\<lambda>b. b\<lparr>ready := False,
         BitmapSizeInBlocks := ceil_t memory_map_Total BLOCK_SIZE,
         BitmapSizeInBytes := ceil_t (ceil_t memory_map_Total BLOCK_SIZE) 8\<rparr>))
     (bnd (gets (BitmapSizeInBytes \<circ> physical)) (\<lambda>sz.
      case find (\<lambda>e. \<not> (me_type e \<noteq> LIMINE_MEMMAP_USABLE \<or> me_length e < sz)) entries of
        None \<Rightarrow> fail Halted
      | Some memory_map \<Rightarrow>
          andthen (modify (\<lambda>s. s\<lparr>physical_at := size_t (me_base memory_map + hhdm)\<rparr>))
          (andthen (set_physical (\<lambda>b. b\<lparr>bm_bytes := replicate sz 0xff\<rparr>))
          (andthen (for_each (mark_entry False) entries)
          (andthen (for_each (mark_entry True) entries)
          (andthen (physical_mark (me_base memory_map) sz True)
            (set_physical (\<lambda>b. b\<lparr>ready := True\<rparr>))))))))"

definition physical_allocate :: "int \<Rightarrow> nat mm_cmd" where
  "physical_allocate pages =
     bnd (gets physical) (\<lambda>b.
     bnd (lift (bitmap_allocate b (int_to_size_t pages))) (\<lambda>(phys, b').
     andthen (set_physical (\<lambda>_. b'))
     (if phys = 0 \<and> pages \<noteq> 0 then fail Halted else ret phys)))"

definition physical_free :: "nat \<Rightarrow> int \<Rightarrow> unit mm_cmd" where
  "physical_free ptr pages =
     andthen (check Undefined (- (2 ^ 31) \<le> pages * int BLOCK_SIZE \<and> pages * int BLOCK_SIZE < 2 ^ 31))
       (physical_mark ptr (int_to_size_t (pages * int BLOCK_SIZE)) False)"

definition physical_spinlock_acquire :: "unit mm_cmd" where
  "physical_spinlock_acquire =
     andthen (set_physical (\<lambda>b. b\<lparr>lock_id := 1\<rparr>))
       (bnd (gets physical) (\<lambda>b. bnd (lift (lock_bitmap b)) (\<lambda>b'. set_physical (\<lambda>_. b'))))"

definition physical_spinlock_release :: "unit mm_cmd" where
  "physical_spinlock_release =
     andthen (set_physical (\<lambda>b. b\<lparr>lock_id := 0\<rparr>)) (set_physical unlock_bitmap)"

section \<open>The virtual memory manager\<close>

definition set_virtual :: "(Bitmap \<Rightarrow> Bitmap) \<Rightarrow> unit mm_cmd" where
  "set_virtual f = modify (\<lambda>s. s\<lparr>virt := f (virt s)\<rparr>)"

definition virtual_allocate :: "int \<Rightarrow> nat mm_cmd" where
  "virtual_allocate pages =
     bnd (physical_allocate pages) (\<lambda>phys. bnd (gets hhdmOffset) (\<lambda>h. ret (size_t (phys + h))))"

definition virtual_to_physical :: "nat \<Rightarrow> nat mm_cmd" where
  "virtual_to_physical pointer = bnd (gets hhdmOffset) (\<lambda>h. ret (sub_t pointer h))"

definition virtual_free :: "nat \<Rightarrow> int \<Rightarrow> bool mm_cmd" where
  "virtual_free ptr pages =
     bnd (virtual_to_physical ptr) (\<lambda>phys.
     if phys = 0 then fail Halted
     else andthen (physical_free phys pages) (ret True))"

definition size_t_to_int :: "nat \<Rightarrow> int" where
  "size_t_to_int n = (let m = int n mod 2 ^ 32 in if m < 2 ^ 31 then m else m - 2 ^ 32)"

definition virtual_memory_manager_initialize :: "nat \<Rightarrow> limine_memmap_entry list \<Rightarrow> nat \<Rightarrow> unit mm_cmd" where
  "virtual_memory_manager_initialize memory_map_Total entries hhdm =
     andthen (modify (\<lambda>s. s\<lparr>hhdmOffset := hhdm\<rparr>))
     (let targetPosition = size_t (ceil_t (sub_t (sub_t hhdm memory_map_Total) VMM_POS_ENSURE) PAGE_SIZE * PAGE_SIZE);
          blocks = ceil_t memory_map_Total BLOCK_SIZE; bytes = ceil_t blocks 8;
          pagesRequired = ceil_t bytes BLOCK_SIZE
      in andthen (set_virtual (\<lambda>b. b\<lparr>ready := False, mem_start := targetPosition,
             BitmapSizeInBlocks := blocks, BitmapSizeInBytes := bytes\<rparr>))
         (bnd (virtual_allocate (size_t_to_int pagesRequired)) (\<lambda>at.
          andthen (modify (\<lambda>s. s\<lparr>virt_at := at\<rparr>))
          (andthen (set_virtual (\<lambda>b. b\<lparr>bm_bytes := replicate bytes 0\<rparr>))
            (set_virtual (\<lambda>b. b\<lparr>ready := True\<rparr>))))))"

definition virtual_spinlock_acquire :: "unit mm_cmd" where
  "virtual_spinlock_acquire =
     andthen (set_virtual (\<lambda>b. b\<lparr>lock_id := 2\<rparr>))
       (andthen (bnd (gets virt) (\<lambda>b. bnd (lift (lock_bitmap b)) (\<lambda>b'. set_virtual (\<lambda>_. b'))))
         physical_spinlock_acquire)"

definition virtual_spinlock_release :: "unit mm_cmd" where
  "virtual_spinlock_release =
     andthen (set_virtual (\<lambda>b. b\<lparr>lock_id := 0\<rparr>))
       (andthen (set_virtual unlock_bitmap) physical_spinlock_release)"

definition memory_initialize :: "Bootloader \<Rightarrow> unit mm_cmd" where
  "memory_initialize bootloader =
     andthen (physical_memory_manager_initialize (mmTotal bootloader) (mmEntries bootloader) (boot_hhdmOffset bootloader))
       (virtual_memory_manager_initialize (mmTotal bootloader) (mmEntries bootloader) (boot_hhdmOffset bootloader))"


section \<open>Marking regions\<close>

text \<open>
  The blocks an entry of the map stands for: \<open>free_blocks\<close> are released by \<^verbatim>\<open>mark_region\<close> when
  the entry is usable, \<open>taken_blocks\<close> are marked when it is not. \<open>map_fits n\<close> is what the
  marking relies on: usable entries are aligned to pages, which the boot protocol promises,
  and every entry ends below block \<open>n\<close> of the bitmap.
\<close>

definition free_blocks :: "limine_memmap_entry \<Rightarrow> nat set" where
  "free_blocks e = {me_base e div BLOCK_SIZE ..< me_base e div BLOCK_SIZE + me_length e div BLOCK_SIZE}"

definition taken_blocks :: "nat \<Rightarrow> nat \<Rightarrow> nat set" where
  "taken_blocks base sz = {base div BLOCK_SIZE ..< base div BLOCK_SIZE + CEILING_DIVISION sz BLOCK_SIZE}"

definition usable :: "limine_memmap_entry \<Rightarrow> bool" where
  "usable e \<longleftrightarrow> me_type e = LIMINE_MEMMAP_USABLE"

definition map_fits :: "nat \<Rightarrow> limine_memmap_entry list \<Rightarrow> bool" where
  "map_fits n es \<longleftrightarrow> n * BLOCK_SIZE < 2 ^ 63 \<and>
     (\<forall>e \<in> set es. me_base e + me_length e \<le> n * BLOCK_SIZE \<and>
        (usable e \<longrightarrow> BLOCK_SIZE dvd me_base e \<and> BLOCK_SIZE dvd me_length e))"

definition same_shape :: "Bitmap \<Rightarrow> Bitmap \<Rightarrow> bool" where
  "same_shape b b' \<longleftrightarrow> length (bm_bytes b') = length (bm_bytes b) \<and> BitmapSizeInBlocks b' = BitmapSizeInBlocks b \<and>
     BitmapSizeInBytes b' = BitmapSizeInBytes b \<and> mem_start b' = mem_start b"

lemma same_shape_refl: "same_shape b b"
  by (simp add: same_shape_def)

lemma same_shape_trans: "same_shape b c \<Longrightarrow> same_shape c d \<Longrightarrow> same_shape b d"
  by (simp add: same_shape_def)

lemma BLOCK_SIZE_pos [simp]: "0 < BLOCK_SIZE"
  by (simp add: BLOCK_SIZE_def)

lemma sub_t_0: "a < 2 ^ 64 \<Longrightarrow> sub_t a 0 = a"
  by (simp add: sub_t_def size_t_def)

lemma ceil_t_small: "0 < b \<Longrightarrow> a + b \<le> 2 ^ 64 \<Longrightarrow> ceil_t a b = CEILING_DIVISION a b"
  by (simp add: ceil_t_def CEILING_DIVISION_def size_t_def)

lemma ceil_le_iff: "0 < b \<Longrightarrow> CEILING_DIVISION a b \<le> k \<longleftrightarrow> a \<le> k * b"
proof -
  assume b: "0 < b"
  have "a \<le> CEILING_DIVISION a b * b" "CEILING_DIVISION a b * b < a + b"
    by (rule CEILING_DIVISION_ge [OF b], rule CEILING_DIVISION_le [OF b])
  show ?thesis
  proof
    assume "CEILING_DIVISION a b \<le> k"
    then have "CEILING_DIVISION a b * b \<le> k * b" by (rule mult_le_mono1)
    with \<open>a \<le> CEILING_DIVISION a b * b\<close> show "a \<le> k * b" by (rule le_trans)
  next
    assume "a \<le> k * b"
    with \<open>CEILING_DIVISION a b * b < a + b\<close> have "CEILING_DIVISION a b * b < Suc k * b" by simp
    then show "CEILING_DIVISION a b \<le> k" using mult_less_cancel2 less_Suc_eq_le by blast
  qed
qed

lemma mark_blocks_run:
  assumes "s + n \<le> 8 * length (bm_bytes b)" "s + n < 2 ^ 64"
  obtains b' where "mark_blocks b s n v = Inr b'" "same_shape b b'"
    "\<And>j. j < 8 * length (bm_bytes b) \<Longrightarrow> bitmap_get b' j = (if j \<in> {s..<s + n} then v else bitmap_get b j)"
    "lastDeepFragmented b' = (if v then lastDeepFragmented b else min s (lastDeepFragmented b))"
    "lock b' = lock b"
proof
  let ?b1 = "if \<not> v \<and> s < lastDeepFragmented b then b\<lparr>lastDeepFragmented := s\<rparr> else b"
  let ?b' = "foldl (\<lambda>b i. bitmap_set b i v) ?b1 [s..<s + n]"
  show "mark_blocks b s n v = Inr ?b'" by (rule mark_blocks_ok [OF assms])
  show "same_shape b ?b'" by (simp add: same_shape_def fold_bitmap_set)
  show "lock ?b' = lock b" by (simp add: fold_bitmap_set)
  show "lastDeepFragmented ?b' = (if v then lastDeepFragmented b else min s (lastDeepFragmented b))"
    by simp
  fix j assume "j < 8 * length (bm_bytes b)"
  then show "bitmap_get ?b' j = (if j \<in> {s..<s + n} then v else bitmap_get b j)"
    using assms(1) by (subst bitmap_get_fold) auto
qed

definition marked_set :: "limine_memmap_entry \<Rightarrow> bool \<Rightarrow> nat set" where
  "marked_set e v = (if v then taken_blocks (me_base e) (me_length e) else free_blocks e)"

lemma taken_in_range:
  assumes "base + sz \<le> n * BLOCK_SIZE"
  shows "base div BLOCK_SIZE + CEILING_DIVISION sz BLOCK_SIZE \<le> n"
proof -
  have le: "base div BLOCK_SIZE * BLOCK_SIZE \<le> base" by simp
  also have "base \<le> n * BLOCK_SIZE" using assms by simp
  finally have q: "base div BLOCK_SIZE \<le> n" by simp
  have "sz \<le> (n - base div BLOCK_SIZE) * BLOCK_SIZE"
    using assms le unfolding diff_mult_distrib by linarith
  then have "CEILING_DIVISION sz BLOCK_SIZE \<le> n - base div BLOCK_SIZE"
    by (simp add: ceil_le_iff)
  with q show ?thesis by simp
qed

lemma mark_region_run:
  assumes "mem_start b = 0" "base + sz \<le> 8 * length (bm_bytes b) * BLOCK_SIZE"
    "8 * length (bm_bytes b) * BLOCK_SIZE < 2 ^ 63"
    "\<not> v \<longrightarrow> BLOCK_SIZE dvd base"
  obtains b' where "mark_region b base sz v = Inr b'" "same_shape b b'"
    "\<And>j. j < 8 * length (bm_bytes b) \<Longrightarrow> bitmap_get b' j =
       (if j \<in> {base div BLOCK_SIZE ..< base div BLOCK_SIZE +
              (if v then CEILING_DIVISION sz BLOCK_SIZE else sz div BLOCK_SIZE)} then v else bitmap_get b j)"
    "lastDeepFragmented b' = (if v then lastDeepFragmented b else min (base div BLOCK_SIZE) (lastDeepFragmented b))"
    "lock b' = lock b"
proof -
  let ?s = "base div BLOCK_SIZE" and ?c = "8 * length (bm_bytes b)"
  let ?n = "if v then CEILING_DIVISION sz BLOCK_SIZE else sz div BLOCK_SIZE"
  have "sz div BLOCK_SIZE \<le> CEILING_DIVISION sz BLOCK_SIZE"
    unfolding CEILING_DIVISION_def by (rule div_le_mono) (simp add: BLOCK_SIZE_def)
  then have range: "?s + ?n \<le> ?c"
    using taken_in_range [OF assms(2)] by auto
  have small: "base < 2 ^ 63" "?s + ?n < 2 ^ 64"
    using assms(2,3) range by (auto simp: BLOCK_SIZE_def)
  have starts: "pointer_to_block b base = ?s" "\<not> v \<Longrightarrow> pointer_to_block_roundup b base = ?s"
    using small assms(1,4) by (auto simp: pointer_to_block_def pointer_to_block_roundup_def sub_t_0 size_t_def BLOCK_SIZE_def)
  have "mark_region b base sz v = mark_blocks b ?s ?n v"
    by (simp add: mark_region_def starts)
  moreover obtain b' where "mark_blocks b ?s ?n v = Inr b'" "same_shape b b'"
    "\<And>j. j < ?c \<Longrightarrow> bitmap_get b' j = (if j \<in> {?s..<?s + ?n} then v else bitmap_get b j)"
    "lastDeepFragmented b' = (if v then lastDeepFragmented b else min ?s (lastDeepFragmented b))" "lock b' = lock b"
    using mark_blocks_run [OF range small(2), of v] by metis
  ultimately show ?thesis using that by metis
qed


section \<open>Starting the physical memory manager\<close>

lemma physical_mark_run:
  assumes "physical s = b" "mark_region b base sz v = Inr b'"
  shows "physical_mark base sz v s = Inr ((), s\<lparr>physical := b'\<rparr>)"
  using assms by (simp add: physical_mark_def set_physical_def cmd_simps)

lemma mark_entries_run:
  assumes "physical s = b" "mem_start b = 0" "map_fits (8 * length (bm_bytes b)) es" "lastDeepFragmented b = 0"
  shows "\<exists>b'. for_each (mark_entry v) es s = Inr ((), s\<lparr>physical := b'\<rparr>) \<and>
    same_shape b b' \<and> lastDeepFragmented b' = 0 \<and> lock b' = lock b \<and>
    (\<forall>j < 8 * length (bm_bytes b). bitmap_get b' j =
       (if \<exists>e \<in> set es. usable e \<noteq> v \<and> j \<in> marked_set e v then v else bitmap_get b j))"
  using assms
proof (induction es arbitrary: s b)
  case Nil
  have "s = s\<lparr>physical := physical s\<rparr>" by simp
  with Nil show ?case by (intro exI [of _ "physical s"]) (simp add: cmd_simps same_shape_refl)
next
  case (Cons e es)
  have tl: "map_fits (8 * length (bm_bytes b)) es"
    using Cons.prems(3) by (simp add: map_fits_def)
  show ?case
  proof (cases "usable e \<noteq> v")
    case False
    then show ?thesis
      using Cons.IH [OF Cons.prems(1,2) tl Cons.prems(4)] by (simp add: cmd_simps usable_def mark_entry_def)
  next
    case True
    have fit: "me_base e + me_length e \<le> 8 * length (bm_bytes b) * BLOCK_SIZE"
      "8 * length (bm_bytes b) * BLOCK_SIZE < 2 ^ 63" "\<not> v \<longrightarrow> BLOCK_SIZE dvd me_base e"
      using Cons.prems(3) True by (auto simp: map_fits_def)
    have marked: "marked_set e v = {me_base e div BLOCK_SIZE ..< me_base e div BLOCK_SIZE +
        (if v then CEILING_DIVISION (me_length e) BLOCK_SIZE else me_length e div BLOCK_SIZE)}"
      by (simp add: marked_set_def taken_blocks_def free_blocks_def)
    obtain b1 where b1: "mark_region b (me_base e) (me_length e) v = Inr b1" "same_shape b b1"
      "\<And>j. j < 8 * length (bm_bytes b) \<Longrightarrow> bitmap_get b1 j = (if j \<in> marked_set e v then v else bitmap_get b j)"
      "lastDeepFragmented b1 = 0" "lock b1 = lock b"
      unfolding marked by (rule mark_region_run [OF Cons.prems(2) fit]) (auto simp: Cons.prems(4))
    have shape: "mem_start b1 = 0" "length (bm_bytes b1) = length (bm_bytes b)"
      using b1(2) Cons.prems(2) by (simp_all add: same_shape_def)
    have step: "mark_entry v e s = Inr ((), s\<lparr>physical := b1\<rparr>)"
      using True physical_mark_run [OF Cons.prems(1) b1(1)] by (simp add: mark_entry_def usable_def)
    from Cons.IH [of "s\<lparr>physical := b1\<rparr>" b1] shape tl b1(4) obtain b' where
      b': "for_each (mark_entry v) es (s\<lparr>physical := b1\<rparr>) =
             Inr ((), s\<lparr>physical := b'\<rparr>)" "same_shape b1 b'" "lastDeepFragmented b' = 0" "lock b' = lock b1"
        "\<forall>j < 8 * length (bm_bytes b). bitmap_get b' j =
          (if \<exists>e \<in> set es. usable e \<noteq> v \<and> j \<in> marked_set e v then v else bitmap_get b1 j)"
      by auto
    show ?thesis
      using True b'(3,4) b1(5)
      by (intro exI [of _ b']) (auto simp: cmd_simps step b'(1,5) b1(3) same_shape_trans [OF b1(2) b'(2)])
  qed
qed

lemma all_used: "j < 8 * n \<Longrightarrow> bitmap_get (b\<lparr>bm_bytes := replicate n 255\<rparr>) j"
proof -
  assume "j < 8 * n"
  then have "replicate n (255 :: byte) ! (j div 8) = 255" by simp
  moreover have "bit (255 :: byte) (j mod 8)"
  proof -
    have eq: "(255 :: byte) = mask 8" by (simp add: mask_eq_exp_minus_1)
    show ?thesis unfolding eq by (simp add: bit_mask_iff)
  qed
  ultimately show ?thesis by (simp add: bitmap_get_generic bitmapGenericGet_bit)
qed

lemma find_entry:
  assumes "\<exists>e \<in> set es. usable e \<and> sz \<le> me_length e"
  obtains m where "find (\<lambda>e. \<not> (me_type e \<noteq> LIMINE_MEMMAP_USABLE \<or> me_length e < sz)) es = Some m"
    "m \<in> set es" "usable m" "sz \<le> me_length m"
proof (cases "find (\<lambda>e. \<not> (me_type e \<noteq> LIMINE_MEMMAP_USABLE \<or> me_length e < sz)) es")
  case None
  with assms show ?thesis by (force simp: find_None_iff usable_def)
next
  case (Some m)
  then have "m \<in> set es" "usable m" "sz \<le> me_length m"
    by (auto simp: find_Some_iff usable_def)
  with Some show ?thesis by (rule that)
qed

text \<open>
  \<open>available es\<close> is the specification of the memory the manager may hand out: the blocks of
  usable entries that no other entry claims.
\<close>

definition available :: "limine_memmap_entry list \<Rightarrow> nat set" where
  "available es = (\<Union>e \<in> {e \<in> set es. usable e}. free_blocks e) -
     (\<Union>e \<in> {e \<in> set es. \<not> usable e}. taken_blocks (me_base e) (me_length e))"

lemma pmm_init_run:
  assumes "bl = ceil_t tot BLOCK_SIZE" "sz = ceil_t bl 8" "map_fits (8 * sz) es"
    "\<exists>e \<in> set es. usable e \<and> sz \<le> me_length e"
    "mem_start (physical s) = 0" "lastDeepFragmented (physical s) = 0" "bl * BLOCK_SIZE < 2 ^ 63"
  shows "\<exists>m b. physical_memory_manager_initialize tot es hhdm s =
      Inr ((), s\<lparr>physical := b, physical_at := size_t (me_base m + hhdm)\<rparr>) \<and>
    m \<in> set es \<and> usable m \<and> bitmap_ok b \<and> ready b \<and> BitmapSizeInBlocks b = bl \<and> mem_start b = 0 \<and>
    lock b = lock (physical s) \<and>
    (\<forall>j < bl. bitmap_get b j = (j \<notin> available es - taken_blocks (me_base m) sz))"
proof -
  let ?b0 = "(physical s)\<lparr>ready := False, BitmapSizeInBlocks := bl, BitmapSizeInBytes := sz\<rparr>"
  let ?b1 = "?b0\<lparr>bm_bytes := replicate sz 255\<rparr>"
  obtain m where m: "find (\<lambda>e. \<not> (me_type e \<noteq> LIMINE_MEMMAP_USABLE \<or> me_length e < sz)) es = Some m"
    "m \<in> set es" "usable m" "sz \<le> me_length m" by (rule find_entry [OF assms(4)])
  let ?s1 = "s\<lparr>physical_at := size_t (me_base m + hhdm), physical := ?b1\<rparr>"
  have len: "8 * length (bm_bytes (physical ?s1)) = 8 * sz" by simp
  from mark_entries_run [of ?s1 ?b1 es False] assms(3,5,6) obtain b2 where
    b2: "for_each (mark_entry False) es ?s1 = Inr ((), ?s1\<lparr>physical := b2\<rparr>)"
      "same_shape ?b1 b2" "lastDeepFragmented b2 = 0" "lock b2 = lock (physical s)"
      "\<forall>j < 8 * sz. bitmap_get b2 j = (if \<exists>e \<in> set es. usable e \<noteq> False \<and> j \<in> marked_set e False then False else bitmap_get ?b1 j)"
    by auto
  have l2: "length (bm_bytes b2) = sz" "mem_start b2 = 0" using b2(2) assms(5) by (simp_all add: same_shape_def)
  from mark_entries_run [of "?s1\<lparr>physical := b2\<rparr>" b2 es True] assms(3) l2 b2(3) obtain b3 where
    b3: "for_each (mark_entry True) es (?s1\<lparr>physical := b2\<rparr>) = Inr ((), ?s1\<lparr>physical := b3\<rparr>)"
      "same_shape b2 b3" "lastDeepFragmented b3 = 0" "lock b3 = lock b2"
      "\<forall>j < 8 * sz. bitmap_get b3 j = (if \<exists>e \<in> set es. usable e \<noteq> True \<and> j \<in> marked_set e True then True else bitmap_get b2 j)"
    by auto
  have l3: "length (bm_bytes b3) = sz" "mem_start b3 = 0" using b3(2) l2 by (simp_all add: same_shape_def)
  have fit: "me_base m + sz \<le> 8 * length (bm_bytes b3) * BLOCK_SIZE" "8 * length (bm_bytes b3) * BLOCK_SIZE < 2 ^ 63"
    using assms(3) m(2,4) l3(1) by (auto simp: map_fits_def)
  obtain b4 where b4: "mark_region b3 (me_base m) sz True = Inr b4" "same_shape b3 b4"
    "\<And>j. j < 8 * sz \<Longrightarrow> bitmap_get b4 j = (if j \<in> taken_blocks (me_base m) sz then True else bitmap_get b3 j)"
    "lastDeepFragmented b4 = 0" "lock b4 = lock b3"
    using mark_region_run [OF l3(2) fit, of True] b3(3) l3(1) unfolding taken_blocks_def by auto
  let ?b5 = "b4\<lparr>ready := True\<rparr>"
  have run: "physical_memory_manager_initialize tot es hhdm s =
      Inr ((), s\<lparr>physical := ?b5, physical_at := size_t (me_base m + hhdm)\<rparr>)"
    using b2(1) b3(1) physical_mark_run [OF _ b4(1), of "?s1\<lparr>physical := b3\<rparr>"]
    unfolding physical_memory_manager_initialize_def
    by (simp add: cmd_simps set_physical_def m(1) [simplified] flip: assms(1,2))
  have blocks: "bl \<le> 8 * sz"
    using CEILING_DIVISION_ge [of 8 bl] assms(2,7) by (simp add: ceil_t_small BLOCK_SIZE_def mult.commute)
  have "bitmap_get ?b5 j = (j \<notin> available es - taken_blocks (me_base m) sz)" if "j < bl" for j
    using that blocks b2(5) b3(5) b4(3) all_used [of j sz ?b0]
    by (auto simp: available_def marked_set_def bitmap_get_def)
  moreover have "BitmapSizeInBlocks ?b5 = bl" "mem_start ?b5 = 0" "length (bm_bytes ?b5) = sz" "lastDeepFragmented ?b5 = 0"
    using b4(2,4) b3(2) b2(2) l3 by (simp_all add: same_shape_def)
  moreover from this have "bitmap_ok ?b5"
    using blocks assms(7) by (simp add: bitmap_ok_def)
  ultimately show ?thesis
    using run m(2,3) b4(5) b3(4) b2(4) by (intro exI [of _ m] exI [of _ ?b5]) auto
qed


section \<open>Allocation through the managers\<close>

definition run_allocates :: "Bitmap \<Rightarrow> nat \<Rightarrow> nat \<Rightarrow> Bitmap \<Rightarrow> bool" where
  "run_allocates b n r b' \<longleftrightarrow> free_run b r n \<and> (\<forall>q < r. \<not> free_run b q n) \<and> bitmap_ok b' \<and>
     BitmapSizeInBlocks b' = BitmapSizeInBlocks b \<and> mem_start b' = mem_start b \<and>
     (\<forall>j < BitmapSizeInBlocks b. bitmap_get b' j = (bitmap_get b j \<or> r \<le> j \<and> j < r + n))"

lemma int_to_size_t_nat [simp]: "n < 2 ^ 64 \<Longrightarrow> int_to_size_t (int n) = n"
  by (simp add: int_to_size_t_def)

lemma physical_allocate_run:
  assumes "bitmap_ok (physical s)" "mem_start (physical s) = 0" "0 < n" "n < 2 ^ 31"
  shows "if \<exists>q. free_run (physical s) q n
    then \<exists>r b'. run_allocates (physical s) n r b' \<and>
      physical_allocate (int n) s = (if r = 0 then Inl Halted else Inr (r * BLOCK_SIZE, s\<lparr>physical := b'\<rparr>))
    else physical_allocate (int n) s = Inl Halted"
proof -
  let ?b = "physical s"
  have n: "int_to_size_t (int n) = n"
    by (rule int_to_size_t_nat) (rule less_trans [OF assms(4)], simp)
  show ?thesis
  proof (cases "\<exists>q. free_run ?b q n")
    case True
    then obtain q where "free_run ?b q n" by blast
    from bitmap_allocate_run [OF assms(1,3) this] obtain r b' where
      r: "bitmap_allocate ?b n = Inr (r * BLOCK_SIZE, b')" "run_allocates ?b n r b'"
      unfolding run_allocates_def assms(2) by auto
    then have "physical_allocate (int n) s = (if r = 0 then Inl Halted else Inr (r * BLOCK_SIZE, s\<lparr>physical := b'\<rparr>))"
      using assms(3) by (simp add: physical_allocate_def set_physical_def cmd_simps n BLOCK_SIZE_def)
    with r(2) True show ?thesis by auto
  next
    case False
    obtain r b1 where fr: "find_free_region ?b n = (r, b1)"
      by (cases "find_free_region ?b n")
    with find_free_region_spec [OF assms(1,3) fr] False have "r = INVALID_BLOCK" "b1 = ?b" by blast+
    with fr assms(3) have "bitmap_allocate ?b n = Inr (0, ?b)"
      by (simp add: bitmap_allocate_def)
    then have "physical_allocate (int n) s = Inl Halted"
      using assms(3) by (simp add: physical_allocate_def set_physical_def cmd_simps n)
    with False show ?thesis by simp
  qed
qed

lemma release_run:
  assumes "bitmap_ok b" "mem_start b = 0" "r + n \<le> BitmapSizeInBlocks b" "0 < n"
  obtains b' where "mark_region b (r * BLOCK_SIZE) (n * BLOCK_SIZE) False = Inr b'" "bitmap_ok b'" "same_shape b b'"
    "\<And>j. j < BitmapSizeInBlocks b \<Longrightarrow> bitmap_get b' j = (bitmap_get b j \<and> \<not> (r \<le> j \<and> j < r + n))"
proof -
  have cap: "BitmapSizeInBlocks b \<le> 8 * length (bm_bytes b)" "BitmapSizeInBlocks b * BLOCK_SIZE < 2 ^ 64"
    using assms(1,2) by (simp_all add: bitmap_ok_def)
  have "(r + n) * BLOCK_SIZE \<le> BitmapSizeInBlocks b * BLOCK_SIZE"
    using assms(3) by (rule mult_le_mono1)
  with cap(2) have small: "r * BLOCK_SIZE + n * BLOCK_SIZE < 2 ^ 64" "r + n < 2 ^ 64"
    by (simp_all add: algebra_simps) (simp_all add: BLOCK_SIZE_def)
  have "r * BLOCK_SIZE + BLOCK_SIZE - 1 < 2 ^ 64"
    using small(1) assms(4) by (simp add: BLOCK_SIZE_def)
  then have "pointer_to_block_roundup b (r * BLOCK_SIZE) = r"
    using small assms(2) by (simp add: pointer_to_block_roundup_def sub_t_0 size_t_def) (simp add: BLOCK_SIZE_def)
  then have mk: "mark_region b (r * BLOCK_SIZE) (n * BLOCK_SIZE) False = mark_blocks b r n False"
    by (simp add: mark_region_def)
  obtain b' where b': "mark_blocks b r n False = Inr b'" "same_shape b b'"
    "\<And>j. j < 8 * length (bm_bytes b) \<Longrightarrow> bitmap_get b' j = (if j \<in> {r..<r + n} then False else bitmap_get b j)"
    "lastDeepFragmented b' = min r (lastDeepFragmented b)"
    using mark_blocks_run [of r n b False] assms(3) cap(1) small(2) by (metis le_trans)
  have get: "bitmap_get b' j = (bitmap_get b j \<and> \<not> (r \<le> j \<and> j < r + n))" if "j < BitmapSizeInBlocks b" for j
    using that cap(1) b'(3) [of j] by auto
  have "bitmap_ok b'"
    using assms(1) b'(2,4) get by (auto simp: bitmap_ok_def same_shape_def)
  with mk b'(1,2) get show ?thesis using that by metis
qed

text \<open>
  The managers in use: pages are allocated and released through \<^verbatim>\<open>virtual_allocate\<close> and
  \<^verbatim>\<open>virtual_free\<close>, in any order; \<open>live\<close> lists the allocations not yet released. \<open>span h (p, n)\<close>
  is the set of page frames behind the address \<open>p\<close> of an allocation of \<open>n\<close> pages.
\<close>

inductive vmm_reach :: "mm \<Rightarrow> mm \<Rightarrow> (nat \<times> nat) list \<Rightarrow> bool" for s0 where
  vmm_start: "vmm_reach s0 s0 []"
| vmm_alloc: "vmm_reach s0 s live \<Longrightarrow> 0 < n \<Longrightarrow> n < 2 ^ 31 \<Longrightarrow>
    virtual_allocate (int n) s = Inr (p, s') \<Longrightarrow> vmm_reach s0 s' ((p, n) # live)"
| vmm_free: "vmm_reach s0 s live \<Longrightarrow> (p, n) \<in> set live \<Longrightarrow>
    virtual_free p (int n) s = Inr (r, s') \<Longrightarrow> vmm_reach s0 s' (remove1 (p, n) live)"

definition span :: "nat \<Rightarrow> nat \<times> nat \<Rightarrow> nat set" where
  "span h x = {sub_t (fst x) h div BLOCK_SIZE ..< sub_t (fst x) h div BLOCK_SIZE + snd x}"

definition vmm_inv :: "mm \<Rightarrow> mm \<Rightarrow> (nat \<times> nat) list \<Rightarrow> bool" where
  "vmm_inv s0 s live \<longleftrightarrow> bitmap_ok (physical s) \<and> mem_start (physical s) = 0 \<and> hhdmOffset s = hhdmOffset s0 \<and>
     BitmapSizeInBlocks (physical s) = BitmapSizeInBlocks (physical s0) \<and> distinct live \<and>
     (\<forall>x \<in> set live. 0 < snd x \<and> (\<exists>r. 0 < r \<and> sub_t (fst x) (hhdmOffset s0) = r * BLOCK_SIZE) \<and>
        (\<forall>j \<in> span (hhdmOffset s0) x. j < BitmapSizeInBlocks (physical s0) \<and> \<not> bitmap_get (physical s0) j)) \<and>
     (\<forall>x \<in> set live. \<forall>y \<in> set live. x \<noteq> y \<longrightarrow> span (hhdmOffset s0) x \<inter> span (hhdmOffset s0) y = {}) \<and>
     (\<forall>j < BitmapSizeInBlocks (physical s0). bitmap_get (physical s) j =
        (bitmap_get (physical s0) j \<or> (\<exists>x \<in> set live. j \<in> span (hhdmOffset s0) x)))"

lemma sub_t_add: "a < 2 ^ 64 \<Longrightarrow> sub_t (size_t (a + h)) h = a"
proof -
  assume a: "a < 2 ^ 64"
  have "sub_t (size_t (a + h)) h = (a + h + (2 ^ 64 - h mod 2 ^ 64)) mod 2 ^ 64"
    unfolding sub_t_def size_t_def by (rule mod_add_left_eq)
  also have "a + h + (2 ^ 64 - h mod 2 ^ 64) = a + (h div 2 ^ 64 + 1) * 2 ^ 64"
  proof -
    have "h = h div 2 ^ 64 * 2 ^ 64 + h mod 2 ^ 64" by (simp only: div_mult_mod_eq)
    moreover have "h mod 2 ^ 64 < 2 ^ 64" by simp
    ultimately show ?thesis unfolding add_mult_distrib by linarith
  qed
  also have "(a + (h div 2 ^ 64 + 1) * 2 ^ 64) mod 2 ^ 64 = a"
    using a by (simp only: mod_mult_self1 mod_less)
  finally show ?thesis .
qed


lemma vmm_inv_facts:
  assumes "vmm_inv s0 s live"
  shows "bitmap_ok (physical s)" "mem_start (physical s) = 0" "hhdmOffset s = hhdmOffset s0"
    "BitmapSizeInBlocks (physical s) = BitmapSizeInBlocks (physical s0)" "distinct live"
    "x \<in> set live \<Longrightarrow> 0 < snd x" "x \<in> set live \<Longrightarrow> \<exists>r. 0 < r \<and> sub_t (fst x) (hhdmOffset s0) = r * BLOCK_SIZE"
    "x \<in> set live \<Longrightarrow> j \<in> span (hhdmOffset s0) x \<Longrightarrow> j < BitmapSizeInBlocks (physical s0) \<and> \<not> bitmap_get (physical s0) j"
    "x \<in> set live \<Longrightarrow> y \<in> set live \<Longrightarrow> x \<noteq> y \<Longrightarrow> span (hhdmOffset s0) x \<inter> span (hhdmOffset s0) y = {}"
    "j < BitmapSizeInBlocks (physical s0) \<Longrightarrow> bitmap_get (physical s) j =
       (bitmap_get (physical s0) j \<or> (\<exists>x \<in> set live. j \<in> span (hhdmOffset s0) x))"
  using assms unfolding vmm_inv_def by blast+

lemma vmm_inv_alloc:
  assumes inv: "vmm_inv s0 s live" and n: "0 < n" "n < 2 ^ 31" and run: "virtual_allocate (int n) s = Inr (p, s')"
  shows "vmm_inv s0 s' ((p, n) # live)"
proof -
  let ?h = "hhdmOffset s0" and ?N = "BitmapSizeInBlocks (physical s0)"
  note f = vmm_inv_facts [OF inv]
  obtain phys where ph: "physical_allocate (int n) s = Inr (phys, s')" "p = size_t (phys + hhdmOffset s')"
    using run by (auto simp: virtual_allocate_def cmd_simps split: sum.splits)
  obtain r b' where r: "run_allocates (physical s) n r b'" "0 < r" "phys = r * BLOCK_SIZE" "s' = s\<lparr>physical := b'\<rparr>"
    using physical_allocate_run [OF f(1,2) n] ph(1) by (auto split: if_splits)
  note b' = r(1) [unfolded run_allocates_def]
  have "r * BLOCK_SIZE < 2 ^ 64"
    using bitmap_ok_bounds(3) [OF f(1)] b' f(2) by force
  then have sub: "sub_t p ?h = r * BLOCK_SIZE"
    using ph(2) r(3,4) f(3) by (simp add: sub_t_add)
  then have sp: "span ?h (p, n) = {r..<r + n}" by (simp add: span_def)
  have fresh: "j < ?N \<and> \<not> bitmap_get (physical s0) j \<and> (\<forall>x \<in> set live. j \<notin> span ?h x)" if "j \<in> {r..<r + n}" for j
  proof -
    have j: "j < ?N" "\<not> bitmap_get (physical s) j"
      using that b' f(4) by (auto simp: free_run_def)
    with f(10) [OF j(1)] show ?thesis by blast
  qed
  have "r \<in> span ?h (p, n)" unfolding sp using n(1) by simp
  then have new: "(p, n) \<notin> set live" "\<forall>x \<in> set live. span ?h x \<inter> span ?h (p, n) = {}"
    using fresh unfolding sp [symmetric] by blast+
  show ?thesis
    unfolding vmm_inv_def
  proof (intro conjI)
    show "\<forall>x \<in> set ((p, n) # live). 0 < snd x \<and> (\<exists>r. 0 < r \<and> sub_t (fst x) ?h = r * BLOCK_SIZE) \<and>
        (\<forall>j \<in> span ?h x. j < ?N \<and> \<not> bitmap_get (physical s0) j)"
      using f(6-8) n(1) sub r(2) fresh unfolding sp [symmetric] by auto
    show "\<forall>x \<in> set ((p, n) # live). \<forall>y \<in> set ((p, n) # live). x \<noteq> y \<longrightarrow> span ?h x \<inter> span ?h y = {}"
      using f(9) new(2) by (auto simp: Int_commute)
    show "\<forall>j < ?N. bitmap_get (physical s') j =
        (bitmap_get (physical s0) j \<or> (\<exists>x \<in> set ((p, n) # live). j \<in> span ?h x))"
      using f(4,10) b' sp r(4) by auto
  qed (use b' f(2-5) r(4) new(1) in auto)
qed

lemma vmm_free_run:
  assumes inv: "vmm_inv s0 s live" and x: "(p, n) \<in> set live" "n < 2 ^ 19"
  shows "\<exists>s'. virtual_free p (int n) s = Inr (True, s') \<and> vmm_inv s0 s' (remove1 (p, n) live)"
proof -
  let ?h = "hhdmOffset s0" and ?N = "BitmapSizeInBlocks (physical s0)"
  note f = vmm_inv_facts [OF inv]
  obtain r where r: "0 < r" "sub_t p ?h = r * BLOCK_SIZE" using f(7) [OF x(1)] by auto
  then have sp: "span ?h (p, n) = {r..<r + n}" by (simp add: span_def)
  have n: "0 < n" using f(6) [OF x(1)] by simp
  have "r + n - 1 < ?N" using f(8) [OF x(1), of "r + n - 1"] n unfolding sp by auto
  then have bound: "r + n \<le> BitmapSizeInBlocks (physical s)" using f(4) by simp
  obtain b' where b': "mark_region (physical s) (r * BLOCK_SIZE) (n * BLOCK_SIZE) False = Inr b'" "bitmap_ok b'"
    "same_shape (physical s) b'"
    "\<And>j. j < BitmapSizeInBlocks (physical s) \<Longrightarrow> bitmap_get b' j = (bitmap_get (physical s) j \<and> \<not> (r \<le> j \<and> j < r + n))"
    using release_run [OF f(1,2) bound n] by metis
  have conv: "int_to_size_t (int n * int BLOCK_SIZE) = n * BLOCK_SIZE"
    using x(2) by (simp add: BLOCK_SIZE_def int_to_size_t_def nat_mod_distrib nat_mult_distrib)
  have run: "virtual_free p (int n) s = Inr (True, s\<lparr>physical := b'\<rparr>)"
    using r f(3) x(2) physical_mark_run [OF refl b'(1)]
    by (simp add: virtual_free_def virtual_to_physical_def physical_free_def cmd_simps conv) (simp add: BLOCK_SIZE_def)
  have rest: "set (remove1 (p, n) live) = set live - {(p, n)}" using f(5) by simp
  have "vmm_inv s0 (s\<lparr>physical := b'\<rparr>) (remove1 (p, n) live)"
    unfolding vmm_inv_def rest
  proof (intro conjI)
    have gone: "j \<notin> span ?h y" if "y \<in> set live - {(p, n)}" "r \<le> j" "j < r + n" for y j
    proof -
      have "span ?h (p, n) \<inter> span ?h y = {}" using f(9) [OF x(1), of y] that(1) by auto
      moreover have "j \<in> span ?h (p, n)" unfolding sp using that(2,3) by simp
      ultimately show ?thesis by blast
    qed
    have "bitmap_get b' j = (bitmap_get (physical s0) j \<or> (\<exists>x \<in> set live - {(p, n)}. j \<in> span ?h x))" if "j < ?N" for j
    proof (cases "r \<le> j \<and> j < r + n")
      case True
      then show ?thesis using b'(4) f(4) that gone f(8) [OF x(1), of j] sp by auto
    next
      case False
      then have "j \<notin> span ?h (p, n)" unfolding sp by simp
      with False show ?thesis using b'(4) f(4) f(10) [OF that] that by auto
    qed
    then show "\<forall>j < ?N. bitmap_get (physical (s\<lparr>physical := b'\<rparr>)) j =
        (bitmap_get (physical s0) j \<or> (\<exists>x \<in> set live - {(p, n)}. j \<in> span ?h x))" by simp
  qed (use b'(2,3) f in \<open>auto simp: same_shape_def\<close>)
  with run show ?thesis by blast
qed

lemma virtual_free_int: "virtual_free p (int n) s = Inr (r, s') \<Longrightarrow> n < 2 ^ 19"
  by (auto simp: virtual_free_def virtual_to_physical_def physical_free_def cmd_simps BLOCK_SIZE_def split: if_splits sum.splits)

lemma vmm_reach_inv:
  assumes "vmm_reach s0 s live" "bitmap_ok (physical s0)" "mem_start (physical s0) = 0"
  shows "vmm_inv s0 s live"
  using assms
proof (induction rule: vmm_reach.induct)
  case vmm_start
  then show ?case by (simp add: vmm_inv_def)
next
  case (vmm_alloc s live n p s')
  then show ?case using vmm_inv_alloc by blast
next
  case (vmm_free s live p n r s')
  from vmm_free_run [of s0 s live p n] vmm_free virtual_free_int [OF vmm_free.hyps(3)] show ?case by auto
qed


lemma mark_region_overrun:
  assumes "mem_start b = 0" "base + sz < 2 ^ 63" "8 * length (bm_bytes b) * BLOCK_SIZE < base + sz"
    "BLOCK_SIZE dvd base" "BLOCK_SIZE dvd sz" "0 < sz"
  shows "mark_region b base sz False = Inl Out_of_bounds"
proof -
  obtain q k where qk: "base = q * BLOCK_SIZE" "sz = k * BLOCK_SIZE"
    using assms(4,5) unfolding dvd_def by (metis mult.commute)
  have "8 * length (bm_bytes b) * BLOCK_SIZE < (q + k) * BLOCK_SIZE"
    using assms(3) unfolding qk add_mult_distrib .
  then have out: "8 * length (bm_bytes b) < q + k" by simp
  have "pointer_to_block_roundup b base = q"
    using assms(1,2) unfolding qk by (simp add: pointer_to_block_roundup_def sub_t_0 size_t_def BLOCK_SIZE_def)
  moreover have "size_t (q + k) = q + k" "q < q + k"
    using assms(2,6) unfolding qk by (auto simp: size_t_def BLOCK_SIZE_def)
  ultimately show ?thesis
    using out unfolding qk by (simp add: mark_region_def mark_blocks_def Let_def)
qed

lemma mark_entries_overrun:
  assumes "physical s = b" "mem_start b = 0" "8 * length (bm_bytes b) * BLOCK_SIZE < 2 ^ 63"
    "\<forall>e \<in> set es. usable e \<longrightarrow> BLOCK_SIZE dvd me_base e \<and> BLOCK_SIZE dvd me_length e \<and> 0 < me_length e \<and>
       me_base e + me_length e < 2 ^ 63"
    "\<exists>e \<in> set es. usable e \<and> 8 * length (bm_bytes b) * BLOCK_SIZE < me_base e + me_length e"
  shows "for_each (mark_entry False) es s = Inl Out_of_bounds"
  using assms
proof (induction es arbitrary: s b)
  case (Cons e es)
  show ?case
  proof (cases "usable e")
    case False
    then show ?thesis
      using Cons.IH [OF Cons.prems(1,2,3)] Cons.prems(4,5) by (simp add: cmd_simps usable_def mark_entry_def [of _ e])
  next
    case True
    then have e: "BLOCK_SIZE dvd me_base e" "BLOCK_SIZE dvd me_length e" "0 < me_length e" "me_base e + me_length e < 2 ^ 63"
      using Cons.prems(4) by auto
    show ?thesis
    proof (cases "8 * length (bm_bytes b) * BLOCK_SIZE < me_base e + me_length e")
      case over: True
      from mark_region_overrun [OF Cons.prems(2) e(4) over e(1-3)] True Cons.prems(1) show ?thesis
        by (simp add: cmd_simps mark_entry_def usable_def physical_mark_def)
    next
      case False
      then have "me_base e + me_length e \<le> 8 * length (bm_bytes b) * BLOCK_SIZE" by simp
      from mark_region_run [OF Cons.prems(2) this Cons.prems(3), of False] e(1) obtain b1 where
        b1: "mark_region b (me_base e) (me_length e) False = Inr b1" "same_shape b b1" by metis
      have "for_each (mark_entry False) es (s\<lparr>physical := b1\<rparr>) = Inl Out_of_bounds"
        using Cons.IH [of "s\<lparr>physical := b1\<rparr>" b1] Cons.prems(2-5) b1(2) False by (auto simp: same_shape_def)
      moreover have "mark_entry False e s = Inr ((), s\<lparr>physical := b1\<rparr>)"
        using True physical_mark_run [OF Cons.prems(1) b1(1)] by (simp add: mark_entry_def usable_def)
      ultimately show ?thesis by (simp add: cmd_simps)
    qed
  qed
qed simp

section \<open>Properties\<close>

text \<open>
  C16. Starting the physical memory manager: when the memory map fits the bitmap, every page frame
  that lies in a usable entry and in no other entry is free afterwards, except those that
  hold the bitmap itself, and every other page frame is marked as used; the bitmap is well
  formed, ready, and lies in a usable entry.
\<close>

theorem pmm_init_available:
  assumes "bl = ceil_t tot BLOCK_SIZE" "sz = ceil_t bl 8" "map_fits (8 * sz) es"
    "\<exists>e \<in> set es. usable e \<and> sz \<le> me_length e"
    "mem_start (physical s) = 0" "lastDeepFragmented (physical s) = 0" "bl * BLOCK_SIZE < 2 ^ 63"
  shows "\<exists>m b. physical_memory_manager_initialize tot es hhdm s =
      Inr ((), s\<lparr>physical := b, physical_at := size_t (me_base m + hhdm)\<rparr>) \<and>
    m \<in> set es \<and> usable m \<and> bitmap_ok b \<and> ready b \<and> BitmapSizeInBlocks b = bl \<and> mem_start b = 0 \<and>
    (\<forall>j < bl. bitmap_get b j = (j \<notin> available es - taken_blocks (me_base m) sz))"
  using pmm_init_run [OF assms] by blast

definition demo_entries :: "limine_memmap_entry list" where
  "demo_entries =
    [\<lparr>me_base = 0, me_length = 0x8000, me_type = LIMINE_MEMMAP_USABLE\<rparr>,
     \<lparr>me_base = 0x8000, me_length = 0x2000, me_type = LIMINE_MEMMAP_RESERVED\<rparr>,
     \<lparr>me_base = 0xa000, me_length = 0x6000, me_type = LIMINE_MEMMAP_USABLE\<rparr>]"

definition static_bitmap :: Bitmap where
  "static_bitmap = \<lparr>bm_bytes = [], BitmapSizeInBlocks = 0, BitmapSizeInBytes = 0, lastDeepFragmented = 0,
     mem_start = 0, lock_id = 0, lock = False, ready = False\<rparr>"

definition static_mm :: mm where
  "static_mm = \<lparr>physical = static_bitmap, physical_at = 0, virt = static_bitmap, virt_at = 0, hhdmOffset = 0\<rparr>"

theorem pmm_init_available_witness:
  "map_fits (8 * 2) demo_entries \<and>
   (\<exists>m b. physical_memory_manager_initialize 0x10000 demo_entries 0 static_mm =
      Inr ((), static_mm\<lparr>physical := b, physical_at := size_t (me_base m)\<rparr>) \<and> m \<in> set demo_entries \<and> usable m \<and>
      bitmap_ok b \<and> (\<forall>j < 16. bitmap_get b j = (j \<notin> available demo_entries - taken_blocks (me_base m) 2)))"
proof -
  have fits: "map_fits (8 * 2) demo_entries"
    by (simp add: map_fits_def demo_entries_def usable_def BLOCK_SIZE_def)
  have "(16 :: nat) = ceil_t 0x10000 BLOCK_SIZE" "(2 :: nat) = ceil_t 16 8"
    by (simp_all add: ceil_t_def size_t_def BLOCK_SIZE_def)
  moreover have "\<exists>e \<in> set demo_entries. usable e \<and> 2 \<le> me_length e"
    by (simp add: demo_entries_def usable_def)
  moreover have "mem_start (physical static_mm) = 0" "lastDeepFragmented (physical static_mm) = 0" "16 * BLOCK_SIZE < 2 ^ 63"
    by (simp_all add: static_mm_def static_bitmap_def BLOCK_SIZE_def)
  ultimately show ?thesis
    using pmm_init_available [OF _ _ fits, where hhdm = 0] fits by (metis add_0_right)
qed

text \<open>
  C17. The bitmap is sized by the sum of the usable lengths but indexed by address: when a usable
  entry ends above that sum (rounded up to eight pages), because the map has a hole or a
  reserved range below it, starting the memory managers writes outside the bitmap.
\<close>

theorem memory_initialize_overruns:
  assumes "sz = ceil_t (ceil_t (mmTotal (bootloader_memory_map hhdm es)) BLOCK_SIZE) 8" "8 * sz * BLOCK_SIZE < 2 ^ 63"
    "\<forall>e \<in> set es. usable e \<longrightarrow> BLOCK_SIZE dvd me_base e \<and> BLOCK_SIZE dvd me_length e \<and> 0 < me_length e \<and>
       me_base e + me_length e < 2 ^ 63"
    "\<exists>e \<in> set es. usable e \<and> sz \<le> me_length e" "\<exists>e \<in> set es. usable e \<and> 8 * sz * BLOCK_SIZE < me_base e + me_length e"
    "mem_start (physical s) = 0"
  shows "memory_initialize (bootloader_memory_map hhdm es) s = Inl Out_of_bounds"
proof -
  let ?bt = "bootloader_memory_map hhdm es"
  have ext: "mmEntries (foldl extend_entry x es') = mmEntries x" for x es'
    by (induction es' arbitrary: x) (simp_all add: extend_entry_def Let_def)
  have cnt: "mmEntries (foldl count_entry x es') = mmEntries x" for x es'
    by (induction es' arbitrary: x) (simp_all split: limine_memmap_type.split)
  have es: "mmEntries ?bt = es"
    by (simp add: bootloader_memory_map_def ext cnt)
  obtain m where m: "find (\<lambda>e. \<not> (me_type e \<noteq> LIMINE_MEMMAP_USABLE \<or> me_length e < sz)) es = Some m"
    by (rule find_entry [OF assms(4)])
  have "for_each (mark_entry False) es
      (s\<lparr>physical_at := size_t (me_base m + h), physical := (physical s)\<lparr>ready := False,
         BitmapSizeInBlocks := bl, BitmapSizeInBytes := sz, bm_bytes := replicate sz 255\<rparr>\<rparr>) = Inl Out_of_bounds" for h bl
    by (rule mark_entries_overrun [OF refl]) (use assms in simp_all)
  then show ?thesis
    unfolding memory_initialize_def physical_memory_manager_initialize_def es
    by (simp add: cmd_simps set_physical_def m [simplified] flip: assms(1))
qed

definition pc_entries :: "limine_memmap_entry list" where
  "pc_entries =
    [\<lparr>me_base = 0, me_length = 0x9f000, me_type = LIMINE_MEMMAP_USABLE\<rparr>,
     \<lparr>me_base = 0x9f000, me_length = 0x61000, me_type = LIMINE_MEMMAP_RESERVED\<rparr>,
     \<lparr>me_base = 0x100000, me_length = 0x7f00000, me_type = LIMINE_MEMMAP_USABLE\<rparr>]"

theorem memory_initialize_overruns_witness:
  "memory_initialize (bootloader_memory_map 0xffff800000000000 pc_entries) static_mm = Inl Out_of_bounds"
proof -
  have tot: "mmTotal (bootloader_memory_map 0xffff800000000000 pc_entries) = 0x7f9f000"
    by (simp add: bootloader_memory_map_def pc_entries_def extend_entry_def size_t_def Let_def)
  then have "(4084 :: nat) = ceil_t (ceil_t (mmTotal (bootloader_memory_map 0xffff800000000000 pc_entries)) BLOCK_SIZE) 8"
    by (simp add: ceil_t_def size_t_def BLOCK_SIZE_def)
  then show ?thesis
    by (rule memory_initialize_overruns) (simp_all add: pc_entries_def usable_def BLOCK_SIZE_def static_mm_def static_bitmap_def)
qed

text \<open>
  C15. Isolation of allocations: however calls of \<^verbatim>\<open>virtual_allocate\<close> and \<^verbatim>\<open>virtual_free\<close> are ordered, the
  allocations in use lie in page frames that were free at the start and never overlap, a page
  frame is marked as used exactly if it was at the start or belongs to an allocation in use
  (nothing leaks), and every allocation of less than 2 GiB can be released.
\<close>

theorem virtual_allocations_disjoint:
  assumes "vmm_reach s0 s live" "bitmap_ok (physical s0)" "mem_start (physical s0) = 0"
  shows "(\<forall>x \<in> set live. \<forall>y \<in> set live. x \<noteq> y \<longrightarrow> span (hhdmOffset s0) x \<inter> span (hhdmOffset s0) y = {}) \<and>
    (\<forall>x \<in> set live. \<forall>j \<in> span (hhdmOffset s0) x. j < BitmapSizeInBlocks (physical s0) \<and> \<not> bitmap_get (physical s0) j) \<and>
    (\<forall>j < BitmapSizeInBlocks (physical s0). bitmap_get (physical s) j =
       (bitmap_get (physical s0) j \<or> (\<exists>x \<in> set live. j \<in> span (hhdmOffset s0) x))) \<and>
    (\<forall>(p, n) \<in> set live. n < 2 ^ 19 \<longrightarrow> (\<exists>s'. virtual_free p (int n) s = Inr (True, s')))"
proof -
  have inv: "vmm_inv s0 s live" by (rule vmm_reach_inv [OF assms])
  have "\<exists>s'. virtual_free p (int n) s = Inr (True, s')" if "(p, n) \<in> set live" "n < 2 ^ 19" for p n
    using vmm_free_run [OF inv that] by blast
  then show ?thesis
    using inv unfolding vmm_inv_def by auto
qed

definition demo_mm :: mm where
  "demo_mm = \<lparr>physical = demo_bitmap\<lparr>mem_start := 0\<rparr>, physical_at = 0, virt = static_bitmap, virt_at = 0, hhdmOffset = 0x10000\<rparr>"

lemma demo_mm_ok: "bitmap_ok (physical demo_mm)" "mem_start (physical demo_mm) = 0" "free_run (physical demo_mm) 3 2"
  using demo_bitmap_ok by (simp_all add: demo_mm_def bitmap_ok_def free_run_def bitmap_get_def demo_bitmap_def)

lemma demo_mm_alloc: "\<exists>p s. virtual_allocate (int 2) demo_mm = Inr (p, s)"
proof -
  have "\<not> free_run (physical demo_mm) 0 2"
    using demo_bitmap_get [of 0] by (auto simp: demo_mm_def free_run_def bitmap_get_def)
  then show ?thesis
    using physical_allocate_run [OF demo_mm_ok(1,2), of 2] demo_mm_ok(3)
    by (auto simp: virtual_allocate_def cmd_simps run_allocates_def split: if_splits)
qed

theorem virtual_allocations_disjoint_witness:
  "\<exists>p s. virtual_allocate 2 demo_mm = Inr (p, s) \<and> (\<exists>s'. virtual_free p 2 s = Inr (True, s')) \<and>
     (\<forall>j \<in> span 0x10000 (p, 2). \<not> bitmap_get (physical demo_mm) j)"
proof -
  obtain p s where run: "virtual_allocate (int 2) demo_mm = Inr (p, s)" using demo_mm_alloc by blast
  have "vmm_reach demo_mm s [(p, 2)]"
    by (rule vmm_alloc [OF vmm_start _ _ run]) simp_all
  from virtual_allocations_disjoint [OF this demo_mm_ok(1,2)] run show ?thesis
    by (auto simp: demo_mm_def)
qed

text \<open>
  C18. Running out of memory: an allocation of \<open>n\<close> page frames halts the kernel exactly when no \<open>n\<close>
  consecutive frames are free, or when the first such run starts at frame 0, whose address is
  the null pointer; otherwise it returns the address of the first run.
\<close>

theorem physical_allocate_halts:
  assumes "bitmap_ok (physical s)" "mem_start (physical s) = 0" "0 < n" "n < 2 ^ 31"
  shows "if (\<exists>r. free_run (physical s) r n) \<and> \<not> free_run (physical s) 0 n
    then \<exists>r s'. physical_allocate (int n) s = Inr (r * BLOCK_SIZE, s') \<and> free_run (physical s) r n \<and>
      (\<forall>q < r. \<not> free_run (physical s) q n)
    else physical_allocate (int n) s = Inl Halted"
proof (cases "\<exists>r. free_run (physical s) r n")
  case True
  then obtain r b' where r: "free_run (physical s) r n" "\<forall>q < r. \<not> free_run (physical s) q n"
    "physical_allocate (int n) s = (if r = 0 then Inl Halted else Inr (r * BLOCK_SIZE, s\<lparr>physical := b'\<rparr>))"
    using physical_allocate_run [OF assms] unfolding run_allocates_def by auto
  then have "free_run (physical s) 0 n \<longleftrightarrow> r = 0" by (metis gr0I)
  with r True show ?thesis by auto
next
  case False
  with physical_allocate_run [OF assms] show ?thesis by simp
qed

theorem physical_allocate_halts_witness:
  "physical_allocate 1 (demo_mm\<lparr>physical := (physical demo_mm)\<lparr>bm_bytes := [254], lastDeepFragmented := 0\<rparr>\<rparr>) = Inl Halted"
proof -
  let ?s = "demo_mm\<lparr>physical := (physical demo_mm)\<lparr>bm_bytes := [254], lastDeepFragmented := 0\<rparr>\<rparr>"
  have ok: "bitmap_ok (physical ?s)" "mem_start (physical ?s) = 0" "free_run (physical ?s) 0 1"
    by (simp_all add: demo_mm_def demo_bitmap_def bitmap_ok_def free_run_def bitmap_get_def BLOCK_SIZE_def
        BLOCKS_PER_BYTE_def mask1_def)
  from physical_allocate_halts [OF ok(1,2), of 1] ok(3) show ?thesis by simp
qed

end
