(* ===== verification/Errno.thy ===== *)
theory Errno
  imports Prelude
begin

text \<open>
  The error convention of the system calls: a call returns \<^verbatim>\<open>size_t\<close>, and the values above
  \<^verbatim>\<open>-4096UL\<close> are negated error numbers (\<^verbatim>\<open>ERR\<close> of \<^verbatim>\<open>types.h\<close>, \<^verbatim>\<open>RET_IS_ERR\<close> of \<^verbatim>\<open>syscalls.h\<close>). The
  error numbers and open flags are those of \<^verbatim>\<open>linux.h\<close>.
\<close>

definition ERR :: "nat \<Rightarrow> u64" where
  "ERR errno = - of_nat errno"

definition RET_IS_ERR :: "u64 \<Rightarrow> bool" where
  "RET_IS_ERR r \<longleftrightarrow> - 4096 < r"

definition EPERM :: nat where "EPERM = 1"
definition ENOENT :: nat where "ENOENT = 2"
definition EINTR :: nat where "EINTR = 4"
definition EBADF :: nat where "EBADF = 9"
definition EAGAIN :: nat where "EAGAIN = 11"
definition EWOULDBLOCK :: nat where "EWOULDBLOCK = EAGAIN"
definition EACCES :: nat where "EACCES = 13"
definition EEXIST :: nat where "EEXIST = 17"
definition ENOTDIR :: nat where "ENOTDIR = 20"
definition EISDIR :: nat where "EISDIR = 21"
definition EINVAL :: nat where "EINVAL = 22"
definition ENOTTY :: nat where "ENOTTY = 25"
definition EROFS :: nat where "EROFS = 30"
definition ENOSYS :: nat where "ENOSYS = 38"
definition ENOTEMPTY :: nat where "ENOTEMPTY = 39"
definition ELOOP :: nat where "ELOOP = 40"

lemmas errno_defs = EPERM_def ENOENT_def EACCES_def EEXIST_def ENOTDIR_def EISDIR_def EINVAL_def
  ENOTEMPTY_def ELOOP_def EINTR_def EBADF_def EAGAIN_def EWOULDBLOCK_def ENOTTY_def EROFS_def ENOSYS_def

lemma RET_IS_ERR_ERR: "0 < e \<Longrightarrow> e < 4096 \<Longrightarrow> RET_IS_ERR (ERR e)"
proof -
  assume e: "0 < e" "e < 4096"
  have "uint (of_nat e :: u64) = int e"
    using e by (simp add: unsigned_of_nat take_bit_nat_eq_self)
  then have "uint (ERR e) = 2 ^ 64 - int e"
    using e by (simp add: ERR_def uint_word_ariths zmod_zminus1_eq_if)
  then show ?thesis
    using e by (simp add: RET_IS_ERR_def word_less_def uint_word_ariths)
qed

lemma RET_IS_ERR_small: "r < 2 ^ 63 \<Longrightarrow> \<not> RET_IS_ERR r"
  unfolding RET_IS_ERR_def by (simp add: word_less_def uint_word_ariths)

lemma ERR_errnos [simp]:
  "ERR EPERM \<noteq> 0" "ERR ENOENT \<noteq> 0" "ERR EACCES \<noteq> 0" "ERR EEXIST \<noteq> 0" "ERR ENOTDIR \<noteq> 0"
  "ERR EISDIR \<noteq> 0" "ERR EINVAL \<noteq> 0" "ERR ENOTEMPTY \<noteq> 0" "ERR ELOOP \<noteq> 0"
  by (simp_all add: ERR_def errno_defs)

section \<open>Open flags\<close>

definition O_RDONLY :: u32 where "O_RDONLY = 0x0"
definition O_WRONLY :: u32 where "O_WRONLY = 0x1"
definition O_RDWR :: u32 where "O_RDWR = 0x2"
definition O_CREAT :: u32 where "O_CREAT = 0x40"
definition O_EXCL :: u32 where "O_EXCL = 0x80"
definition O_TRUNC :: u32 where "O_TRUNC = 0x200"
definition O_APPEND :: u32 where "O_APPEND = 0x400"
definition O_NONBLOCK :: u32 where "O_NONBLOCK = 0x800"
definition O_DIRECTORY :: u32 where "O_DIRECTORY = 0x10000"
definition O_NOFOLLOW :: u32 where "O_NOFOLLOW = 0x20000"

definition O_CLOEXEC :: u32 where "O_CLOEXEC = 0x80000"

definition has_flag :: "u32 \<Rightarrow> u32 \<Rightarrow> bool" where
  "has_flag flags f \<longleftrightarrow> flags AND f \<noteq> 0"

lemmas flag_defs = O_WRONLY_def O_RDWR_def O_CREAT_def O_EXCL_def O_TRUNC_def O_APPEND_def
  O_DIRECTORY_def O_NOFOLLOW_def O_RDONLY_def O_NONBLOCK_def O_CLOEXEC_def has_flag_def

end
