(* ===== verification/Open_File.thy ===== *)
theory Open_File
  imports Errno
begin

text \<open>
  The open files of the virtual file system (\<^verbatim>\<open>struct OpenFile\<close> of \<^verbatim>\<open>vfs.h\<close>), with the fields that
  the descriptor table, pipes and event counters use. The handler table of an open file is named, not stored: the
  tables the modelled components install are constructors of \<open>VfsHandlers\<close>, and a file of a
  device has \<open>deviceHandlers\<close>.
\<close>

datatype VfsHandlers = pipeReadEnd | pipeWriteEnd | eventFdHandlers | deviceHandlers

record OpenFile =
  of_id :: nat
  of_flags :: u32
  of_closeOnExec :: bool
  of_closeFlags :: nat
  of_handlers :: VfsHandlers
  of_dir :: nat

definition new_file :: OpenFile where
  "new_file = \<lparr>of_id = 0, of_flags = 0, of_closeOnExec = False, of_closeFlags = 0, of_handlers = deviceHandlers, of_dir = 0\<rparr>"

lemma new_file_sel [simp]:
  "of_id new_file = 0" "of_flags new_file = 0" "\<not> of_closeOnExec new_file" "of_closeFlags new_file = 0"
  "of_handlers new_file = deviceHandlers" "of_dir new_file = 0"
  by (simp_all add: new_file_def)

end
