(* ===== verification/Pipe.thy ===== *)
theory Pipe
  imports Open_File Spinlock
begin

text \<open>
  Pipes (\<^verbatim>\<open>syscalls/pipe.cpp\<close>). A \<^verbatim>\<open>PipeInfo\<close> is a buffer of 65536 bytes filled from the front, with
  the number of bytes assigned and the number of descriptors open on each end; every open
  file of a pipe has a \<^verbatim>\<open>PipeSpecific\<close> that names its end and its \<^verbatim>\<open>PipeInfo\<close>. Both live on the
  heap, in the maps \<open>pipes\<close> and \<open>specs\<close> from addresses. The open files of the running task are
  the map \<open>files\<close>; opening a device file is the parameter \<open>fsUserOpen\<close> of \<open>pipe_open\<close>.

  A loop that spins until another task changes the pipe is \<open>Blocked\<close>. The second half of the
  theory lets a writer and a reader take turns: a writing task makes the calls of
  \<^verbatim>\<open>pipe_write_inner\<close> its \<^verbatim>\<open>pipe_write\<close> consists of, a reading task calls \<^verbatim>\<open>pipe_read\<close>.
\<close>

abbreviation PIPE_SIZE :: nat where "PIPE_SIZE \<equiv> 65536"

record PipeInfo =
  pbuf :: "byte list"
  assigned :: int
  writeFds :: int
  readFds :: int
  pipe_LOCK :: Spinlock

record PipeSpecific =
  spec_write :: bool
  spec_info :: nat

record pipe_sys =
  pipes :: "nat \<rightharpoonup> PipeInfo"
  specs :: "nat \<rightharpoonup> PipeSpecific"
  files :: "int \<rightharpoonup> OpenFile"
  next_addr :: nat

type_synonym 'a pipe_cmd = "(pipe_sys, 'a) cmd"

section \<open>The two transfers\<close>

definition with_LOCK :: "(PipeInfo, 'a) cmd \<Rightarrow> (PipeInfo, 'a) cmd" where
  "with_LOCK body =
     bnd (gets pipe_LOCK) (\<lambda>l. bnd (lift (spinlock_acquire l)) (\<lambda>l'.
     andthen (modify (\<lambda>p. p\<lparr>pipe_LOCK := l'\<rparr>))
     (bnd body (\<lambda>r. andthen (modify (\<lambda>p. p\<lparr>pipe_LOCK := spinlock_release (pipe_LOCK p)\<rparr>)) (ret r)))))"

definition pipe_take :: "nat \<Rightarrow> (PipeInfo, int \<times> byte list) cmd" where
  "pipe_take limit =
     bnd (gets assigned) (\<lambda>a.
     let toCopy = (if a < 0 \<or> int limit < a then limit else nat a) in
     bnd (gets pbuf) (\<lambda>b.
     bnd (lift (rdseg b 0 toCopy)) (\<lambda>out.
     andthen (modify (\<lambda>p. p\<lparr>assigned := a - int toCopy\<rparr>))
     (andthen (modify (\<lambda>p. p\<lparr>pbuf := blit b 0 (drop toCopy b)\<rparr>))
       (ret (int toCopy, out))))))"

definition pipe_read_info :: "u32 \<Rightarrow> nat \<Rightarrow> (PipeInfo, int \<times> byte list) cmd" where
  "pipe_read_info flags naive =
     (let limit = min naive PIPE_SIZE in
      bnd (gets writeFds) (\<lambda>w. bnd (gets assigned) (\<lambda>a.
      if w \<noteq> 0 \<and> a = 0 then
        (if has_flag flags O_NONBLOCK then ret (- int EWOULDBLOCK, []) else fail Blocked)
      else if a = 0 then ret (0, [])
      else with_LOCK (pipe_take limit))))"

text \<open>
  \<^verbatim>\<open>pipe_write_inner\<close> in two parts: waiting for room, and the copy under the lock. The source
  pointer is a position in the user's buffer \<open>data\<close>; it can be negative.
\<close>

definition pipe_write_wait :: "u32 \<Rightarrow> int \<Rightarrow> (PipeInfo, bool) cmd" where
  "pipe_write_wait flags limit =
     bnd (gets assigned) (\<lambda>a.
     if a + limit > int PIPE_SIZE then (if has_flag flags O_NONBLOCK then ret False else fail Blocked)
     else ret True)"

definition pipe_write_copy :: "byte list \<Rightarrow> int \<Rightarrow> int \<Rightarrow> (PipeInfo, unit) cmd" where
  "pipe_write_copy data off limit =
     with_LOCK
       (bnd (gets assigned) (\<lambda>a. bnd (gets pbuf) (\<lambda>b.
        andthen (check Out_of_bounds (0 \<le> off \<and> 0 \<le> a))
        (bnd (lift (rdseg data (nat off) (nat limit))) (\<lambda>src.
         bnd (lift (wr b (nat a) src)) (\<lambda>b'.
         andthen (modify (\<lambda>p. p\<lparr>pbuf := b'\<rparr>)) (modify (\<lambda>p. p\<lparr>assigned := a + limit\<rparr>))))))))"

definition pipe_write_inner :: "u32 \<Rightarrow> byte list \<Rightarrow> int \<Rightarrow> int \<Rightarrow> (PipeInfo, int) cmd" where
  "pipe_write_inner flags data off limit =
     bnd (pipe_write_wait flags limit) (\<lambda>go.
     if go then andthen (pipe_write_copy data off limit) (ret limit)
     else ret (- int EWOULDBLOCK))"

lemma pipe_write_inner_result:
  "pipe_write_inner flags data off limit p = Inr (r, p') \<Longrightarrow> r = limit \<or> r = - int EWOULDBLOCK"
  by (auto simp: pipe_write_inner_def cmd_simps split: sum.splits if_splits)

text \<open>
  The loop \<^verbatim>\<open>while (cycle != want) cycle += pipe_write_inner(...)\<close> of \<^verbatim>\<open>pipe_write\<close>; \<open>cycle\<close> is an
  \<^verbatim>\<open>int\<close>, whose overflow is undefined.
\<close>

function write_cycle :: "u32 \<Rightarrow> byte list \<Rightarrow> nat \<Rightarrow> nat \<Rightarrow> int \<Rightarrow> (PipeInfo, int) cmd" where
  "write_cycle flags data base want cycle p =
     (if cycle = int want then Inr (cycle, p)
      else case pipe_write_inner flags data (int base + cycle) (int want - cycle) p of
        Inl e \<Rightarrow> Inl e
      | Inr (r, p') \<Rightarrow>
          if cycle + r < - (2 ^ 31) then Inl Undefined
          else write_cycle flags data base want (cycle + r) p')"
  by pat_completeness auto
termination
proof (relation "measure (\<lambda>(flags, data, base, want, cycle, p). if cycle = int want then 0 else Suc (nat (cycle + 2 ^ 31)))",
    goal_cases)
  case (2 flags data base want cycle p x r p')
  then have "r = int want - cycle \<or> r = - int EWOULDBLOCK"
    using pipe_write_inner_result by (metis prod.collapse)
  with 2 show ?case by (auto simp: EWOULDBLOCK_def EAGAIN_def)
qed simp

declare write_cycle.simps [simp del]

fun write_chunks :: "u32 \<Rightarrow> byte list \<Rightarrow> nat \<Rightarrow> nat \<Rightarrow> int \<Rightarrow> (PipeInfo, int) cmd" where
  "write_chunks flags data i 0 ret0 = ret ret0"
| "write_chunks flags data i (Suc k) ret0 =
     bnd (write_cycle flags data (i * PIPE_SIZE) PIPE_SIZE 0) (\<lambda>cycle.
     andthen (check Undefined (ret0 + cycle < 2 ^ 31))
       (write_chunks flags data (Suc i) k (ret0 + cycle)))"

definition pipe_write_info :: "u32 \<Rightarrow> byte list \<Rightarrow> (PipeInfo, int) cmd" where
  "pipe_write_info flags data =
     (let chunks = length data div PIPE_SIZE; remainder = length data mod PIPE_SIZE in
      bnd (write_chunks flags data 0 chunks 0) (\<lambda>ret0.
      if remainder \<noteq> 0 then
        bnd (write_cycle flags data (chunks * PIPE_SIZE) remainder 0) (\<lambda>cycle.
        andthen (check Undefined (ret0 + cycle < 2 ^ 31)) (ret (ret0 + cycle)))
      else ret ret0))"

section \<open>The handlers on the heap\<close>

definition get_spec :: "OpenFile \<Rightarrow> PipeSpecific pipe_cmd" where
  "get_spec fd = (\<lambda>s. case specs s (of_dir fd) of None \<Rightarrow> Inl Undefined | Some x \<Rightarrow> Inr (x, s))"

definition with_pipe :: "OpenFile \<Rightarrow> (PipeInfo, 'a) cmd \<Rightarrow> 'a pipe_cmd" where
  "with_pipe fd body =
     bnd (get_spec fd) (\<lambda>spec s.
       case pipes s (spec_info spec) of None \<Rightarrow> Inl Undefined
       | Some p \<Rightarrow> (case body p of Inl e \<Rightarrow> Inl e
           | Inr (r, p') \<Rightarrow> Inr (r, s\<lparr>pipes := (pipes s)(spec_info spec \<mapsto> p')\<rparr>)))"

definition pipe_read :: "OpenFile \<Rightarrow> nat \<Rightarrow> (int \<times> byte list) pipe_cmd" where
  "pipe_read fd limit = with_pipe fd (pipe_read_info (of_flags fd) limit)"

definition pipe_write :: "OpenFile \<Rightarrow> byte list \<Rightarrow> int pipe_cmd" where
  "pipe_write fd data = with_pipe fd (pipe_write_info (of_flags fd) data)"

definition malloc_spec :: "PipeSpecific \<Rightarrow> nat pipe_cmd" where
  "malloc_spec x = (\<lambda>s. Inr (next_addr s, s\<lparr>specs := (specs s)(next_addr s \<mapsto> x), next_addr := Suc (next_addr s)\<rparr>))"

definition malloc_info :: "PipeInfo \<Rightarrow> nat pipe_cmd" where
  "malloc_info x = (\<lambda>s. Inr (next_addr s, s\<lparr>pipes := (pipes s)(next_addr s \<mapsto> x), next_addr := Suc (next_addr s)\<rparr>))"

definition new_pipe :: PipeInfo where
  "new_pipe = \<lparr>pbuf = replicate PIPE_SIZE 0, assigned = 0, writeFds = 1, readFds = 1, pipe_LOCK = False\<rparr>"

definition pipe_open :: "(string \<Rightarrow> u32 \<Rightarrow> int pipe_cmd) \<Rightarrow> (int \<times> (int \<times> int) option) pipe_cmd" where
  "pipe_open fsUserOpen =
     bnd (fsUserOpen ''/dev/stdout'' O_RDONLY) (\<lambda>readFd.
     bnd (fsUserOpen ''/dev/stdout'' O_WRONLY) (\<lambda>writeFd.
     if readFd < 0 \<or> writeFd < 0 then ret (- 1, None) else
     bnd (gets files) (\<lambda>fs.
     case (fs readFd, fs writeFd) of
       (Some rd, Some wt) \<Rightarrow>
         bnd (malloc_info new_pipe) (\<lambda>info.
         bnd (malloc_spec \<lparr>spec_write = False, spec_info = info\<rparr>) (\<lambda>readSpec.
         bnd (malloc_spec \<lparr>spec_write = True, spec_info = info\<rparr>) (\<lambda>writeSpec.
         andthen (modify (\<lambda>s. s\<lparr>files := (files s)
             (readFd \<mapsto> rd\<lparr>of_handlers := pipeReadEnd, of_dir := readSpec\<rparr>,
              writeFd \<mapsto> wt\<lparr>of_handlers := pipeWriteEnd, of_dir := writeSpec\<rparr>)\<rparr>))
           (ret (0, Some (readFd, writeFd))))))
     | _ \<Rightarrow> ret (- 1, None))))"

definition pipe_duplicate :: "OpenFile \<Rightarrow> OpenFile \<Rightarrow> (bool \<times> OpenFile) pipe_cmd" where
  "pipe_duplicate original orphan =
     bnd (get_spec original) (\<lambda>spec.
     bnd (malloc_spec spec) (\<lambda>a.
     andthen (with_pipe original (modify (\<lambda>p.
         if spec_write spec then p\<lparr>writeFds := writeFds p + 1\<rparr> else p\<lparr>readFds := readFds p + 1\<rparr>)))
       (ret (True, orphan\<lparr>of_dir := a\<rparr>))))"

definition pipe_close_end :: "OpenFile \<Rightarrow> bool pipe_cmd" where
  "pipe_close_end fd =
     bnd (get_spec fd) (\<lambda>spec.
     bnd (with_pipe fd
         (andthen (modify (\<lambda>p. if spec_write spec then p\<lparr>writeFds := writeFds p - 1\<rparr> else p\<lparr>readFds := readFds p - 1\<rparr>))
            (bnd (gets (\<lambda>p. readFds p = 0 \<and> writeFds p = 0)) (\<lambda>last.
             if last then bnd (gets pipe_LOCK) (\<lambda>l. bnd (lift (spinlock_acquire l)) (\<lambda>_. ret True))
             else ret False)))) (\<lambda>last.
     andthen (modify (\<lambda>s. if last then s\<lparr>pipes := (pipes s)(spec_info spec := None)\<rparr> else s))
     (andthen (modify (\<lambda>s. s\<lparr>specs := (specs s)(of_dir fd := None)\<rparr>)) (ret True))))"

definition pipe_bad_read :: int where "pipe_bad_read = - int EBADF"
definition pipe_bad_write :: int where "pipe_bad_write = - int EBADF"
definition pipe_bad_ioctl :: int where "pipe_bad_ioctl = - int ENOTTY"
definition pipe_bad_memory_map :: u64 where "pipe_bad_memory_map = - 1"

text \<open>Reading and writing an open file, as the handler tables of the two ends direct it.\<close>

definition end_read :: "OpenFile \<Rightarrow> nat \<Rightarrow> (int \<times> byte list) pipe_cmd" where
  "end_read fd limit =
     (case of_handlers fd of pipeReadEnd \<Rightarrow> pipe_read fd limit | pipeWriteEnd \<Rightarrow> ret (pipe_bad_read, [])
      | _ \<Rightarrow> fail Undefined)"

definition end_write :: "OpenFile \<Rightarrow> byte list \<Rightarrow> int pipe_cmd" where
  "end_write fd data =
     (case of_handlers fd of pipeReadEnd \<Rightarrow> ret pipe_bad_write | pipeWriteEnd \<Rightarrow> pipe_write fd data
      | _ \<Rightarrow> fail Undefined)"


section \<open>The pipe as a queue of bytes\<close>

text \<open>
  What a pipe holds is the assigned part of its buffer. \<open>byte_queue\<close> is the interface its
  users rely on: sending appends, receiving takes from the front. It is stated for any
  implementation and interpreted on the two transfers; from it follows that any sequence of
  transfers delivers bytes in order.
\<close>

definition contents :: "PipeInfo \<Rightarrow> byte list" where
  "contents p = take (nat (assigned p)) (pbuf p)"

definition pipe_ok :: "PipeInfo \<Rightarrow> bool" where
  "pipe_ok p \<longleftrightarrow> length (pbuf p) = PIPE_SIZE \<and> 0 \<le> assigned p \<and> assigned p \<le> int PIPE_SIZE \<and> \<not> pipe_LOCK p"

lemma length_contents: "pipe_ok p \<Longrightarrow> length (contents p) = nat (assigned p)"
  by (auto simp: pipe_ok_def contents_def)

lemma with_LOCK_run:
  assumes "\<not> pipe_LOCK p" "body p = Inr (r, p')" "\<not> pipe_LOCK p'"
  shows "with_LOCK body p = Inr (r, p')"
proof -
  have same: "p\<lparr>pipe_LOCK := False\<rparr> = p" "p'\<lparr>pipe_LOCK := False\<rparr> = p'"
    using assms(1,3) by simp_all
  from assms show ?thesis
    by (simp add: with_LOCK_def cmd_simps spinlock_acquire_def spinlock_release_def same)
qed

lemma pipe_take_run:
  assumes "pipe_ok p"
  obtains p' where "with_LOCK (pipe_take limit) p = Inr ((int (min limit (nat (assigned p))), take limit (contents p)), p')"
    "pipe_ok p'" "contents p' = drop limit (contents p)" "writeFds p' = writeFds p" "readFds p' = readFds p"
proof -
  let ?a = "nat (assigned p)" and ?n = "min limit (nat (assigned p))"
  let ?p' = "p\<lparr>assigned := assigned p - int ?n, pbuf := blit (pbuf p) 0 (drop ?n (pbuf p))\<rparr>"
  have ok: "length (pbuf p) = PIPE_SIZE" "0 \<le> assigned p" "?a \<le> PIPE_SIZE" "\<not> pipe_LOCK p"
    using assms by (auto simp: pipe_ok_def)
  have n: "(if assigned p < 0 \<or> int limit < assigned p then limit else ?a) = ?n"
    using ok(2) by auto
  have "rdseg (pbuf p) 0 ?n = Inr (take ?n (pbuf p))"
    using ok by (simp add: rdseg_def seg_def min.coboundedI2)
  then have "pipe_take limit p = Inr ((int ?n, take ?n (pbuf p)), ?p')"
    by (simp only: pipe_take_def n Let_def bnd_run gets_run sum.case prod.case lift_run andthen_run modify_run ret_run)
  moreover have "take ?n (pbuf p) = take limit (contents p)"
    by (simp add: contents_def)
  ultimately have "with_LOCK (pipe_take limit) p = Inr ((int ?n, take limit (contents p)), ?p')"
    using ok(4) by (intro with_LOCK_run) simp_all
  moreover have "pipe_ok ?p'"
    using ok by (auto simp: pipe_ok_def blit_def)
  moreover have "contents ?p' = drop limit (contents p)"
  proof -
    have "nat (assigned p - int ?n) = ?a - ?n" using ok(2) by linarith
    moreover have "take (?a - ?n) (blit (pbuf p) 0 (drop ?n (pbuf p))) = take (?a - ?n) (drop ?n (pbuf p))"
      using ok(1,3) by (simp add: blit_def)
    ultimately show ?thesis
      by (cases "limit \<le> ?a") (simp_all add: contents_def drop_take min_def)
  qed
  ultimately show ?thesis using that [of ?p'] by simp
qed

lemma pipe_read_run:
  assumes "pipe_ok p" "contents p \<noteq> []"
  obtains p' where "pipe_read_info flags k p = Inr ((int (length (take (min k PIPE_SIZE) (contents p))), take (min k PIPE_SIZE) (contents p)), p')"
    "pipe_ok p'" "contents p' = drop (min k PIPE_SIZE) (contents p)" "writeFds p' = writeFds p" "readFds p' = readFds p"
proof -
  have a: "assigned p \<noteq> 0" "length (contents p) = nat (assigned p)"
    using assms by (auto simp: contents_def pipe_ok_def)
  obtain p' where p': "with_LOCK (pipe_take (min k PIPE_SIZE)) p =
      Inr ((int (min (min k PIPE_SIZE) (nat (assigned p))), take (min k PIPE_SIZE) (contents p)), p')"
    "pipe_ok p'" "contents p' = drop (min k PIPE_SIZE) (contents p)" "writeFds p' = writeFds p" "readFds p' = readFds p"
    by (rule pipe_take_run [OF assms(1)])
  then show ?thesis
    using a by (intro that [of p']) (simp_all add: pipe_read_info_def Let_def cmd_simps ac_simps)
qed

lemma pipe_write_inner_run:
  assumes "pipe_ok p" "off + n \<le> length data" "length (contents p) + n \<le> PIPE_SIZE"
  obtains p' where "pipe_write_inner flags data (int off) (int n) p = Inr (int n, p')"
    "pipe_ok p'" "contents p' = contents p @ seg data off n" "writeFds p' = writeFds p" "readFds p' = readFds p"
proof -
  let ?a = "nat (assigned p)"
  let ?p' = "p\<lparr>pbuf := blit (pbuf p) ?a (seg data off n), assigned := assigned p + int n\<rparr>"
  have ok: "length (pbuf p) = PIPE_SIZE" "0 \<le> assigned p" "?a \<le> PIPE_SIZE" "\<not> pipe_LOCK p"
    using assms(1) by (auto simp: pipe_ok_def)
  have room: "?a + n \<le> PIPE_SIZE" "length (seg data off n) = n"
    using assms(2,3) ok by (simp_all add: contents_def)
  have "pipe_write_copy data (int off) (int n) p = Inr ((), ?p')"
    unfolding pipe_write_copy_def
    using ok room assms(2) by (intro with_LOCK_run) (simp_all add: cmd_simps rdseg_def wr_def)
  moreover have "pipe_write_wait flags (int n) p = Inr (True, p)"
    using room ok(2) by (simp add: pipe_write_wait_def cmd_simps)
  ultimately have "pipe_write_inner flags data (int off) (int n) p = Inr (int n, ?p')"
    by (simp add: pipe_write_inner_def cmd_simps)
  moreover have "pipe_ok ?p'"
    using ok room by (auto simp: pipe_ok_def)
  moreover have "contents ?p' = contents p @ seg data off n"
  proof -
    have "nat (assigned p + int n) = ?a + n" using ok(2) by linarith
    then show ?thesis using ok room by (simp add: contents_def blit_def)
  qed
  ultimately show ?thesis using that [of ?p'] by simp
qed

lemma pipe_write_inner_blocked:
  assumes "pipe_ok p" "PIPE_SIZE < length (contents p) + n"
  shows "pipe_write_inner flags data off (int n) p =
    (if has_flag flags O_NONBLOCK then Inr (- int EWOULDBLOCK, p) else Inl Blocked)"
proof -
  have "assigned p + int n > int PIPE_SIZE"
    using assms by (auto simp: pipe_ok_def contents_def)
  then show ?thesis
    by (simp add: pipe_write_inner_def pipe_write_wait_def cmd_simps)
qed

locale byte_queue =
  fixes inv :: "'q \<Rightarrow> bool" and held :: "'q \<Rightarrow> byte list"
    and send :: "byte list \<Rightarrow> 'q \<Rightarrow> 'q option" and recv :: "nat \<Rightarrow> 'q \<Rightarrow> (byte list \<times> 'q) option"
  assumes send_held: "inv q \<Longrightarrow> send xs q = Some q' \<Longrightarrow> inv q' \<and> held q' = held q @ xs"
    and recv_held: "inv q \<Longrightarrow> recv k q = Some (out, q') \<Longrightarrow> inv q' \<and> held q = out @ held q'"
begin

text \<open>The account of a queue: what was received and what is held is what was sent.\<close>

definition account :: "byte list \<Rightarrow> 'q \<Rightarrow> byte list \<Rightarrow> bool" where
  "account sent q got \<longleftrightarrow> inv q \<and> got @ held q = sent"

lemma account_send: "account sent q got \<Longrightarrow> send xs q = Some q' \<Longrightarrow> account (sent @ xs) q' got"
  using send_held unfolding account_def by (metis append.assoc)

lemma account_recv: "account sent q got \<Longrightarrow> recv k q = Some (out, q') \<Longrightarrow> account sent q' (got @ out)"
  using recv_held unfolding account_def by (metis append.assoc)

end

definition pipe_send :: "u32 \<Rightarrow> byte list \<Rightarrow> PipeInfo \<Rightarrow> PipeInfo option" where
  "pipe_send flags xs p =
     (case pipe_write_inner flags xs 0 (int (length xs)) p of
        Inl e \<Rightarrow> None | Inr (r, p') \<Rightarrow> if r < 0 then None else Some p')"

definition pipe_recv :: "u32 \<Rightarrow> nat \<Rightarrow> PipeInfo \<Rightarrow> (byte list \<times> PipeInfo) option" where
  "pipe_recv flags k p =
     (case pipe_read_info flags k p of
        Inl e \<Rightarrow> None | Inr ((r, out), p') \<Rightarrow> if r < 0 then None else Some (out, p'))"

lemma pipe_read_empty:
  assumes "pipe_ok p" "contents p = []"
  shows "pipe_read_info flags k p =
    (if writeFds p = 0 then Inr ((0, []), p)
     else if has_flag flags O_NONBLOCK then Inr ((- int EWOULDBLOCK, []), p) else Inl Blocked)"
proof -
  have "assigned p = 0" using assms by (auto simp: contents_def pipe_ok_def)
  then show ?thesis by (simp add: pipe_read_info_def Let_def cmd_simps)
qed

interpretation pq: byte_queue pipe_ok contents "pipe_send flags" "pipe_recv flags'"
proof
  fix q xs q' assume q: "pipe_ok q" "pipe_send flags xs q = Some q'"
  show "pipe_ok q' \<and> contents q' = contents q @ xs"
  proof (cases "length (contents q) + length xs \<le> PIPE_SIZE")
    case True
    obtain p' where p': "pipe_write_inner flags xs (int 0) (int (length xs)) q = Inr (int (length xs), p')"
      "pipe_ok p'" "contents p' = contents q @ seg xs 0 (length xs)"
      by (rule pipe_write_inner_run [OF q(1) _ True, of 0 xs flags]) simp_all
    then show ?thesis using q(2) by (simp add: pipe_send_def)
  next
    case False
    then show ?thesis
      using q by (auto simp: pipe_send_def pipe_write_inner_blocked EWOULDBLOCK_def EAGAIN_def split: if_splits)
  qed
next
  fix q k out q' assume q: "pipe_ok q" "pipe_recv flags' k q = Some (out, q')"
  show "pipe_ok q' \<and> contents q = out @ contents q'"
  proof (cases "contents q = []")
    case True
    with q show ?thesis
      by (auto simp: pipe_recv_def pipe_read_empty EWOULDBLOCK_def EAGAIN_def split: if_splits)
  next
    case False
    obtain p' where "pipe_read_info flags' k q = Inr ((int (length (take (min k PIPE_SIZE) (contents q))), take (min k PIPE_SIZE) (contents q)), p')"
      "pipe_ok p'" "contents p' = drop (min k PIPE_SIZE) (contents q)"
      by (rule pipe_read_run [OF q(1) False])
    with q(2) show ?thesis by (auto simp: pipe_recv_def)
  qed
qed

section \<open>A writer and a reader\<close>

text \<open>
  The calls of \<^verbatim>\<open>pipe_write_inner\<close> that \<^verbatim>\<open>pipe_write\<close> makes for a buffer when none of them fails: one
  per full chunk, and one for the rest. \<open>write_calls\<close> is their number.
\<close>

definition write_calls :: "byte list \<Rightarrow> nat" where
  "write_calls data = CEILING_DIVISION (length data) PIPE_SIZE"

definition call_length :: "byte list \<Rightarrow> nat \<Rightarrow> nat" where
  "call_length data i = min PIPE_SIZE (length data - i * PIPE_SIZE)"

definition write_call :: "u32 \<Rightarrow> byte list \<Rightarrow> nat \<Rightarrow> (PipeInfo, int) cmd" where
  "write_call flags data i = pipe_write_inner flags data (int (i * PIPE_SIZE)) (int (call_length data i))"

lemma write_cycle_blocking:
  assumes "\<not> has_flag flags O_NONBLOCK" "0 < want"
  shows "write_cycle flags data base want 0 = pipe_write_inner flags data (int base) (int want)"
proof
  fix p
  show "write_cycle flags data base want 0 p = pipe_write_inner flags data (int base) (int want) p"
  proof (cases "pipe_write_inner flags data (int base) (int want) p")
    case (Inl e)
    with assms show ?thesis by (simp add: write_cycle.simps [of _ _ _ _ 0])
  next
    case (Inr rp)
    obtain r p' where rp: "rp = (r, p')" by (cases rp)
    with Inr assms(1) have "r = int want"
      by (auto simp: pipe_write_inner_def pipe_write_wait_def cmd_simps split: sum.splits if_splits)
    with Inr rp assms(2) show ?thesis
      by (simp add: write_cycle.simps [of _ _ _ _ 0] write_cycle.simps [of _ _ _ _ "int want"])
  qed
qed


lemma write_call_result:
  "\<not> has_flag flags O_NONBLOCK \<Longrightarrow> write_call flags data i p = Inr (r, p') \<Longrightarrow> r = int (call_length data i)"
  by (auto simp: write_call_def pipe_write_inner_def pipe_write_wait_def cmd_simps split: sum.splits if_splits)

definition do_calls :: "u32 \<Rightarrow> byte list \<Rightarrow> nat list \<Rightarrow> (PipeInfo, unit) cmd" where
  "do_calls flags data = for_each (\<lambda>i. andthen (write_call flags data i) (ret ()))"

lemma do_calls_simps:
  "do_calls flags data [] p = Inr ((), p)"
  "do_calls flags data (i # js) p =
     (case write_call flags data i p of Inl e \<Rightarrow> Inl e | Inr (r, p') \<Rightarrow> do_calls flags data js p')"
  by (auto simp: do_calls_def cmd_simps split: sum.split)

lemma do_calls_append:
  "do_calls flags data (is @ js) p =
     (case do_calls flags data is p of Inl e \<Rightarrow> Inl e | Inr (r, p') \<Rightarrow> do_calls flags data js p')"
  by (induction "is" arbitrary: p) (auto simp: do_calls_simps split: sum.split)

lemma write_chunks_calls:
  assumes "\<not> has_flag flags O_NONBLOCK" "(i + k) * PIPE_SIZE \<le> length data" "ret0 + int (k * PIPE_SIZE) < 2 ^ 31"
  shows "write_chunks flags data i k ret0 p =
    (case do_calls flags data [i..<i + k] p of Inl e \<Rightarrow> Inl e | Inr (_, p') \<Rightarrow> Inr (ret0 + int (k * PIPE_SIZE), p'))"
  using assms
proof (induction k arbitrary: i ret0 p)
  case 0
  then show ?case by (simp add: cmd_simps do_calls_simps)
next
  case (Suc k)
  have len: "call_length data i = PIPE_SIZE" and upt: "[i..<i + Suc k] = i # [Suc i..<Suc i + k]"
    using Suc.prems(2) by (simp_all add: call_length_def upt_rec del: upt_Suc)
  have cyc: "write_cycle flags data (i * PIPE_SIZE) PIPE_SIZE 0 = write_call flags data i"
    using write_cycle_blocking [OF Suc.prems(1), of PIPE_SIZE data "i * PIPE_SIZE"] by (simp add: write_call_def len)
  show ?case
  proof (cases "write_call flags data i p")
    case (Inl e)
    then show ?thesis unfolding upt by (simp add: bnd_run cyc do_calls_simps)
  next
    case (Inr rp)
    obtain r p' where rp: "rp = (r, p')" by (cases rp)
    with Inr have r: "write_call flags data i p = Inr (int PIPE_SIZE, p')"
      using write_call_result [OF Suc.prems(1)] len by metis
    have ih: "write_chunks flags data (Suc i) k (ret0 + int PIPE_SIZE) p' =
      (case do_calls flags data [Suc i..<Suc i + k] p' of Inl e \<Rightarrow> Inl e
       | Inr (_, p'') \<Rightarrow> Inr (ret0 + int PIPE_SIZE + int (k * PIPE_SIZE), p''))"
      by (rule Suc.IH) (use Suc.prems in simp_all)
    have lt: "ret0 + int PIPE_SIZE < 2 ^ 31" using Suc.prems(3) by simp
    have sum: "ret0 + int PIPE_SIZE + int (k * PIPE_SIZE) = ret0 + int (Suc k * PIPE_SIZE)" by simp
    show ?thesis
      unfolding upt do_calls_simps write_chunks.simps bnd_run cyc r sum.case prod.case andthen_run check_run if_P [OF lt] ih sum ..
  qed
qed

lemma ceil_split: "0 < r \<Longrightarrow> r < b \<Longrightarrow> CEILING_DIVISION (k * b + r) b = Suc k"
  unfolding CEILING_DIVISION_def by (rule div_nat_eqI) (simp_all add: algebra_simps)

lemma pipe_write_calls:
  assumes "\<not> has_flag flags O_NONBLOCK" "length data < 2 ^ 31"
  shows "pipe_write_info flags data p =
    (case do_calls flags data [0..<write_calls data] p of Inl e \<Rightarrow> Inl e | Inr (_, p') \<Rightarrow> Inr (int (length data), p'))"
proof -
  let ?k = "length data div PIPE_SIZE" and ?r = "length data mod PIPE_SIZE"
  have split: "length data = ?k * PIPE_SIZE + ?r" by simp
  have chunks: "write_chunks flags data 0 ?k 0 p =
    (case do_calls flags data [0..<?k] p of Inl e \<Rightarrow> Inl e | Inr (_, p') \<Rightarrow> Inr (int (?k * PIPE_SIZE), p'))" for p
  proof -
    have le: "(0 + ?k) * PIPE_SIZE \<le> length data" by simp
    also note assms(2)
    finally have lt: "0 + int (?k * PIPE_SIZE) < 2 ^ 31" by simp
    show ?thesis using write_chunks_calls [OF assms(1) le lt, of p] unfolding add_0 .
  qed
  show ?thesis
  proof (cases "?r = 0")
    case True
    then have "write_calls data = ?k" "int (?k * PIPE_SIZE) = int (length data)"
      using split by (simp_all add: write_calls_def CEILING_DIVISION_def)
    with True chunks show ?thesis
      by (simp add: pipe_write_info_def Let_def bnd_run ret_run split: sum.split)
  next
    case False
    have small: "?r < PIPE_SIZE" "0 < ?r" using False by simp_all
    have n: "write_calls data = Suc ?k"
      using ceil_split [OF small(2,1), of ?k] unfolding write_calls_def split [symmetric] .
    have "length data - ?k * PIPE_SIZE = ?r" using split by linarith
    with small have len: "call_length data ?k = ?r" by (simp add: call_length_def)
    have cyc: "write_cycle flags data (?k * PIPE_SIZE) ?r 0 = write_call flags data ?k"
      using write_cycle_blocking [OF assms(1), of ?r data "?k * PIPE_SIZE"] False by (simp add: write_call_def len)
    have tot: "int (?k * PIPE_SIZE) + int ?r = int (length data)" using split by linarith
    have "pipe_write_info flags data p =
      (case do_calls flags data [0..<?k] p of Inl e \<Rightarrow> Inl e | Inr (_, p') \<Rightarrow>
        (case write_call flags data ?k p' of Inl e \<Rightarrow> Inl e | Inr (r, p'') \<Rightarrow>
          (if int (?k * PIPE_SIZE) + r < 2 ^ 31 then Inr (int (?k * PIPE_SIZE) + r, p'') else Inl Undefined)))"
      using False unfolding pipe_write_info_def Let_def bnd_run chunks cyc if_not_P [OF False]
      by (auto simp: cyc cmd_simps split: sum.split)
    also have "\<dots> = (case do_calls flags data [0..<?k] p of Inl e \<Rightarrow> Inl e | Inr (_, p') \<Rightarrow>
        (case write_call flags data ?k p' of Inl e \<Rightarrow> Inl e | Inr (r, p'') \<Rightarrow> Inr (int (length data), p'')))"
      using write_call_result [OF assms(1)] len assms(2) tot by (fastforce split: sum.split)
    finally show ?thesis
      unfolding n by (auto simp: do_calls_append do_calls_simps split: sum.split)
  qed
qed


text \<open>
  The state of a transfer: the number of calls the writer has made, the pipe, and the bytes the
  reader has received. A task whose call would spin takes no step.
\<close>

inductive pipe_step :: "u32 \<Rightarrow> u32 \<Rightarrow> byte list \<Rightarrow> nat \<times> PipeInfo \<times> byte list \<Rightarrow> nat \<times> PipeInfo \<times> byte list \<Rightarrow> bool"
  for wflags rflags data where
  step_write: "i < write_calls data \<Longrightarrow> write_call wflags data i p = Inr (r, p') \<Longrightarrow> 0 \<le> r \<Longrightarrow>
    pipe_step wflags rflags data (i, p, got) (Suc i, p', got)"
| step_read: "0 < k \<Longrightarrow> pipe_read_info rflags k p = Inr ((r, out), p') \<Longrightarrow> 0 < r \<Longrightarrow>
    pipe_step wflags rflags data (i, p, got) (i, p', got @ out)"

inductive_cases pipe_stepE: "pipe_step wflags rflags data (i, p, got) st"

lemma pipe_write_inner_seg:
  assumes "off + n \<le> length data"
  shows "pipe_write_inner flags data (int off) (int n) = pipe_write_inner flags (seg data off n) 0 (int (length (seg data off n)))"
proof -
  have copy: "pipe_write_copy data (int off) (int n) = pipe_write_copy (seg data off n) 0 (int n)"
    using assms by (simp add: pipe_write_copy_def rdseg_def)
  have len: "length (seg data off n) = n" using assms by simp
  show ?thesis unfolding pipe_write_inner_def len copy ..
qed

lemma call_range: "i < write_calls data \<Longrightarrow> i * PIPE_SIZE < length data"
proof -
  assume "i < write_calls data"
  then have "i * PIPE_SIZE + PIPE_SIZE \<le> CEILING_DIVISION (length data) PIPE_SIZE * PIPE_SIZE"
    by (simp add: write_calls_def)
  also have "\<dots> < length data + PIPE_SIZE" by (rule CEILING_DIVISION_le) simp
  finally show ?thesis by simp
qed

lemma write_call_send:
  assumes "i < write_calls data" "write_call flags data i p = Inr (r, p')" "0 \<le> r"
  shows "pipe_send flags (seg data (i * PIPE_SIZE) (call_length data i)) p = Some p'"
proof -
  have "i * PIPE_SIZE + call_length data i \<le> length data"
    using call_range [OF assms(1)] by (simp add: call_length_def)
  from pipe_write_inner_seg [OF this, of flags] assms(2,3) show ?thesis
    unfolding write_call_def pipe_send_def by simp
qed

lemma sent_next:
  "take (i * PIPE_SIZE) data @ seg data (i * PIPE_SIZE) (call_length data i) = take (Suc i * PIPE_SIZE) data"
proof -
  have "Suc i * PIPE_SIZE = i * PIPE_SIZE + PIPE_SIZE" by simp
  then show ?thesis
    by (simp only: take_add seg_def call_length_def) (simp add: min_def)
qed

lemma sent_all: "write_calls data \<le> i \<Longrightarrow> take (i * PIPE_SIZE) data = data"
proof -
  assume i: "write_calls data \<le> i"
  have "length data \<le> write_calls data * PIPE_SIZE"
    unfolding write_calls_def by (rule CEILING_DIVISION_ge) simp
  also have "\<dots> \<le> i * PIPE_SIZE" using i by (rule mult_le_mono1)
  finally show ?thesis by simp
qed

lemma pipe_steps_account:
  assumes "(pipe_step wflags rflags data ^^ n) (0, p0, []) (i, p, got)" "pipe_ok p0" "contents p0 = []"
  shows "pq.account (take (i * PIPE_SIZE) data) p got \<and> i \<le> write_calls data \<and> n \<le> i + length got"
  using assms(1)
proof (induction n arbitrary: i p got)
  case 0
  then show ?case using assms(2,3) by (simp add: pq.account_def)
next
  case (Suc n)
  then obtain j q got1 where prev: "(pipe_step wflags rflags data ^^ n) (0, p0, []) (j, q, got1)"
    "pipe_step wflags rflags data (j, q, got1) (i, p, got)" by (auto elim: relpowp_Suc_E)
  note ih = Suc.IH [OF prev(1)]
  from prev(2) show ?case
  proof (rule pipe_stepE)
    fix r p' assume st: "(i, p, got) = (Suc j, p', got1)" "j < write_calls data" "write_call wflags data j q = Inr (r, p')" "0 \<le> r"
    from pq.account_send [OF conjunct1 [OF ih] write_call_send [OF st(2-4)]] st(1,2) ih show ?thesis
      by (simp add: sent_next)
  next
    fix k r out p' assume st: "(i, p, got) = (j, p', got1 @ out)" "0 < k" "pipe_read_info rflags k q = Inr ((r, out), p')" "0 < r"
    have ok: "pipe_ok q" using ih by (simp add: pq.account_def)
    have "pipe_recv rflags k q = Some (out, p')" using st(3,4) by (simp add: pipe_recv_def)
    from pq.account_recv [OF conjunct1 [OF ih] this] have "pq.account (take (j * PIPE_SIZE) data) p' (got1 @ out)" .
    moreover have "out \<noteq> []"
    proof (cases "contents q = []")
      case True
      with st(3,4) ok show ?thesis by (auto simp: pipe_read_empty split: if_splits)
    next
      case False
      obtain p'' where "pipe_read_info rflags k q = Inr ((int (length (take (min k PIPE_SIZE) (contents q))), take (min k PIPE_SIZE) (contents q)), p'')"
        by (rule pipe_read_run [OF ok False])
      with st(3,4) show ?thesis by auto
    qed
    ultimately show ?thesis using st(1) ih by (cases out) auto
  qed
qed

lemma pipe_progress:
  assumes "pipe_ok p" "contents p \<noteq> [] \<or> i < write_calls data"
  shows "\<exists>st. pipe_step wflags rflags data (i, p, got) st"
proof (cases "contents p = []")
  case False
  obtain p' where run: "pipe_read_info rflags 1 p = Inr ((int (length (take (min 1 PIPE_SIZE) (contents p))), take (min 1 PIPE_SIZE) (contents p)), p')"
    by (rule pipe_read_run [OF assms(1) False])
  have "0 < int (length (take (min 1 PIPE_SIZE) (contents p)))"
    using False by simp
  from step_read [OF _ run this, of wflags data i got] show ?thesis by auto
next
  case True
  with assms(2) have i: "i < write_calls data" by simp
  have "i * PIPE_SIZE + call_length data i \<le> length data" "length (contents p) + call_length data i \<le> PIPE_SIZE"
    using call_range [OF i] True by (simp_all add: call_length_def)
  from pipe_write_inner_run [OF assms(1) this, of wflags] obtain p' where
    "write_call wflags data i p = Inr (int (call_length data i), p')" unfolding write_call_def by metis
  from step_write [OF i this, of rflags got] show ?thesis by auto
qed

section \<open>Properties of the transfer\<close>


lemma new_pipe_ok: "pipe_ok new_pipe" "contents new_pipe = []"
  by (simp_all add: pipe_ok_def new_pipe_def contents_def)





section \<open>Flow control\<close>

lemma write_cycle_nonblock:
  assumes "has_flag flags O_NONBLOCK" "pipe_ok p" "PIPE_SIZE < length (contents p) + want" "cycle \<le> 0" "0 < want"
  shows "write_cycle flags data base want cycle p = Inl Undefined"
  using assms
proof (induction flags data base want cycle p rule: write_cycle.induct)
  case (1 flags data base want cycle p)
  have limit: "int want - cycle = int (nat (int want - cycle))" "PIPE_SIZE < length (contents p) + nat (int want - cycle)"
    using "1.prems"(3,4) by linarith+
  have full: "pipe_write_inner flags data (int base + cycle) (int want - cycle) p = Inr (- int EWOULDBLOCK, p)"
    using pipe_write_inner_blocked [OF "1.prems"(2) limit(2)] "1.prems"(1) limit(1) by simp
  have ne: "cycle \<noteq> int want" using "1.prems"(4,5) by simp
  show ?case
  proof (cases "cycle + - int EWOULDBLOCK < - (2 ^ 31)")
    case True
    then show ?thesis by (simp add: write_cycle.simps [of flags data base want cycle] ne full)
  next
    case False
    have "write_cycle flags data base want (cycle + - int EWOULDBLOCK) p = Inl Undefined"
      by (rule "1.IH" [OF ne full refl False]) (use "1.prems" in \<open>simp_all add: EWOULDBLOCK_def EAGAIN_def\<close>)
    with False show ?thesis
      unfolding write_cycle.simps [of flags data base want cycle] by (simp add: ne full)
  qed
qed

text \<open>
  C30. A non-blocking write to a pipe without room for its first part does not return
  \<^verbatim>\<open>EWOULDBLOCK\<close>: the negative result is added to the count, the request grows with every
  round, and the loop goes on until the counter overflows.
\<close>

theorem pipe_write_nonblock_spins:
  assumes "has_flag flags O_NONBLOCK" "pipe_ok p" "data \<noteq> []" "PIPE_SIZE < length (contents p) + min PIPE_SIZE (length data)"
  shows "pipe_write_info flags data p = Inl Undefined"
proof (cases "length data div PIPE_SIZE")
  case 0
  then have "length data < PIPE_SIZE" by (simp add: div_eq_0_iff)
  with 0 write_cycle_nonblock [OF assms(1,2), of "length data" 0 data 0] assms(3,4) show ?thesis
    by (simp add: pipe_write_info_def Let_def cmd_simps)
next
  case (Suc k)
  then have "PIPE_SIZE \<le> length data" by (metis Suc_le_eq div_less less_nat_zero_code not_le)
  with Suc write_cycle_nonblock [OF assms(1,2), of PIPE_SIZE 0 data 0] assms(4) show ?thesis
    by (simp add: pipe_write_info_def Let_def cmd_simps)
qed

theorem pipe_write_nonblock_spins_witness:
  "pipe_write_info O_NONBLOCK [1] (new_pipe\<lparr>assigned := 65536\<rparr>) = Inl Undefined"
proof -
  have "has_flag O_NONBLOCK O_NONBLOCK" "pipe_ok (new_pipe\<lparr>assigned := 65536\<rparr>)"
    "PIPE_SIZE < length (contents (new_pipe\<lparr>assigned := 65536\<rparr>)) + min PIPE_SIZE (length [1 :: byte])"
    by (simp_all add: flag_defs pipe_ok_def new_pipe_def contents_def)
  from pipe_write_nonblock_spins [OF this(1,2) _ this(3)] show ?thesis by simp
qed

text \<open>
  C31. The test for room is made before the lock is taken: of two writers that both find room for
  their own bytes, but not for those of both, the second copies past the end of the buffer.
\<close>

theorem pipe_write_race:
  assumes "pipe_ok p" "length (contents p) + length xs \<le> PIPE_SIZE" "length (contents p) + length ys \<le> PIPE_SIZE"
    "PIPE_SIZE < length (contents p) + length xs + length ys"
  shows "pipe_write_wait flags (int (length xs)) p = Inr (True, p) \<and> pipe_write_wait flags' (int (length ys)) p = Inr (True, p) \<and>
    (\<exists>p1. pipe_write_copy xs 0 (int (length xs)) p = Inr ((), p1) \<and> pipe_ok p1 \<and>
       pipe_write_copy ys 0 (int (length ys)) p1 = Inl Out_of_bounds)"
proof -
  have ok: "length (contents p) = nat (assigned p)" "0 \<le> assigned p"
    using assms(1) by (auto simp: contents_def pipe_ok_def)
  have waits: "pipe_write_wait f (int n) p = Inr (True, p)" if "length (contents p) + n \<le> PIPE_SIZE" for f n
    using that ok by (simp add: pipe_write_wait_def cmd_simps)
  obtain p1 where p1: "pipe_write_inner 0 xs (int 0) (int (length xs)) p = Inr (int (length xs), p1)" "pipe_ok p1"
    "contents p1 = contents p @ seg xs 0 (length xs)"
    by (rule pipe_write_inner_run [OF assms(1) _ assms(2), of 0 xs 0]) simp_all
  have copy: "pipe_write_copy xs 0 (int (length xs)) p = Inr ((), p1)"
    using p1(1) waits [OF assms(2)] by (auto simp: pipe_write_inner_def cmd_simps split: sum.splits)
  have a1: "nat (assigned p1) = length (contents p) + length xs" "length (pbuf p1) = PIPE_SIZE" "\<not> pipe_LOCK p1" "0 \<le> assigned p1"
    using length_contents [OF p1(2)] p1(2,3) by (simp_all add: pipe_ok_def)
  have "pipe_write_copy ys 0 (int (length ys)) p1 = Inl Out_of_bounds"
    using a1 assms(4) by (simp add: pipe_write_copy_def with_LOCK_def cmd_simps spinlock_acquire_def rdseg_def wr_def)
  with copy p1(2) waits assms(2,3) show ?thesis by blast
qed

theorem pipe_write_race_witness:
  "\<exists>p1. pipe_write_wait 0 40000 new_pipe = Inr (True, new_pipe) \<and>
     pipe_write_copy (replicate 40000 1) 0 40000 new_pipe = Inr ((), p1) \<and>
     pipe_write_copy (replicate 40000 2) 0 40000 p1 = Inl Out_of_bounds"
proof -
  have "length (contents new_pipe) = 0" by (simp add: new_pipe_ok(2))
  with pipe_write_race [OF new_pipe_ok(1), of "replicate 40000 1" "replicate 40000 2" 0 0] show ?thesis by auto
qed


section \<open>Ends of a pipe\<close>

text \<open>
  \<open>ends s w q\<close> are the specifics of the ends of pipe \<open>q\<close> that are open for writing (\<open>w\<close>) or reading.
  In a well-formed heap the counters of a pipe are the numbers of its open ends, every open
  end has its pipe, and a pipe without an open end is gone.
\<close>

definition ends :: "pipe_sys \<Rightarrow> bool \<Rightarrow> nat \<Rightarrow> nat set" where
  "ends s w q = {a. specs s a = Some \<lparr>spec_write = w, spec_info = q\<rparr>}"

definition pipes_ok :: "pipe_sys \<Rightarrow> bool" where
  "pipes_ok s \<longleftrightarrow> finite (dom (specs s)) \<and>
     (\<forall>a x. specs s a = Some x \<longrightarrow> a < next_addr s \<and> pipes s (spec_info x) \<noteq> None) \<and>
     (\<forall>q p. pipes s q = Some p \<longrightarrow> q < next_addr s \<and> pipe_ok p \<and> ends s True q \<union> ends s False q \<noteq> {} \<and>
        writeFds p = int (card (ends s True q)) \<and> readFds p = int (card (ends s False q)))"

lemma finite_ends: "pipes_ok s \<Longrightarrow> finite (ends s w q)"
  unfolding pipes_ok_def ends_def by (rule finite_subset [of _ "dom (specs s)"]) auto

lemma ends_new:
  assumes "a \<notin> dom (specs s)"
  shows "ends (s\<lparr>specs := (specs s)(a \<mapsto> x)\<rparr>) w q =
    (if spec_write x = w \<and> spec_info x = q then insert a (ends s w q) else ends s w q)"
  using assms by (cases x) (auto simp: ends_def)

lemma ends_gone: "ends (s\<lparr>specs := (specs s)(a := None)\<rparr>) w q = ends s w q - {a}"
  by (auto simp: ends_def)

lemma ends_same [simp]:
  "ends (s\<lparr>pipes := P\<rparr>) w q = ends s w q" "ends (s\<lparr>next_addr := n\<rparr>) w q = ends s w q" "ends (s\<lparr>files := F\<rparr>) w q = ends s w q"
  by (simp_all add: ends_def)

lemma pipes_okD:
  assumes "pipes_ok s"
  shows "finite (dom (specs s))" "specs s a = Some x \<Longrightarrow> a < next_addr s"
    "specs s a = Some x \<Longrightarrow> \<exists>p. pipes s (spec_info x) = Some p"
    "pipes s q = Some p \<Longrightarrow> q < next_addr s \<and> pipe_ok p \<and> ends s True q \<union> ends s False q \<noteq> {} \<and>
        writeFds p = int (card (ends s True q)) \<and> readFds p = int (card (ends s False q))"
  using assms unfolding pipes_ok_def by blast+

lemma pipe_duplicate_ok:
  assumes "pipes_ok s" "specs s (of_dir original) = Some x"
  shows "\<exists>s'. pipe_duplicate original orphan s = Inr ((True, orphan\<lparr>of_dir := next_addr s\<rparr>), s') \<and> pipes_ok s' \<and>
    specs s' (next_addr s) = Some x"
proof -
  note ok = pipes_okD [OF assms(1)]
  obtain p where p: "pipes s (spec_info x) = Some p" using ok(3) [OF assms(2)] by blast
  let ?a = "next_addr s" and ?q = "spec_info x"
  let ?p' = "if spec_write x then p\<lparr>writeFds := writeFds p + 1\<rparr> else p\<lparr>readFds := readFds p + 1\<rparr>"
  let ?s1 = "s\<lparr>specs := (specs s)(?a \<mapsto> x)\<rparr>"
  let ?s' = "?s1\<lparr>next_addr := Suc ?a, pipes := (pipes s)(?q \<mapsto> ?p')\<rparr>"
  have new: "?a \<notin> dom (specs s)" using ok(2) by blast
  have run: "pipe_duplicate original orphan s = Inr ((True, orphan\<lparr>of_dir := ?a\<rparr>), ?s')"
    using assms(2) p new by (auto simp: pipe_duplicate_def malloc_spec_def with_pipe_def get_spec_def cmd_simps)
  have e: "ends ?s' w q = (if spec_write x = w \<and> ?q = q then insert ?a (ends s w q) else ends s w q)" for w q
    by (simp add: ends_new [OF new])
  have fresh: "?a \<notin> ends s w q" for w q using new by (auto simp: ends_def)
  have "pipes_ok ?s'"
    unfolding pipes_ok_def
  proof (intro conjI allI impI)
    show "finite (dom (specs ?s'))" using ok(1) by simp
    show "a < next_addr ?s'" "pipes ?s' (spec_info y) \<noteq> None" if "specs ?s' a = Some y" for a y
      using that ok(2,3) by (force split: if_splits)+
    fix q r assume r: "pipes ?s' q = Some r"
    obtain r0 where r0: "pipes s q = Some r0" "q = ?q \<Longrightarrow> r0 = p" "q = ?q \<Longrightarrow> r = ?p'" "q \<noteq> ?q \<Longrightarrow> r = r0"
      using r p by (auto split: if_splits)
    note o = ok(4) [OF r0(1)]
    show "q < next_addr ?s'" using o by simp
    show "pipe_ok r" using o r0 by (cases "q = ?q") (auto simp: pipe_ok_def)
    show "ends ?s' True q \<union> ends ?s' False q \<noteq> {}" using o unfolding e by auto
    show "writeFds r = int (card (ends ?s' True q))" "readFds r = int (card (ends ?s' False q))"
      using o r0 finite_ends [OF assms(1)] fresh unfolding e by (cases "q = ?q"; auto)+
  qed
  with run new show ?thesis by auto
qed


lemma pipe_close_ok:
  assumes "pipes_ok s" "specs s (of_dir fd) = Some x"
  shows "\<exists>s'. pipe_close_end fd s = Inr (True, s') \<and> pipes_ok s' \<and>
    (pipes s' (spec_info x) = None \<longleftrightarrow> ends s True (spec_info x) \<union> ends s False (spec_info x) = {of_dir fd})"
proof -
  note ok = pipes_okD [OF assms(1)]
  obtain p where p: "pipes s (spec_info x) = Some p" using ok(3) [OF assms(2)] by blast
  let ?a = "of_dir fd" and ?q = "spec_info x"
  let ?p' = "if spec_write x then p\<lparr>writeFds := writeFds p - 1\<rparr> else p\<lparr>readFds := readFds p - 1\<rparr>"
  define gone where "gone \<longleftrightarrow> readFds ?p' = 0 \<and> writeFds ?p' = 0"
  let ?s' = "s\<lparr>pipes := (pipes s)(?q := if gone then None else Some ?p'), specs := (specs s)(?a := None)\<rparr>"
  note o = ok(4) [OF p]
  have unlocked: "\<not> pipe_LOCK ?p'" using o by (simp add: pipe_ok_def)
  have run: "pipe_close_end fd s = Inr (True, ?s')"
    using assms(2) p unlocked
    by (cases "spec_write x"; cases gone)
      (auto simp: gone_def pipe_close_end_def with_pipe_def get_spec_def cmd_simps spinlock_acquire_def)
  have e: "ends ?s' w q = ends s w q - {?a}" for w q by (auto simp: ends_def)
  have mem: "?a \<in> ends s w q \<longleftrightarrow> spec_write x = w \<and> ?q = q" for w q
    using assms(2) by (cases x) (auto simp: ends_def)
  note fin = finite_ends [OF assms(1)]
  have card: "int (card (ends s w ?q - {?a})) = int (card (ends s w ?q)) - (if spec_write x = w then 1 else 0)" for w
  proof (cases "spec_write x = w")
    case True
    then have "?a \<in> ends s w ?q" using mem by simp
    from card_Suc_Diff1 [OF fin this] True show ?thesis by simp
  next
    case False
    then show ?thesis using mem by (simp add: Diff_triv)
  qed
  have cnt: "writeFds ?p' = int (card (ends s True ?q - {?a}))" "readFds ?p' = int (card (ends s False ?q - {?a}))"
    using o card [of True] card [of False] by (auto split: if_splits)
  have last: "gone \<longleftrightarrow> ends s True ?q - {?a} = {} \<and> ends s False ?q - {?a} = {}"
    unfolding gone_def cnt using fin by auto
  have "pipes_ok ?s'"
    unfolding pipes_ok_def
  proof (intro conjI allI impI)
    show "finite (dom (specs ?s'))" using ok(1) by simp
    fix a y assume y: "specs ?s' a = Some y"
    then have y0: "specs s a = Some y" "a \<noteq> ?a" by (auto split: if_splits)
    show "a < next_addr ?s'" using ok(2) [OF y0(1)] by simp
    have "a \<in> ends s (spec_write y) (spec_info y) - {?a}" using y0 by (cases y) (simp add: ends_def)
    then have "spec_info y = ?q \<Longrightarrow> \<not> gone" unfolding last by (cases "spec_write y") auto
    then show "pipes ?s' (spec_info y) \<noteq> None" using ok(3) [OF y0(1)] by auto
  next
    fix q r assume r: "pipes ?s' q = Some r"
    have "q < next_addr ?s' \<and> pipe_ok r \<and> ends ?s' True q \<union> ends ?s' False q \<noteq> {} \<and>
        writeFds r = int (card (ends ?s' True q)) \<and> readFds r = int (card (ends ?s' False q))"
    proof (cases "q = ?q")
      case True
      then have "r = ?p'" "\<not> gone" using r by (auto split: if_splits)
      moreover have "pipe_ok ?p'" using o by (simp add: pipe_ok_def)
      ultimately show ?thesis using True cnt o last unfolding e by auto
    next
      case False
      then have "pipes s q = Some r" using r by simp
      moreover have "ends ?s' w q = ends s w q" for w using mem False unfolding e by auto
      ultimately show ?thesis using ok(4) by simp
    qed
    then show "q < next_addr ?s'" "pipe_ok r" "ends ?s' True q \<union> ends ?s' False q \<noteq> {}"
      "writeFds r = int (card (ends ?s' True q))" "readFds r = int (card (ends ?s' False q))" by blast+
  qed
  moreover have "ends s True ?q \<union> ends s False ?q = {?a} \<longleftrightarrow> gone"
    using mem [of True ?q] mem [of False ?q] unfolding last by (cases "spec_write x") blast+
  ultimately show ?thesis using run by (intro exI [of _ ?s']) simp
qed


text \<open>Transfers keep the shape of a pipe and its counters.\<close>

definition keeps :: "(PipeInfo, 'a) cmd \<Rightarrow> bool" where
  "keeps body \<longleftrightarrow> (\<forall>p r p'. pipe_ok p \<and> body p = Inr (r, p') \<longrightarrow>
     pipe_ok p' \<and> writeFds p' = writeFds p \<and> readFds p' = readFds p)"

lemma keepsI: "(\<And>p r p'. pipe_ok p \<Longrightarrow> body p = Inr (r, p') \<Longrightarrow> pipe_ok p' \<and> writeFds p' = writeFds p \<and> readFds p' = readFds p) \<Longrightarrow> keeps body"
  unfolding keeps_def by blast

lemma keepsD: "keeps body \<Longrightarrow> pipe_ok p \<Longrightarrow> body p = Inr (r, p') \<Longrightarrow> pipe_ok p' \<and> writeFds p' = writeFds p \<and> readFds p' = readFds p"
  unfolding keeps_def by blast

lemma keeps_ret: "keeps (ret x)" and keeps_check: "keeps (check e b)"
  by (auto simp: keeps_def cmd_simps split: if_splits)

lemma keeps_bnd: "keeps m \<Longrightarrow> (\<And>x. keeps (f x)) \<Longrightarrow> keeps (bnd m f)"
  unfolding keeps_def bnd_Inr by metis

lemma keeps_andthen: "keeps m \<Longrightarrow> keeps k \<Longrightarrow> keeps (andthen m k)"
  unfolding andthen_def by (rule keeps_bnd)

lemma keeps_read: "keeps (pipe_read_info flags k)"
proof (rule keepsI)
  fix p r p' assume p: "pipe_ok p" "pipe_read_info flags k p = Inr (r, p')"
  show "pipe_ok p' \<and> writeFds p' = writeFds p \<and> readFds p' = readFds p"
  proof (cases "contents p = []")
    case True
    with p show ?thesis by (auto simp: pipe_read_empty split: if_splits)
  next
    case False
    from pipe_read_run [OF p(1) this, of flags k] p(2) show ?thesis by fastforce
  qed
qed

lemma keeps_copy: "0 \<le> n \<Longrightarrow> keeps (pipe_write_copy data off n)"
proof (rule keepsI)
  assume n: "0 \<le> n"
  fix p r p' assume p: "pipe_ok p" "pipe_write_copy data off n p = Inr (r, p')"
  then have ok: "\<not> pipe_LOCK p" "length (pbuf p) = PIPE_SIZE" by (simp_all add: pipe_ok_def)
  have same: "p\<lparr>pipe_LOCK := False\<rparr> = p" using ok(1) by simp
  obtain src where src: "rdseg data (nat off) (nat n) = Inr src" "nat (assigned p) + length src \<le> PIPE_SIZE" "0 \<le> assigned p"
    "p' = p\<lparr>pbuf := blit (pbuf p) (nat (assigned p)) src, assigned := assigned p + n, pipe_LOCK := False\<rparr>"
    using p(2) ok
    by (auto simp: pipe_write_copy_def with_LOCK_def cmd_simps spinlock_acquire_def spinlock_release_def same lift_def wr_def
        split: sum.splits if_splits)
  have "length src = nat n" using src(1) by (auto simp: rdseg_def split: if_splits)
  with n src(2,3) have "0 \<le> assigned p + n" "assigned p + n \<le> int PIPE_SIZE" by linarith+
  with src ok show "pipe_ok p' \<and> writeFds p' = writeFds p \<and> readFds p' = readFds p"
    by (simp add: pipe_ok_def)
qed


lemma keeps_inner: "0 \<le> n \<Longrightarrow> keeps (pipe_write_inner flags data off n)"
  unfolding pipe_write_inner_def
proof (rule keeps_bnd)
  show "keeps (pipe_write_wait flags n)"
    by (auto simp: keeps_def pipe_write_wait_def cmd_simps split: if_splits)
  show "keeps (if go then andthen (pipe_write_copy data off n) (ret n) else ret (- int EWOULDBLOCK))" if "0 \<le> n" for go
    using that by (simp add: keeps_andthen keeps_copy keeps_ret)
qed

lemma keeps_cycle:
  assumes "cycle \<le> int want" "pipe_ok p" "write_cycle flags data base want cycle p = Inr (r, p')"
  shows "pipe_ok p' \<and> writeFds p' = writeFds p \<and> readFds p' = readFds p"
  using assms
proof (induction flags data base want cycle p arbitrary: r p' rule: write_cycle.induct)
  case (1 flags data base want cycle p)
  show ?case
  proof (cases "cycle = int want")
    case True
    with "1.prems"(3) have "p' = p" unfolding write_cycle.simps [of flags data base want cycle] by simp
    with "1.prems"(2) show ?thesis by simp
  next
    case False
    obtain q p1 where in1: "pipe_write_inner flags data (int base + cycle) (int want - cycle) p = Inr (q, p1)"
      "\<not> cycle + q < - (2 ^ 31)" "write_cycle flags data base want (cycle + q) p1 = Inr (r, p')"
      using "1.prems"(3) False by (auto simp: write_cycle.simps [of flags data base want cycle] split: sum.splits if_splits)
    have p1: "pipe_ok p1 \<and> writeFds p1 = writeFds p \<and> readFds p1 = readFds p"
      by (rule keepsD [OF keeps_inner "1.prems"(2) in1(1)]) (use "1.prems"(1) in simp)
    have "cycle + q \<le> int want"
      using pipe_write_inner_result [OF in1(1)] "1.prems"(1) by auto
    from "1.IH" [OF False in1(1) refl in1(2) this _ in1(3)] p1 show ?thesis by simp
  qed
qed

lemma keeps_chunks: "keeps (write_chunks flags data i k ret0)"
proof (induction k arbitrary: i ret0)
  case 0
  then show ?case by (simp add: keeps_ret)
next
  case (Suc k)
  have "keeps (write_cycle flags data (i * PIPE_SIZE) PIPE_SIZE 0)"
    by (rule keepsI) (rule keeps_cycle, simp_all)
  with Suc show ?case by (simp add: keeps_bnd keeps_andthen keeps_check)
qed

lemma keeps_write: "keeps (pipe_write_info flags data)"
proof -
  have "keeps (write_cycle flags data base want 0)" for base want
    by (rule keepsI) (rule keeps_cycle, simp_all)
  then show ?thesis
    unfolding pipe_write_info_def Let_def
    by (intro keeps_bnd keeps_chunks) (simp add: keeps_bnd keeps_andthen keeps_check keeps_ret)
qed

lemma with_pipe_ok:
  assumes "keeps body" "pipes_ok s" "with_pipe fd body s = Inr (r, s')"
  shows "pipes_ok s'"
proof -
  obtain x p p' where x: "specs s (of_dir fd) = Some x" "pipes s (spec_info x) = Some p" "body p = Inr (r, p')"
    "s' = s\<lparr>pipes := (pipes s)(spec_info x \<mapsto> p')\<rparr>"
    using assms(3) by (auto simp: with_pipe_def get_spec_def bnd_run split: option.splits sum.splits)
  note ok = pipes_okD [OF assms(2)]
  have "pipe_ok p' \<and> writeFds p' = writeFds p \<and> readFds p' = readFds p"
    using keepsD [OF assms(1) _ x(3)] ok(4) [OF x(2)] by blast
  with assms(2) x(2) show ?thesis
    unfolding x(4) pipes_ok_def by auto
qed


text \<open>
  What \<^verbatim>\<open>pipe_open\<close> relies on of opening a device file: it adds to the open files of the task and
  touches no pipe; memory it allocates is its own.
\<close>

definition opens_apart :: "(string \<Rightarrow> u32 \<Rightarrow> int pipe_cmd) \<Rightarrow> bool" where
  "opens_apart fsUserOpen \<longleftrightarrow> (\<forall>path flags s r s'. fsUserOpen path flags s = Inr (r, s') \<longrightarrow>
     pipes s' = pipes s \<and> specs s' = specs s \<and> next_addr s \<le> next_addr s')"

lemma pipes_ok_grow:
  assumes "pipes_ok s" "pipes s' = pipes s" "specs s' = specs s" "next_addr s \<le> next_addr s'"
  shows "pipes_ok s'"
proof -
  have e: "ends s' w q = ends s w q" for w q by (simp add: ends_def assms(3))
  show ?thesis
    unfolding pipes_ok_def e assms(2,3)
    using pipes_okD [OF assms(1)] less_le_trans [OF _ assms(4)] by (intro conjI allI impI) blast+
qed

lemma pipes_ok_new:
  assumes "pipes_ok s"
  shows "pipes_ok (s\<lparr>pipes := (pipes s)(next_addr s \<mapsto> new_pipe),
      specs := (specs s)(Suc (next_addr s) \<mapsto> \<lparr>spec_write = False, spec_info = next_addr s\<rparr>,
                         Suc (Suc (next_addr s)) \<mapsto> \<lparr>spec_write = True, spec_info = next_addr s\<rparr>),
      next_addr := Suc (Suc (Suc (next_addr s)))\<rparr>)" (is "pipes_ok ?s'")
proof -
  let ?i = "next_addr s"
  note ok = pipes_okD [OF assms]
  have fresh: "?i \<notin> dom (pipes s)" "a \<notin> dom (specs s)" if "?i \<le> a" for a
    using that ok(2,4) by fastforce+
  have info: "specs s a \<noteq> Some \<lparr>spec_write = w, spec_info = ?i\<rparr>" for a w
    using ok(3) [of a] ok(4) by fastforce
  have e: "ends ?s' w q = (if q = ?i then (if w then {Suc (Suc ?i)} else {Suc ?i}) else ends s w q)" for w q
    using fresh(2) [of "Suc ?i"] fresh(2) [of "Suc (Suc ?i)"] info by (auto simp: ends_def)
  show ?thesis
    unfolding pipes_ok_def
  proof (intro conjI allI impI)
    show "finite (dom (specs ?s'))" using ok(1) by simp
    show "a < next_addr ?s'" "pipes ?s' (spec_info y) \<noteq> None" if "specs ?s' a = Some y" for a y
      using that ok(2,3) by (force split: if_splits)+
    fix q r assume r: "pipes ?s' q = Some r"
    show "q < next_addr ?s'" using r ok(4) by (fastforce split: if_splits)
    show "pipe_ok r" using r ok(4) new_pipe_ok(1) by (auto split: if_splits)
    show "ends ?s' True q \<union> ends ?s' False q \<noteq> {}" using r ok(4) unfolding e by (auto split: if_splits)
    show "writeFds r = int (card (ends ?s' True q))" "readFds r = int (card (ends ?s' False q))"
      using r ok(4) unfolding e by (auto simp: new_pipe_def split: if_splits)
  qed
qed

lemma pipe_open_ok:
  assumes "opens_apart fsUserOpen" "pipes_ok s" "pipe_open fsUserOpen s = Inr (r, s')"
  shows "pipes_ok s'"
proof -
  obtain rfd s1 wfd s2 where s: "fsUserOpen ''/dev/stdout'' O_RDONLY s = Inr (rfd, s1)"
    "fsUserOpen ''/dev/stdout'' O_WRONLY s1 = Inr (wfd, s2)"
    using assms(3) unfolding pipe_open_def bnd_run by (auto split: sum.splits)
  have ok2: "pipes_ok s2"
    using assms(1,2) s pipes_ok_grow unfolding opens_apart_def by metis
  let ?i = "next_addr s2"
  show ?thesis
  proof (cases "rfd < 0 \<or> wfd < 0 \<or> files s2 rfd = None \<or> files s2 wfd = None")
    case True
    with assms(3) s have "s' = s2"
      by (auto simp: pipe_open_def bnd_run gets_run ret_run split: option.splits if_splits)
    with ok2 show ?thesis by simp
  next
    case False
    then obtain rd wt where "files s2 rfd = Some rd" "files s2 wfd = Some wt" "\<not> (rfd < 0 \<or> wfd < 0)" by auto
    with assms(3) s have "s' = s2\<lparr>pipes := (pipes s2)(?i \<mapsto> new_pipe),
      specs := (specs s2)(Suc ?i \<mapsto> \<lparr>spec_write = False, spec_info = ?i\<rparr>, Suc (Suc ?i) \<mapsto> \<lparr>spec_write = True, spec_info = ?i\<rparr>),
      next_addr := Suc (Suc (Suc ?i)), files := files s'\<rparr>"
      by (auto simp: pipe_open_def cmd_simps malloc_info_def malloc_spec_def)
    with pipes_ok_grow [OF pipes_ok_new [OF ok2], of s'] show ?thesis
      by (metis (no_types, lifting) le_refl pipe_sys.ext_inject pipe_sys.surjective pipe_sys.update_convs)
  qed
qed

text \<open>The pipes of a system in use: ends are opened, duplicated, closed, read and written in any order.\<close>

inductive pipe_reach :: "(string \<Rightarrow> u32 \<Rightarrow> int pipe_cmd) \<Rightarrow> pipe_sys \<Rightarrow> bool" for fsUserOpen where
  reach_start: "pipe_reach fsUserOpen \<lparr>pipes = Map.empty, specs = Map.empty, files = fs, next_addr = 1\<rparr>"
| reach_open: "pipe_reach fsUserOpen s \<Longrightarrow> pipe_open fsUserOpen s = Inr (r, s') \<Longrightarrow> pipe_reach fsUserOpen s'"
| reach_dup: "pipe_reach fsUserOpen s \<Longrightarrow> pipe_duplicate fd orphan s = Inr (r, s') \<Longrightarrow> pipe_reach fsUserOpen s'"
| reach_close: "pipe_reach fsUserOpen s \<Longrightarrow> pipe_close_end fd s = Inr (b, s') \<Longrightarrow> pipe_reach fsUserOpen s'"
| reach_read: "pipe_reach fsUserOpen s \<Longrightarrow> pipe_read fd k s = Inr (out, s') \<Longrightarrow> pipe_reach fsUserOpen s'"
| reach_write: "pipe_reach fsUserOpen s \<Longrightarrow> pipe_write fd data s = Inr (n, s') \<Longrightarrow> pipe_reach fsUserOpen s'"

lemma get_spec_Some: "bnd (get_spec fd) f s = Inr r \<Longrightarrow> \<exists>x. specs s (of_dir fd) = Some x"
  by (auto simp: bnd_run get_spec_def split: option.splits)

lemma pipe_reach_ok: "pipe_reach fsUserOpen s \<Longrightarrow> opens_apart fsUserOpen \<Longrightarrow> pipes_ok s"
proof (induction rule: pipe_reach.induct)
  case (reach_start fs)
  then show ?case by (simp add: pipes_ok_def)
next
  case (reach_open s r s')
  then show ?case using pipe_open_ok by blast
next
  case (reach_dup s fd orphan r s')
  obtain x where "specs s (of_dir fd) = Some x"
    using reach_dup.hyps(2) get_spec_Some unfolding pipe_duplicate_def by blast
  from pipe_duplicate_ok [OF reach_dup.IH [OF reach_dup.prems] this, of orphan] reach_dup.hyps(2) show ?case by auto
next
  case (reach_close s fd b s')
  obtain x where "specs s (of_dir fd) = Some x"
    using reach_close.hyps(2) get_spec_Some unfolding pipe_close_end_def by blast
  from pipe_close_ok [OF reach_close.IH [OF reach_close.prems] this] reach_close.hyps(2) show ?case by auto
next
  case (reach_read s fd k out s')
  then show ?case using with_pipe_ok [OF keeps_read] unfolding pipe_read_def by blast
next
  case (reach_write s fd data n s')
  then show ?case using with_pipe_ok [OF keeps_write] unfolding pipe_write_def by blast
qed


text \<open>
  C29. Life of a pipe: in every reachable state the counters of a pipe are the numbers of its open
  ends, every open end refers to an allocated, well-formed pipe, and closing an end always
  succeeds, releasing the pipe exactly when it was the last one.
\<close>

theorem pipe_ends_counted:
  assumes "pipe_reach fsUserOpen s" "opens_apart fsUserOpen"
  shows "pipes_ok s \<and>
    (\<forall>fd x. specs s (of_dir fd) = Some x \<longrightarrow>
       (\<exists>s'. pipe_close_end fd s = Inr (True, s') \<and>
          (pipes s' (spec_info x) = None \<longleftrightarrow> ends s True (spec_info x) \<union> ends s False (spec_info x) = {of_dir fd})))"
proof -
  have ok: "pipes_ok s" by (rule pipe_reach_ok [OF assms])
  show ?thesis
  proof (intro conjI allI impI)
    fix fd :: OpenFile and x assume "specs s (of_dir fd) = Some x"
    from pipe_close_ok [OF ok this] show "\<exists>s'. pipe_close_end fd s = Inr (True, s') \<and>
        (pipes s' (spec_info x) = None \<longleftrightarrow> ends s True (spec_info x) \<union> ends s False (spec_info x) = {of_dir fd})"
      by (elim exE conjE) (intro exI conjI)
  qed (rule ok)
qed

text \<open>A table of open files in which a new file takes the next number.\<close>

definition demo_fsUserOpen :: "string \<Rightarrow> u32 \<Rightarrow> int pipe_cmd" where
  "demo_fsUserOpen path flags s =
     Inr (int (next_addr s), s\<lparr>files := (files s)(int (next_addr s) \<mapsto> (new_file\<lparr>of_flags := flags, of_handlers := deviceHandlers, of_dir := 0\<rparr>)),
                               next_addr := Suc (next_addr s)\<rparr>)"

definition demo_pipes :: pipe_sys where
  "demo_pipes = \<lparr>pipes = [3 \<mapsto> new_pipe],
     specs = [4 \<mapsto> \<lparr>spec_write = False, spec_info = 3\<rparr>, 5 \<mapsto> \<lparr>spec_write = True, spec_info = 3\<rparr>],
     files = [1 \<mapsto> (new_file\<lparr>of_flags := O_RDONLY, of_handlers := pipeReadEnd, of_dir := 4\<rparr>),
              2 \<mapsto> (new_file\<lparr>of_flags := O_WRONLY, of_handlers := pipeWriteEnd, of_dir := 5\<rparr>)], next_addr = 6\<rparr>"

lemma demo_pipe_open:
  "pipe_open demo_fsUserOpen \<lparr>pipes = Map.empty, specs = Map.empty, files = Map.empty, next_addr = 1\<rparr> =
    Inr ((0, Some (1, 2)), demo_pipes)"
  by (simp add: pipe_open_def demo_fsUserOpen_def cmd_simps malloc_info_def malloc_spec_def demo_pipes_def fun_upd_twist eval_nat_numeral)

lemma demo_opens_apart: "opens_apart demo_fsUserOpen"
  by (simp add: opens_apart_def demo_fsUserOpen_def)

lemma demo_reach: "pipe_reach demo_fsUserOpen demo_pipes"
  by (rule reach_open [OF reach_start demo_pipe_open])

theorem pipe_ends_counted_witness:
  "pipes_ok demo_pipes \<and> (\<exists>s. pipe_close_end (new_file\<lparr>of_flags := 0, of_handlers := pipeReadEnd, of_dir := 4\<rparr>) demo_pipes = Inr (True, s) \<and>
     pipes s 3 \<noteq> None)"
proof -
  let ?fd = "(new_file\<lparr>of_flags := 0, of_handlers := pipeReadEnd, of_dir := 4\<rparr>)" and ?x = "\<lparr>spec_write = False, spec_info = 3\<rparr>"
  have x: "specs demo_pipes (of_dir ?fd) = Some ?x" by (simp add: demo_pipes_def)
  have "5 \<in> ends demo_pipes True 3" by (simp add: ends_def demo_pipes_def)
  then have "ends demo_pipes True 3 \<union> ends demo_pipes False 3 \<noteq> {4}"
    by (metis UnI1 numeral_eq_iff semiring_norm(88) singletonD)
  with pipe_ends_counted [OF demo_reach demo_opens_apart] x show ?thesis by force
qed

text \<open>
  What is written into an empty pipe through one end is read from the other: up to 65536
  bytes are accepted by one \<^verbatim>\<open>pipe_write\<close> and returned by one \<^verbatim>\<open>pipe_read\<close>.
\<close>

theorem pipe_write_then_read:
  assumes "specs s (of_dir wfd) = Some \<lparr>spec_write = True, spec_info = q\<rparr>"
    "specs s (of_dir rfd) = Some \<lparr>spec_write = False, spec_info = q\<rparr>" "pipes s q = Some p" "pipe_ok p" "contents p = []"
    "\<not> has_flag (of_flags wfd) O_NONBLOCK" "data \<noteq> []" "length data \<le> PIPE_SIZE" "length data \<le> k"
  shows "\<exists>s' s''. pipe_write wfd data s = Inr (int (length data), s') \<and>
    pipe_read rfd k s' = Inr ((int (length data), data), s'')"
proof -
  have len: "0 < length data" "length data < 2 ^ 31" using assms(7,8) by simp_all
  have one: "write_calls data = 1"
  proof (cases "length data = PIPE_SIZE")
    case True
    then show ?thesis using CEILING_DIVISION_mult [of PIPE_SIZE 1] by (simp add: write_calls_def)
  next
    case False
    then show ?thesis using ceil_split [OF len(1), of PIPE_SIZE 0] assms(8) by (simp add: write_calls_def)
  qed
  obtain p1 where p1: "pipe_write_inner (of_flags wfd) data (int 0) (int (length data)) p = Inr (int (length data), p1)"
    "pipe_ok p1" "contents p1 = contents p @ seg data 0 (length data)"
    by (rule pipe_write_inner_run [OF assms(4), of 0 "length data" data]) (use assms(5,8) in simp_all)
  have "call_length data 0 = length data" using assms(8) by (simp add: call_length_def)
  with p1(1) have "do_calls (of_flags wfd) data [0..<1] p = Inr ((), p1)"
    by (simp add: do_calls_simps write_call_def)
  then have w: "pipe_write_info (of_flags wfd) data p = Inr (int (length data), p1)"
    using pipe_write_calls [OF assms(6) len(2), of p] unfolding one by simp
  have c: "contents p1 = data" using p1(3) assms(5) by simp
  have "min k PIPE_SIZE \<ge> length data" using assms(8,9) by simp
  then obtain p2 where r: "pipe_read_info (of_flags rfd) k p1 = Inr ((int (length data), data), p2)"
    using pipe_read_run [OF p1(2), of "of_flags rfd" k] assms(7) unfolding c by (metis take_all)
  let ?s' = "s\<lparr>pipes := (pipes s)(q \<mapsto> p1)\<rparr>"
  have "pipe_write wfd data s = Inr (int (length data), ?s')"
    using assms(1,3) w by (simp add: pipe_write_def with_pipe_def get_spec_def bnd_run)
  moreover have "pipe_read rfd k ?s' = Inr ((int (length data), data), ?s'\<lparr>pipes := (pipes ?s')(q \<mapsto> p2)\<rparr>)"
    using assms(2) r by (simp add: pipe_read_def with_pipe_def get_spec_def bnd_run)
  ultimately show ?thesis by blast
qed

theorem pipe_write_then_read_witness:
  "\<exists>s' s''. pipe_write (new_file\<lparr>of_flags := 0, of_handlers := pipeWriteEnd, of_dir := 5\<rparr>) [1, 2, 3] demo_pipes = Inr (3, s') \<and>
     pipe_read (new_file\<lparr>of_flags := 0, of_handlers := pipeReadEnd, of_dir := 4\<rparr>) 10 s' = Inr ((3, [1, 2, 3]), s'')"
  using pipe_write_then_read [of demo_pipes "(new_file\<lparr>of_flags := 0, of_handlers := pipeWriteEnd, of_dir := 5\<rparr>)" 3
      "(new_file\<lparr>of_flags := 0, of_handlers := pipeReadEnd, of_dir := 4\<rparr>)" new_pipe "[1, 2, 3]" 10] new_pipe_ok
  by (simp add: demo_pipes_def flag_defs)

text \<open>
  Errors of the two ends: reading an empty pipe returns end of file once no writer is left,
  \<^verbatim>\<open>-EWOULDBLOCK\<close> on a non-blocking descriptor, and waits otherwise; reading the write end or
  writing the read end returns \<^verbatim>\<open>-EBADF\<close> and changes nothing.
\<close>

theorem pipe_read_errors:
  assumes "specs s (of_dir fd) = Some x" "pipes s (spec_info x) = Some p" "pipe_ok p" "contents p = []"
  shows "(of_handlers fd = pipeReadEnd \<longrightarrow> end_read fd k s =
      (if writeFds p = 0 then Inr ((0, []), s)
       else if has_flag (of_flags fd) O_NONBLOCK then Inr ((- 11, []), s) else Inl Blocked)) \<and>
    (of_handlers fd = pipeWriteEnd \<longrightarrow> end_read fd k s = Inr ((- 9, []), s)) \<and>
    (of_handlers fd = pipeReadEnd \<longrightarrow> end_write fd data s = Inr (- 9, s))"
proof -
  have same: "s\<lparr>pipes := (pipes s)(spec_info x \<mapsto> p)\<rparr> = s" using assms(2) by (simp add: fun_upd_idem)
  have "end_read fd k s = (if writeFds p = 0 then Inr ((0, []), s)
       else if has_flag (of_flags fd) O_NONBLOCK then Inr ((- 11, []), s) else Inl Blocked)" if "of_handlers fd = pipeReadEnd"
    using that assms(1,2) pipe_read_empty [OF assms(3,4), of "of_flags fd" k]
    by (simp add: end_read_def pipe_read_def with_pipe_def get_spec_def bnd_run same EWOULDBLOCK_def EAGAIN_def)
  then show ?thesis
    by (simp add: end_read_def end_write_def pipe_bad_read_def pipe_bad_write_def ret_run EBADF_def)
qed

theorem pipe_read_errors_witness:
  "end_read (new_file\<lparr>of_flags := O_NONBLOCK, of_handlers := pipeReadEnd, of_dir := 4\<rparr>) 10 demo_pipes = Inr ((- 11, []), demo_pipes) \<and>
   end_read (new_file\<lparr>of_flags := 0, of_handlers := pipeWriteEnd, of_dir := 5\<rparr>) 10 demo_pipes = Inr ((- 9, []), demo_pipes)"
proof -
  have "specs demo_pipes 4 = Some \<lparr>spec_write = False, spec_info = 3\<rparr>" "specs demo_pipes 5 = Some \<lparr>spec_write = True, spec_info = 3\<rparr>"
    "pipes demo_pipes 3 = Some new_pipe" "writeFds new_pipe = 1" "has_flag O_NONBLOCK O_NONBLOCK"
    by (simp_all add: demo_pipes_def new_pipe_def flag_defs)
  with pipe_read_errors [of demo_pipes "(new_file\<lparr>of_flags := O_NONBLOCK, of_handlers := pipeReadEnd, of_dir := 4\<rparr>)" _ new_pipe 10]
    pipe_read_errors [of demo_pipes "(new_file\<lparr>of_flags := 0, of_handlers := pipeWriteEnd, of_dir := 5\<rparr>)" _ new_pipe 10] new_pipe_ok
  show ?thesis by simp
qed

end
