(* ===== verification/Eventfd.thy ===== *)
theory Eventfd
  imports Open_File Spinlock
begin

text \<open>
  Event counters (\<^verbatim>\<open>syscalls/eventfd.cpp\<close>). An \<^verbatim>\<open>EventFd\<close> is a 64-bit counter shared by the
  descriptors that refer to it; a write adds to the counter, a read takes its value and sets it
  to zero. Whether a signal is pending for the task (\<^verbatim>\<open>signalsPendingQuick\<close>) is an argument of
  the operations that ask; the calls of \<^verbatim>\<open>pollInstanceRing\<close> are logged in \<open>rings\<close>.
\<close>

record EventFd =
  counter :: u64
  utilizedBy :: int
  LOCK_EVENTFD :: Spinlock

record event_sys =
  events :: "nat \<rightharpoonup> EventFd"
  event_files :: "int \<rightharpoonup> OpenFile"
  event_next :: nat
  rings :: "(nat \<times> u32) list"

type_synonym 'a event_cmd = "(event_sys, 'a) cmd"

definition EFD_CLOEXEC :: u32 where "EFD_CLOEXEC = O_CLOEXEC"
definition EFD_NONBLOCK :: u32 where "EFD_NONBLOCK = O_NONBLOCK"
definition EPOLLIN :: u32 where "EPOLLIN = 1"
definition EPOLLOUT :: u32 where "EPOLLOUT = 4"

definition get_event :: "nat \<Rightarrow> EventFd event_cmd" where
  "get_event a = (\<lambda>s. case events s a of None \<Rightarrow> Inl Undefined | Some e \<Rightarrow> Inr (e, s))"

definition put_event :: "nat \<Rightarrow> EventFd \<Rightarrow> unit event_cmd" where
  "put_event a e = modify (\<lambda>s. s\<lparr>events := (events s)(a \<mapsto> e)\<rparr>)"

definition event_acquire :: "nat \<Rightarrow> unit event_cmd" where
  "event_acquire a =
     bnd (get_event a) (\<lambda>e. bnd (lift (spinlock_acquire (LOCK_EVENTFD e))) (\<lambda>l. put_event a (e\<lparr>LOCK_EVENTFD := l\<rparr>)))"

definition event_release :: "nat \<Rightarrow> unit event_cmd" where
  "event_release a = bnd (get_event a) (\<lambda>e. put_event a (e\<lparr>LOCK_EVENTFD := spinlock_release (LOCK_EVENTFD e)\<rparr>))"

definition pollInstanceRing :: "nat \<Rightarrow> u32 \<Rightarrow> unit event_cmd" where
  "pollInstanceRing key ev = modify (\<lambda>s. s\<lparr>rings := rings s @ [(key, ev)]\<rparr>)"

definition eventFdOpen :: "(string \<Rightarrow> u32 \<Rightarrow> int event_cmd) \<Rightarrow> u64 \<Rightarrow> u32 \<Rightarrow> u64 event_cmd" where
  "eventFdOpen fsUserOpen initValue flags =
     (if flags \<noteq> 0 \<and> flags AND NOT (EFD_CLOEXEC OR EFD_NONBLOCK) \<noteq> 0 then ret (ERR ENOSYS)
      else bnd (fsUserOpen ''/dev/null'' O_RDWR) (\<lambda>eventFdNumber.
        andthen (check Assert_failed (eventFdNumber \<ge> 0))
        (bnd (gets event_files) (\<lambda>fs.
         case fs eventFdNumber of None \<Rightarrow> fail Assert_failed
         | Some file0 \<Rightarrow>
             (let file1 = (if has_flag flags EFD_CLOEXEC then file0\<lparr>of_closeOnExec := True\<rparr> else file0);
                  file2 = (if has_flag flags EFD_NONBLOCK then file1\<lparr>of_flags := of_flags file1 OR O_NONBLOCK\<rparr> else file1)
              in bnd (gets event_next) (\<lambda>info.
                 andthen (modify (\<lambda>s. s\<lparr>event_next := Suc info,
                     events := (events s)(info \<mapsto> \<lparr>counter = initValue, utilizedBy = 1, LOCK_EVENTFD = False\<rparr>),
                     event_files := (event_files s)(eventFdNumber \<mapsto>
                        file2\<lparr>of_dir := info, of_handlers := eventFdHandlers\<rparr>)\<rparr>))
                   (ret (of_int eventFdNumber))))))))"

definition eventFdReportKey :: "OpenFile \<Rightarrow> nat" where
  "eventFdReportKey fd = of_dir fd"

definition eventFdDuplicate :: "OpenFile \<Rightarrow> OpenFile \<Rightarrow> (bool \<times> OpenFile) event_cmd" where
  "eventFdDuplicate original orphan =
     (let a = of_dir original in
      andthen (event_acquire a)
      (bnd (get_event a) (\<lambda>e.
       andthen (put_event a (e\<lparr>utilizedBy := utilizedBy e + 1\<rparr>))
       (andthen (event_release a) (ret (True, orphan\<lparr>of_dir := a\<rparr>))))))"

definition eventFdClose :: "OpenFile \<Rightarrow> bool event_cmd" where
  "eventFdClose fd =
     (let a = of_dir fd in
      andthen (event_acquire a)
      (bnd (get_event a) (\<lambda>e.
       let e' = e\<lparr>utilizedBy := utilizedBy e - 1\<rparr> in
       andthen (put_event a e')
       (andthen (if utilizedBy e' = 0 then modify (\<lambda>s. s\<lparr>events := (events s)(a := None)\<rparr>) else event_release a)
         (ret True)))))"

text \<open>
  \<^verbatim>\<open>eventFdRead\<close> and \<^verbatim>\<open>eventFdWrite\<close> leave their loop when the transfer is possible, or with an error; a
  task that finds neither gives up the processor and tries again (\<open>Blocked\<close>).
\<close>

definition eventFdRead :: "bool \<Rightarrow> OpenFile \<Rightarrow> nat \<Rightarrow> (u64 \<times> u64 option) event_cmd" where
  "eventFdRead signalsPending fd limit =
     (if limit < 8 then ret (ERR EINVAL, None)
      else let a = of_dir fd in
      andthen (event_acquire a)
      (bnd (get_event a) (\<lambda>e.
       if counter e \<noteq> 0 then
         andthen (put_event a (e\<lparr>counter := 0\<rparr>))
         (andthen (event_release a)
         (andthen (pollInstanceRing a EPOLLOUT) (ret (8, Some (counter e)))))
       else if signalsPending then andthen (event_release a) (ret (ERR EINTR, None))
       else if has_flag (of_flags fd) O_NONBLOCK then andthen (event_release a) (ret (ERR EWOULDBLOCK, None))
       else fail Blocked)))"

definition eventFdWrite :: "bool \<Rightarrow> OpenFile \<Rightarrow> u64 \<Rightarrow> nat \<Rightarrow> u64 event_cmd" where
  "eventFdWrite signalsPending fd toAdd limit =
     (if limit < 8 \<or> toAdd = 0xffffffffffffffff then ret (ERR EINVAL)
      else let a = of_dir fd in
      andthen (event_acquire a)
      (bnd (get_event a) (\<lambda>e.
       if \<not> (toAdd > 0xffffffffffffffff - counter e) then
         andthen (put_event a (e\<lparr>counter := counter e + toAdd\<rparr>))
         (andthen (event_release a)
         (andthen (pollInstanceRing a EPOLLIN) (ret 8)))
       else if signalsPending then andthen (event_release a) (ret (ERR EINTR))
       else if has_flag (of_flags fd) O_NONBLOCK then andthen (event_release a) (ret (ERR EWOULDBLOCK))
       else fail Blocked)))"

definition eventFdInternalPoll :: "OpenFile \<Rightarrow> u32 \<Rightarrow> u32 event_cmd" where
  "eventFdInternalPoll fd evs =
     (let a = of_dir fd in
      andthen (event_acquire a)
      (bnd (get_event a) (\<lambda>e.
       let r1 = (if has_flag evs EPOLLIN \<and> counter e > 0 then EPOLLIN else 0);
           r2 = (if has_flag evs EPOLLOUT \<and> counter e < 0xffffffffffffffff then r1 OR EPOLLOUT else r1)
       in andthen (event_release a) (ret r2))))"

section \<open>Running the operations\<close>

definition free_lock :: "event_sys \<Rightarrow> nat \<Rightarrow> EventFd \<Rightarrow> bool" where
  "free_lock s a e \<longleftrightarrow> events s a = Some e \<and> \<not> LOCK_EVENTFD e"

lemma upd_same: "events s a = Some e \<Longrightarrow> s\<lparr>events := (events s)(a \<mapsto> e)\<rparr> = s"
  by (simp add: fun_upd_idem)

lemma unlocked_same: "\<not> LOCK_EVENTFD e \<Longrightarrow> e\<lparr>LOCK_EVENTFD := False\<rparr> = e"
  by simp

lemma event_acquire_run: "free_lock s a e \<Longrightarrow> event_acquire a s = Inr ((), s)"
  by (simp add: free_lock_def event_acquire_def get_event_def put_event_def cmd_simps spinlock_acquire_def
      unlocked_same upd_same)

lemma event_release_run: "free_lock s a e \<Longrightarrow> event_release a s = Inr ((), s)"
  by (simp add: free_lock_def event_release_def get_event_def put_event_def cmd_simps spinlock_release_def
      unlocked_same upd_same)

lemma get_event_run: "free_lock s a e \<Longrightarrow> get_event a s = Inr (e, s)"
  by (simp add: free_lock_def get_event_def)

lemma free_lock_put: "\<not> LOCK_EVENTFD e \<Longrightarrow> free_lock (s\<lparr>events := (events s)(a \<mapsto> e)\<rparr>) a e"
  by (simp add: free_lock_def)

lemmas event_runs = event_acquire_run event_release_run get_event_run put_event_def pollInstanceRing_def cmd_simps

lemma eventFdRead_run:
  assumes "free_lock s (of_dir fd) e" "8 \<le> limit"
  shows "eventFdRead sig fd limit s =
    (if counter e \<noteq> 0 then Inr ((8, Some (counter e)),
        s\<lparr>events := (events s)(of_dir fd \<mapsto> e\<lparr>counter := 0\<rparr>), rings := rings s @ [(of_dir fd, EPOLLOUT)]\<rparr>)
     else if sig then Inr ((ERR EINTR, None), s)
     else if has_flag (of_flags fd) O_NONBLOCK then Inr ((ERR EWOULDBLOCK, None), s) else Inl Blocked)"
proof -
  have "\<not> LOCK_EVENTFD (e\<lparr>counter := 0\<rparr>)" using assms(1) by (simp add: free_lock_def)
  note put = event_release_run [OF free_lock_put [OF this, of s "of_dir fd"]]
  show ?thesis
    using assms(2) put event_runs(1-3) [OF assms(1)]
    by (simp add: eventFdRead_def Let_def put_event_def pollInstanceRing_def cmd_simps)
qed

lemma eventFdWrite_run:
  assumes "free_lock s (of_dir fd) e" "8 \<le> limit" "v \<noteq> 0xffffffffffffffff"
  shows "eventFdWrite sig fd v limit s =
    (if v \<le> 0xffffffffffffffff - counter e then Inr (8,
        s\<lparr>events := (events s)(of_dir fd \<mapsto> e\<lparr>counter := counter e + v\<rparr>), rings := rings s @ [(of_dir fd, EPOLLIN)]\<rparr>)
     else if sig then Inr (ERR EINTR, s)
     else if has_flag (of_flags fd) O_NONBLOCK then Inr (ERR EWOULDBLOCK, s) else Inl Blocked)"
proof -
  have "\<not> LOCK_EVENTFD (e\<lparr>counter := counter e + v\<rparr>)" using assms(1) by (simp add: free_lock_def)
  note put = event_release_run [OF free_lock_put [OF this, of s "of_dir fd"]]
  show ?thesis
    using assms(2,3) put event_runs(1-3) [OF assms(1)]
    by (simp add: eventFdWrite_def Let_def put_event_def pollInstanceRing_def cmd_simps not_less)
qed

lemma no_wrap:
  fixes c v :: u64
  assumes "v \<le> 0xffffffffffffffff - c"
  shows "unat (c + v) = unat c + unat v"
proof -
  have "(0xffffffffffffffff :: u64) = - 1" by simp
  with assms have "v \<le> - 1 - c" by simp
  then have "unat v \<le> unat (- 1 - c :: u64)" by (simp add: word_le_nat_alt)
  also have "unat (- 1 - c :: u64) = unat (- 1 :: u64) - unat c"
    by (rule unat_sub) simp
  finally have "unat v \<le> unat (- 1 :: u64) - unat c" .
  moreover have "unat c < 2 ^ 64" "unat (- 1 :: u64) = 2 ^ 64 - 1"
    using unsigned_less [of c] by (simp_all add: unsigned_minus_1_eq_mask mask_eq_exp_minus_1)
  ultimately have "unat c + unat v < 2 ^ 64" by linarith
  then show ?thesis by (simp add: unat_word_ariths)
qed


section \<open>Properties\<close>

text \<open>
  An event counter in use by any number of descriptors: \<open>added\<close> is the sum of the values written
  by completed writes, \<open>taken\<close> the sum of the values returned by completed reads. A call that
  returns an error is a step too.
\<close>

inductive event_reach :: "nat \<Rightarrow> event_sys \<Rightarrow> event_sys \<Rightarrow> nat \<Rightarrow> nat \<Rightarrow> bool" for a s0 where
  event_start: "event_reach a s0 s0 0 0"
| event_write: "event_reach a s0 s added taken \<Longrightarrow> of_dir fd = a \<Longrightarrow> eventFdWrite sig fd v limit s = Inr (r, s') \<Longrightarrow>
    event_reach a s0 s' (if r = 8 then added + unat v else added) taken"
| event_read: "event_reach a s0 s added taken \<Longrightarrow> of_dir fd = a \<Longrightarrow> eventFdRead sig fd limit s = Inr ((r, out), s') \<Longrightarrow>
    event_reach a s0 s' added (case out of None \<Rightarrow> taken | Some v \<Rightarrow> taken + unat v)"
| event_poll: "event_reach a s0 s added taken \<Longrightarrow> of_dir fd = a \<Longrightarrow> eventFdInternalPoll fd evs s = Inr (r, s') \<Longrightarrow>
    event_reach a s0 s' added taken"

lemma eventFdInternalPoll_run:
  assumes "free_lock s (of_dir fd) e"
  shows "eventFdInternalPoll fd evs s =
    Inr ((if has_flag evs EPOLLIN \<and> counter e > 0 then EPOLLIN else 0) OR
         (if has_flag evs EPOLLOUT \<and> counter e < 0xffffffffffffffff then EPOLLOUT else 0), s)"
  using event_runs(1-3) [OF assms] by (simp add: eventFdInternalPoll_def Let_def cmd_simps)

lemma ERR_not_8: "ERR EINTR \<noteq> 8" "ERR EWOULDBLOCK \<noteq> 8" "ERR EINVAL \<noteq> 8"
  by (simp_all add: ERR_def errno_defs)

lemma event_reach_account:
  assumes "event_reach a s0 s added taken" "free_lock s0 a e0"
  shows "\<exists>e. free_lock s a e \<and> utilizedBy e = utilizedBy e0 \<and> taken + unat (counter e) = unat (counter e0) + added"
  using assms
proof (induction rule: event_reach.induct)
  case event_start
  then show ?case by auto
next
  case (event_write s added taken fd sig v limit r s')
  then obtain e where e: "free_lock s (of_dir fd) e" "utilizedBy e = utilizedBy e0"
    "taken + unat (counter e) = unat (counter e0) + added" by auto
  show ?case
  proof (cases "limit < 8 \<or> v = 0xffffffffffffffff")
    case True
    with event_write.hyps(3) have "r = ERR EINVAL" "s' = s" by (auto simp: eventFdWrite_def ret_run)
    with e event_write.hyps(2) show ?thesis by (auto simp: ERR_not_8)
  next
    case False
    then have lim: "8 \<le> limit" "v \<noteq> 0xffffffffffffffff" by simp_all
    show ?thesis
    proof (cases "v \<le> 0xffffffffffffffff - counter e")
      case True
      then have st: "r = 8" "s' = s\<lparr>events := (events s)(of_dir fd \<mapsto> e\<lparr>counter := counter e + v\<rparr>),
          rings := rings s @ [(of_dir fd, EPOLLIN)]\<rparr>"
        using event_write.hyps(3) eventFdWrite_run [OF e(1) lim] by simp_all
      have "free_lock s' (of_dir fd) (e\<lparr>counter := counter e + v\<rparr>)"
        using e(1) unfolding st(2) by (simp add: free_lock_def)
      with e(2,3) event_write.hyps(2) st(1) no_wrap [OF True] show ?thesis by auto
    next
      case False
      with event_write.hyps(3) eventFdWrite_run [OF e(1) lim, of sig] have "s' = s" "r \<noteq> 8"
        by (auto simp: ERR_not_8 split: if_splits)
      with e event_write.hyps(2) show ?thesis by auto
    qed
  qed
next
  case (event_read s added taken fd sig limit r out s')
  then obtain e where e: "free_lock s (of_dir fd) e" "utilizedBy e = utilizedBy e0"
    "taken + unat (counter e) = unat (counter e0) + added" by auto
  show ?case
  proof (cases "8 \<le> limit \<and> counter e \<noteq> 0")
    case True
    then have st: "out = Some (counter e)" "s' = s\<lparr>events := (events s)(of_dir fd \<mapsto> e\<lparr>counter := 0\<rparr>),
        rings := rings s @ [(of_dir fd, EPOLLOUT)]\<rparr>"
      using event_read.hyps(3) eventFdRead_run [OF e(1)] by simp_all
    have "free_lock s' (of_dir fd) (e\<lparr>counter := 0\<rparr>)"
      using e(1) unfolding st(2) by (simp add: free_lock_def)
    with e(2,3) event_read.hyps(2) st(1) show ?thesis by auto
  next
    case False
    then have "s' = s" "out = None"
      using event_read.hyps(3) eventFdRead_run [OF e(1), of limit sig]
      by (cases "8 \<le> limit"; auto simp: eventFdRead_def ret_run split: if_splits)+
    with e event_read.hyps(2) show ?thesis by auto
  qed
next
  case (event_poll s added taken fd evs r s')
  then obtain e where e: "free_lock s (of_dir fd) e" "utilizedBy e = utilizedBy e0"
    "taken + unat (counter e) = unat (counter e0) + added" by auto
  with event_poll.hyps(2,3) show ?case by (auto simp: eventFdInternalPoll_run [OF e(1)])
qed

text \<open>
  C32. Nothing is lost and nothing wraps: in every state that reads, writes and polls of an event
  counter can reach, the values read so far and the current counter add up, as natural numbers,
  to the initial value and the values written.
\<close>

theorem eventfd_conserves:
  assumes "event_reach a s0 s added taken" "free_lock s0 a e0"
  shows "\<exists>e. events s a = Some e \<and> \<not> LOCK_EVENTFD e \<and> taken + unat (counter e) = unat (counter e0) + added"
  using event_reach_account [OF assms] unfolding free_lock_def by blast

definition demo_events :: event_sys where
  "demo_events = \<lparr>events = [1 \<mapsto> \<lparr>counter = 5, utilizedBy = 1, LOCK_EVENTFD = False\<rparr>], event_files = Map.empty,
     event_next = 2, rings = []\<rparr>"

definition demo_efd :: OpenFile where
  "demo_efd = (new_file\<lparr>of_flags := O_RDWR, of_handlers := eventFdHandlers, of_dir := 1\<rparr>)"

lemma demo_event_lock: "free_lock demo_events (of_dir demo_efd) \<lparr>counter = 5, utilizedBy = 1, LOCK_EVENTFD = False\<rparr>"
  by (simp add: free_lock_def demo_events_def demo_efd_def)

theorem eventfd_conserves_witness:
  "\<exists>s e. eventFdWrite False demo_efd 7 8 demo_events = Inr (8, s) \<and> events s 1 = Some e \<and> unat (counter e) = 12"
proof -
  obtain s where s: "eventFdWrite False demo_efd 7 8 demo_events = Inr (8, s)"
    using eventFdWrite_run [OF demo_event_lock, of 8 7 False] by simp
  have "event_reach 1 demo_events s 7 0"
    using event_write [OF event_start _ s, of 1] by (simp add: demo_efd_def)
  from eventfd_conserves [OF this, of "\<lparr>counter = 5, utilizedBy = 1, LOCK_EVENTFD = False\<rparr>"] s demo_event_lock
  show ?thesis by (auto simp: demo_efd_def)
qed

text \<open>
  Polling tells the truth: on an unlocked event counter the poll handler reports, of the
  events asked for, \<^verbatim>\<open>EPOLLIN\<close> exactly if a read would return a value, and \<^verbatim>\<open>EPOLLOUT\<close> exactly if a
  write of 1 would be accepted; it changes nothing.
\<close>

theorem eventfd_poll_ready:
  assumes "free_lock s (of_dir fd) e" "8 \<le> limit"
  shows "\<exists>r. eventFdInternalPoll fd evs s = Inr (r, s) \<and>
    (has_flag r EPOLLIN \<longleftrightarrow> has_flag evs EPOLLIN \<and> (\<exists>v s'. eventFdRead sig fd limit s = Inr ((8, Some v), s'))) \<and>
    (has_flag r EPOLLOUT \<longleftrightarrow> has_flag evs EPOLLOUT \<and> (\<exists>s'. eventFdWrite sig fd 1 limit s = Inr (8, s')))"
proof -
  let ?in = "has_flag evs EPOLLIN \<and> counter e > 0" and ?out = "has_flag evs EPOLLOUT \<and> counter e < 0xffffffffffffffff"
  let ?r = "(if ?in then EPOLLIN else 0) OR (if ?out then EPOLLOUT else 0)"
  have flags: "has_flag ?r EPOLLIN \<longleftrightarrow> ?in" "has_flag ?r EPOLLOUT \<longleftrightarrow> ?out"
    by (simp_all add: has_flag_def EPOLLIN_def EPOLLOUT_def)
  have "(\<exists>v s'. eventFdRead sig fd limit s = Inr ((8, Some v), s')) \<longleftrightarrow> counter e \<noteq> 0"
    using eventFdRead_run [OF assms, of sig] by (auto split: if_splits)
  moreover have "counter e > 0 \<longleftrightarrow> counter e \<noteq> 0" by (simp add: word_neq_0_conv)
  moreover have "(\<exists>s'. eventFdWrite sig fd 1 limit s = Inr (8, s')) \<longleftrightarrow> 1 \<le> 0xffffffffffffffff - counter e"
    using eventFdWrite_run [OF assms, of 1 sig] by (auto simp: ERR_not_8 split: if_splits)
  moreover have "1 \<le> 0xffffffffffffffff - counter e \<longleftrightarrow> counter e < 0xffffffffffffffff"
  proof -
    have max: "(0xffffffffffffffff :: u64) = - 1" by simp
    have "1 \<le> - 1 - c \<longleftrightarrow> c \<noteq> - 1" for c :: u64
    proof -
      have "1 \<le> w \<longleftrightarrow> w \<noteq> 0" for w :: u64
        by (simp add: word_le_nat_alt Suc_le_eq unat_gt_0)
      then show ?thesis by (metis right_minus_eq)
    qed
    moreover have "c < - 1 \<longleftrightarrow> c \<noteq> - 1" for c :: u64
      by (simp add: word_order.not_eq_extremum)
    ultimately show ?thesis unfolding max by blast
  qed
  ultimately show ?thesis
    using eventFdInternalPoll_run [OF assms(1), of evs] flags by auto
qed

theorem eventfd_poll_ready_witness:
  "\<exists>r. eventFdInternalPoll demo_efd (EPOLLIN OR EPOLLOUT) demo_events = Inr (r, demo_events) \<and> has_flag r EPOLLIN"
  using eventfd_poll_ready [OF demo_event_lock, of 8 "EPOLLIN OR EPOLLOUT" False] eventFdRead_run [OF demo_event_lock, of 8 False]
  by (auto simp: has_flag_def EPOLLIN_def EPOLLOUT_def)

end
