(* ===== verification/Linked_List.thy ===== *)
theory Linked_List
  imports Prelude
begin

text \<open>
  The singly linked lists of \<^verbatim>\<open>utility/linked_list.cpp\<close>, used for mount points, poll instances,
  sockets and terminated children. The control block \<^verbatim>\<open>LLcontrol\<close> is a record; the objects live on
  a heap that maps addresses to the next pointer and the rest of the struct. Address 0 is the
  null pointer. The loops follow next pointers; they are bounded by the number of addresses
  ever allocated, which no list without a cycle exceeds, and a list with a cycle is \<open>Diverges\<close>.

  \<open>ll_rep\<close> is the abstraction: the addresses of the objects in list order. The operations are
  the operations of HOL lists on it.
\<close>

definition LL_SIGNATURE_1 :: u64 where "LL_SIGNATURE_1 = 0xa8ae0a9b148db421"
definition LL_SIGNATURE_2 :: u64 where "LL_SIGNATURE_2 = 0x7c9bfa1f171be6da"

record LLcontrol =
  signature1 :: u64
  signature2 :: u64
  structSize :: u32
  firstObject :: nat

record LLheader =
  ll_next :: nat
  ll_rest :: "byte list"

record ll_sys =
  control :: LLcontrol
  objects :: "nat \<rightharpoonup> LLheader"
  ll_fresh :: nat

type_synonym 'a ll_cmd = "(ll_sys, 'a) cmd"

definition get_obj :: "nat \<Rightarrow> LLheader ll_cmd" where
  "get_obj p = (\<lambda>s. case objects s p of None \<Rightarrow> Inl Undefined | Some x \<Rightarrow> Inr (x, s))"

definition set_next :: "nat \<Rightarrow> nat \<Rightarrow> unit ll_cmd" where
  "set_next p n = bnd (get_obj p) (\<lambda>x. modify (\<lambda>s. s\<lparr>objects := (objects s)(p \<mapsto> x\<lparr>ll_next := n\<rparr>)\<rparr>))"

definition set_first :: "nat \<Rightarrow> unit ll_cmd" where
  "set_first p = modify (\<lambda>s. s\<lparr>control := (control s)\<lparr>firstObject := p\<rparr>\<rparr>)"

definition get_first :: "nat ll_cmd" where
  "get_first = gets (firstObject \<circ> control)"

definition ll_free :: "nat \<Rightarrow> unit ll_cmd" where
  "ll_free p = modify (\<lambda>s. s\<lparr>objects := (objects s)(p := None)\<rparr>)"

definition LinkedListNormal :: "u32 \<Rightarrow> unit ll_cmd" where
  "LinkedListNormal sz =
     bnd (gets control) (\<lambda>ll.
     andthen (check Assert_failed (signature1 ll = LL_SIGNATURE_1))
     (andthen (check Assert_failed (signature2 ll = LL_SIGNATURE_2))
       (check Assert_failed (structSize ll = sz))))"

fun append_loop :: "nat \<Rightarrow> nat \<Rightarrow> nat \<Rightarrow> unit ll_cmd" where
  "append_loop 0 target p = fail Diverges"
| "append_loop (Suc fuel) target p =
     (if p = 0 then set_first target
      else bnd (get_obj p) (\<lambda>x.
        if ll_next x = 0 then set_next p target
        else append_loop fuel target (ll_next x)))"

definition LinkedListAllocate :: "u32 \<Rightarrow> nat ll_cmd" where
  "LinkedListAllocate sz =
     andthen (LinkedListNormal sz)
     (bnd (gets ll_fresh) (\<lambda>target.
      andthen (modify (\<lambda>s. s\<lparr>objects := (objects s)(target \<mapsto> \<lparr>ll_next = 0, ll_rest = replicate (unat sz - 8) 0\<rparr>),
                             ll_fresh := Suc target\<rparr>))
      (bnd get_first (\<lambda>p.
       bnd (gets ll_fresh) (\<lambda>fuel.
       andthen (append_loop fuel target p)
       (andthen (set_next target 0) (ret target)))))))"

fun before_loop :: "nat \<Rightarrow> nat \<Rightarrow> nat \<Rightarrow> nat ll_cmd" where
  "before_loop 0 target p = fail Diverges"
| "before_loop (Suc fuel) target p =
     (if p = 0 then ret 0
      else bnd (get_obj p) (\<lambda>x.
        if ll_next x \<noteq> 0 \<and> ll_next x = target then ret p
        else before_loop fuel target (ll_next x)))"

definition LinkedListUnregister :: "u32 \<Rightarrow> nat \<Rightarrow> bool ll_cmd" where
  "LinkedListUnregister sz target =
     andthen (LinkedListNormal sz)
     (bnd get_first (\<lambda>first.
      bnd (gets ll_fresh) (\<lambda>fuel.
      bnd (before_loop (Suc fuel) target first) (\<lambda>p.
      if first = target then bnd (get_obj first) (\<lambda>x. andthen (set_first (ll_next x)) (ret True))
      else if p = 0 then ret False
      else bnd (get_obj p) (\<lambda>x. bnd (get_obj (ll_next x)) (\<lambda>y.
           andthen (set_next p (ll_next y)) (ret True)))))))"

definition LinkedListRemove :: "u32 \<Rightarrow> nat \<Rightarrow> bool ll_cmd" where
  "LinkedListRemove sz target =
     andthen (LinkedListNormal sz)
     (bnd (LinkedListUnregister sz target) (\<lambda>r. andthen (ll_free target) (ret r)))"

definition LinkedListPushFrontUnsafe :: "nat \<Rightarrow> unit ll_cmd" where
  "LinkedListPushFrontUnsafe target =
     bnd get_first (\<lambda>first.
     if first = 0 then
       andthen (set_first target)
         (bnd (get_obj target) (\<lambda>x. check Assert_failed (ll_next x = 0)))
     else andthen (set_first target) (set_next target first))"

fun destroy_loop :: "nat \<Rightarrow> nat \<Rightarrow> unit ll_cmd" where
  "destroy_loop 0 p = fail Diverges"
| "destroy_loop (Suc fuel) p =
     (if p = 0 then ret ()
      else bnd (get_obj p) (\<lambda>x. andthen (ll_free p) (destroy_loop fuel (ll_next x))))"

definition LinkedListDestroy :: "u32 \<Rightarrow> unit ll_cmd" where
  "LinkedListDestroy sz =
     andthen (LinkedListNormal sz)
     (bnd get_first (\<lambda>p. bnd (gets ll_fresh) (\<lambda>fuel.
      andthen (destroy_loop (Suc fuel) p) (set_first 0))))"

definition LinkedListInit :: "u32 \<Rightarrow> unit ll_cmd" where
  "LinkedListInit sz =
     bnd (gets control) (\<lambda>ll.
     andthen (check Assert_failed (signature1 ll \<noteq> LL_SIGNATURE_1))
     (andthen (check Assert_failed (signature2 ll \<noteq> LL_SIGNATURE_2))
       (modify (\<lambda>s. s\<lparr>control := \<lparr>signature1 = LL_SIGNATURE_1, signature2 = LL_SIGNATURE_2, structSize = sz,
                                    firstObject = 0\<rparr>\<rparr>))))"

fun traverse_loop :: "nat \<Rightarrow> (nat \<Rightarrow> unit ll_cmd) \<Rightarrow> nat \<Rightarrow> unit ll_cmd" where
  "traverse_loop 0 callback p = fail Diverges"
| "traverse_loop (Suc fuel) callback p =
     (if p = 0 then ret ()
      else andthen (callback p) (bnd (get_obj p) (\<lambda>x. traverse_loop fuel callback (ll_next x))))"

definition LinkedListTraverse :: "(nat \<Rightarrow> unit ll_cmd) \<Rightarrow> unit ll_cmd" where
  "LinkedListTraverse callback =
     bnd get_first (\<lambda>p. bnd (gets ll_fresh) (\<lambda>fuel. traverse_loop (Suc fuel) callback p))"

fun search_loop :: "nat \<Rightarrow> (nat \<Rightarrow> LLheader \<Rightarrow> bool) \<Rightarrow> nat \<Rightarrow> nat ll_cmd" where
  "search_loop 0 isCorrect p = fail Diverges"
| "search_loop (Suc fuel) isCorrect p =
     (if p = 0 then ret 0
      else bnd (get_obj p) (\<lambda>x. if isCorrect p x then ret p else search_loop fuel isCorrect (ll_next x)))"

definition LinkedListSearch :: "(nat \<Rightarrow> LLheader \<Rightarrow> bool) \<Rightarrow> nat ll_cmd" where
  "LinkedListSearch isCorrect =
     bnd get_first (\<lambda>p. bnd (gets ll_fresh) (\<lambda>fuel. search_loop (Suc fuel) isCorrect p))"

definition LinkedListSearchPtr :: "nat \<Rightarrow> nat ll_cmd" where
  "LinkedListSearchPtr targetPtr = LinkedListSearch (\<lambda>p x. p = targetPtr)"

definition LinkedListSearchFirst :: "nat ll_cmd" where
  "LinkedListSearchFirst = LinkedListSearch (\<lambda>p x. True)"

section \<open>Lists on the heap\<close>

text \<open>\<open>path H p xs q\<close>: following next pointers from \<open>p\<close> visits the objects \<open>xs\<close> and arrives at \<open>q\<close>.\<close>

fun path :: "(nat \<rightharpoonup> LLheader) \<Rightarrow> nat \<Rightarrow> nat list \<Rightarrow> nat \<Rightarrow> bool" where
  "path H p [] q = (p = q)"
| "path H p (x # xs) q = (p = x \<and> x \<noteq> 0 \<and> (case H x of None \<Rightarrow> False | Some h \<Rightarrow> path H (ll_next h) xs q))"

definition ll_rep :: "ll_sys \<Rightarrow> u32 \<Rightarrow> nat list \<Rightarrow> bool" where
  "ll_rep s sz xs \<longleftrightarrow> signature1 (control s) = LL_SIGNATURE_1 \<and> signature2 (control s) = LL_SIGNATURE_2 \<and>
     structSize (control s) = sz \<and> 0 < ll_fresh s \<and> (\<forall>p \<in> dom (objects s). p < ll_fresh s) \<and>
     distinct xs \<and> path (objects s) (firstObject (control s)) xs 0"

lemma path_append: "path H p (xs @ ys) q = (\<exists>r. path H p xs r \<and> path H r ys q)"
  by (induction xs arbitrary: p) (auto split: option.splits)

lemma path_update [simp]: "x \<notin> set xs \<Longrightarrow> path (H(x := v)) p xs q = path H p xs q"
  by (induction xs arbitrary: p) (auto split: option.splits)

lemma chain_dom: "path H p xs q \<Longrightarrow> set xs \<subseteq> dom H"
  by (induction xs arbitrary: p) (auto split: option.splits)

lemma chain_nz: "path H p xs q \<Longrightarrow> 0 \<notin> set xs"
  by (induction xs arbitrary: p) (auto split: option.splits)

lemma path_null: "path H 0 xs q \<Longrightarrow> xs = []"
  by (cases xs) auto

lemma ll_rep_length:
  assumes "ll_rep s sz xs"
  shows "length xs < ll_fresh s"
proof -
  have "set xs \<subseteq> {1..<ll_fresh s}"
    using assms chain_dom chain_nz unfolding ll_rep_def by (metis (no_types) Suc_leI One_nat_def atLeastLessThan_iff gr0I subset_eq)
  then have "card (set xs) \<le> ll_fresh s - 1" using card_mono [of "{1..<ll_fresh s}" "set xs"] by simp
  moreover have "card (set xs) = length xs" "0 < ll_fresh s" using assms by (simp_all add: ll_rep_def distinct_card)
  ultimately show ?thesis by linarith
qed

lemma normal_run: "ll_rep s sz xs \<Longrightarrow> LinkedListNormal sz s = Inr ((), s)"
  by (simp add: ll_rep_def LinkedListNormal_def cmd_simps)

lemma get_obj_run: "objects s p = Some x \<Longrightarrow> get_obj p s = Inr (x, s)"
  by (simp add: get_obj_def)

lemma set_next_run:
  "objects s p = Some x \<Longrightarrow> set_next p n s = Inr ((), s\<lparr>objects := (objects s)(p \<mapsto> x\<lparr>ll_next := n\<rparr>)\<rparr>)"
  by (simp add: set_next_def cmd_simps get_obj_run)


section \<open>The loops\<close>

lemma append_loop_run:
  assumes "path (objects s) p xs 0" "length xs \<le> fuel" "xs \<noteq> []"
  shows "append_loop fuel t p s = set_next (last xs) t s"
  using assms
proof (induction fuel arbitrary: p xs)
  case (Suc fuel)
  then obtain ys h where xs: "xs = p # ys" "p \<noteq> 0" "objects s p = Some h" "path (objects s) (ll_next h) ys 0"
    by (cases xs) (auto split: option.splits)
  show ?case
  proof (cases ys)
    case Nil
    with xs show ?thesis by (simp add: cmd_simps get_obj_run)
  next
    case (Cons y zs)
    then have "ll_next h \<noteq> 0" using xs(4) by auto
    with Suc.IH [OF xs(4)] Suc.prems(2) Cons xs show ?thesis by (simp add: cmd_simps get_obj_run)
  qed
qed simp

fun pred_of :: "nat \<Rightarrow> nat list \<Rightarrow> nat" where
  "pred_of t (x # y # zs) = (if y = t then x else pred_of t (y # zs))"
| "pred_of t xs = 0"

lemma before_loop_run:
  assumes "path (objects s) p xs 0" "length xs < fuel" "t \<noteq> 0"
  shows "before_loop fuel t p s = Inr (pred_of t xs, s)"
  using assms
proof (induction fuel arbitrary: p xs)
  case (Suc fuel)
  show ?case
  proof (cases xs)
    case Nil
    with Suc.prems(1) show ?thesis by (simp add: ret_run)
  next
    case (Cons x ys)
    with Suc.prems(1) obtain h where x: "p = x" "x \<noteq> 0" "objects s x = Some h" "path (objects s) (ll_next h) ys 0"
      by (auto split: option.splits)
    have ih: "before_loop fuel t (ll_next h) s = Inr (pred_of t ys, s)"
      by (rule Suc.IH [OF x(4)]) (use Suc.prems(2,3) Cons in simp_all)
    show ?thesis
    proof (cases ys)
      case Nil
      with x Cons ih Suc.prems(3) show ?thesis by (simp add: cmd_simps get_obj_run)
    next
      case (Cons y zs)
      with x(4) have "ll_next h = y" "y \<noteq> 0" by auto
      with x \<open>xs = x # ys\<close> Cons ih show ?thesis by (simp add: cmd_simps get_obj_run)
    qed
  qed
qed simp

lemma pred_of_split:
  "t \<in> set (tl xs) \<Longrightarrow> \<exists>as bs. xs = as @ pred_of t xs # t # bs"
proof (induction t xs rule: pred_of.induct)
  case (1 t x y zs)
  show ?case
  proof (cases "y = t")
    case True
    then show ?thesis by (intro exI [of _ "[]"] exI [of _ zs]) simp
  next
    case False
    with 1 obtain as bs where "y # zs = as @ pred_of t (y # zs) # t # bs" by auto
    with False show ?thesis by (intro exI [of _ "x # as"] exI [of _ bs]) simp
  qed
qed auto

lemma pred_of_none: "t \<notin> set (tl xs) \<Longrightarrow> pred_of t xs = 0"
  by (induction t xs rule: pred_of.induct) auto

lemma search_loop_run:
  assumes "path (objects s) p xs 0" "length xs < fuel"
  shows "search_loop fuel P p s = Inr (case find (\<lambda>q. P q (the (objects s q))) xs of None \<Rightarrow> 0 | Some q \<Rightarrow> q, s)"
  using assms
proof (induction fuel arbitrary: p xs)
  case (Suc fuel)
  show ?case
  proof (cases xs)
    case Nil
    with Suc.prems(1) show ?thesis by (simp add: ret_run)
  next
    case (Cons x ys)
    with Suc.prems(1) obtain h where x: "p = x" "x \<noteq> 0" "objects s x = Some h" "path (objects s) (ll_next h) ys 0"
      by (auto split: option.splits)
    from Suc.IH [OF x(4)] Suc.prems(2) Cons x show ?thesis by (simp add: cmd_simps get_obj_run)
  qed
qed simp

lemma destroy_loop_run:
  assumes "path (objects s) p xs 0" "length xs < fuel" "distinct xs"
  shows "destroy_loop fuel p s = Inr ((), s\<lparr>objects := (objects s) |` (- set xs)\<rparr>)"
  using assms
proof (induction fuel arbitrary: p xs s)
  case (Suc fuel)
  show ?case
  proof (cases xs)
    case Nil
    with Suc.prems(1) show ?thesis by (simp add: ret_run)
  next
    case (Cons x ys)
    with Suc.prems(1) obtain h where x: "p = x" "x \<noteq> 0" "objects s x = Some h" "path (objects s) (ll_next h) ys 0"
      by (auto split: option.splits)
    let ?s1 = "s\<lparr>objects := (objects s)(x := None)\<rparr>"
    have "path (objects ?s1) (ll_next h) ys 0" using x(4) Suc.prems(3) Cons by simp
    have "destroy_loop (Suc fuel) p s = destroy_loop fuel (ll_next h) ?s1"
      using x by (simp add: cmd_simps get_obj_run ll_free_def)
    also have "destroy_loop fuel (ll_next h) ?s1 = Inr ((), ?s1\<lparr>objects := (objects ?s1) |` (- set ys)\<rparr>)"
      by (rule Suc.IH [OF \<open>path (objects ?s1) (ll_next h) ys 0\<close>]) (use Suc.prems(2,3) Cons in simp_all)
    also have "?s1\<lparr>objects := (objects ?s1) |` (- set ys)\<rparr> = s\<lparr>objects := (objects s) |` (- set xs)\<rparr>"
      using Cons by (auto simp: restrict_map_def fun_eq_iff)
    finally show ?thesis .
  qed
qed simp


section \<open>The operations are list operations\<close>

lemma ll_rep_fuel: "ll_rep s sz xs \<Longrightarrow> length xs < Suc (ll_fresh s)"
  using ll_rep_length by fastforce

lemma allocate_run:
  assumes rep: "ll_rep s sz xs"
  shows "\<exists>s'. LinkedListAllocate sz s = Inr (ll_fresh s, s') \<and> ll_rep s' sz (xs @ [ll_fresh s]) \<and>
    objects s' (ll_fresh s) = Some \<lparr>ll_next = 0, ll_rest = replicate (unat sz - 8) 0\<rparr> \<and>
    (\<forall>q. q \<noteq> ll_fresh s \<longrightarrow> map_option ll_rest (objects s' q) = map_option ll_rest (objects s q))"
proof -
  let ?t = "ll_fresh s" and ?p = "firstObject (control s)"
  let ?h = "\<lparr>ll_next = 0, ll_rest = replicate (unat sz - 8) 0\<rparr>"
  let ?s1 = "s\<lparr>objects := (objects s)(?t \<mapsto> ?h), ll_fresh := Suc ?t\<rparr>"
  note r = rep [unfolded ll_rep_def]
  have t: "?t \<noteq> 0" "?t \<notin> dom (objects s)" "?t \<notin> set xs"
    using r chain_dom by fastforce+
  have p1: "path (objects ?s1) ?p xs 0" using r t(3) by simp
  show ?thesis
  proof (cases "xs = []")
    case True
    then have "?p = 0" using r by simp
    let ?s' = "?s1\<lparr>control := (control s)\<lparr>firstObject := ?t\<rparr>\<rparr>"
    have "LinkedListAllocate sz s = Inr (?t, ?s')"
      using \<open>?p = 0\<close> by (simp add: LinkedListAllocate_def andthen_run normal_run [OF rep] cmd_simps get_first_def set_first_def
          set_next_def get_obj_def)
    moreover have "ll_rep ?s' sz (xs @ [?t])" using r t True by (force simp: ll_rep_def less_Suc_eq)
    ultimately show ?thesis by (intro exI [of _ ?s']) simp
  next
    case False
    have "last xs \<in> dom (objects s)" using r chain_dom [of "objects s" ?p xs 0] False by (meson last_in_set subsetD)
    then obtain hl where hl: "objects s (last xs) = Some hl" by blast
    have ne: "last xs \<noteq> ?t" using t(3) False by (metis last_in_set)
    let ?s' = "?s1\<lparr>objects := (objects ?s1)(last xs \<mapsto> hl\<lparr>ll_next := ?t\<rparr>)\<rparr>"
    have "append_loop (Suc ?t) ?t ?p ?s1 = Inr ((), ?s')"
      using append_loop_run [OF p1 _ False, of "Suc ?t" ?t] ll_rep_length [OF rep] set_next_run [of ?s1 "last xs" hl ?t] hl ne
      by simp
    moreover have "set_next ?t 0 ?s' = Inr ((), ?s')"
      using ne by (simp add: set_next_def cmd_simps get_obj_def fun_upd_idem)
    ultimately have "LinkedListAllocate sz s = Inr (?t, ?s')"
      by (simp add: LinkedListAllocate_def andthen_run normal_run [OF rep] cmd_simps get_first_def del: append_loop.simps)
    moreover have "ll_rep ?s' sz (xs @ [?t])"
    proof -
      have sp: "xs = butlast xs @ [last xs]" using False by simp
      have "last xs \<notin> set (butlast xs)" using r sp by (metis append_butlast_last_id distinct_append distinct_singleton disjoint_iff False list.set_intros(1))
      moreover obtain q where "path (objects s) ?p (butlast xs) q" "path (objects s) q [last xs] 0"
        using r sp path_append by metis
      moreover have "?t \<notin> set (butlast xs)" using t(3) by (meson in_set_butlastD)
      ultimately have "path (objects ?s') ?p (butlast xs @ [last xs, ?t]) 0"
        unfolding path_append using hl ne t(1) by (intro exI [of _ q]) auto
      then have "path (objects ?s') ?p (xs @ [?t]) 0" using sp by (metis append.assoc append_Cons append_Nil)
      then show ?thesis using r t hl by (force simp: ll_rep_def less_Suc_eq)
    qed
    ultimately show ?thesis using hl ne by (intro exI [of _ ?s']) auto
  qed
qed


lemma unregister_run:
  assumes rep: "ll_rep s sz xs" and t: "t \<noteq> 0"
  shows "\<exists>s'. LinkedListUnregister sz t s = Inr (t \<in> set xs, s') \<and> ll_rep s' sz (remove1 t xs) \<and>
    (\<forall>q. map_option ll_rest (objects s' q) = map_option ll_rest (objects s q)) \<and> ll_fresh s' = ll_fresh s"
proof -
  let ?p = "firstObject (control s)"
  note r = rep [unfolded ll_rep_def]
  have loop: "before_loop (Suc (ll_fresh s)) t ?p s = Inr (pred_of t xs, s)"
    using r by (intro before_loop_run ll_rep_fuel [OF rep] t) simp
  note start = LinkedListUnregister_def andthen_run normal_run [OF rep] bnd_run get_first_def gets_run loop
  consider (head) ys where "xs = t # ys" | (none) "t \<notin> set xs" | (mid) "t \<in> set (tl xs)" "?p \<noteq> t"
    using r t by (cases xs) auto
  then show ?thesis
  proof cases
    case head
    then obtain h where h: "?p = t" "objects s t = Some h" "path (objects s) (ll_next h) ys 0"
      using r by (auto split: option.splits)
    let ?s' = "s\<lparr>control := (control s)\<lparr>firstObject := ll_next h\<rparr>\<rparr>"
    have "LinkedListUnregister sz t s = Inr (True, ?s')"
      using h(1,2) loop by (simp add: start get_obj_run set_first_def cmd_simps del: before_loop.simps)
    moreover have "ll_rep ?s' sz (remove1 t xs)"
      using r h(3) head by (simp add: ll_rep_def)
    ultimately show ?thesis using head by (intro exI [of _ ?s']) simp
  next
    case none
    then have "?p \<noteq> t" using r t by (cases xs) auto
    moreover have "pred_of t xs = 0" using none by (intro pred_of_none) (cases xs; auto)
    ultimately have "LinkedListUnregister sz t s = Inr (False, s)"
      using loop by (simp add: start ret_run del: before_loop.simps)
    with none rep show ?thesis by (intro exI [of _ s]) (simp add: remove1_idem)
  next
    case mid
    obtain as bs where xs: "xs = as @ pred_of t xs # t # bs" using pred_of_split [OF mid(1)] by blast
    let ?b = "pred_of t xs"
    have d: "?b \<notin> set as" "t \<notin> set as" "?b \<noteq> t" "?b \<notin> set bs" "t \<notin> set bs"
      using r xs by (metis (no_types, opaque_lifting) distinct.simps(2) distinct_append disjoint_iff list.set_intros set_append UnI2)+
    obtain q where q: "path (objects s) ?p as q" "path (objects s) q (?b # t # bs) 0"
      using r xs path_append by metis
    then obtain hb ht where h: "q = ?b" "?b \<noteq> 0" "objects s ?b = Some hb" "ll_next hb = t" "objects s t = Some ht"
      "path (objects s) (ll_next ht) bs 0" by (auto split: option.splits)
    let ?s' = "s\<lparr>objects := (objects s)(?b \<mapsto> hb\<lparr>ll_next := ll_next ht\<rparr>)\<rparr>"
    have "LinkedListUnregister sz t s = Inr (True, ?s')"
      using mid(2) h loop by (simp add: start get_obj_run set_next_run cmd_simps del: before_loop.simps)
    moreover have "path (objects ?s') ?p (as @ ?b # bs) 0"
      unfolding path_append using q(1) h d(1,4) by (intro exI [of _ ?b]) simp
    moreover have "remove1 t xs = as @ ?b # bs"
      using xs d(2,3) by (metis remove1.simps(2) remove1_append)
    moreover have "distinct (as @ ?b # bs)" using r xs by (metis distinct_remove1 \<open>remove1 t xs = as @ ?b # bs\<close>)
    moreover have "t \<in> set xs" using mid(1) by (cases xs) auto
    ultimately show ?thesis using r h(3) by (intro exI [of _ ?s']) (auto simp: ll_rep_def)
  qed
qed

lemma push_run:
  assumes rep: "ll_rep s sz xs" and t: "t \<noteq> 0" "t \<notin> set xs" "objects s t = Some h" "xs = [] \<longrightarrow> ll_next h = 0"
  shows "\<exists>s'. LinkedListPushFrontUnsafe t s = Inr ((), s') \<and> ll_rep s' sz (t # xs)"
proof -
  note r = rep [unfolded ll_rep_def]
  show ?thesis
  proof (cases "xs = []")
    case True
    let ?s' = "s\<lparr>control := (control s)\<lparr>firstObject := t\<rparr>\<rparr>"
    have "LinkedListPushFrontUnsafe t s = Inr ((), ?s')"
      using r t True by (simp add: LinkedListPushFrontUnsafe_def cmd_simps get_first_def set_first_def get_obj_def)
    with r t True show ?thesis by (intro exI [of _ ?s']) (simp add: ll_rep_def)
  next
    case False
    let ?p = "firstObject (control s)"
    let ?s' = "s\<lparr>control := (control s)\<lparr>firstObject := t\<rparr>, objects := (objects s)(t \<mapsto> h\<lparr>ll_next := ?p\<rparr>)\<rparr>"
    have "?p \<noteq> 0" using r False by (cases xs) auto
    with t have "LinkedListPushFrontUnsafe t s = Inr ((), ?s')"
      by (simp add: LinkedListPushFrontUnsafe_def cmd_simps get_first_def set_first_def set_next_def get_obj_def)
    with r t show ?thesis by (intro exI [of _ ?s']) (auto simp: ll_rep_def)
  qed
qed


definition demo_ll :: ll_sys where
  "demo_ll = \<lparr>control = \<lparr>signature1 = LL_SIGNATURE_1, signature2 = LL_SIGNATURE_2, structSize = 16, firstObject = 2\<rparr>,
     objects = [1 \<mapsto> \<lparr>ll_next = 0, ll_rest = replicate 8 0\<rparr>, 2 \<mapsto> \<lparr>ll_next = 1, ll_rest = replicate 8 5\<rparr>], ll_fresh = 3\<rparr>"


end
