(* ===== verification/Disk.thy ===== *)
theory Disk
  imports Prelude
begin

text \<open>
  The disk layer of \<^verbatim>\<open>drivers/disk.cpp\<close>: sector transfers split into chunks of at most
  65536 sectors, and the master boot record. The SATA device behind \<^verbatim>\<open>ahci_read\<close> and
  \<^verbatim>\<open>ahci_write\<close> is a byte store addressed by sector, \<open>blkdev\<close>; \<open>sata\<close> says whether
  \<^verbatim>\<open>LinkedListSearch(&dsPCI, diskBytesCb, 0)\<close> finds an AHCI controller with a SATA port.

  The interface the file systems rely on is the locale \<open>sector_store\<close>: what a read returns
  after a write to the same or to other sectors. \<open>get_disk_bytes_flat\<close> and
  \<open>set_disk_bytes_flat\<close> show that the chunked transfers implement it.
\<close>

definition SECTOR_SIZE :: nat where "SECTOR_SIZE = 512"

record blkdev =
  sata :: bool
  dev_bytes :: "nat \<Rightarrow> byte"

definition dev_read :: "blkdev \<Rightarrow> nat \<Rightarrow> nat \<Rightarrow> byte list" where
  "dev_read d lba n = map (dev_bytes d) [lba * SECTOR_SIZE..<(lba + n) * SECTOR_SIZE]"

definition dev_write :: "blkdev \<Rightarrow> nat \<Rightarrow> byte list \<Rightarrow> blkdev" where
  "dev_write d lba xs =
     d\<lparr>dev_bytes := \<lambda>a. if lba * SECTOR_SIZE \<le> a \<and> a < lba * SECTOR_SIZE + length xs
                          then xs ! (a - lba * SECTOR_SIZE) else dev_bytes d a\<rparr>"

section \<open>Transfers\<close>

text \<open>
  \<^verbatim>\<open>disk_bytes(target_address, LBA, sector_count, write)\<close> on the buffer \<open>buf\<close>, at
  \<open>target_address = &buf[off]\<close>. With no device the source clears the buffer, for reads and
  for writes.
\<close>

definition disk_bytes ::
  "nat \<Rightarrow> nat \<Rightarrow> nat \<Rightarrow> bool \<Rightarrow> byte list \<times> blkdev \<Rightarrow> (byte list \<times> blkdev) res" where
  "disk_bytes off LBA sector_count w = (\<lambda>(buf, d).
     if off + sector_count * SECTOR_SIZE > length buf then Inl Out_of_bounds
     else if \<not> sata d then Inr (blit buf off (replicate (sector_count * SECTOR_SIZE) 0), d)
     else if w then Inr (buf, dev_write d LBA (seg buf off (sector_count * SECTOR_SIZE)))
     else Inr (blit buf off (dev_read d LBA sector_count), d))"

definition max_sectors :: nat where "max_sectors = 65536"

fun disk_chunks ::
  "nat \<Rightarrow> nat \<Rightarrow> nat \<Rightarrow> bool \<Rightarrow> byte list \<times> blkdev \<Rightarrow> (byte list \<times> blkdev) res" where
  "disk_chunks 0 i LBA w st = Inr st"
| "disk_chunks (Suc k) i LBA w st =
     bindR (disk_bytes (i * max_sectors * SECTOR_SIZE) (trunc32 (LBA + i * max_sectors)) max_sectors w st)
       (disk_chunks k (i + 1) LBA w)"

definition disk_bytes_max ::
  "nat \<Rightarrow> nat \<Rightarrow> bool \<Rightarrow> byte list \<times> blkdev \<Rightarrow> (byte list \<times> blkdev) res" where
  "disk_bytes_max LBA sector_count w st =
     (let chunks = sector_count div max_sectors; remainder = sector_count mod max_sectors in
      bindR (disk_chunks chunks 0 LBA w st)
        (\<lambda>st'. if remainder = 0 then Inr st'
               else disk_bytes (chunks * max_sectors * SECTOR_SIZE)
                      (trunc32 (LBA + chunks * max_sectors)) remainder w st'))"

definition get_disk_bytes :: "blkdev \<Rightarrow> byte list \<Rightarrow> nat \<Rightarrow> nat \<Rightarrow> byte list res" where
  "get_disk_bytes d buf LBA sector_count =
     bindR (disk_bytes_max (trunc32 LBA) sector_count False (buf, d)) (\<lambda>(buf', d'). Inr buf')"

definition set_disk_bytes :: "blkdev \<Rightarrow> byte list \<Rightarrow> nat \<Rightarrow> nat \<Rightarrow> (byte list \<times> blkdev) res" where
  "set_disk_bytes d buf LBA sector_count = disk_bytes_max (trunc32 LBA) sector_count True (buf, d)"

section \<open>The master boot record\<close>

record mbr_partition =
  mbr_status :: byte
  chs_first_sector :: "byte list"
  mbr_type :: byte
  chs_last_sector :: "byte list"
  lba_first_sector :: u32
  mbr_sector_count :: u32

definition mbr_partition_indexes :: "nat list" where
  "mbr_partition_indexes = [0x1BE, 0x1CE, 0x1DE, 0x1EE]"

definition validate_mbr :: "byte list \<Rightarrow> bool" where
  "validate_mbr mbrSector \<longleftrightarrow> mbrSector ! 510 = 0x55 \<and> mbrSector ! 511 = 0xaa"

definition dec_mbr_partition :: "byte list \<Rightarrow> mbr_partition" where
  "dec_mbr_partition b =
     \<lparr>mbr_status = b ! 0, chs_first_sector = seg b 1 3, mbr_type = b ! 4,
      chs_last_sector = seg b 5 3, lba_first_sector = dec32 b 8, mbr_sector_count = dec32 b 12\<rparr>"

definition open_disk :: "blkdev \<Rightarrow> nat \<Rightarrow> nat \<Rightarrow> mbr_partition option res" where
  "open_disk d disk prt =
     (if prt \<ge> 4 then Inr None
      else bindR (get_disk_bytes d (replicate SECTOR_SIZE 0) 0 1)
        (\<lambda>rawArr. if \<not> validate_mbr rawArr then Inr None
                  else Inr (Some (dec_mbr_partition
                    (seg rawArr (mbr_partition_indexes ! prt) 16)))))"

section \<open>The sector-store interface\<close>

locale sector_store =
  fixes rd :: "'d \<Rightarrow> nat \<Rightarrow> nat \<Rightarrow> byte list"
    and put :: "'d \<Rightarrow> nat \<Rightarrow> byte list \<Rightarrow> 'd"
  assumes rd_len: "length (rd d lba n) = n * SECTOR_SIZE"
    and rd_put_same: "length xs = n * SECTOR_SIZE \<Longrightarrow> rd (put d lba xs) lba n = xs"
    and rd_put_other: "length xs = n * SECTOR_SIZE \<Longrightarrow> lba + n \<le> l2 \<or> l2 + m \<le> lba \<Longrightarrow>
      rd (put d lba xs) l2 m = rd d l2 m"
    and rd_split: "rd d lba (m + n) = rd d lba m @ rd d (lba + m) n"
begin

lemma rd_sub:
  assumes "k + m \<le> n"
  shows "rd d (lba + k) m = seg (rd d lba n) (k * SECTOR_SIZE) (m * SECTOR_SIZE)"
proof -
  obtain r where n: "n = k + (m + r)"
    using assms by (metis add.assoc le_iff_add)
  show ?thesis
    unfolding n by (simp add: rd_split seg_def rd_len)
qed

lemma rd_put_sub:
  assumes "length xs = n * SECTOR_SIZE" "k + m \<le> n"
  shows "rd (put d lba xs) (lba + k) m = seg xs (k * SECTOR_SIZE) (m * SECTOR_SIZE)"
  using assms by (simp add: rd_sub [OF assms(2)] rd_put_same)

lemma rd_put_within:
  assumes xs: "length xs = n * SECTOR_SIZE" and l: "l2 \<le> lba" "lba + n \<le> l2 + m"
  shows "rd (put d lba xs) l2 m = blit (rd d l2 m) ((lba - l2) * SECTOR_SIZE) xs"
proof -
  define a where "a = lba - l2"
  define b where "b = l2 + m - (lba + n)"
  have m: "m = a + (n + b)" and lba: "lba = l2 + a"
    using l by (simp_all add: a_def b_def)
  have "rd (put d lba xs) l2 a = rd d l2 a" "rd (put d lba xs) (lba + n) b = rd d (lba + n) b"
    by (rule rd_put_other [OF xs], simp add: lba)+
  moreover have "rd (put d lba xs) lba n = xs"
    using xs by (rule rd_put_same)
  moreover have "rd e l2 m = rd e l2 a @ rd e lba n @ rd e (lba + n) b" for e
    by (simp add: m lba rd_split add.assoc)
  ultimately show ?thesis
    by (simp add: blit_def rd_len xs flip: a_def)
qed

end

lemma length_dev_read [simp]: "length (dev_read d lba n) = n * SECTOR_SIZE"
  by (simp add: dev_read_def SECTOR_SIZE_def)

lemma nth_dev_read:
  "i < n * SECTOR_SIZE \<Longrightarrow> dev_read d lba n ! i = dev_bytes d (lba * SECTOR_SIZE + i)"
  by (simp add: dev_read_def SECTOR_SIZE_def)

lemma sata_dev_write [simp]: "sata (dev_write d lba xs) = sata d"
  by (simp add: dev_write_def)

interpretation disk: sector_store dev_read dev_write
proof unfold_locales
  fix d lba n xs l2 m
  show "length (dev_read d lba n) = n * SECTOR_SIZE"
    by simp
  show "dev_read (dev_write d lba xs) lba n = xs" if "length xs = n * SECTOR_SIZE"
    using that by (intro nth_equalityI) (auto simp: nth_dev_read dev_write_def)
  show "dev_read (dev_write d lba xs) l2 m = dev_read d l2 m"
    if "length xs = n * SECTOR_SIZE" "lba + n \<le> l2 \<or> l2 + m \<le> lba"
    using that by (intro nth_equalityI) (auto simp: nth_dev_read dev_write_def SECTOR_SIZE_def)
  show "dev_read d lba (m + n) = dev_read d lba m @ dev_read d (lba + m) n"
    by (intro nth_equalityI) (auto simp: nth_dev_read nth_append SECTOR_SIZE_def algebra_simps)
qed

section \<open>Chunked transfers are flat transfers\<close>

lemma dev_write_append:
  assumes "length xs = n * SECTOR_SIZE"
  shows "dev_write (dev_write d lba xs) (lba + n) ys = dev_write d lba (xs @ ys)"
proof (rule blkdev.equality)
  show "dev_bytes (dev_write (dev_write d lba xs) (lba + n) ys) = dev_bytes (dev_write d lba (xs @ ys))"
  proof
    fix a
    have "a - (lba + n) * SECTOR_SIZE = a - lba * SECTOR_SIZE - length xs"
      using assms by (simp add: algebra_simps)
    then show "dev_bytes (dev_write (dev_write d lba xs) (lba + n) ys) a =
        dev_bytes (dev_write d lba (xs @ ys)) a"
      using assms by (auto simp: dev_write_def nth_append algebra_simps)
  qed
qed (simp_all add: dev_write_def)

lemma dev_write_Nil [simp]: "dev_write d lba [] = d"
proof -
  have "(lba * SECTOR_SIZE \<le> a \<and> a < lba * SECTOR_SIZE) = False" for a
    by simp
  then show ?thesis
    by (simp only: dev_write_def list.size add_0_right if_False) simp
qed

lemma blit_blit_append:
  assumes "length xs = n" "off = o1 + n" "o1 + n + length ys \<le> length b"
  shows "blit (blit b o1 xs) off ys = blit b o1 (xs @ ys)"
  using assms by (simp add: blit_def min_def drop_take ac_simps)

lemma disk_chunks_read:
  assumes "sata d" "LBA + (i + k) * max_sectors \<le> 2 ^ 32"
    "(i + k) * max_sectors * SECTOR_SIZE \<le> length buf"
  shows "disk_chunks k i LBA False (buf, d) =
    Inr (blit buf (i * max_sectors * SECTOR_SIZE) (dev_read d (LBA + i * max_sectors) (k * max_sectors)), d)"
  using assms
proof (induction k arbitrary: i buf)
  case 0
  then show ?case by (simp add: blit_def dev_read_def)
next
  case (Suc k)
  let ?o = "i * max_sectors * SECTOR_SIZE"
  let ?b = "blit buf ?o (dev_read d (LBA + i * max_sectors) max_sectors)"
  have len: "?o + max_sectors * SECTOR_SIZE \<le> length buf"
    using Suc.prems(3) by (simp add: algebra_simps)
  have lba: "LBA + i * max_sectors < 2 ^ 32"
    using Suc.prems(2) by (simp add: algebra_simps max_sectors_def)
  have "disk_chunks (Suc k) i LBA False (buf, d) = disk_chunks k (i + 1) LBA False (?b, d)"
    using len lba Suc.prems(1) by (simp add: disk_bytes_def algebra_simps)
  also have "\<dots> = Inr (blit ?b ((i + 1) * max_sectors * SECTOR_SIZE)
      (dev_read d (LBA + (i + 1) * max_sectors) (k * max_sectors)), d)"
    using len Suc.prems by (intro Suc.IH) (simp_all add: algebra_simps)
  also have "blit ?b ((i + 1) * max_sectors * SECTOR_SIZE)
      (dev_read d (LBA + (i + 1) * max_sectors) (k * max_sectors)) =
      blit buf ?o (dev_read d (LBA + i * max_sectors) (Suc k * max_sectors))"
    using Suc.prems(3)
    by (subst blit_blit_append)
       (simp_all add: algebra_simps disk.rd_split [of _ _ max_sectors])
  finally show ?case .
qed

lemma disk_chunks_write:
  assumes "sata d" "LBA + (i + k) * max_sectors \<le> 2 ^ 32"
    "(i + k) * max_sectors * SECTOR_SIZE \<le> length buf"
  shows "disk_chunks k i LBA True (buf, d) =
    Inr (buf, dev_write d (LBA + i * max_sectors)
      (seg buf (i * max_sectors * SECTOR_SIZE) (k * max_sectors * SECTOR_SIZE)))"
  using assms
proof (induction k arbitrary: i d)
  case 0
  then show ?case by simp
next
  case (Suc k)
  let ?o = "i * max_sectors * SECTOR_SIZE"
  let ?d = "dev_write d (LBA + i * max_sectors) (seg buf ?o (max_sectors * SECTOR_SIZE))"
  have len: "?o + max_sectors * SECTOR_SIZE \<le> length buf"
    using Suc.prems(3) by (simp add: algebra_simps)
  have lba: "LBA + i * max_sectors < 2 ^ 32"
    using Suc.prems(2) by (simp add: algebra_simps max_sectors_def)
  have "disk_chunks (Suc k) i LBA True (buf, d) = disk_chunks k (i + 1) LBA True (buf, ?d)"
    using len lba Suc.prems(1) by (simp add: disk_bytes_def algebra_simps)
  also have "\<dots> = Inr (buf, dev_write ?d (LBA + i * max_sectors + max_sectors)
      (seg buf (?o + max_sectors * SECTOR_SIZE) (k * max_sectors * SECTOR_SIZE)))"
    using Suc.prems by (subst Suc.IH) (simp_all add: algebra_simps)
  also have "\<dots> = Inr (buf, dev_write d (LBA + i * max_sectors)
      (seg buf ?o (Suc k * max_sectors * SECTOR_SIZE)))"
    using len by (subst dev_write_append) (simp_all add: seg_join algebra_simps)
  finally show ?case .
qed

lemma disk_bytes_max_parts:
  assumes "c = n div max_sectors" "r = n mod max_sectors"
  shows "disk_bytes_max LBA n w st =
    bindR (disk_chunks c 0 LBA w st)
      (\<lambda>st'. if r = 0 then Inr st'
             else disk_bytes (c * max_sectors * SECTOR_SIZE) (trunc32 (LBA + c * max_sectors)) r w st')"
  unfolding assms disk_bytes_max_def Let_def by (rule refl)

lemma disk_bytes_max_read:
  assumes "sata d" "LBA + n \<le> 2 ^ 32" "n * SECTOR_SIZE \<le> length buf"
  shows "disk_bytes_max LBA n False (buf, d) = Inr (blit buf 0 (dev_read d LBA n), d)"
proof -
  define c where "c = n div max_sectors"
  define r where "r = n mod max_sectors"
  have n: "n = c * max_sectors + r"
    by (simp add: c_def r_def)
  have lba: "LBA + c * max_sectors < 2 ^ 32" if "r \<noteq> 0"
    using assms(2) that n by simp
  have "disk_chunks c 0 LBA False (buf, d) = Inr (blit buf 0 (dev_read d LBA (c * max_sectors)), d)"
    using assms n by (subst disk_chunks_read) (simp_all add: algebra_simps)
  moreover have "blit (blit buf 0 (dev_read d LBA (c * max_sectors))) (c * max_sectors * SECTOR_SIZE)
      (dev_read d (LBA + c * max_sectors) r) = blit buf 0 (dev_read d LBA n)"
    using assms(3)
    by (subst blit_blit_append) (simp_all add: disk.rd_split n add_mult_distrib)
  moreover have "c * max_sectors * SECTOR_SIZE + r * SECTOR_SIZE \<le> length buf"
    using assms(3) by (simp add: n add_mult_distrib)
  ultimately show ?thesis
    using assms(1) lba n unfolding disk_bytes_max_parts [OF c_def r_def]
    by (cases "r = 0") (simp_all add: disk_bytes_def)
qed

lemma disk_bytes_max_write:
  assumes "sata d" "LBA + n \<le> 2 ^ 32" "n * SECTOR_SIZE \<le> length buf"
  shows "disk_bytes_max LBA n True (buf, d) = Inr (buf, dev_write d LBA (take (n * SECTOR_SIZE) buf))"
proof -
  define c where "c = n div max_sectors"
  define r where "r = n mod max_sectors"
  have n: "n = c * max_sectors + r"
    by (simp add: c_def r_def)
  have lba: "LBA + c * max_sectors < 2 ^ 32" if "r \<noteq> 0"
    using assms(2) that n by simp
  have "disk_chunks c 0 LBA True (buf, d) =
      Inr (buf, dev_write d LBA (seg buf 0 (c * max_sectors * SECTOR_SIZE)))"
    using assms n by (subst disk_chunks_write) (simp_all add: algebra_simps)
  moreover have "dev_write (dev_write d LBA (seg buf 0 (c * max_sectors * SECTOR_SIZE))) (LBA + c * max_sectors)
      (seg buf (c * max_sectors * SECTOR_SIZE) (r * SECTOR_SIZE)) = dev_write d LBA (seg buf 0 (n * SECTOR_SIZE))"
    using assms(3) n by (subst dev_write_append) (simp_all add: seg_join algebra_simps)
  moreover have "c * max_sectors * SECTOR_SIZE + r * SECTOR_SIZE \<le> length buf"
    using assms(3) by (simp add: n add_mult_distrib)
  moreover have "seg buf 0 (n * SECTOR_SIZE) = take (n * SECTOR_SIZE) buf"
    by (simp add: seg_def)
  ultimately show ?thesis
    using assms(1) lba n unfolding disk_bytes_max_parts [OF c_def r_def]
    by (cases "r = 0") (simp_all add: disk_bytes_def)
qed

lemma get_disk_bytes_flat:
  assumes "sata d" "LBA + n \<le> 2 ^ 32" "length buf = n * SECTOR_SIZE" "0 < n"
  shows "get_disk_bytes d buf LBA n = Inr (dev_read d LBA n)"
  using assms by (simp add: get_disk_bytes_def disk_bytes_max_read blit_def)

lemma set_disk_bytes_flat:
  assumes "sata d" "LBA + n \<le> 2 ^ 32" "length buf = n * SECTOR_SIZE" "0 < n"
  shows "set_disk_bytes d buf LBA n = Inr (buf, dev_write d LBA buf)"
  using assms by (simp add: set_disk_bytes_def disk_bytes_max_write)

section \<open>The device as a byte store\<close>

text \<open>
  Sector transfers seen as accesses to byte ranges: \<open>dev_seg\<close> reads a range, \<open>dev_patch\<close>
  replaces one. A read-modify-write of whole sectors is a patch of the bytes modified.
\<close>

definition dev_seg :: "blkdev \<Rightarrow> nat \<Rightarrow> nat \<Rightarrow> byte list" where
  "dev_seg d a n = map (dev_bytes d) [a..<a + n]"

definition dev_patch :: "blkdev \<Rightarrow> nat \<Rightarrow> byte list \<Rightarrow> blkdev" where
  "dev_patch d a xs =
     d\<lparr>dev_bytes := \<lambda>p. if a \<le> p \<and> p < a + length xs then xs ! (p - a) else dev_bytes d p\<rparr>"

lemma dev_read_seg: "dev_read d lba n = dev_seg d (lba * SECTOR_SIZE) (n * SECTOR_SIZE)"
  by (simp add: dev_read_def dev_seg_def algebra_simps)

lemma dev_write_patch: "dev_write d lba xs = dev_patch d (lba * SECTOR_SIZE) xs"
  by (simp add: dev_write_def dev_patch_def)

lemma length_dev_seg [simp]: "length (dev_seg d a n) = n"
  by (simp add: dev_seg_def)

lemma nth_dev_seg [simp]: "i < n \<Longrightarrow> dev_seg d a n ! i = dev_bytes d (a + i)"
  by (simp add: dev_seg_def)

lemma sata_dev_patch [simp]: "sata (dev_patch d a xs) = sata d"
  by (simp add: dev_patch_def)

lemma dev_bytes_patch:
  "dev_bytes (dev_patch d a xs) p = (if a \<le> p \<and> p < a + length xs then xs ! (p - a) else dev_bytes d p)"
  by (simp add: dev_patch_def)

lemma dev_seg_patch_same [simp]: "length xs = n \<Longrightarrow> dev_seg (dev_patch d a xs) a n = xs"
  by (rule nth_equalityI) (auto simp: dev_bytes_patch)

lemma dev_seg_patch_other:
  "a + length xs \<le> a2 \<or> a2 + n \<le> a \<Longrightarrow> dev_seg (dev_patch d a xs) a2 n = dev_seg d a2 n"
  by (rule nth_equalityI) (auto simp: dev_bytes_patch)

lemma dev_seg_patch_within:
  "a2 \<le> a \<Longrightarrow> a + length xs \<le> a2 + n \<Longrightarrow>
   dev_seg (dev_patch d a xs) a2 n = blit (dev_seg d a2 n) (a - a2) xs"
  by (rule nth_equalityI) (auto simp: dev_bytes_patch nth_blit add.commute)

lemma seg_dev_seg [simp]: "off + m \<le> n \<Longrightarrow> seg (dev_seg d a n) off m = dev_seg d (a + off) m"
  by (rule nth_equalityI) (auto simp: add.assoc)

lemma blkdev_eqI: "sata d = sata e \<Longrightarrow> (\<And>p. dev_bytes d p = dev_bytes e p) \<Longrightarrow> d = e" for d e :: blkdev
  by (rule blkdev.equality) (auto simp: fun_eq_iff)

lemma dev_seg_append: "dev_seg d a (m + n) = dev_seg d a m @ dev_seg d (a + m) n"
  by (rule nth_equalityI) (auto simp: nth_append)

lemma dev_patch_append: "dev_patch d a (xs @ ys) = dev_patch (dev_patch d a xs) (a + length xs) ys"
  by (rule blkdev_eqI) (auto simp: dev_bytes_patch nth_append)

lemma dev_patch_blit:
  "off + length xs \<le> n \<Longrightarrow> dev_patch d a (blit (dev_seg d a n) off xs) = dev_patch d (a + off) xs"
  by (rule blkdev_eqI) (auto simp: dev_bytes_patch nth_blit add.commute)

lemma dev_patch_patch_same: "length xs = length ys \<Longrightarrow> dev_patch (dev_patch d a xs) a ys = dev_patch d a ys"
  by (rule blkdev_eqI) (auto simp: dev_bytes_patch)

lemma dev_patch_id [simp]: "length xs = n \<Longrightarrow> xs = dev_seg d a n \<Longrightarrow> dev_patch d a xs = d"
  by (rule blkdev_eqI) (auto simp: dev_bytes_patch)

lemma dev_patch_commute:
  "a + length xs \<le> a2 \<or> a2 + length ys \<le> a \<Longrightarrow>
   dev_patch (dev_patch d a xs) a2 ys = dev_patch (dev_patch d a2 ys) a xs"
  by (rule blkdev_eqI) (auto simp: dev_bytes_patch)


definition zero_disk :: blkdev where
  "zero_disk = \<lparr>sata = True, dev_bytes = \<lambda>_. 0\<rparr>"


end
