(* ===== verification/Ext2_Types.thy ===== *)
theory Ext2_Types
  imports Disk Spinlock Byte_Bitmap
begin

text \<open>
  The on-disk structures of \<^verbatim>\<open>include/kernel/disk/ext2.h\<close> as records with their byte codecs,
  and the in-memory state \<^verbatim>\<open>struct Ext2\<close> the driver works on. Field names carry a prefix
  where two structs share one (\<open>s_\<close> superblock, \<open>bg_\<close> block group, \<open>i_\<close> inode, \<open>d_\<close>
  directory entry). The \<^verbatim>\<open>memcpy\<close>s between structs and sector buffers are the codecs; the
  round-trip lemmas show that no field is lost or moved.
\<close>

section \<open>Superblock\<close>

record Ext2SuperblockExtended =
  first_inode :: u32
  inode_size :: u16
  superblock_group :: u16
  optional_feature :: u32
  required_feature :: u32
  readonly_feature :: u32
  fs_id :: "byte list"
  vol_name :: "byte list"
  last_mount_path :: "byte list"
  compression_method :: u32
  file_pre_alloc_blocks :: byte
  dir_pre_alloc_blocks :: byte
  unused1 :: u16
  journal_id :: "byte list"
  journal_inode :: u32
  journal_device :: u32
  orphan_head :: u32
  s_reserved :: "byte list"

record Ext2Superblock =
  total_inodes :: u32
  total_blocks :: u32
  su_blocks :: u32
  s_free_blocks :: u32
  s_free_inodes :: u32
  superblock_idx :: u32
  log2block_size :: u32
  log2frag_size :: u32
  blocks_per_group :: u32
  frags_per_group :: u32
  inodes_per_group :: u32
  s_mtime :: u32
  s_wtime :: u32
  mount_count :: u16
  mount_allowed_count :: u16
  ext2_magic :: u16
  fs_state :: u16
  s_err :: u16
  minor :: u16
  last_check :: u32
  interval :: u32
  os_id :: u32
  major :: u32
  r_userid :: u16
  r_groupid :: u16
  extended :: Ext2SuperblockExtended

definition enc_extended :: "Ext2SuperblockExtended \<Rightarrow> byte list" where
  "enc_extended e =
     bytes32 (first_inode e) @ bytes16 (inode_size e) @ bytes16 (superblock_group e) @
     bytes32 (optional_feature e) @ bytes32 (required_feature e) @ bytes32 (readonly_feature e) @
     fs_id e @ vol_name e @ last_mount_path e @ bytes32 (compression_method e) @
     [file_pre_alloc_blocks e] @ [dir_pre_alloc_blocks e] @ bytes16 (unused1 e) @
     journal_id e @ bytes32 (journal_inode e) @ bytes32 (journal_device e) @
     bytes32 (orphan_head e) @ s_reserved e"

definition dec_extended :: "byte list \<Rightarrow> Ext2SuperblockExtended" where
  "dec_extended b =
     \<lparr>first_inode = dec32 b 0, inode_size = dec16 b 4, superblock_group = dec16 b 6,
      optional_feature = dec32 b 8, required_feature = dec32 b 12, readonly_feature = dec32 b 16,
      fs_id = seg b 20 16, vol_name = seg b 36 16, last_mount_path = seg b 52 64,
      compression_method = dec32 b 116, file_pre_alloc_blocks = b ! 120,
      dir_pre_alloc_blocks = b ! 121, unused1 = dec16 b 122, journal_id = seg b 124 16,
      journal_inode = dec32 b 140, journal_device = dec32 b 144, orphan_head = dec32 b 148,
      s_reserved = seg b 152 788\<rparr>"

definition enc_superblock :: "Ext2Superblock \<Rightarrow> byte list" where
  "enc_superblock s =
     bytes32 (total_inodes s) @ bytes32 (total_blocks s) @ bytes32 (su_blocks s) @
     bytes32 (s_free_blocks s) @ bytes32 (s_free_inodes s) @ bytes32 (superblock_idx s) @
     bytes32 (log2block_size s) @ bytes32 (log2frag_size s) @ bytes32 (blocks_per_group s) @
     bytes32 (frags_per_group s) @ bytes32 (inodes_per_group s) @ bytes32 (s_mtime s) @
     bytes32 (s_wtime s) @ bytes16 (mount_count s) @ bytes16 (mount_allowed_count s) @
     bytes16 (ext2_magic s) @ bytes16 (fs_state s) @ bytes16 (s_err s) @ bytes16 (minor s) @
     bytes32 (last_check s) @ bytes32 (interval s) @ bytes32 (os_id s) @ bytes32 (major s) @
     bytes16 (r_userid s) @ bytes16 (r_groupid s) @ enc_extended (extended s)"

definition dec_superblock :: "byte list \<Rightarrow> Ext2Superblock" where
  "dec_superblock b =
     \<lparr>total_inodes = dec32 b 0, total_blocks = dec32 b 4, su_blocks = dec32 b 8,
      s_free_blocks = dec32 b 12, s_free_inodes = dec32 b 16, superblock_idx = dec32 b 20,
      log2block_size = dec32 b 24, log2frag_size = dec32 b 28, blocks_per_group = dec32 b 32,
      frags_per_group = dec32 b 36, inodes_per_group = dec32 b 40, s_mtime = dec32 b 44,
      s_wtime = dec32 b 48, mount_count = dec16 b 52, mount_allowed_count = dec16 b 54,
      ext2_magic = dec16 b 56, fs_state = dec16 b 58, s_err = dec16 b 60, minor = dec16 b 62,
      last_check = dec32 b 64, interval = dec32 b 68, os_id = dec32 b 72, major = dec32 b 76,
      r_userid = dec16 b 80, r_groupid = dec16 b 82, extended = dec_extended (seg b 84 940)\<rparr>"

definition superblock_ok :: "Ext2Superblock \<Rightarrow> bool" where
  "superblock_ok s \<longleftrightarrow> (let e = extended s in length (fs_id e) = 16 \<and> length (vol_name e) = 16 \<and>
     length (last_mount_path e) = 64 \<and> length (journal_id e) = 16 \<and> length (s_reserved e) = 788)"

section \<open>Block groups, inodes and directory entries\<close>

record Ext2BlockGroup =
  block_bitmap :: u32
  inode_bitmap :: u32
  inode_table :: u32
  bg_free_blocks :: u16
  bg_free_inodes :: u16
  num_dirs :: u16
  bg_padding :: u16
  bg_reserved :: "byte list"

definition enc_group :: "Ext2BlockGroup \<Rightarrow> byte list" where
  "enc_group g =
     bytes32 (block_bitmap g) @ bytes32 (inode_bitmap g) @ bytes32 (inode_table g) @
     bytes16 (bg_free_blocks g) @ bytes16 (bg_free_inodes g) @ bytes16 (num_dirs g) @
     bytes16 (bg_padding g) @ bg_reserved g"

definition dec_group :: "byte list \<Rightarrow> Ext2BlockGroup" where
  "dec_group b =
     \<lparr>block_bitmap = dec32 b 0, inode_bitmap = dec32 b 4, inode_table = dec32 b 8,
      bg_free_blocks = dec16 b 12, bg_free_inodes = dec16 b 14, num_dirs = dec16 b 16,
      bg_padding = dec16 b 18, bg_reserved = seg b 20 12\<rparr>"

definition group_ok :: "Ext2BlockGroup \<Rightarrow> bool" where
  "group_ok g \<longleftrightarrow> length (bg_reserved g) = 12"

definition enc_groups :: "Ext2BlockGroup list \<Rightarrow> byte list" where
  "enc_groups gs = concat (map enc_group gs)"

definition dec_groups :: "nat \<Rightarrow> byte list \<Rightarrow> Ext2BlockGroup list" where
  "dec_groups n b = map (\<lambda>i. dec_group (seg b (32 * i) 32)) [0..<n]"

record Ext2Inode =
  i_permission :: u16
  i_userid :: u16
  i_size :: u32
  i_atime :: u32
  i_ctime :: u32
  i_mtime :: u32
  i_dtime :: u32
  i_gid :: u16
  i_hard_links :: u16
  i_num_sectors :: u32
  i_flags :: u32
  i_os_specific1 :: u32
  i_blocks :: "u32 list"
  i_generation :: u32
  i_file_acl :: u32
  i_size_high :: u32
  i_f_block_addr :: u32
  i_os_specific2 :: "byte list"

text \<open>The union of \<^verbatim>\<open>dir_acl\<close> and \<^verbatim>\<open>size_high\<close> is the one field \<open>i_size_high\<close>.\<close>

definition EXT2_DIRECT_BLOCKS :: nat where "EXT2_DIRECT_BLOCKS = 12"

definition enc_inode :: "Ext2Inode \<Rightarrow> byte list" where
  "enc_inode i =
     bytes16 (i_permission i) @ bytes16 (i_userid i) @ bytes32 (i_size i) @ bytes32 (i_atime i) @
     bytes32 (i_ctime i) @ bytes32 (i_mtime i) @ bytes32 (i_dtime i) @ bytes16 (i_gid i) @
     bytes16 (i_hard_links i) @ bytes32 (i_num_sectors i) @ bytes32 (i_flags i) @
     bytes32 (i_os_specific1 i) @ bytes_of_words (i_blocks i) @ bytes32 (i_generation i) @
     bytes32 (i_file_acl i) @ bytes32 (i_size_high i) @ bytes32 (i_f_block_addr i) @
     i_os_specific2 i"

definition dec_inode :: "byte list \<Rightarrow> Ext2Inode" where
  "dec_inode b =
     \<lparr>i_permission = dec16 b 0, i_userid = dec16 b 2, i_size = dec32 b 4, i_atime = dec32 b 8,
      i_ctime = dec32 b 12, i_mtime = dec32 b 16, i_dtime = dec32 b 20, i_gid = dec16 b 24,
      i_hard_links = dec16 b 26, i_num_sectors = dec32 b 28, i_flags = dec32 b 32,
      i_os_specific1 = dec32 b 36, i_blocks = words_of (seg b 40 60), i_generation = dec32 b 100,
      i_file_acl = dec32 b 104, i_size_high = dec32 b 108, i_f_block_addr = dec32 b 112,
      i_os_specific2 = seg b 116 12\<rparr>"

definition INODE_BYTES :: nat where "INODE_BYTES = 128"

definition inode_ok :: "Ext2Inode \<Rightarrow> bool" where
  "inode_ok i \<longleftrightarrow> length (i_blocks i) = EXT2_DIRECT_BLOCKS + 3 \<and> length (i_os_specific2 i) = 12"

record Ext2Directory =
  d_inode :: u32
  d_size :: u16
  d_filenameLength :: byte
  d_type :: byte

definition DIR_BYTES :: nat where "DIR_BYTES = 8"

definition enc_dir :: "Ext2Directory \<Rightarrow> byte list" where
  "enc_dir e = bytes32 (d_inode e) @ bytes16 (d_size e) @ [d_filenameLength e] @ [d_type e]"

definition dec_dir :: "byte list \<Rightarrow> Ext2Directory" where
  "dec_dir b = \<lparr>d_inode = dec32 b 0, d_size = dec16 b 4, d_filenameLength = b ! 6, d_type = b ! 7\<rparr>"

section \<open>Codec round trips\<close>

lemma length_enc_extended [simp]:
  "length (enc_extended e) = 40 + length (fs_id e) + length (vol_name e) + length (last_mount_path e)
     + length (journal_id e) + length (s_reserved e)"
  by (simp add: enc_extended_def)

lemma length_enc_superblock [simp]: "superblock_ok s \<Longrightarrow> length (enc_superblock s) = 1024"
  by (simp add: enc_superblock_def superblock_ok_def Let_def)

lemma length_enc_group [simp]: "group_ok g \<Longrightarrow> length (enc_group g) = 32"
  by (simp add: enc_group_def group_ok_def)

lemma length_enc_inode [simp]: "inode_ok i \<Longrightarrow> length (enc_inode i) = INODE_BYTES"
  by (simp add: enc_inode_def inode_ok_def EXT2_DIRECT_BLOCKS_def INODE_BYTES_def)

lemma length_enc_dir [simp]: "length (enc_dir e) = DIR_BYTES"
  by (simp add: enc_dir_def DIR_BYTES_def)

lemma dec_enc_dir [simp]: "dec_dir (enc_dir e) = e"
  using dec16_bytes [of _ "[]"] dec32_bytes [of _ "[]"]
  by (simp add: dec_dir_def enc_dir_def codec_simps nth_append)

lemma enc_dec_dir: "length b = DIR_BYTES \<Longrightarrow> enc_dir (dec_dir b) = b"
  by (simp add: enc_dir_def dec_dir_def bytes32_dec32 bytes16_dec16 byte_seg [simplified] DIR_BYTES_def
      seg_join_more seg_join)

lemmas codec_heads = dec16_bytes [of _ "[]", simplified] dec32_bytes [of _ "[]", simplified]

lemma dec_enc_group [simp]: "group_ok g \<Longrightarrow> dec_group (enc_group g) = g"
  by (simp add: dec_group_def enc_group_def group_ok_def codec_simps codec_heads)

lemma enc_dec_group: "length b = 32 \<Longrightarrow> enc_group (dec_group b) = b"
  by (simp add: enc_group_def dec_group_def bytes32_dec32 bytes16_dec16 seg_join_more seg_join)

lemma dec_enc_inode [simp]: "inode_ok i \<Longrightarrow> dec_inode (enc_inode i) = i"
  by (simp add: dec_inode_def enc_inode_def inode_ok_def EXT2_DIRECT_BLOCKS_def codec_simps codec_heads)

lemma enc_dec_inode: "length b = INODE_BYTES \<Longrightarrow> enc_inode (dec_inode b) = b"
  by (simp add: enc_inode_def dec_inode_def INODE_BYTES_def bytes32_dec32 bytes16_dec16
      bytes_of_words_of seg_join_more seg_join)

lemma dec_enc_extended:
  "superblock_ok s \<Longrightarrow> dec_extended (enc_extended (extended s)) = extended s"
  by (simp add: dec_extended_def enc_extended_def superblock_ok_def Let_def codec_simps nth_append)

lemma enc_dec_extended: "length b = 940 \<Longrightarrow> enc_extended (dec_extended b) = b"
  by (simp add: enc_extended_def dec_extended_def bytes32_dec32 bytes16_dec16 byte_seg [simplified]
      seg_join_more seg_join)

lemma seg_enc_extended:
  "superblock_ok s \<Longrightarrow> seg (enc_extended (extended s)) 0 940 = enc_extended (extended s)"
  by (rule seg_full) (simp add: superblock_ok_def Let_def)

lemma dec_enc_superblock [simp]: "superblock_ok s \<Longrightarrow> dec_superblock (enc_superblock s) = s"
  by (simp add: dec_superblock_def enc_superblock_def codec_simps dec_enc_extended seg_enc_extended)

lemma enc_dec_superblock: "length b = 1024 \<Longrightarrow> enc_superblock (dec_superblock b) = b"
  by (simp add: enc_superblock_def dec_superblock_def bytes32_dec32 bytes16_dec16 enc_dec_extended
      seg_join_more seg_join)

lemma superblock_ok_dec [simp]: "length b = 1024 \<Longrightarrow> superblock_ok (dec_superblock b)"
  by (simp add: superblock_ok_def dec_superblock_def dec_extended_def)

lemma group_ok_dec [simp]: "length b = 32 \<Longrightarrow> group_ok (dec_group b)"
  by (simp add: group_ok_def dec_group_def)

lemma inode_ok_dec [simp]: "length b = INODE_BYTES \<Longrightarrow> inode_ok (dec_inode b)"
  by (simp add: inode_ok_def dec_inode_def INODE_BYTES_def EXT2_DIRECT_BLOCKS_def)

lemma length_enc_groups [simp]:
  "\<forall>g \<in> set gs. group_ok g \<Longrightarrow> length (enc_groups gs) = 32 * length gs"
  by (induction gs) (simp_all add: enc_groups_def)

lemma seg_enc_groups:
  assumes "\<forall>g \<in> set gs. group_ok g" "i < length gs"
  shows "seg (enc_groups gs) (32 * i) 32 = enc_group (gs ! i)"
  using assms
proof (induction gs arbitrary: i)
  case Nil
  then show ?case by simp
next
  case (Cons g gs)
  then show ?case
    by (cases i) (simp_all add: enc_groups_def codec_simps)
qed

lemma dec_enc_groups [simp]:
  "\<forall>g \<in> set gs. group_ok g \<Longrightarrow> length gs = n \<Longrightarrow> dec_groups n (enc_groups gs) = gs"
  by (rule nth_equalityI) (simp_all add: dec_groups_def seg_enc_groups)

section \<open>Cached files and open descriptors\<close>

text \<open>
  \<open>Ext2CacheObject\<close> and \<open>Ext2FoundObject\<close> are nodes of doubly linked lists; a pointer is a
  natural number, 0 the null pointer, and the nodes live in the stores \<open>cacheObjs\<close> and
  \<open>foundObjs\<close> of the driver state.
\<close>

type_synonym ptr = nat

record Ext2CacheObject =
  c_next :: ptr
  c_prev :: ptr
  blockIndex :: nat
  c_buff :: "byte list"
  c_blocks :: nat

record Ext2FoundObject =
  f_next :: ptr
  f_prev :: ptr
  f_inode :: nat
  openFds :: nat
  LOCK_PROP :: Spinlock
  WLOCK_FILE :: SpinlockCnt
  WLOCK_CACHE :: SpinlockCnt
  firstCacheObj :: ptr

record Ext2LookupControl =
  tmp1 :: "u32 list"
  tmp1Block :: nat
  tmp2 :: "u32 list"
  tmp2Block :: nat

record Ext2OpenFd =
  fd_lookup :: Ext2LookupControl
  globalObject :: ptr
  fd_ptr :: nat
  fd_inodeNum :: nat
  fd_inode :: Ext2Inode

section \<open>The driver state\<close>

text \<open>
  \<open>Ext2\<close> has the fields of \<^verbatim>\<open>struct Ext2\<close>; \<open>ext2_sys\<close> adds what its operations reach through
  pointers and globals: the device, the two object stores with the allocation counter, the
  mount point's \<^verbatim>\<open>blocksCached\<close> and the clock \<^verbatim>\<open>timerBootUnix + timerTicks / 1000\<close>.
\<close>

record Ext2 =
  offsetBase :: nat
  offsetSuperblock :: nat
  offsetBGDT :: nat
  blockSize :: nat
  inodeSize :: nat
  inodeSizeRounded :: nat
  blockGroups :: nat
  bgdts :: "Ext2BlockGroup list"
  superblock :: Ext2Superblock
  LOCK_OBJECT :: Spinlock
  firstObject :: ptr
  WLOCK_GLOBAL_NOFD :: SpinlockCnt
  WLOCKS_BLOCK_BITMAP :: "SpinlockCnt list"
  WLOCKS_INODE :: "SpinlockCnt list"
  LOCK_BGDT_WRITE :: Spinlock
  LOCK_SUPERBLOCK_WRITE :: Spinlock
  LOCK_DIRALLOC :: Spinlock

record ext2_sys = Ext2 +
  dev :: blkdev
  foundObjs :: "ptr \<Rightarrow> Ext2FoundObject option"
  cacheObjs :: "ptr \<Rightarrow> Ext2CacheObject option"
  next_ptr :: ptr
  blocksCached :: nat
  unix_time :: nat

type_synonym 'a ext2_cmd = "(ext2_sys, 'a) cmd"

definition BLOCK_TO_LBA :: "('x Ext2_scheme) \<Rightarrow> nat \<Rightarrow> nat \<Rightarrow> nat" where
  "BLOCK_TO_LBA ext2 grp block =
     offsetBase ext2
     + (grp * unat (blocks_per_group (superblock ext2)) * blockSize ext2) div SECTOR_SIZE
     + (block * blockSize ext2) div SECTOR_SIZE"

text \<open>
  \<^verbatim>\<open>(inode) - 1\<close> is computed in the type of its argument, \<^verbatim>\<open>size_t\<close> or \<^verbatim>\<open>uint32_t\<close>: \<open>w\<close> is its
  width, and inode number 0 wraps.
\<close>

definition INODE_TO_BLOCK_GROUP :: "nat \<Rightarrow> ('x Ext2_scheme) \<Rightarrow> nat \<Rightarrow> nat" where
  "INODE_TO_BLOCK_GROUP w ext2 inode =
     ((inode + (2 ^ w - 1)) mod 2 ^ w) div unat (inodes_per_group (superblock ext2))"

definition INODE_TO_INDEX :: "nat \<Rightarrow> ('x Ext2_scheme) \<Rightarrow> nat \<Rightarrow> nat" where
  "INODE_TO_INDEX w ext2 inode =
     ((inode + (2 ^ w - 1)) mod 2 ^ w) mod unat (inodes_per_group (superblock ext2))"

lemma inode_minus_one: "0 < inode \<Longrightarrow> inode < 2 ^ w \<Longrightarrow> (inode + (2 ^ w - 1)) mod 2 ^ w = inode - 1"
  for inode w :: nat
proof -
  assume a: "0 < inode" "inode < 2 ^ w"
  then have "(inode + (2 ^ w - 1)) mod 2 ^ w = ((inode - 1) + 2 ^ w) mod 2 ^ w"
    by simp
  also have "\<dots> = (inode - 1) mod 2 ^ w"
    by (rule mod_add_self2)
  finally show ?thesis
    using a by simp
qed

section \<open>Locks and disk access as commands\<close>

text \<open>
  \<open>lock_at sel upd op g\<close> is a lock operation on entry \<open>g\<close> of a lock array of the state;
  \<open>lock1 sel upd op\<close> one on a single lock. \<open>get_sectors\<close> and \<open>set_sectors\<close> are
  \<^verbatim>\<open>get_disk_bytes\<close> into a freshly allocated buffer and \<^verbatim>\<open>set_disk_bytes\<close>. A mounted file system
  has a device behind it; a write without one would clear the driver's own buffer and is
  the fault \<open>Device_absent\<close>.
\<close>

definition lock_at ::
  "(ext2_sys \<Rightarrow> SpinlockCnt list) \<Rightarrow> ((SpinlockCnt list \<Rightarrow> SpinlockCnt list) \<Rightarrow> ext2_sys \<Rightarrow> ext2_sys) \<Rightarrow>
   (SpinlockCnt \<Rightarrow> SpinlockCnt res) \<Rightarrow> nat \<Rightarrow> unit ext2_cmd" where
  "lock_at sel upd op g = (\<lambda>s.
     if g < length (sel s) then
       (case op (sel s ! g) of Inl e \<Rightarrow> Inl e | Inr l \<Rightarrow> Inr ((), upd (\<lambda>_. (sel s)[g := l]) s))
     else Inl Out_of_bounds)"

definition lock1 ::
  "(ext2_sys \<Rightarrow> 'l) \<Rightarrow> (('l \<Rightarrow> 'l) \<Rightarrow> ext2_sys \<Rightarrow> ext2_sys) \<Rightarrow> ('l \<Rightarrow> 'l res) \<Rightarrow> unit ext2_cmd" where
  "lock1 sel upd op = (\<lambda>s.
     case op (sel s) of Inl e \<Rightarrow> Inl e | Inr l \<Rightarrow> Inr ((), upd (\<lambda>_. l) s))"

definition bitmap_lock :: "(SpinlockCnt \<Rightarrow> SpinlockCnt res) \<Rightarrow> nat \<Rightarrow> unit ext2_cmd" where
  "bitmap_lock = lock_at WLOCKS_BLOCK_BITMAP WLOCKS_BLOCK_BITMAP_update"

definition inode_lock :: "(SpinlockCnt \<Rightarrow> SpinlockCnt res) \<Rightarrow> nat \<Rightarrow> unit ext2_cmd" where
  "inode_lock = lock_at WLOCKS_INODE WLOCKS_INODE_update"

definition nofd_lock :: "(SpinlockCnt \<Rightarrow> SpinlockCnt res) \<Rightarrow> unit ext2_cmd" where
  "nofd_lock = lock1 WLOCK_GLOBAL_NOFD WLOCK_GLOBAL_NOFD_update"

definition spin_bgdt :: "(Spinlock \<Rightarrow> Spinlock res) \<Rightarrow> unit ext2_cmd" where
  "spin_bgdt = lock1 LOCK_BGDT_WRITE LOCK_BGDT_WRITE_update"

definition spin_superblock :: "(Spinlock \<Rightarrow> Spinlock res) \<Rightarrow> unit ext2_cmd" where
  "spin_superblock = lock1 LOCK_SUPERBLOCK_WRITE LOCK_SUPERBLOCK_WRITE_update"

definition spin_diralloc :: "(Spinlock \<Rightarrow> Spinlock res) \<Rightarrow> unit ext2_cmd" where
  "spin_diralloc = lock1 LOCK_DIRALLOC LOCK_DIRALLOC_update"

definition spin_object :: "(Spinlock \<Rightarrow> Spinlock res) \<Rightarrow> unit ext2_cmd" where
  "spin_object = lock1 LOCK_OBJECT LOCK_OBJECT_update"

abbreviation release :: "Spinlock \<Rightarrow> Spinlock res" where
  "release \<equiv> \<lambda>l. Inr (spinlock_release l)"

definition get_sectors :: "nat \<Rightarrow> nat \<Rightarrow> byte list ext2_cmd" where
  "get_sectors lba n = (\<lambda>s.
     case get_disk_bytes (dev s) (replicate (n * SECTOR_SIZE) 0) lba n of
       Inl e \<Rightarrow> Inl e | Inr buf \<Rightarrow> Inr (buf, s))"

definition set_sectors :: "byte list \<Rightarrow> nat \<Rightarrow> nat \<Rightarrow> unit ext2_cmd" where
  "set_sectors buf lba n = (\<lambda>s.
     if \<not> sata (dev s) then Inl Device_absent
     else case set_disk_bytes (dev s) buf lba n of
       Inl e \<Rightarrow> Inl e | Inr (_, d) \<Rightarrow> Inr ((), s\<lparr>dev := d\<rparr>))"

text \<open>Critical sections: acquire, body, release, on one entry of a lock array.\<close>

definition bitmap_section ::
  "(SpinlockCnt \<Rightarrow> SpinlockCnt res) \<Rightarrow> (SpinlockCnt \<Rightarrow> SpinlockCnt res) \<Rightarrow> nat \<Rightarrow> 'a ext2_cmd \<Rightarrow> 'a ext2_cmd" where
  "bitmap_section acq rel g body =
     andthen (bitmap_lock acq g) (bnd body (\<lambda>r. andthen (bitmap_lock rel g) (ret r)))"

definition inode_section ::
  "(SpinlockCnt \<Rightarrow> SpinlockCnt res) \<Rightarrow> (SpinlockCnt \<Rightarrow> SpinlockCnt res) \<Rightarrow> nat \<Rightarrow> 'a ext2_cmd \<Rightarrow> 'a ext2_cmd" where
  "inode_section acq rel g body =
     andthen (inode_lock acq g) (bnd body (\<lambda>r. andthen (inode_lock rel g) (ret r)))"

lemma bitmap_lock_run:
  "g < length (WLOCKS_BLOCK_BITMAP s) \<Longrightarrow> op (WLOCKS_BLOCK_BITMAP s ! g) = Inr l \<Longrightarrow>
   bitmap_lock op g s = Inr ((), s\<lparr>WLOCKS_BLOCK_BITMAP := (WLOCKS_BLOCK_BITMAP s)[g := l]\<rparr>)"
  by (simp add: bitmap_lock_def lock_at_def)

lemma inode_lock_run:
  "g < length (WLOCKS_INODE s) \<Longrightarrow> op (WLOCKS_INODE s ! g) = Inr l \<Longrightarrow>
   inode_lock op g s = Inr ((), s\<lparr>WLOCKS_INODE := (WLOCKS_INODE s)[g := l]\<rparr>)"
  by (simp add: inode_lock_def lock_at_def)

lemma bitmap_section_run:
  assumes "g < length (WLOCKS_BLOCK_BITMAP s)" "acq (WLOCKS_BLOCK_BITMAP s ! g) = Inr l"
    "rel l = Inr (WLOCKS_BLOCK_BITMAP s ! g)"
    "body (s\<lparr>WLOCKS_BLOCK_BITMAP := (WLOCKS_BLOCK_BITMAP s)[g := l]\<rparr>) =
       Inr (r, s'\<lparr>WLOCKS_BLOCK_BITMAP := (WLOCKS_BLOCK_BITMAP s)[g := l]\<rparr>)"
    "WLOCKS_BLOCK_BITMAP s' = WLOCKS_BLOCK_BITMAP s"
  shows "bitmap_section acq rel g body s = Inr (r, s')"
proof -
  have "s'\<lparr>WLOCKS_BLOCK_BITMAP := WLOCKS_BLOCK_BITMAP s\<rparr> = s'"
    using assms(5) by simp
  then show ?thesis
    using assms by (simp add: bitmap_section_def cmd_simps bitmap_lock_run)
qed

lemma inode_section_run:
  assumes "g < length (WLOCKS_INODE s)" "acq (WLOCKS_INODE s ! g) = Inr l"
    "rel l = Inr (WLOCKS_INODE s ! g)"
    "body (s\<lparr>WLOCKS_INODE := (WLOCKS_INODE s)[g := l]\<rparr>) =
       Inr (r, s'\<lparr>WLOCKS_INODE := (WLOCKS_INODE s)[g := l]\<rparr>)"
    "WLOCKS_INODE s' = WLOCKS_INODE s"
  shows "inode_section acq rel g body s = Inr (r, s')"
proof -
  have "s'\<lparr>WLOCKS_INODE := WLOCKS_INODE s\<rparr> = s'"
    using assms(5) by simp
  then show ?thesis
    using assms by (simp add: inode_section_def cmd_simps inode_lock_run)
qed

end
