(* ===== verification/Ext2_Meta.thy ===== *)
theory Ext2_Meta
  imports Ext2_Types
begin

text \<open>
  Shared metadata of the ext2 driver: \<^verbatim>\<open>ext2BgdtPushM\<close> and \<^verbatim>\<open>ext2SuperblockPushM\<close> of
  \<^verbatim>\<open>ext2_util.c\<close>, which write the group descriptors and the superblock back together with
  their backups, and the well-formedness predicate \<open>ext2_wf\<close> of a mounted file system under
  which the disk accesses of the driver have the closed forms the other theories use.
\<close>

section \<open>Backups of the metadata\<close>

text \<open>\<^verbatim>\<open>isPowerOf\<close>; \<open>strip_factor\<close> is its loop. The callers pass 3, 5 and 7.\<close>

function strip_factor :: "nat \<Rightarrow> nat \<Rightarrow> nat" where
  "strip_factor n p = (if 0 < n \<and> 1 < p \<and> n mod p = 0 then strip_factor (n div p) p else n)"
  by pat_completeness auto
termination
  by (relation "measure fst") (auto intro: div_less_dividend)

declare strip_factor.simps [simp del]

definition isPowerOf :: "nat \<Rightarrow> nat \<Rightarrow> bool" where
  "isPowerOf n pow = (if n < 1 then False else strip_factor n pow = 1)"

definition has_backup :: "nat \<Rightarrow> bool" where
  "has_backup i \<longleftrightarrow> i = 0 \<or> i = 1 \<or> isPowerOf i 3 \<or> isPowerOf i 5 \<or> isPowerOf i 7"

definition ext2BgdtPushM :: "unit ext2_cmd" where
  "ext2BgdtPushM = (\<lambda>s.
     let buf = enc_groups (bgdts s); n = CEILING_DIVISION (blockSize s) SECTOR_SIZE in
     andthen (set_sectors buf (offsetBGDT s) n)
       (for_each (\<lambda>i. if \<not> has_backup i then ret ()
          else set_sectors buf
            (BLOCK_TO_LBA s 0 (trunc32 (i * unat (blocks_per_group (superblock s)) + 1))) n)
        [1..<blockGroups s]) s)"

definition ext2SuperblockPushM :: "unit ext2_cmd" where
  "ext2SuperblockPushM = (\<lambda>s.
     let buf = enc_superblock (superblock s) in
     andthen (set_sectors buf (offsetSuperblock s) 2)
       (for_each (\<lambda>i. if \<not> has_backup i then ret ()
          else set_sectors buf
            (BLOCK_TO_LBA s 0 (trunc32 (i * unat (blocks_per_group (superblock s))))) 2)
        [1..<blockGroups s]) s)"

lemma strip_factor_power: "1 < p \<Longrightarrow> strip_factor (p ^ k) p = 1"
proof (induction k)
  case 0
  then show ?case by (subst strip_factor.simps) simp
next
  case (Suc k)
  then have "strip_factor (p ^ Suc k) p = strip_factor (p ^ k) p"
    by (subst strip_factor.simps) simp
  with Suc show ?case by simp
qed

lemma strip_factor_form: "0 < n \<Longrightarrow> 1 < p \<Longrightarrow> \<exists>k. n = strip_factor n p * p ^ k"
proof (induction n p rule: strip_factor.induct)
  case (1 n p)
  show ?case
  proof (cases "n mod p = 0")
    case True
    with 1 have "0 < n div p"
      by (metis div_greater_zero_iff dvd_imp_le mod_0_imp_dvd less_trans zero_less_one)
    with 1 True obtain k where "n div p = strip_factor (n div p) p * p ^ k"
      by auto
    with True have "n = strip_factor (n div p) p * p ^ Suc k"
      by (metis div_mult_mod_eq add_0_right mult.assoc mult.commute power_Suc)
    moreover have "strip_factor n p = strip_factor (n div p) p"
      using 1 True by (subst strip_factor.simps) simp
    ultimately show ?thesis by metis
  next
    case False
    then have "strip_factor n p = n"
      by (subst strip_factor.simps) simp
    then have "n = strip_factor n p * p ^ 0" by simp
    then show ?thesis by blast
  qed
qed

lemma isPowerOf_iff: "1 < p \<Longrightarrow> isPowerOf n p \<longleftrightarrow> (\<exists>k. n = p ^ k)"
  using strip_factor_form [of n p] strip_factor_power [of p]
  by (auto simp: isPowerOf_def)

section \<open>Well-formed mounted file systems\<close>

text \<open>
  \<open>ext2_geom\<close>: what a successful mount of a consistent volume gives: sane sizes, one lock per
  group, and every block of the volume addressable with a 32-bit sector number.
  \<open>locks_free\<close>: no lock is held, the state between operations of a single task.
\<close>

definition locks_free :: "ext2_sys \<Rightarrow> bool" where
  "locks_free s \<longleftrightarrow> (\<forall>g < blockGroups s. WLOCKS_BLOCK_BITMAP s ! g = 0 \<and> WLOCKS_INODE s ! g = 0) \<and>
     \<not> LOCK_BGDT_WRITE s \<and> \<not> LOCK_SUPERBLOCK_WRITE s \<and> \<not> LOCK_DIRALLOC s \<and> \<not> LOCK_OBJECT s \<and>
     WLOCK_GLOBAL_NOFD s = 0"

definition spb :: "('x Ext2_scheme) \<Rightarrow> nat" where
  "spb s = blockSize s div SECTOR_SIZE"

definition bpg :: "('x Ext2_scheme) \<Rightarrow> nat" where
  "bpg s = unat (blocks_per_group (superblock s))"

definition ipg :: "('x Ext2_scheme) \<Rightarrow> nat" where
  "ipg s = unat (inodes_per_group (superblock s))"

definition nblocks :: "('x Ext2_scheme) \<Rightarrow> nat" where
  "nblocks s = unat (total_blocks (superblock s))"

definition block_pos :: "('x Ext2_scheme) \<Rightarrow> nat \<Rightarrow> nat" where
  "block_pos s b = offsetBase s * SECTOR_SIZE + b * blockSize s"

definition block_bytes :: "ext2_sys \<Rightarrow> nat \<Rightarrow> byte list" where
  "block_bytes s b = dev_seg (dev s) (block_pos s b) (blockSize s)"

definition block_size_ok :: "nat \<Rightarrow> bool" where
  "block_size_ok n \<longleftrightarrow> SECTOR_SIZE dvd n \<and> 1024 \<le> n \<and> n \<le> 32768"

definition group_geom :: "('x Ext2_scheme) \<Rightarrow> Ext2BlockGroup \<Rightarrow> bool" where
  "group_geom s g \<longleftrightarrow> group_ok g \<and> unat (block_bitmap g) < nblocks s \<and> unat (inode_bitmap g) < nblocks s \<and>
     BLOCK_TO_LBA s 0 (unat (inode_table g)) + ipg s * inodeSize s div SECTOR_SIZE
       + CEILING_DIVISION (inodeSize s * 4) SECTOR_SIZE \<le> 2 ^ 32"

definition ext2_geom :: "ext2_sys \<Rightarrow> bool" where
  "ext2_geom s \<longleftrightarrow> sata (dev s) \<and> block_size_ok (blockSize s) \<and>
     0 < bpg s \<and> bpg s \<le> 8 * blockSize s \<and> 0 < ipg s \<and> ipg s \<le> 8 * blockSize s \<and>
     length (bgdts s) = blockSize s div 32 \<and> (\<forall>g < length (bgdts s). group_ok (bgdts s ! g)) \<and>
     superblock_ok (superblock s) \<and>
     0 < blockGroups s \<and> blockGroups s \<le> length (bgdts s) \<and>
     length (WLOCKS_BLOCK_BITMAP s) = blockGroups s \<and> length (WLOCKS_INODE s) = blockGroups s \<and>
     offsetBase s + nblocks s * spb s \<le> 2 ^ 32 \<and>
     (blockGroups s - 1) * bpg s + 2 \<le> nblocks s \<and>
     offsetSuperblock s + 2 \<le> 2 ^ 32 \<and> offsetBGDT s + spb s \<le> 2 ^ 32 \<and>
     128 \<le> inodeSize s \<and>
     (\<forall>g < blockGroups s. group_geom s (bgdts s ! g))"

definition ext2_wf :: "ext2_sys \<Rightarrow> bool" where
  "ext2_wf s \<longleftrightarrow> ext2_geom s \<and> locks_free s"

lemma ext2_geom_simps:
  assumes "ext2_geom s"
  shows "sata (dev s)" "block_size_ok (blockSize s)" "0 < bpg s" "bpg s \<le> 8 * blockSize s"
    "0 < ipg s" "ipg s \<le> 8 * blockSize s" "length (bgdts s) = blockSize s div 32"
    "\<forall>g < length (bgdts s). group_ok (bgdts s ! g)" "superblock_ok (superblock s)"
    "0 < blockGroups s" "blockGroups s \<le> length (bgdts s)"
    "length (WLOCKS_BLOCK_BITMAP s) = blockGroups s" "length (WLOCKS_INODE s) = blockGroups s"
    "offsetBase s + nblocks s * spb s \<le> 2 ^ 32"
    "(blockGroups s - 1) * bpg s + 2 \<le> nblocks s"
    "offsetSuperblock s + 2 \<le> 2 ^ 32" "offsetBGDT s + spb s \<le> 2 ^ 32" "128 \<le> inodeSize s"
    "\<forall>g < blockGroups s. group_geom s (bgdts s ! g)"
  using assms unfolding ext2_geom_def by blast+

subsection \<open>Frames\<close>

text \<open>The geometry depends on no lock, no cache and no free counter.\<close>

lemma BLOCK_TO_LBA_frame [simp]:
  "BLOCK_TO_LBA (dev_update f1 s) = BLOCK_TO_LBA s"
  "BLOCK_TO_LBA (WLOCKS_BLOCK_BITMAP_update f2 s) = BLOCK_TO_LBA s"
  "BLOCK_TO_LBA (WLOCKS_INODE_update f3 s) = BLOCK_TO_LBA s"
  "BLOCK_TO_LBA (LOCK_BGDT_WRITE_update f4 s) = BLOCK_TO_LBA s"
  "BLOCK_TO_LBA (LOCK_SUPERBLOCK_WRITE_update f5 s) = BLOCK_TO_LBA s"
  "BLOCK_TO_LBA (LOCK_DIRALLOC_update f6 s) = BLOCK_TO_LBA s"
  "BLOCK_TO_LBA (LOCK_OBJECT_update f7 s) = BLOCK_TO_LBA s"
  "BLOCK_TO_LBA (WLOCK_GLOBAL_NOFD_update f8 s) = BLOCK_TO_LBA s"
  "BLOCK_TO_LBA (bgdts_update f9 s) = BLOCK_TO_LBA s"
  "BLOCK_TO_LBA (firstObject_update f10 s) = BLOCK_TO_LBA s"
  "BLOCK_TO_LBA (foundObjs_update f11 s) = BLOCK_TO_LBA s"
  "BLOCK_TO_LBA (cacheObjs_update f12 s) = BLOCK_TO_LBA s"
  "BLOCK_TO_LBA (next_ptr_update f13 s) = BLOCK_TO_LBA s"
  "BLOCK_TO_LBA (blocksCached_update f14 s) = BLOCK_TO_LBA s"
  "BLOCK_TO_LBA (superblock_update (s_free_blocks_update h1) s) = BLOCK_TO_LBA s"
  "BLOCK_TO_LBA (superblock_update (s_free_inodes_update h2) s) = BLOCK_TO_LBA s"
  by (simp_all add: BLOCK_TO_LBA_def fun_eq_iff)

lemma block_pos_frame [simp]:
  "block_pos (dev_update f1 s) = block_pos s"
  "block_pos (WLOCKS_BLOCK_BITMAP_update f2 s) = block_pos s"
  "block_pos (WLOCKS_INODE_update f3 s) = block_pos s"
  "block_pos (LOCK_BGDT_WRITE_update f4 s) = block_pos s"
  "block_pos (LOCK_SUPERBLOCK_WRITE_update f5 s) = block_pos s"
  "block_pos (LOCK_DIRALLOC_update f6 s) = block_pos s"
  "block_pos (LOCK_OBJECT_update f7 s) = block_pos s"
  "block_pos (WLOCK_GLOBAL_NOFD_update f8 s) = block_pos s"
  "block_pos (bgdts_update f9 s) = block_pos s"
  "block_pos (firstObject_update f10 s) = block_pos s"
  "block_pos (foundObjs_update f11 s) = block_pos s"
  "block_pos (cacheObjs_update f12 s) = block_pos s"
  "block_pos (next_ptr_update f13 s) = block_pos s"
  "block_pos (blocksCached_update f14 s) = block_pos s"
  "block_pos (superblock_update (s_free_blocks_update h1) s) = block_pos s"
  "block_pos (superblock_update (s_free_inodes_update h2) s) = block_pos s"
  by (simp_all add: block_pos_def fun_eq_iff)

lemma spb_frame [simp]:
  "spb (dev_update f1 s) = spb s"
  "spb (WLOCKS_BLOCK_BITMAP_update f2 s) = spb s"
  "spb (WLOCKS_INODE_update f3 s) = spb s"
  "spb (LOCK_BGDT_WRITE_update f4 s) = spb s"
  "spb (LOCK_SUPERBLOCK_WRITE_update f5 s) = spb s"
  "spb (LOCK_DIRALLOC_update f6 s) = spb s"
  "spb (LOCK_OBJECT_update f7 s) = spb s"
  "spb (WLOCK_GLOBAL_NOFD_update f8 s) = spb s"
  "spb (bgdts_update f9 s) = spb s"
  "spb (firstObject_update f10 s) = spb s"
  "spb (foundObjs_update f11 s) = spb s"
  "spb (cacheObjs_update f12 s) = spb s"
  "spb (next_ptr_update f13 s) = spb s"
  "spb (blocksCached_update f14 s) = spb s"
  "spb (superblock_update (s_free_blocks_update h1) s) = spb s"
  "spb (superblock_update (s_free_inodes_update h2) s) = spb s"
  by (simp_all add: spb_def fun_eq_iff)

lemma bpg_frame [simp]:
  "bpg (dev_update f1 s) = bpg s"
  "bpg (WLOCKS_BLOCK_BITMAP_update f2 s) = bpg s"
  "bpg (WLOCKS_INODE_update f3 s) = bpg s"
  "bpg (LOCK_BGDT_WRITE_update f4 s) = bpg s"
  "bpg (LOCK_SUPERBLOCK_WRITE_update f5 s) = bpg s"
  "bpg (LOCK_DIRALLOC_update f6 s) = bpg s"
  "bpg (LOCK_OBJECT_update f7 s) = bpg s"
  "bpg (WLOCK_GLOBAL_NOFD_update f8 s) = bpg s"
  "bpg (bgdts_update f9 s) = bpg s"
  "bpg (firstObject_update f10 s) = bpg s"
  "bpg (foundObjs_update f11 s) = bpg s"
  "bpg (cacheObjs_update f12 s) = bpg s"
  "bpg (next_ptr_update f13 s) = bpg s"
  "bpg (blocksCached_update f14 s) = bpg s"
  "bpg (superblock_update (s_free_blocks_update h1) s) = bpg s"
  "bpg (superblock_update (s_free_inodes_update h2) s) = bpg s"
  by (simp_all add: bpg_def fun_eq_iff)

lemma ipg_frame [simp]:
  "ipg (dev_update f1 s) = ipg s"
  "ipg (WLOCKS_BLOCK_BITMAP_update f2 s) = ipg s"
  "ipg (WLOCKS_INODE_update f3 s) = ipg s"
  "ipg (LOCK_BGDT_WRITE_update f4 s) = ipg s"
  "ipg (LOCK_SUPERBLOCK_WRITE_update f5 s) = ipg s"
  "ipg (LOCK_DIRALLOC_update f6 s) = ipg s"
  "ipg (LOCK_OBJECT_update f7 s) = ipg s"
  "ipg (WLOCK_GLOBAL_NOFD_update f8 s) = ipg s"
  "ipg (bgdts_update f9 s) = ipg s"
  "ipg (firstObject_update f10 s) = ipg s"
  "ipg (foundObjs_update f11 s) = ipg s"
  "ipg (cacheObjs_update f12 s) = ipg s"
  "ipg (next_ptr_update f13 s) = ipg s"
  "ipg (blocksCached_update f14 s) = ipg s"
  "ipg (superblock_update (s_free_blocks_update h1) s) = ipg s"
  "ipg (superblock_update (s_free_inodes_update h2) s) = ipg s"
  by (simp_all add: ipg_def fun_eq_iff)

lemma nblocks_frame [simp]:
  "nblocks (dev_update f1 s) = nblocks s"
  "nblocks (WLOCKS_BLOCK_BITMAP_update f2 s) = nblocks s"
  "nblocks (WLOCKS_INODE_update f3 s) = nblocks s"
  "nblocks (LOCK_BGDT_WRITE_update f4 s) = nblocks s"
  "nblocks (LOCK_SUPERBLOCK_WRITE_update f5 s) = nblocks s"
  "nblocks (LOCK_DIRALLOC_update f6 s) = nblocks s"
  "nblocks (LOCK_OBJECT_update f7 s) = nblocks s"
  "nblocks (WLOCK_GLOBAL_NOFD_update f8 s) = nblocks s"
  "nblocks (bgdts_update f9 s) = nblocks s"
  "nblocks (firstObject_update f10 s) = nblocks s"
  "nblocks (foundObjs_update f11 s) = nblocks s"
  "nblocks (cacheObjs_update f12 s) = nblocks s"
  "nblocks (next_ptr_update f13 s) = nblocks s"
  "nblocks (blocksCached_update f14 s) = nblocks s"
  "nblocks (superblock_update (s_free_blocks_update h1) s) = nblocks s"
  "nblocks (superblock_update (s_free_inodes_update h2) s) = nblocks s"
  by (simp_all add: nblocks_def fun_eq_iff)

lemma INODE_TO_BLOCK_GROUP_frame [simp]:
  "INODE_TO_BLOCK_GROUP w (dev_update f1 s) = INODE_TO_BLOCK_GROUP w s"
  "INODE_TO_BLOCK_GROUP w (WLOCKS_BLOCK_BITMAP_update f2 s) = INODE_TO_BLOCK_GROUP w s"
  "INODE_TO_BLOCK_GROUP w (WLOCKS_INODE_update f3 s) = INODE_TO_BLOCK_GROUP w s"
  "INODE_TO_BLOCK_GROUP w (LOCK_BGDT_WRITE_update f4 s) = INODE_TO_BLOCK_GROUP w s"
  "INODE_TO_BLOCK_GROUP w (LOCK_SUPERBLOCK_WRITE_update f5 s) = INODE_TO_BLOCK_GROUP w s"
  "INODE_TO_BLOCK_GROUP w (LOCK_DIRALLOC_update f6 s) = INODE_TO_BLOCK_GROUP w s"
  "INODE_TO_BLOCK_GROUP w (LOCK_OBJECT_update f7 s) = INODE_TO_BLOCK_GROUP w s"
  "INODE_TO_BLOCK_GROUP w (WLOCK_GLOBAL_NOFD_update f8 s) = INODE_TO_BLOCK_GROUP w s"
  "INODE_TO_BLOCK_GROUP w (bgdts_update f9 s) = INODE_TO_BLOCK_GROUP w s"
  "INODE_TO_BLOCK_GROUP w (firstObject_update f10 s) = INODE_TO_BLOCK_GROUP w s"
  "INODE_TO_BLOCK_GROUP w (foundObjs_update f11 s) = INODE_TO_BLOCK_GROUP w s"
  "INODE_TO_BLOCK_GROUP w (cacheObjs_update f12 s) = INODE_TO_BLOCK_GROUP w s"
  "INODE_TO_BLOCK_GROUP w (next_ptr_update f13 s) = INODE_TO_BLOCK_GROUP w s"
  "INODE_TO_BLOCK_GROUP w (blocksCached_update f14 s) = INODE_TO_BLOCK_GROUP w s"
  "INODE_TO_BLOCK_GROUP w (superblock_update (s_free_blocks_update h1) s) = INODE_TO_BLOCK_GROUP w s"
  "INODE_TO_BLOCK_GROUP w (superblock_update (s_free_inodes_update h2) s) = INODE_TO_BLOCK_GROUP w s"
  by (simp_all add: INODE_TO_BLOCK_GROUP_def fun_eq_iff)

lemma INODE_TO_INDEX_frame [simp]:
  "INODE_TO_INDEX w (dev_update f1 s) = INODE_TO_INDEX w s"
  "INODE_TO_INDEX w (WLOCKS_BLOCK_BITMAP_update f2 s) = INODE_TO_INDEX w s"
  "INODE_TO_INDEX w (WLOCKS_INODE_update f3 s) = INODE_TO_INDEX w s"
  "INODE_TO_INDEX w (LOCK_BGDT_WRITE_update f4 s) = INODE_TO_INDEX w s"
  "INODE_TO_INDEX w (LOCK_SUPERBLOCK_WRITE_update f5 s) = INODE_TO_INDEX w s"
  "INODE_TO_INDEX w (LOCK_DIRALLOC_update f6 s) = INODE_TO_INDEX w s"
  "INODE_TO_INDEX w (LOCK_OBJECT_update f7 s) = INODE_TO_INDEX w s"
  "INODE_TO_INDEX w (WLOCK_GLOBAL_NOFD_update f8 s) = INODE_TO_INDEX w s"
  "INODE_TO_INDEX w (bgdts_update f9 s) = INODE_TO_INDEX w s"
  "INODE_TO_INDEX w (firstObject_update f10 s) = INODE_TO_INDEX w s"
  "INODE_TO_INDEX w (foundObjs_update f11 s) = INODE_TO_INDEX w s"
  "INODE_TO_INDEX w (cacheObjs_update f12 s) = INODE_TO_INDEX w s"
  "INODE_TO_INDEX w (next_ptr_update f13 s) = INODE_TO_INDEX w s"
  "INODE_TO_INDEX w (blocksCached_update f14 s) = INODE_TO_INDEX w s"
  "INODE_TO_INDEX w (superblock_update (s_free_blocks_update h1) s) = INODE_TO_INDEX w s"
  "INODE_TO_INDEX w (superblock_update (s_free_inodes_update h2) s) = INODE_TO_INDEX w s"
  by (simp_all add: INODE_TO_INDEX_def fun_eq_iff)

lemma superblock_ok_counters [simp]:
  "superblock_ok (s_free_blocks_update h sb) = superblock_ok sb"
  "superblock_ok (s_free_inodes_update h sb) = superblock_ok sb"
  by (simp_all add: superblock_ok_def)

lemma group_ok_counters [simp]:
  "group_ok (bg_free_blocks_update h g) = group_ok g"
  "group_ok (bg_free_inodes_update h g) = group_ok g"
  by (simp_all add: group_ok_def)

lemma group_geom_frame [simp]:
  "group_geom (dev_update f1 s) = group_geom s"
  "group_geom (WLOCKS_BLOCK_BITMAP_update f2 s) = group_geom s"
  "group_geom (WLOCKS_INODE_update f3 s) = group_geom s"
  "group_geom (LOCK_BGDT_WRITE_update f4 s) = group_geom s"
  "group_geom (LOCK_SUPERBLOCK_WRITE_update f5 s) = group_geom s"
  "group_geom (LOCK_DIRALLOC_update f6 s) = group_geom s"
  "group_geom (LOCK_OBJECT_update f7 s) = group_geom s"
  "group_geom (WLOCK_GLOBAL_NOFD_update f8 s) = group_geom s"
  "group_geom (bgdts_update f9 s) = group_geom s"
  "group_geom (firstObject_update f10 s) = group_geom s"
  "group_geom (foundObjs_update f11 s) = group_geom s"
  "group_geom (cacheObjs_update f12 s) = group_geom s"
  "group_geom (next_ptr_update f13 s) = group_geom s"
  "group_geom (blocksCached_update f14 s) = group_geom s"
  "group_geom (superblock_update (s_free_blocks_update h1) s) = group_geom s"
  "group_geom (superblock_update (s_free_inodes_update h2) s) = group_geom s"
  by (simp_all add: group_geom_def fun_eq_iff)

lemma group_geom_counters [simp]:
  "group_geom s (bg_free_blocks_update h g) = group_geom s g"
  "group_geom s (bg_free_inodes_update h g) = group_geom s g"
  by (simp_all add: group_geom_def)

lemma ext2_geom_frame [simp]:
  "ext2_geom (LOCK_BGDT_WRITE_update f1 s) = ext2_geom s"
  "ext2_geom (LOCK_SUPERBLOCK_WRITE_update f2 s) = ext2_geom s"
  "ext2_geom (LOCK_DIRALLOC_update f3 s) = ext2_geom s"
  "ext2_geom (LOCK_OBJECT_update f4 s) = ext2_geom s"
  "ext2_geom (WLOCK_GLOBAL_NOFD_update f5 s) = ext2_geom s"
  "ext2_geom (firstObject_update f6 s) = ext2_geom s"
  "ext2_geom (foundObjs_update f7 s) = ext2_geom s"
  "ext2_geom (cacheObjs_update f8 s) = ext2_geom s"
  "ext2_geom (next_ptr_update f9 s) = ext2_geom s"
  "ext2_geom (blocksCached_update f10 s) = ext2_geom s"
  "ext2_geom (superblock_update (s_free_blocks_update h1) s) = ext2_geom s"
  "ext2_geom (superblock_update (s_free_inodes_update h2) s) = ext2_geom s"
  by (simp_all add: ext2_geom_def)

lemma ext2_geom_dev [simp]: "sata d = sata (dev s) \<Longrightarrow> ext2_geom (s\<lparr>dev := d\<rparr>) = ext2_geom s"
  by (simp add: ext2_geom_def)

lemma ext2_geom_locks [simp]:
  "length L = length (WLOCKS_BLOCK_BITMAP s) \<Longrightarrow> ext2_geom (s\<lparr>WLOCKS_BLOCK_BITMAP := L\<rparr>) = ext2_geom s"
  "length L = length (WLOCKS_INODE s) \<Longrightarrow> ext2_geom (s\<lparr>WLOCKS_INODE := L\<rparr>) = ext2_geom s"
  by (simp_all add: ext2_geom_def)

lemma ext2_geom_bgdts:
  "ext2_geom s \<Longrightarrow> i < length (bgdts s) \<Longrightarrow>
     ext2_geom (bgdts_update (\<lambda>b. b[i := bg_free_blocks_update h (b ! i)]) s)"
  "ext2_geom s \<Longrightarrow> i < length (bgdts s) \<Longrightarrow>
     ext2_geom (bgdts_update (\<lambda>b. b[i := bg_free_inodes_update h (b ! i)]) s)"
  by (auto simp: ext2_geom_def nth_list_update)

subsection \<open>Block sizes and sector addresses\<close>

lemma block_size_ok_facts:
  assumes "block_size_ok n"
  shows "n div SECTOR_SIZE * SECTOR_SIZE = n" "0 < n div SECTOR_SIZE" "1024 \<le> n" "n \<le> 32768"
    "32 * (n div 32) = n" "4 * (n div 4) = n" "CEILING_DIVISION n SECTOR_SIZE = n div SECTOR_SIZE"
proof -
  obtain k where n: "n = k * SECTOR_SIZE"
    using assms by (auto simp: block_size_ok_def dvd_def mult.commute)
  with assms have "0 < k"
    by (cases k) (simp_all add: block_size_ok_def)
  with n assms show "n div SECTOR_SIZE * SECTOR_SIZE = n" "0 < n div SECTOR_SIZE" "1024 \<le> n" "n \<le> 32768"
    "32 * (n div 32) = n" "4 * (n div 4) = n" "CEILING_DIVISION n SECTOR_SIZE = n div SECTOR_SIZE"
    by (auto simp: block_size_ok_def SECTOR_SIZE_def)
qed

lemma BLOCK_TO_LBA_spb:
  assumes "block_size_ok (blockSize s)"
  shows "BLOCK_TO_LBA s 0 b = offsetBase s + b * spb s"
proof -
  obtain k where "blockSize s = k * SECTOR_SIZE"
    using assms by (auto simp: block_size_ok_def dvd_def mult.commute)
  then show ?thesis
    by (simp add: BLOCK_TO_LBA_def spb_def SECTOR_SIZE_def mult.assoc [symmetric])
qed

lemma BLOCK_TO_LBA_pos:
  assumes "block_size_ok (blockSize s)"
  shows "BLOCK_TO_LBA s 0 b * SECTOR_SIZE = block_pos s b"
  using block_size_ok_facts(1) [OF assms]
  by (simp add: BLOCK_TO_LBA_spb [OF assms] block_pos_def spb_def algebra_simps)

section \<open>Closed forms of the disk accesses\<close>

lemma get_sectors_run:
  assumes "sata (dev s)" "lba + n \<le> 2 ^ 32" "0 < n"
  shows "get_sectors lba n s = Inr (dev_seg (dev s) (lba * SECTOR_SIZE) (n * SECTOR_SIZE), s)"
  using assms by (simp add: get_sectors_def get_disk_bytes_flat dev_read_seg)

lemma set_sectors_run:
  assumes "sata (dev s)" "lba + n \<le> 2 ^ 32" "0 < n" "length buf = n * SECTOR_SIZE"
  shows "set_sectors buf lba n s = Inr ((), s\<lparr>dev := dev_patch (dev s) (lba * SECTOR_SIZE) buf\<rparr>)"
  using assms by (simp add: set_sectors_def set_disk_bytes_flat dev_write_patch)

lemma block_lba_bound:
  assumes "ext2_geom s" "b < nblocks s"
  shows "BLOCK_TO_LBA s 0 b + blockSize s div SECTOR_SIZE \<le> 2 ^ 32"
proof -
  have "Suc b * spb s \<le> nblocks s * spb s"
    using assms(2) by (intro mult_le_mono1) simp
  with ext2_geom_simps(2,14) [OF assms(1)] show ?thesis
    by (simp add: BLOCK_TO_LBA_spb flip: spb_def)
qed

lemma get_block_run:
  assumes "ext2_geom s" "b < nblocks s"
  shows "get_sectors (BLOCK_TO_LBA s 0 b) (blockSize s div SECTOR_SIZE) s = Inr (block_bytes s b, s)"
  using assms ext2_geom_simps(1,2) [OF assms(1)] block_lba_bound [OF assms]
  by (simp add: get_sectors_run block_size_ok_facts BLOCK_TO_LBA_pos block_bytes_def)

lemma set_block_run:
  assumes "ext2_geom s" "b < nblocks s" "length buf = blockSize s"
  shows "set_sectors buf (BLOCK_TO_LBA s 0 b) (blockSize s div SECTOR_SIZE) s =
    Inr ((), s\<lparr>dev := dev_patch (dev s) (block_pos s b) buf\<rparr>)"
  using assms ext2_geom_simps(1,2) [OF assms(1)] block_lba_bound [OF assms(1,2)]
  by (simp add: set_sectors_run block_size_ok_facts BLOCK_TO_LBA_pos)

text \<open>\<open>m\<close> consecutive blocks are read and written as one piece.\<close>

lemma run_lba_bound:
  assumes "ext2_geom s" "b + m \<le> nblocks s" "0 < m"
  shows "BLOCK_TO_LBA s 0 b + m * blockSize s div SECTOR_SIZE \<le> 2 ^ 32"
    "m * blockSize s div SECTOR_SIZE * SECTOR_SIZE = m * blockSize s" "0 < m * blockSize s div SECTOR_SIZE"
proof -
  note f = ext2_geom_simps(2,14) [OF assms(1)]
  obtain k where k: "blockSize s = k * SECTOR_SIZE"
    using f(1) by (auto simp: block_size_ok_def dvd_def mult.commute)
  then have "spb s = k" "m * blockSize s div SECTOR_SIZE = m * k" "0 < k"
    using block_size_ok_facts(2) [OF f(1)] by (simp_all add: spb_def SECTOR_SIZE_def mult.assoc [symmetric])
  moreover have "(b + m) * spb s \<le> nblocks s * spb s"
    using assms(2) by (rule mult_le_mono1)
  ultimately show "BLOCK_TO_LBA s 0 b + m * blockSize s div SECTOR_SIZE \<le> 2 ^ 32"
    "m * blockSize s div SECTOR_SIZE * SECTOR_SIZE = m * blockSize s" "0 < m * blockSize s div SECTOR_SIZE"
    using f k assms(3) by (simp_all add: BLOCK_TO_LBA_spb algebra_simps)
qed

lemma get_run:
  assumes "ext2_geom s" "b + m \<le> nblocks s" "0 < m"
  shows "get_sectors (BLOCK_TO_LBA s 0 b) (m * blockSize s div SECTOR_SIZE) s =
    Inr (dev_seg (dev s) (block_pos s b) (m * blockSize s), s)"
  using run_lba_bound [OF assms] ext2_geom_simps(1,2) [OF assms(1)]
  by (simp add: get_sectors_run BLOCK_TO_LBA_pos)

lemma set_run:
  assumes "ext2_geom s" "b + m \<le> nblocks s" "0 < m" "length buf = m * blockSize s"
  shows "set_sectors buf (BLOCK_TO_LBA s 0 b) (m * blockSize s div SECTOR_SIZE) s =
    Inr ((), s\<lparr>dev := dev_patch (dev s) (block_pos s b) buf\<rparr>)"
  using run_lba_bound [OF assms(1-3)] ext2_geom_simps(1,2) [OF assms(1)] assms(4)
  by (simp add: set_sectors_run BLOCK_TO_LBA_pos)

section \<open>Pushing the metadata\<close>

text \<open>The byte positions of the primary copy and the backups, in the order they are written.\<close>

definition bgdt_spots :: "('x Ext2_scheme) \<Rightarrow> nat list" where
  "bgdt_spots s = offsetBGDT s * SECTOR_SIZE #
     map (\<lambda>i. block_pos s (i * bpg s + 1)) (filter has_backup [1..<blockGroups s])"

definition superblock_spots :: "('x Ext2_scheme) \<Rightarrow> nat list" where
  "superblock_spots s = offsetSuperblock s * SECTOR_SIZE #
     map (\<lambda>i. block_pos s (i * bpg s)) (filter has_backup [1..<blockGroups s])"

definition patch_all :: "blkdev \<Rightarrow> nat list \<Rightarrow> byte list \<Rightarrow> blkdev" where
  "patch_all d spots buf = foldl (\<lambda>d a. dev_patch d a buf) d spots"

lemma sata_patch_all [simp]: "sata (patch_all d spots buf) = sata d"
  by (induction spots arbitrary: d) (simp_all add: patch_all_def)

lemma patch_all_Cons: "patch_all d (a # as) buf = patch_all (dev_patch d a buf) as buf"
  by (simp add: patch_all_def)

lemma backup_loop:
  assumes "\<And>i d. i \<in> set is \<Longrightarrow> sata d \<Longrightarrow>
      body i (s\<lparr>dev := d\<rparr>) = Inr ((), s\<lparr>dev := dev_patch d (pos i) buf\<rparr>)" "sata d"
  shows "for_each (\<lambda>i. if \<not> has_backup i then ret () else body i) is (s\<lparr>dev := d\<rparr>) =
    Inr ((), s\<lparr>dev := patch_all d (map pos (filter has_backup is)) buf\<rparr>)"
  using assms
proof (induction "is" arbitrary: d)
  case Nil
  then show ?case by (simp add: cmd_simps patch_all_def)
next
  case (Cons i js)
  then show ?case by (cases "has_backup i") (simp_all add: cmd_simps patch_all_Cons)
qed

lemma group_start_bound:
  assumes "ext2_geom s" "i < blockGroups s"
  shows "i * bpg s + 1 < nblocks s" "nblocks s < 2 ^ 32"
proof -
  have "i * bpg s \<le> (blockGroups s - 1) * bpg s"
    using assms(2) by (intro mult_le_mono1) simp
  with ext2_geom_simps(15) [OF assms(1)] show "i * bpg s + 1 < nblocks s"
    by linarith
  show "nblocks s < 2 ^ 32"
    using unat_less_u32 [of "total_blocks (superblock s)"] by (simp add: nblocks_def)
qed

lemma ext2BgdtPushM_run:
  assumes "ext2_geom s"
  shows "ext2BgdtPushM s = Inr ((), s\<lparr>dev := patch_all (dev s) (bgdt_spots s) (enc_groups (bgdts s))\<rparr>)"
proof -
  let ?buf = "enc_groups (bgdts s)" and ?n = "blockSize s div SECTOR_SIZE"
  note g = ext2_geom_simps [OF assms]
  have len: "length ?buf = blockSize s"
    using g(2,7,8) by (simp add: block_size_ok_facts all_set_conv_all_nth)
  have first: "set_sectors ?buf (offsetBGDT s) ?n s =
      Inr ((), s\<lparr>dev := dev_patch (dev s) (offsetBGDT s * SECTOR_SIZE) ?buf\<rparr>)"
    using g(1,2,17) len by (simp add: set_sectors_run block_size_ok_facts spb_def)
  have "set_sectors ?buf (BLOCK_TO_LBA s 0 (trunc32 (i * bpg s + 1))) ?n (s\<lparr>dev := d\<rparr>) =
      Inr ((), s\<lparr>dev := dev_patch d (block_pos s (i * bpg s + 1)) ?buf\<rparr>)"
    if "i \<in> set [1..<blockGroups s]" "sata d" for i d
    using that assms len g(1) group_start_bound [OF assms, of i]
      set_block_run [of "s\<lparr>dev := d\<rparr>" "i * bpg s + 1" ?buf]
    by simp
  from backup_loop [where body = "\<lambda>i. set_sectors ?buf (BLOCK_TO_LBA s 0 (trunc32 (i * bpg s + 1))) ?n"
      and pos = "\<lambda>i. block_pos s (i * bpg s + 1)", OF this] g(1) first g(2)
  show ?thesis
    by (simp only: ext2BgdtPushM_def Let_def block_size_ok_facts bgdt_spots_def patch_all_Cons andthen_run
        sum.case prod.case sata_dev_patch flip: bpg_def)
qed

lemma ext2SuperblockPushM_run:
  assumes "ext2_geom s"
  shows "ext2SuperblockPushM s =
    Inr ((), s\<lparr>dev := patch_all (dev s) (superblock_spots s) (enc_superblock (superblock s))\<rparr>)"
proof -
  let ?buf = "enc_superblock (superblock s)"
  note g = ext2_geom_simps [OF assms]
  have len: "length ?buf = 2 * SECTOR_SIZE"
    using g(9) by (simp add: SECTOR_SIZE_def)
  have first: "set_sectors ?buf (offsetSuperblock s) 2 s =
      Inr ((), s\<lparr>dev := dev_patch (dev s) (offsetSuperblock s * SECTOR_SIZE) ?buf\<rparr>)"
    using g(1,16) len by (simp add: set_sectors_run)
  have "set_sectors ?buf (BLOCK_TO_LBA s 0 (trunc32 (i * bpg s))) 2 (s\<lparr>dev := d\<rparr>) =
      Inr ((), s\<lparr>dev := dev_patch d (block_pos s (i * bpg s)) ?buf\<rparr>)"
    if "i \<in> set [1..<blockGroups s]" "sata d" for i d
  proof -
    have "2 \<le> blockSize s div SECTOR_SIZE"
      using block_size_ok_facts(1,3) [OF g(2)] by (simp add: SECTOR_SIZE_def)
    then show ?thesis
      using that assms len g(1,2) group_start_bound [OF assms, of i] block_lba_bound [OF assms, of "i * bpg s"]
      by (subst set_sectors_run) (simp_all add: BLOCK_TO_LBA_pos)
  qed
  from backup_loop [where body = "\<lambda>i. set_sectors ?buf (BLOCK_TO_LBA s 0 (trunc32 (i * bpg s))) 2"
      and pos = "\<lambda>i. block_pos s (i * bpg s)", OF this] g(1) first
  show ?thesis
    by (simp only: ext2SuperblockPushM_def Let_def superblock_spots_def patch_all_Cons andthen_run
        sum.case prod.case sata_dev_patch flip: bpg_def)
qed

lemma bgdt_spots_frame [simp]:
  "bgdt_spots (dev_update f1 s) = bgdt_spots s"
  "bgdt_spots (WLOCKS_BLOCK_BITMAP_update f2 s) = bgdt_spots s"
  "bgdt_spots (WLOCKS_INODE_update f3 s) = bgdt_spots s"
  "bgdt_spots (LOCK_BGDT_WRITE_update f4 s) = bgdt_spots s"
  "bgdt_spots (LOCK_SUPERBLOCK_WRITE_update f5 s) = bgdt_spots s"
  "bgdt_spots (LOCK_DIRALLOC_update f6 s) = bgdt_spots s"
  "bgdt_spots (LOCK_OBJECT_update f7 s) = bgdt_spots s"
  "bgdt_spots (WLOCK_GLOBAL_NOFD_update f8 s) = bgdt_spots s"
  "bgdt_spots (bgdts_update f9 s) = bgdt_spots s"
  "bgdt_spots (firstObject_update f10 s) = bgdt_spots s"
  "bgdt_spots (foundObjs_update f11 s) = bgdt_spots s"
  "bgdt_spots (cacheObjs_update f12 s) = bgdt_spots s"
  "bgdt_spots (next_ptr_update f13 s) = bgdt_spots s"
  "bgdt_spots (blocksCached_update f14 s) = bgdt_spots s"
  "bgdt_spots (superblock_update (s_free_blocks_update h1) s) = bgdt_spots s"
  "bgdt_spots (superblock_update (s_free_inodes_update h2) s) = bgdt_spots s"
  by (simp_all add: bgdt_spots_def)

lemma superblock_spots_frame [simp]:
  "superblock_spots (dev_update f1 s) = superblock_spots s"
  "superblock_spots (WLOCKS_BLOCK_BITMAP_update f2 s) = superblock_spots s"
  "superblock_spots (WLOCKS_INODE_update f3 s) = superblock_spots s"
  "superblock_spots (LOCK_BGDT_WRITE_update f4 s) = superblock_spots s"
  "superblock_spots (LOCK_SUPERBLOCK_WRITE_update f5 s) = superblock_spots s"
  "superblock_spots (LOCK_DIRALLOC_update f6 s) = superblock_spots s"
  "superblock_spots (LOCK_OBJECT_update f7 s) = superblock_spots s"
  "superblock_spots (WLOCK_GLOBAL_NOFD_update f8 s) = superblock_spots s"
  "superblock_spots (bgdts_update f9 s) = superblock_spots s"
  "superblock_spots (firstObject_update f10 s) = superblock_spots s"
  "superblock_spots (foundObjs_update f11 s) = superblock_spots s"
  "superblock_spots (cacheObjs_update f12 s) = superblock_spots s"
  "superblock_spots (next_ptr_update f13 s) = superblock_spots s"
  "superblock_spots (blocksCached_update f14 s) = superblock_spots s"
  "superblock_spots (superblock_update (s_free_blocks_update h1) s) = superblock_spots s"
  "superblock_spots (superblock_update (s_free_inodes_update h2) s) = superblock_spots s"
  by (simp_all add: superblock_spots_def)

text \<open>A byte range no copy of the metadata touches keeps its contents when they are pushed.\<close>

definition clear_of :: "nat list \<Rightarrow> nat \<Rightarrow> nat \<Rightarrow> nat \<Rightarrow> bool" where
  "clear_of spots m a n \<longleftrightarrow> (\<forall>p \<in> set spots. a + n \<le> p \<or> p + m \<le> a)"

lemma dev_seg_patch_all:
  "clear_of spots (length buf) a n \<Longrightarrow> dev_seg (patch_all d spots buf) a n = dev_seg d a n"
  by (induction spots arbitrary: d) (auto simp: patch_all_def clear_of_def dev_seg_patch_other)

definition meta_free :: "('x Ext2_scheme) \<Rightarrow> nat \<Rightarrow> nat \<Rightarrow> bool" where
  "meta_free s a n \<longleftrightarrow> clear_of (bgdt_spots s) (blockSize s) a n \<and> clear_of (superblock_spots s) 1024 a n"

lemma meta_free_frame [simp]:
  "meta_free (dev_update f1 s) = meta_free s"
  "meta_free (WLOCKS_BLOCK_BITMAP_update f2 s) = meta_free s"
  "meta_free (WLOCKS_INODE_update f3 s) = meta_free s"
  "meta_free (LOCK_BGDT_WRITE_update f4 s) = meta_free s"
  "meta_free (LOCK_SUPERBLOCK_WRITE_update f5 s) = meta_free s"
  "meta_free (LOCK_DIRALLOC_update f6 s) = meta_free s"
  "meta_free (LOCK_OBJECT_update f7 s) = meta_free s"
  "meta_free (WLOCK_GLOBAL_NOFD_update f8 s) = meta_free s"
  "meta_free (bgdts_update f9 s) = meta_free s"
  "meta_free (firstObject_update f10 s) = meta_free s"
  "meta_free (foundObjs_update f11 s) = meta_free s"
  "meta_free (cacheObjs_update f12 s) = meta_free s"
  "meta_free (next_ptr_update f13 s) = meta_free s"
  "meta_free (blocksCached_update f14 s) = meta_free s"
  "meta_free (superblock_update (s_free_blocks_update h1) s) = meta_free s"
  "meta_free (superblock_update (s_free_inodes_update h2) s) = meta_free s"
  by (simp_all add: meta_free_def fun_eq_iff)

section \<open>Updating the free counters\<close>

text \<open>
  The sequence \<^verbatim>\<open>ext2BlockFindL\<close>, \<^verbatim>\<open>ext2BlockDelete\<close>, \<^verbatim>\<open>ext2InodeFindL\<close> and \<^verbatim>\<open>ext2InodeDelete\<close> share:
  take the descriptor lock, change the group descriptor, push, release; the same for the
  superblock.
\<close>

definition update_bgdt :: "nat \<Rightarrow> (Ext2BlockGroup \<Rightarrow> Ext2BlockGroup) \<Rightarrow> unit ext2_cmd" where
  "update_bgdt grp f =
     andthen (spin_bgdt spinlock_acquire)
     (andthen (modify (bgdts_update (\<lambda>b. b[grp := f (b ! grp)])))
     (andthen ext2BgdtPushM
     (spin_bgdt release)))"

definition update_superblock :: "(Ext2Superblock \<Rightarrow> Ext2Superblock) \<Rightarrow> unit ext2_cmd" where
  "update_superblock f =
     andthen (spin_superblock spinlock_acquire)
     (andthen (modify (superblock_update f))
     (andthen ext2SuperblockPushM
     (spin_superblock release)))"

lemma spin_acquire_run:
  "\<not> LOCK_BGDT_WRITE s \<Longrightarrow> spin_bgdt spinlock_acquire s = Inr ((), s)"
  "\<not> LOCK_SUPERBLOCK_WRITE s \<Longrightarrow> spin_superblock spinlock_acquire s = Inr ((), s)"
  "\<not> LOCK_DIRALLOC s \<Longrightarrow> spin_diralloc spinlock_acquire s = Inr ((), s)"
  "\<not> LOCK_OBJECT s \<Longrightarrow> spin_object spinlock_acquire s = Inr ((), s)"
  by (simp_all add: spin_bgdt_def spin_superblock_def spin_diralloc_def spin_object_def lock1_def
      spinlock_acquire_def)

lemma spin_release_run:
  "\<not> LOCK_BGDT_WRITE s \<Longrightarrow> spin_bgdt release s = Inr ((), s)"
  "\<not> LOCK_SUPERBLOCK_WRITE s \<Longrightarrow> spin_superblock release s = Inr ((), s)"
  "\<not> LOCK_DIRALLOC s \<Longrightarrow> spin_diralloc release s = Inr ((), s)"
  "\<not> LOCK_OBJECT s \<Longrightarrow> spin_object release s = Inr ((), s)"
  by (simp_all add: spin_bgdt_def spin_superblock_def spin_diralloc_def spin_object_def lock1_def
      spinlock_release_def)

lemma length_enc_bgdts:
  "ext2_geom s \<Longrightarrow> length (enc_groups (bgdts s)) = blockSize s"
  using ext2_geom_simps(2,7,8) [of s] by (simp add: block_size_ok_facts all_set_conv_all_nth)

lemma update_bgdt_run:
  assumes "ext2_geom (bgdts_update (\<lambda>b. b[grp := f (b ! grp)]) s)" "\<not> LOCK_BGDT_WRITE s"
  shows "update_bgdt grp f s =
    Inr ((), bgdts_update (\<lambda>b. b[grp := f (b ! grp)]) s
      \<lparr>dev := patch_all (dev s) (bgdt_spots s) (enc_groups ((bgdts s)[grp := f (bgdts s ! grp)]))\<rparr>)"
  using assms by (simp add: update_bgdt_def cmd_simps spin_acquire_run ext2BgdtPushM_run spin_release_run)

lemma update_superblock_run:
  assumes "ext2_geom (superblock_update f s)" "\<not> LOCK_SUPERBLOCK_WRITE s"
    "superblock_spots (superblock_update f s) = superblock_spots s"
  shows "update_superblock f s =
    Inr ((), superblock_update f s
      \<lparr>dev := patch_all (dev s) (superblock_spots s) (enc_superblock (f (superblock s)))\<rparr>)"
  using assms
  by (simp add: update_superblock_def cmd_simps spin_acquire_run ext2SuperblockPushM_run spin_release_run)

section \<open>Committing a bitmap block with its counters\<close>

text \<open>
  All four allocation routines end alike: they write a bitmap block back and change one
  counter of the group and one of the superblock. \<open>committed\<close> is the state they leave.
\<close>

definition group_counter :: "(Ext2BlockGroup \<Rightarrow> Ext2BlockGroup) \<Rightarrow> bool" where
  "group_counter fg \<longleftrightarrow> (\<exists>h. fg = bg_free_blocks_update h \<or> fg = bg_free_inodes_update h)"

definition superblock_counter :: "(Ext2Superblock \<Rightarrow> Ext2Superblock) \<Rightarrow> bool" where
  "superblock_counter fs \<longleftrightarrow> (\<exists>h. fs = s_free_blocks_update h \<or> fs = s_free_inodes_update h)"

definition committed ::
  "ext2_sys \<Rightarrow> nat \<Rightarrow> byte list \<Rightarrow> nat \<Rightarrow> (Ext2BlockGroup \<Rightarrow> Ext2BlockGroup) \<Rightarrow>
   (Ext2Superblock \<Rightarrow> Ext2Superblock) \<Rightarrow> ext2_sys" where
  "committed s blk buf grp fg fs =
     superblock_update fs (bgdts_update (\<lambda>b. b[grp := fg (b ! grp)]) s)
       \<lparr>dev := patch_all (patch_all (dev_patch (dev s) (block_pos s blk) buf)
           (bgdt_spots s) (enc_groups ((bgdts s)[grp := fg (bgdts s ! grp)])))
           (superblock_spots s) (enc_superblock (fs (superblock s)))\<rparr>"

lemma counters [intro, simp]:
  "group_counter (bg_free_blocks_update h)" "group_counter (bg_free_inodes_update h)"
  "superblock_counter (s_free_blocks_update k)" "superblock_counter (s_free_inodes_update k)"
  by (auto simp: group_counter_def superblock_counter_def)

lemma committed_fields [simp]:
  "offsetBase (committed s blk buf grp fg fs) = offsetBase s"
  "blockSize (committed s blk buf grp fg fs) = blockSize s"
  "inodeSize (committed s blk buf grp fg fs) = inodeSize s"
  "blockGroups (committed s blk buf grp fg fs) = blockGroups s"
  "WLOCKS_BLOCK_BITMAP (committed s blk buf grp fg fs) = WLOCKS_BLOCK_BITMAP s"
  "WLOCKS_INODE (committed s blk buf grp fg fs) = WLOCKS_INODE s"
  "bgdts (committed s blk buf grp fg fs) = (bgdts s)[grp := fg (bgdts s ! grp)]"
  "superblock (committed s blk buf grp fg fs) = fs (superblock s)"
  by (simp_all add: committed_def)

lemma committed_geometry:
  assumes "superblock_counter fs"
  shows "bpg (committed s blk buf grp fg fs) = bpg s" "ipg (committed s blk buf grp fg fs) = ipg s"
    "nblocks (committed s blk buf grp fg fs) = nblocks s"
    "block_pos (committed s blk buf grp fg fs) = block_pos s"
    "meta_free (committed s blk buf grp fg fs) = meta_free s"
  using assms by (auto simp: superblock_counter_def committed_def)

lemma superblock_counter_frames:
  assumes "superblock_counter fs"
  shows "ext2_geom (superblock_update fs s) = ext2_geom s"
    "superblock_spots (superblock_update fs s) = superblock_spots s"
    "superblock_ok (fs sb) = superblock_ok sb"
  using assms by (auto simp: superblock_counter_def)

lemma group_counter_geom:
  assumes "group_counter fg" "ext2_geom s" "grp < length (bgdts s)"
  shows "ext2_geom (bgdts_update (\<lambda>b. b[grp := fg (b ! grp)]) s)"
  using assms by (auto simp: group_counter_def intro: ext2_geom_bgdts)

lemma committed_geom:
  assumes "ext2_geom s" "grp < length (bgdts s)" "group_counter fg" "superblock_counter fs"
  shows "ext2_geom (committed s blk buf grp fg fs)"
  using group_counter_geom [OF assms(3,1,2)] assms(4)
  unfolding committed_def by (subst ext2_geom_dev) (simp_all add: superblock_counter_frames)

lemma committed_wf:
  assumes "ext2_wf s" "grp < length (bgdts s)" "group_counter fg" "superblock_counter fs"
  shows "ext2_wf (committed s blk buf grp fg fs)"
proof -
  have "locks_free (committed s blk buf grp fg fs)"
    using assms(1) by (simp add: ext2_wf_def locks_free_def committed_def)
  with assms committed_geom show ?thesis
    by (simp add: ext2_wf_def)
qed

lemma commit_run:
  assumes "ext2_geom s" "\<not> LOCK_BGDT_WRITE s" "\<not> LOCK_SUPERBLOCK_WRITE s" "blk < nblocks s"
    "length buf = blockSize s" "grp < length (bgdts s)" "group_counter fg" "superblock_counter fs"
  shows "andthen (set_sectors buf (BLOCK_TO_LBA s 0 blk) (blockSize s div SECTOR_SIZE))
      (andthen (update_bgdt grp fg) (andthen (update_superblock fs) k)) s = k (committed s blk buf grp fg fs)"
    "andthen (set_sectors buf (BLOCK_TO_LBA s 0 blk) (blockSize s div SECTOR_SIZE))
      (andthen (update_bgdt grp fg) (update_superblock fs)) s = Inr ((), committed s blk buf grp fg fs)"
proof -
  let ?s1 = "s\<lparr>dev := dev_patch (dev s) (block_pos s blk) buf\<rparr>"
  let ?b = "\<lambda>b. b[grp := fg (b ! grp)]"
  let ?s2 = "bgdts_update ?b s
      \<lparr>dev := patch_all (dev ?s1) (bgdt_spots s) (enc_groups (?b (bgdts s)))\<rparr>"
  have g1: "ext2_geom (bgdts_update ?b ?s1)"
    using assms by (intro group_counter_geom) simp_all
  have 1: "update_bgdt grp fg ?s1 = Inr ((), ?s2)"
    using update_bgdt_run [OF g1] assms(2) by simp
  have g2: "ext2_geom ?s2"
    using group_counter_geom [OF assms(7,1,6)] by (subst ext2_geom_dev) simp_all
  have 2: "update_superblock fs ?s2 = Inr ((), committed s blk buf grp fg fs)"
    using update_superblock_run [of fs ?s2] superblock_counter_frames [OF assms(8)] g2 assms(3)
    by (simp add: committed_def)
  show "andthen (set_sectors buf (BLOCK_TO_LBA s 0 blk) (blockSize s div SECTOR_SIZE))
      (andthen (update_bgdt grp fg) (andthen (update_superblock fs) k)) s = k (committed s blk buf grp fg fs)"
    "andthen (set_sectors buf (BLOCK_TO_LBA s 0 blk) (blockSize s div SECTOR_SIZE))
      (andthen (update_bgdt grp fg) (update_superblock fs)) s = Inr ((), committed s blk buf grp fg fs)"
    using set_block_run [OF assms(1,4,5)] 1 2 by (simp_all add: cmd_simps)
qed

lemma committed_dev_seg:
  assumes "ext2_geom s" "grp < length (bgdts s)" "group_counter fg" "superblock_counter fs" "meta_free s a n"
  shows "dev_seg (dev (committed s blk buf grp fg fs)) a n =
    dev_seg (dev_patch (dev s) (block_pos s blk) buf) a n"
proof -
  have "length (enc_groups ((bgdts s)[grp := fg (bgdts s ! grp)])) = blockSize s"
    using length_enc_bgdts [OF group_counter_geom [OF assms(3,1,2)]] by simp
  moreover have "length (enc_superblock (fs (superblock s))) = 1024"
    using ext2_geom_simps(9) [OF assms(1)] superblock_counter_frames(3) [OF assms(4)]
    by simp
  ultimately show ?thesis
    using assms(5) by (simp add: committed_def meta_free_def dev_seg_patch_all)
qed

end
