(* ===== verification/Ext2_Inode.thy ===== *)
theory Ext2_Inode
  imports Ext2_Meta
begin

text \<open>
  \<^verbatim>\<open>ext2_inode.c\<close>: reading and writing inodes in the inode tables, and allocating and freeing
  inode numbers in the inode bitmaps. Each definition is the whole C function, with its
  locks, its bounds and its pushes of the group descriptors and the superblock.
\<close>

definition inode_window :: "('x Ext2_scheme) \<Rightarrow> nat" where
  "inode_window s = CEILING_DIVISION (inodeSize s * 4) SECTOR_SIZE * SECTOR_SIZE"

definition ext2InodeFetch :: "nat \<Rightarrow> Ext2Inode ext2_cmd" where
  "ext2InodeFetch inode = (\<lambda>s.
     let grp = trunc32 (INODE_TO_BLOCK_GROUP 64 s inode); index = trunc32 (INODE_TO_INDEX 64 s inode) in
     inode_section spinlock_cnt_read_acquire spinlock_cnt_read_release grp (\<lambda>s.
       let leftovers = index * inodeSize s;
           leftoversLba = leftovers div SECTOR_SIZE;
           leftoversRem = leftovers mod SECTOR_SIZE;
           len = inode_window s;
           lba = BLOCK_TO_LBA s 0 (unat (inode_table (bgdts s ! grp))) + leftoversLba
       in andthen (check Out_of_bounds (grp < length (bgdts s)))
          (bnd (get_sectors lba (len div SECTOR_SIZE)) (\<lambda>buf.
           bnd (lift (rdseg buf leftoversRem (inodeSize s))) (\<lambda>b.
           andthen (check Out_of_bounds (INODE_BYTES \<le> length b))
             (ret (dec_inode (take INODE_BYTES b)))))) s) s)"

definition ext2InodeModifyM :: "nat \<Rightarrow> Ext2Inode \<Rightarrow> unit ext2_cmd" where
  "ext2InodeModifyM inode target = (\<lambda>s.
     let grp = trunc32 (INODE_TO_BLOCK_GROUP 64 s inode); index = trunc32 (INODE_TO_INDEX 64 s inode) in
     inode_section spinlock_cnt_write_acquire spinlock_cnt_write_release grp (\<lambda>s.
       let leftovers = index * inodeSize s;
           leftoversLba = leftovers div SECTOR_SIZE;
           leftoversRem = leftovers mod SECTOR_SIZE;
           len = inode_window s;
           lba = BLOCK_TO_LBA s 0 (unat (inode_table (bgdts s ! grp))) + leftoversLba
       in andthen (check Out_of_bounds (grp < length (bgdts s)))
          (bnd (get_sectors lba (len div SECTOR_SIZE)) (\<lambda>buf.
           bnd (lift (wr buf leftoversRem (enc_inode target))) (\<lambda>buf'.
           set_sectors buf' lba (len div SECTOR_SIZE)))) s) s)"

definition ext2InodeDelete :: "nat \<Rightarrow> unit ext2_cmd" where
  "ext2InodeDelete inode = (\<lambda>s.
     let grp = trunc32 (INODE_TO_BLOCK_GROUP 64 s inode); index = trunc32 (INODE_TO_INDEX 64 s inode) in
     inode_section spinlock_cnt_write_acquire spinlock_cnt_write_release grp (\<lambda>s.
       let lba = BLOCK_TO_LBA s 0 (unat (inode_bitmap (bgdts s ! grp)));
           n = blockSize s div SECTOR_SIZE
       in andthen (check Out_of_bounds (grp < length (bgdts s)))
          (bnd (get_sectors lba n) (\<lambda>buf.
           andthen (check Out_of_bounds (index div 8 < length buf))
           (andthen (check Assert_failed (bitmapGenericGet buf index))
           (andthen (set_sectors (bitmapGenericSet buf index False) lba n)
           (andthen (update_bgdt grp (bg_free_inodes_update (\<lambda>x. x + 1)))
           (update_superblock (s_free_inodes_update (\<lambda>x. x + 1)))))))) s) s)"

text \<open>
  The search of \<^verbatim>\<open>ext2InodeFindL\<close>: the outer loop over the bytes from \<open>firstInodeDiv\<close> on, full
  bytes skipped; the inner loop over the bits, from \<open>firstInodeRem\<close> in the first byte.
\<close>

fun scan_inodes :: "byte list \<Rightarrow> nat \<Rightarrow> nat \<Rightarrow> nat list \<Rightarrow> nat option" where
  "scan_inodes buff firstInodeDiv firstInodeRem [] = None"
| "scan_inodes buff firstInodeDiv firstInodeRem (i # is) =
     (if buff ! i = 0xff then scan_inodes buff firstInodeDiv firstInodeRem is
      else case find (\<lambda>j. buff ! i AND mask1 j = 0) [(if i = firstInodeDiv then firstInodeRem else 0)..<8] of
        Some j \<Rightarrow> Some (i * 8 + j)
      | None \<Rightarrow> scan_inodes buff firstInodeDiv firstInodeRem is)"

definition ext2InodeFindL :: "nat \<Rightarrow> nat ext2_cmd" where
  "ext2InodeFindL grp = (\<lambda>s.
     if length (bgdts s) \<le> grp then Inl Out_of_bounds
     else if unat (bg_free_inodes (bgdts s ! grp)) < 1 then Inr (0, s)
     else inode_section spinlock_cnt_write_acquire spinlock_cnt_write_release grp (\<lambda>s.
       let lba = BLOCK_TO_LBA s 0 (unat (inode_bitmap (bgdts s ! grp)));
           n = blockSize s div SECTOR_SIZE;
           first = unat (first_inode (extended (superblock s)));
           firstInodeDiv = (if grp = 0 then first div 8 else 0);
           firstInodeRem = (if grp = 0 then first mod 8 else 0)
       in bnd (get_sectors lba n) (\<lambda>buff.
          let r = (case scan_inodes buff firstInodeDiv firstInodeRem [firstInodeDiv..<blockSize s] of
                     Some k \<Rightarrow> k | None \<Rightarrow> 0)
          in if r = 0 then ret 0
             else andthen (set_sectors (bitmapGenericSet buff r True) lba n)
                  (andthen (update_bgdt grp (bg_free_inodes_update (\<lambda>x. x - 1)))
                  (andthen (update_superblock (s_free_inodes_update (\<lambda>x. x - 1)))
                  (ret (trunc32 (grp * ipg s + r + 1)))))) s) s)"

text \<open>
  \<^verbatim>\<open>ext2InodeFind\<close>: the suggested group first, then all the others in order; \<open>find_first\<close>
  is its loop with the early return.
\<close>

fun find_first :: "('i \<Rightarrow> nat ext2_cmd) \<Rightarrow> 'i list \<Rightarrow> nat ext2_cmd" where
  "find_first f [] = ret 0"
| "find_first f (i # is) = bnd (f i) (\<lambda>r. if r \<noteq> 0 then ret r else find_first f is)"

definition ext2InodeFind :: "nat \<Rightarrow> nat ext2_cmd" where
  "ext2InodeFind groupSuggestion = (\<lambda>s.
     if 1 \<le> unat (s_free_inodes (superblock s)) then
       bnd (ext2InodeFindL groupSuggestion) (\<lambda>suggested.
         if suggested \<noteq> 0 then ret suggested
         else bnd (find_first ext2InodeFindL (filter (\<lambda>i. i \<noteq> groupSuggestion) [0..<blockGroups s]))
           (\<lambda>r. if r \<noteq> 0 then ret r else fail Halted)) s
     else Inl Halted)"

section \<open>Where an inode lives\<close>

definition inode_group :: "('x Ext2_scheme) \<Rightarrow> nat \<Rightarrow> nat" where
  "inode_group s n = (n - 1) div ipg s"

definition inode_index :: "('x Ext2_scheme) \<Rightarrow> nat \<Rightarrow> nat" where
  "inode_index s n = (n - 1) mod ipg s"

definition inode_num_ok :: "('x Ext2_scheme) \<Rightarrow> nat \<Rightarrow> bool" where
  "inode_num_ok s n \<longleftrightarrow> 0 < n \<and> n < 2 ^ 32 \<and> inode_group s n < blockGroups s"

definition inode_pos :: "('x Ext2_scheme) \<Rightarrow> nat \<Rightarrow> nat" where
  "inode_pos s n = block_pos s (unat (inode_table (bgdts s ! inode_group s n))) + inode_index s n * inodeSize s"

definition inode_at :: "ext2_sys \<Rightarrow> nat \<Rightarrow> Ext2Inode" where
  "inode_at s n = dec_inode (dev_seg (dev s) (inode_pos s n) INODE_BYTES)"

lemma inode_macros:
  assumes "inode_num_ok s n"
  shows "trunc32 (INODE_TO_BLOCK_GROUP 64 s n) = inode_group s n"
    "trunc32 (INODE_TO_INDEX 64 s n) = inode_index s n"
    "INODE_TO_BLOCK_GROUP 32 s n = inode_group s n"
proof -
  have n: "0 < n" "n < 2 ^ 32" "n < 2 ^ 64"
    using assms by (simp_all add: inode_num_ok_def)
  have "(n - 1) div ipg s < 2 ^ 32" "(n - 1) mod ipg s < 2 ^ 32"
    using n(2) by (meson div_le_dividend mod_less_eq_dividend le_less_trans less_imp_diff_less)+
  then show "trunc32 (INODE_TO_BLOCK_GROUP 64 s n) = inode_group s n"
    "trunc32 (INODE_TO_INDEX 64 s n) = inode_index s n" "INODE_TO_BLOCK_GROUP 32 s n = inode_group s n"
    using inode_minus_one [OF n(1,3)] inode_minus_one [OF n(1,2)]
    by (simp_all add: INODE_TO_BLOCK_GROUP_def INODE_TO_INDEX_def inode_group_def inode_index_def flip: ipg_def)
qed

lemma window_bound:
  assumes "128 \<le> z"
  shows "(k * z) mod SECTOR_SIZE + z \<le> CEILING_DIVISION (z * 4) SECTOR_SIZE * SECTOR_SIZE"
proof (cases "z = 128")
  case True
  have "(k * 128) mod (4 * 128) = (k mod 4) * 128"
    by (rule mod_mult_mult2)
  moreover have "k mod 4 \<le> 3"
    by simp
  ultimately show ?thesis
    using True by (simp add: SECTOR_SIZE_def CEILING_DIVISION_def)
next
  case False
  define c where "c = CEILING_DIVISION (z * 4) SECTOR_SIZE"
  have ge: "z * 4 \<le> c * 512"
    unfolding c_def SECTOR_SIZE_def by (rule CEILING_DIVISION_ge) simp
  have "2 \<le> c"
    using ge assms False by (cases "c \<le> 1") auto
  moreover have "(k * z) mod SECTOR_SIZE \<le> 511"
    by (simp add: SECTOR_SIZE_def)
  ultimately have "(k * z) mod SECTOR_SIZE + z \<le> c * SECTOR_SIZE"
    using ge unfolding SECTOR_SIZE_def by linarith
  then show ?thesis
    by (simp only: c_def)
qed

lemma inode_lba:
  assumes "ext2_geom s" "inode_num_ok s n"
  defines "lba \<equiv> BLOCK_TO_LBA s 0 (unat (inode_table (bgdts s ! inode_group s n)))
      + inode_index s n * inodeSize s div SECTOR_SIZE"
  shows "lba + inode_window s div SECTOR_SIZE \<le> 2 ^ 32" "0 < inode_window s div SECTOR_SIZE"
    "lba * SECTOR_SIZE + inode_index s n * inodeSize s mod SECTOR_SIZE = inode_pos s n"
    "inode_index s n * inodeSize s mod SECTOR_SIZE + inodeSize s \<le> inode_window s"
    "inode_window s div SECTOR_SIZE * SECTOR_SIZE = inode_window s"
proof -
  note g = ext2_geom_simps [OF assms(1)]
  let ?g = "bgdts s ! inode_group s n"
  have "group_geom s ?g"
    using g(19) assms(2) by (simp add: inode_num_ok_def)
  then have b: "BLOCK_TO_LBA s 0 (unat (inode_table ?g)) + ipg s * inodeSize s div SECTOR_SIZE
      + CEILING_DIVISION (inodeSize s * 4) SECTOR_SIZE \<le> 2 ^ 32"
    by (simp add: group_geom_def)
  have "inode_index s n * inodeSize s \<le> ipg s * inodeSize s"
    using g(5) by (intro mult_le_mono1) (simp add: inode_index_def less_imp_le)
  then have "inode_index s n * inodeSize s div SECTOR_SIZE \<le> ipg s * inodeSize s div SECTOR_SIZE"
    by (rule div_le_mono)
  with b show "lba + inode_window s div SECTOR_SIZE \<le> 2 ^ 32"
    by (simp add: lba_def inode_window_def SECTOR_SIZE_def)
  have "inodeSize s * 4 \<le> CEILING_DIVISION (inodeSize s * 4) SECTOR_SIZE * SECTOR_SIZE"
    by (rule CEILING_DIVISION_ge) (simp add: SECTOR_SIZE_def)
  with g(18) show "0 < inode_window s div SECTOR_SIZE"
    unfolding inode_window_def SECTOR_SIZE_def by (cases "CEILING_DIVISION (inodeSize s * 4) 512") auto
  show "lba * SECTOR_SIZE + inode_index s n * inodeSize s mod SECTOR_SIZE = inode_pos s n"
    using BLOCK_TO_LBA_pos [OF g(2)]
    by (simp add: lba_def inode_pos_def add_mult_distrib add.assoc)
  show "inode_index s n * inodeSize s mod SECTOR_SIZE + inodeSize s \<le> inode_window s"
    unfolding inode_window_def by (rule window_bound [OF g(18)])
  show "inode_window s div SECTOR_SIZE * SECTOR_SIZE = inode_window s"
    by (simp add: inode_window_def SECTOR_SIZE_def)
qed

section \<open>Reading and writing inodes\<close>

lemma inode_frame_simps [simp]:
  "inode_group (WLOCKS_INODE_update f s) = inode_group s"
  "inode_index (WLOCKS_INODE_update f s) = inode_index s"
  "inode_pos (WLOCKS_INODE_update f s) = inode_pos s"
  "inode_window (WLOCKS_INODE_update f s) = inode_window s"
  "inode_num_ok (WLOCKS_INODE_update f s) = inode_num_ok s"
  "inode_at (WLOCKS_INODE_update f s) = inode_at s"
  "inode_group (dev_update h t) = inode_group t"
  "inode_index (dev_update h t) = inode_index t"
  "inode_pos (dev_update h t) = inode_pos t"
  "inode_num_ok (dev_update h t) = inode_num_ok t"
  by (simp_all add: inode_group_def inode_index_def inode_pos_def inode_window_def inode_num_ok_def
      inode_at_def fun_eq_iff)

lemma ext2InodeFetch_run:
  assumes "ext2_geom s" "inode_num_ok s n" "0 \<le> WLOCKS_INODE s ! inode_group s n"
  shows "ext2InodeFetch n s = Inr (inode_at s n, s)"
proof -
  note g = ext2_geom_simps [OF assms(1)] and l = inode_lba [OF assms(1,2)]
  let ?L = "(WLOCKS_INODE s)[inode_group s n := WLOCKS_INODE s ! inode_group s n + 1]"
  have grp: "inode_group s n < blockGroups s" "inode_group s n < length (bgdts s)"
    using assms(2) g(11) by (auto simp: inode_num_ok_def)
  have "rdseg (dev_seg d a (inode_window s)) (inode_index s n * inodeSize s mod SECTOR_SIZE) (inodeSize s)
      = Inr (dev_seg d (a + inode_index s n * inodeSize s mod SECTOR_SIZE) (inodeSize s))" for d a
    using l(4) by (simp add: rdseg_def)
  moreover have "take INODE_BYTES (dev_seg d a (inodeSize s)) = dev_seg d a INODE_BYTES" for d a
    using g(18) seg_dev_seg [of 0 INODE_BYTES "inodeSize s" d a] by (simp add: seg_def INODE_BYTES_def)
  ultimately show ?thesis
    unfolding ext2InodeFetch_def Let_def inode_macros [OF assms(2)]
    using g(1,13,18) grp l assms(3)
    by (intro inode_section_run [where l = "WLOCKS_INODE s ! inode_group s n + 1"])
       (simp_all add: cmd_simps get_sectors_run spinlock_cnt_defs inode_at_def INODE_BYTES_def add.assoc)
qed

lemma ext2InodeModifyM_run:
  assumes "ext2_geom s" "inode_num_ok s n" "WLOCKS_INODE s ! inode_group s n = 0" "inode_ok i"
  shows "ext2InodeModifyM n i s = Inr ((), s\<lparr>dev := dev_patch (dev s) (inode_pos s n) (enc_inode i)\<rparr>)"
proof -
  note g = ext2_geom_simps [OF assms(1)] and l = inode_lba [OF assms(1,2)]
  have grp: "inode_group s n < blockGroups s" "inode_group s n < length (bgdts s)"
    using assms(2) g(11) by (auto simp: inode_num_ok_def)
  have fits: "inode_index s n * inodeSize s mod SECTOR_SIZE + INODE_BYTES \<le> inode_window s"
    using l(4) g(18) by (simp add: INODE_BYTES_def)
  then have "wr (dev_seg d a (inode_window s)) (inode_index s n * inodeSize s mod SECTOR_SIZE) (enc_inode i)
      = Inr (blit (dev_seg d a (inode_window s)) (inode_index s n * inodeSize s mod SECTOR_SIZE) (enc_inode i))"
    for d a
    using assms(4) by (simp add: wr_def)
  then show ?thesis
    unfolding ext2InodeModifyM_def Let_def inode_macros [OF assms(2)]
    using g(1,13,18) grp l fits assms(3,4)
    by (intro inode_section_run [where l = "- 1"])
       (simp_all add: cmd_simps get_sectors_run set_sectors_run spinlock_cnt_defs dev_patch_blit add.assoc)
qed

lemma inode_pos_bound:
  assumes "ext2_geom s" "inode_num_ok s n"
  shows "inode_pos s n + INODE_BYTES \<le>
    block_pos s (unat (inode_table (bgdts s ! inode_group s n))) + ipg s * inodeSize s"
proof -
  note g = ext2_geom_simps [OF assms(1)]
  have "Suc (inode_index s n) * inodeSize s \<le> ipg s * inodeSize s"
    using g(5) by (intro mult_le_mono1) (simp add: inode_index_def Suc_leI)
  with g(18) show ?thesis
    by (simp add: inode_pos_def INODE_BYTES_def)
qed

text \<open>The inode tables of the groups do not overlap.\<close>

definition tables_disjoint :: "ext2_sys \<Rightarrow> bool" where
  "tables_disjoint s \<longleftrightarrow> (\<forall>g < blockGroups s. \<forall>h < blockGroups s. g \<noteq> h \<longrightarrow>
     (let a = block_pos s (unat (inode_table (bgdts s ! g))); b = block_pos s (unat (inode_table (bgdts s ! h)));
          z = ipg s * inodeSize s in a + z \<le> b \<or> b + z \<le> a))"

lemma inode_pos_disjoint:
  assumes "ext2_geom s" "tables_disjoint s" "inode_num_ok s n" "inode_num_ok s m" "n \<noteq> m"
  shows "inode_pos s n + INODE_BYTES \<le> inode_pos s m \<or> inode_pos s m + INODE_BYTES \<le> inode_pos s n"
proof (cases "inode_group s n = inode_group s m")
  case False
  let ?a = "block_pos s (unat (inode_table (bgdts s ! inode_group s n)))"
    and ?b = "block_pos s (unat (inode_table (bgdts s ! inode_group s m)))"
  have "?a + ipg s * inodeSize s \<le> ?b \<or> ?b + ipg s * inodeSize s \<le> ?a"
    using assms(2,3,4) False by (auto simp: tables_disjoint_def inode_num_ok_def Let_def)
  moreover have "?a \<le> inode_pos s n" "?b \<le> inode_pos s m"
    by (simp_all add: inode_pos_def)
  ultimately show ?thesis
    using inode_pos_bound [OF assms(1,3)] inode_pos_bound [OF assms(1,4)] by linarith
next
  case True
  have sep: "i * z + INODE_BYTES \<le> j * z" if "i < j" "128 \<le> z" for i j z :: nat
  proof -
    have "Suc i * z \<le> j * z"
      using that(1) by (intro mult_le_mono1) simp
    with that(2) show ?thesis
      by (simp add: INODE_BYTES_def)
  qed
  have split: "k - 1 = inode_group s k * ipg s + inode_index s k" for k
    by (simp only: inode_group_def inode_index_def div_mult_mod_eq)
  have "n - 1 \<noteq> m - 1"
    using assms(3,4,5) by (auto simp: inode_num_ok_def)
  then have "inode_index s n \<noteq> inode_index s m"
    using True split [of n] split [of m] by auto
  then have "inode_index s n < inode_index s m \<or> inode_index s m < inode_index s n"
    by linarith
  with sep [OF _ ext2_geom_simps(18) [OF assms(1)]] True show ?thesis
    by (auto simp: inode_pos_def)
qed

text \<open>
  C10. Inodes are independent cells: after \<open>ext2InodeModifyM\<close> wrote inode \<open>n\<close>, fetching any
  inode of the volume gives the written value for \<open>n\<close> and the old value for every other
  one, although the driver reads and writes back whole sectors that hold neighbouring
  inodes. No lock is left held.
\<close>

theorem ext2InodeModifyM_fetch:
  assumes "ext2_wf s" "tables_disjoint s" "inode_num_ok s n" "inode_ok i" "inode_num_ok s m"
  shows "\<exists>s' old. ext2InodeModifyM n i s = Inr ((), s') \<and> ext2_wf s' \<and>
    ext2InodeFetch m s = Inr (old, s) \<and>
    ext2InodeFetch m s' = Inr (if m = n then i else old, s')"
proof -
  have w: "ext2_geom s" "locks_free s"
    using assms(1) by (simp_all add: ext2_wf_def)
  have l: "WLOCKS_INODE s ! inode_group s k = 0" if "inode_num_ok s k" for k
    using that w(2) by (simp add: locks_free_def inode_num_ok_def)
  let ?s = "s\<lparr>dev := dev_patch (dev s) (inode_pos s n) (enc_inode i)\<rparr>"
  have geom: "ext2_geom ?s"
    using w(1) by simp
  then have wf: "ext2_wf ?s"
    using w(2) by (simp add: ext2_wf_def locks_free_def)
  have "inode_at ?s m = (if m = n then i else inode_at s m)"
  proof (cases "m = n")
    case True
    then show ?thesis
      using assms(4) by (simp add: inode_at_def)
  next
    case False
    then have "dev_seg (dev ?s) (inode_pos s m) INODE_BYTES = dev_seg (dev s) (inode_pos s m) INODE_BYTES"
      using inode_pos_disjoint [OF w(1) assms(2,3,5)] assms(4)
      by (simp add: dev_seg_patch_other)
    with False show ?thesis
      by (simp add: inode_at_def)
  qed
  moreover have "ext2InodeFetch m ?s = Inr (inode_at ?s m, ?s)"
    using geom assms(5) l [OF assms(5)] by (intro ext2InodeFetch_run) simp_all
  moreover have "ext2InodeFetch m s = Inr (inode_at s m, s)"
    using w(1) assms(5) l [OF assms(5)] by (simp add: ext2InodeFetch_run)
  ultimately show ?thesis
    using ext2InodeModifyM_run [OF w(1) assms(3) l [OF assms(3)] assms(4)] wf by auto
qed

section \<open>Allocating and freeing inode numbers\<close>

lemma bitmap_byte:
  assumes "j < 8"
  shows "(b ! i AND mask1 j = 0) = (\<not> bitmapGenericGet b (i * 8 + j))"
  using assms by (simp add: bitmapGenericGet_def Let_def)

lemma full_byte:
  assumes "b ! i = 0xff" "j < 8"
  shows "bitmapGenericGet b (i * 8 + j)"
proof -
  have "b ! i = - 1"
    using assms(1) by simp
  with assms(2) show ?thesis
    by (simp add: bitmapGenericGet_bit)
qed

lemma scan_inodes_Some:
  assumes "fr < 8" "fd \<le> i" "k < 8 * bs" "\<not> bitmapGenericGet b k"
    "(if i = fd then fd * 8 + fr else i * 8) \<le> k"
    "\<forall>j. (if i = fd then fd * 8 + fr else i * 8) \<le> j \<and> j < k \<longrightarrow> bitmapGenericGet b j"
  shows "scan_inodes b fd fr [i..<bs] = Some k"
  using assms
proof (induction "bs - i" arbitrary: i)
  case 0
  then show ?case
    by (auto split: if_splits)
next
  case (Suc d)
  then have lt: "i < bs" by simp
  let ?lo = "if i = fd then fr else 0"
  have lo: "i * 8 + ?lo \<le> k" "\<forall>j. i * 8 + ?lo \<le> j \<and> j < k \<longrightarrow> bitmapGenericGet b j" "?lo < 8"
    using Suc.prems by (auto split: if_splits)
  show ?case
  proof (cases "k < i * 8 + 8")
    case True
    then have k: "k = i * 8 + (k - i * 8)" "k - i * 8 < 8"
      using lo(1) by auto
    then have "b ! i \<noteq> 0xff"
      using Suc.prems(4) full_byte by metis
    moreover have "find (\<lambda>j. b ! i AND mask1 j = 0) [?lo..<8] = Some (k - i * 8)"
      using k lo Suc.prems(4) by (intro find_upt_Some) (auto simp: bitmap_byte)
    ultimately show ?thesis
      using lt k(1) by (simp add: upt_conv_Cons del: upt_Suc)
  next
    case False
    then have set: "bitmapGenericGet b (i * 8 + j)" if "?lo \<le> j" "j < 8" for j
      using lo(2) that by auto
    have "find (\<lambda>j. b ! i AND mask1 j = 0) [?lo..<8] = None"
      unfolding find_upt_None using set by (auto simp: bitmap_byte)
    then have "scan_inodes b fd fr [i..<bs] = scan_inodes b fd fr [Suc i..<bs]"
      using lt by (simp add: upt_conv_Cons del: upt_Suc)
    moreover have "scan_inodes b fd fr [Suc i..<bs] = Some k"
      using Suc.prems Suc.hyps(2) lo False by (intro Suc.hyps(1)) auto
    ultimately show ?thesis by simp
  qed
qed

lemma scan_inodes_None:
  assumes "fr < 8" "\<forall>j. (if i = fd then fd * 8 + fr else i * 8) \<le> j \<and> j < 8 * bs \<longrightarrow> bitmapGenericGet b j"
    "fd \<le> i"
  shows "scan_inodes b fd fr [i..<bs] = None"
  using assms
proof (induction "bs - i" arbitrary: i)
  case 0
  then show ?case by simp
next
  case (Suc d)
  then have lt: "i < bs" by simp
  let ?lo = "if i = fd then fr else 0"
  have "bitmapGenericGet b (i * 8 + j)" if "?lo \<le> j" "j < 8" for j
    using Suc.prems(2) lt that by (auto split: if_splits)
  then have "find (\<lambda>j. b ! i AND mask1 j = 0) [?lo..<8] = None"
    unfolding find_upt_None by (auto simp: bitmap_byte)
  moreover have "scan_inodes b fd fr [Suc i..<bs] = None"
    using Suc.prems Suc.hyps(2) by (intro Suc.hyps(1)) (auto split: if_splits)
  ultimately show ?case
    using lt by (simp add: upt_conv_Cons del: upt_Suc)
qed

text \<open>The inode bitmap of a group, and the lowest index the search considers.\<close>

definition inode_map :: "ext2_sys \<Rightarrow> nat \<Rightarrow> byte list" where
  "inode_map s grp = block_bytes s (unat (inode_bitmap (bgdts s ! grp)))"

definition first_index :: "ext2_sys \<Rightarrow> nat \<Rightarrow> nat" where
  "first_index s grp = (if grp = 0 then unat (first_inode (extended (superblock s))) else 0)"

lemma length_block_bytes [simp]: "length (block_bytes s b) = blockSize s"
  by (simp add: block_bytes_def)

lemma length_inode_map [simp]: "length (inode_map s grp) = blockSize s"
  by (simp add: inode_map_def)

lemma block_bytes_frame [simp]:
  "block_bytes (s\<lparr>WLOCKS_INODE := L\<rparr>) b = block_bytes s b"
  "block_bytes (s\<lparr>WLOCKS_BLOCK_BITMAP := L\<rparr>) b = block_bytes s b"
  by (simp_all add: block_bytes_def)

lemma committed_locks:
  "committed (s\<lparr>WLOCKS_INODE := L\<rparr>) blk buf grp fg fs = (committed s blk buf grp fg fs)\<lparr>WLOCKS_INODE := L\<rparr>"
  "committed (s\<lparr>WLOCKS_BLOCK_BITMAP := L\<rparr>) blk buf grp fg fs =
     (committed s blk buf grp fg fs)\<lparr>WLOCKS_BLOCK_BITMAP := L\<rparr>"
  by (simp_all add: committed_def)

lemma inode_bitmap_block:
  "ext2_geom s \<Longrightarrow> grp < blockGroups s \<Longrightarrow> unat (inode_bitmap (bgdts s ! grp)) < nblocks s"
  "ext2_geom s \<Longrightarrow> grp < blockGroups s \<Longrightarrow> unat (block_bitmap (bgdts s ! grp)) < nblocks s"
  "ext2_geom s \<Longrightarrow> grp < blockGroups s \<Longrightarrow> grp < length (bgdts s)"
  using ext2_geom_simps(11,19) [of s] by (auto simp: group_geom_def)

lemma ext2InodeFindL_run:
  assumes "ext2_wf s" "grp < blockGroups s" "bg_free_inodes (bgdts s ! grp) \<noteq> 0"
  defines "r \<equiv> (case scan_inodes (inode_map s grp) (first_index s grp div 8) (first_index s grp mod 8)
      [first_index s grp div 8..<blockSize s] of Some k \<Rightarrow> k | None \<Rightarrow> 0)"
  shows "ext2InodeFindL grp s =
    (if r = 0 then Inr (0, s)
     else Inr (trunc32 (grp * ipg s + r + 1),
       committed s (unat (inode_bitmap (bgdts s ! grp))) (bitmapGenericSet (inode_map s grp) r True) grp
         (bg_free_inodes_update (\<lambda>x. x - 1)) (s_free_inodes_update (\<lambda>x. x - 1))))"
proof -
  have w: "ext2_geom s" "locks_free s"
    using assms(1) by (simp_all add: ext2_wf_def)
  note b = inode_bitmap_block [OF w(1) assms(2)] and g = ext2_geom_simps [OF w(1)]
  have l: "WLOCKS_INODE s ! grp = 0" "\<not> LOCK_BGDT_WRITE s" "\<not> LOCK_SUPERBLOCK_WRITE s"
    using w(2) assms(2) by (simp_all add: locks_free_def)
  let ?s = "s\<lparr>WLOCKS_INODE := (WLOCKS_INODE s)[grp := - 1]\<rparr>"
  have geom: "ext2_geom ?s"
    using w(1) by simp
  have free: "\<not> unat (bg_free_inodes (bgdts s ! grp)) < 1"
    using assms(3) by (simp add: unat_eq_0 less_Suc_eq_0_disj)
  have fetch: "get_sectors (BLOCK_TO_LBA s 0 (unat (inode_bitmap (bgdts s ! grp))))
      (blockSize s div SECTOR_SIZE) ?s = Inr (inode_map s grp, ?s)"
    using get_block_run [OF geom, of "unat (inode_bitmap (bgdts s ! grp))"] b(1)
    by (simp add: inode_map_def)
  have commit: "andthen (set_sectors (bitmapGenericSet (inode_map s grp) r True)
        (BLOCK_TO_LBA s 0 (unat (inode_bitmap (bgdts s ! grp)))) (blockSize s div SECTOR_SIZE))
      (andthen (update_bgdt grp (bg_free_inodes_update (\<lambda>x. x - 1)))
        (andthen (update_superblock (s_free_inodes_update (\<lambda>x. x - 1))) (ret v))) ?s =
      Inr (v, (committed s (unat (inode_bitmap (bgdts s ! grp))) (bitmapGenericSet (inode_map s grp) r True) grp
         (bg_free_inodes_update (\<lambda>x. x - 1)) (s_free_inodes_update (\<lambda>x. x - 1)))
         \<lparr>WLOCKS_INODE := (WLOCKS_INODE s)[grp := - 1]\<rparr>)" for v
    using commit_run(1) [OF geom, of "unat (inode_bitmap (bgdts s ! grp))"
        "bitmapGenericSet (inode_map s grp) r True" grp _ _ "ret v"] b l
    by (simp add: ret_run committed_locks)
  have idx: "(if grp = 0 then unat (first_inode (extended (superblock s))) div 8 else 0) = first_index s grp div 8"
    "(if grp = 0 then unat (first_inode (extended (superblock s))) mod 8 else 0) = first_index s grp mod 8"
    by (simp_all add: first_index_def)
  have in_range: "\<not> length (bgdts s) \<le> grp"
    using b(3) by simp
  have "ext2InodeFindL grp s = Inr (0, s)" if "r = 0"
    unfolding ext2InodeFindL_def if_not_P [OF in_range] if_not_P [OF free]
    by (rule inode_section_run [where l = "- 1"])
       (use that g(13) assms(2) l fetch in \<open>simp_all add: spinlock_cnt_defs cmd_simps Let_def idx flip: r_def\<close>)
  moreover have "ext2InodeFindL grp s = Inr (trunc32 (grp * ipg s + r + 1),
       committed s (unat (inode_bitmap (bgdts s ! grp))) (bitmapGenericSet (inode_map s grp) r True) grp
         (bg_free_inodes_update (\<lambda>x. x - 1)) (s_free_inodes_update (\<lambda>x. x - 1)))" if "r \<noteq> 0"
    unfolding ext2InodeFindL_def if_not_P [OF in_range] if_not_P [OF free]
    by (rule inode_section_run [where l = "- 1"])
       (use that g(13) assms(2) l in
         \<open>simp_all add: spinlock_cnt_defs bnd_run fetch commit Let_def idx flip: r_def\<close>)
  ultimately show ?thesis
    by simp
qed

lemma scan_first:
  assumes "first_index s grp \<le> k" "k < 8 * blockSize s" "\<not> bitmapGenericGet (inode_map s grp) k"
    "\<forall>j. first_index s grp \<le> j \<and> j < k \<longrightarrow> bitmapGenericGet (inode_map s grp) j"
  shows "scan_inodes (inode_map s grp) (first_index s grp div 8) (first_index s grp mod 8)
      [first_index s grp div 8..<blockSize s] = Some k"
  using assms by (intro scan_inodes_Some) simp_all

lemma inode_map_committed:
  assumes "ext2_geom s" "grp < blockGroups s" "length buf = blockSize s"
    "meta_free s (block_pos s (unat (inode_bitmap (bgdts s ! grp)))) (blockSize s)"
    "superblock_counter fs"
  shows "inode_map (committed s (unat (inode_bitmap (bgdts s ! grp))) buf grp (bg_free_inodes_update h) fs) grp = buf"
  using assms inode_bitmap_block(3) [OF assms(1,2)]
  by (simp add: inode_map_def block_bytes_def committed_geometry committed_dev_seg)

lemma inode_number_parts:
  assumes "n = trunc32 (grp * ipg s + k + 1)" "k < ipg s" "grp < blockGroups s" "grp * ipg s + k + 1 < 2 ^ 32"
  shows "inode_num_ok s n \<and> inode_group s n = grp \<and> inode_index s n = k"
  using assms by (simp add: inode_num_ok_def inode_group_def inode_index_def)

text \<open>
  Inode allocation: if index \<open>k\<close> is the first free one of a group (from \<^verbatim>\<open>first_inode\<close> on
  in group 0), \<open>ext2InodeFindL\<close> returns exactly the inode number with that group and index,
  marks its bit and no other, and decrements the free counters of the group and of the
  superblock. No lock is left held.
\<close>

theorem ext2InodeFindL_first_free:
  assumes "ext2_wf s" "grp < blockGroups s" "bg_free_inodes (bgdts s ! grp) \<noteq> 0"
    "meta_free s (block_pos s (unat (inode_bitmap (bgdts s ! grp)))) (blockSize s)"
    "first_index s grp \<le> k" "0 < k" "k < ipg s" "grp * ipg s + k + 1 < 2 ^ 32"
    "\<not> bitmapGenericGet (inode_map s grp) k"
    "\<forall>j. first_index s grp \<le> j \<and> j < k \<longrightarrow> bitmapGenericGet (inode_map s grp) j"
  shows "\<exists>n s'. ext2InodeFindL grp s = Inr (n, s') \<and> ext2_wf s' \<and>
    inode_num_ok s n \<and> inode_group s n = grp \<and> inode_index s n = k \<and>
    (\<forall>j < 8 * blockSize s. bitmapGenericGet (inode_map s' grp) j =
        (j = k \<or> bitmapGenericGet (inode_map s grp) j)) \<and>
    bg_free_inodes (bgdts s' ! grp) = bg_free_inodes (bgdts s ! grp) - 1 \<and>
    s_free_inodes (superblock s') = s_free_inodes (superblock s) - 1"
proof -
  have w: "ext2_geom s"
    using assms(1) by (simp add: ext2_wf_def)
  note b = inode_bitmap_block [OF w assms(2)] and g = ext2_geom_simps [OF w]
  have k: "k < 8 * blockSize s"
    using assms(7) g(6) by linarith
  let ?s = "committed s (unat (inode_bitmap (bgdts s ! grp))) (bitmapGenericSet (inode_map s grp) k True) grp
      (bg_free_inodes_update (\<lambda>x. x - 1)) (s_free_inodes_update (\<lambda>x. x - 1))"
  have "ext2InodeFindL grp s = Inr (trunc32 (grp * ipg s + k + 1), ?s)"
    using ext2InodeFindL_run [OF assms(1-3)] scan_first [OF assms(5) k assms(9,10)] assms(6) by simp
  moreover have "ext2_wf ?s"
    using assms(1) b(3) by (intro committed_wf) simp_all
  moreover have "inode_map ?s grp = bitmapGenericSet (inode_map s grp) k True"
    using assms(2,4) w by (intro inode_map_committed) simp_all
  moreover have "bgdts ?s ! grp = bg_free_inodes_update (\<lambda>x. x - 1) (bgdts s ! grp)"
    using b(3) by simp
  ultimately show ?thesis
    using inode_number_parts [OF refl assms(7,2,8)] k
    by (intro exI [of _ "trunc32 (grp * ipg s + k + 1)"] exI [of _ ?s]) (auto simp: bitmapGenericGet_Set)
qed

lemma ext2InodeDelete_run:
  assumes "ext2_wf s" "inode_num_ok s n"
  defines "grp \<equiv> inode_group s n" and "k \<equiv> inode_index s n"
  shows "ext2InodeDelete n s =
    (if bitmapGenericGet (inode_map s grp) k
     then Inr ((), committed s (unat (inode_bitmap (bgdts s ! grp))) (bitmapGenericSet (inode_map s grp) k False)
         grp (bg_free_inodes_update (\<lambda>x. x + 1)) (s_free_inodes_update (\<lambda>x. x + 1)))
     else Inl Assert_failed)"
proof -
  have w: "ext2_geom s" "locks_free s"
    using assms(1) by (simp_all add: ext2_wf_def)
  have grp: "grp < blockGroups s"
    using assms(2) by (simp add: grp_def inode_num_ok_def)
  note b = inode_bitmap_block [OF w(1) grp] and g = ext2_geom_simps [OF w(1)]
  have l: "WLOCKS_INODE s ! grp = 0" "\<not> LOCK_BGDT_WRITE s" "\<not> LOCK_SUPERBLOCK_WRITE s"
    using w(2) grp by (simp_all add: locks_free_def)
  let ?s = "s\<lparr>WLOCKS_INODE := (WLOCKS_INODE s)[grp := - 1]\<rparr>"
  have geom: "ext2_geom ?s"
    using w(1) by simp
  have "k < ipg s"
    using g(5) by (simp add: k_def inode_index_def)
  with g(6) have idx: "k div 8 < blockSize s"
    by linarith
  have fetch: "get_sectors (BLOCK_TO_LBA s 0 (unat (inode_bitmap (bgdts s ! grp))))
      (blockSize s div SECTOR_SIZE) ?s = Inr (inode_map s grp, ?s)"
    using get_block_run [OF geom, of "unat (inode_bitmap (bgdts s ! grp))"] b(1)
    by (simp add: inode_map_def)
  have commit: "andthen (set_sectors (bitmapGenericSet (inode_map s grp) k False)
        (BLOCK_TO_LBA s 0 (unat (inode_bitmap (bgdts s ! grp)))) (blockSize s div SECTOR_SIZE))
      (andthen (update_bgdt grp (bg_free_inodes_update (\<lambda>x. x + 1)))
        (update_superblock (s_free_inodes_update (\<lambda>x. x + 1)))) ?s =
      Inr ((), (committed s (unat (inode_bitmap (bgdts s ! grp))) (bitmapGenericSet (inode_map s grp) k False) grp
         (bg_free_inodes_update (\<lambda>x. x + 1)) (s_free_inodes_update (\<lambda>x. x + 1)))
         \<lparr>WLOCKS_INODE := (WLOCKS_INODE s)[grp := - 1]\<rparr>)"
    using commit_run(2) [OF geom, of "unat (inode_bitmap (bgdts s ! grp))"
        "bitmapGenericSet (inode_map s grp) k False" grp] b l
    by (simp add: committed_locks)
  note macros = inode_macros [OF assms(2), folded grp_def k_def]
  have "ext2InodeDelete n s = Inl Assert_failed" if "\<not> bitmapGenericGet (inode_map s grp) k"
    unfolding ext2InodeDelete_def Let_def macros
    using that b(3) g(13) grp l idx
    by (simp add: inode_section_def cmd_simps inode_lock_run spinlock_cnt_defs fetch)
  moreover have "ext2InodeDelete n s = Inr ((), committed s (unat (inode_bitmap (bgdts s ! grp)))
      (bitmapGenericSet (inode_map s grp) k False) grp (bg_free_inodes_update (\<lambda>x. x + 1))
      (s_free_inodes_update (\<lambda>x. x + 1)))" if "bitmapGenericGet (inode_map s grp) k"
    unfolding ext2InodeDelete_def Let_def macros
    by (rule inode_section_run [where l = "- 1"])
       (use that b(3) g(13) grp l idx in \<open>simp_all add: spinlock_cnt_defs bnd_run andthen_step check_run fetch commit\<close>)
  ultimately show ?thesis
    by simp
qed

text \<open>
  C11. Freeing an allocated inode number undoes the allocation: the inode bitmap, the group
  descriptors and the superblock in memory are what they were before \<open>ext2InodeFindL\<close>; and
  freeing the same number a second time is caught by the assertion of \<open>ext2InodeDelete\<close>.
\<close>

theorem ext2Inode_find_delete:
  assumes "ext2_wf s" "grp < blockGroups s" "bg_free_inodes (bgdts s ! grp) \<noteq> 0"
    "meta_free s (block_pos s (unat (inode_bitmap (bgdts s ! grp)))) (blockSize s)"
    "first_index s grp \<le> k" "0 < k" "k < ipg s" "grp * ipg s + k + 1 < 2 ^ 32"
    "\<not> bitmapGenericGet (inode_map s grp) k"
    "\<forall>j. first_index s grp \<le> j \<and> j < k \<longrightarrow> bitmapGenericGet (inode_map s grp) j"
  shows "\<exists>n s1 s2. ext2InodeFindL grp s = Inr (n, s1) \<and> ext2InodeDelete n s1 = Inr ((), s2) \<and>
    inode_map s2 grp = inode_map s grp \<and> bgdts s2 = bgdts s \<and> superblock s2 = superblock s \<and>
    ext2_wf s2 \<and> ext2InodeDelete n s2 = Inl Assert_failed"
proof -
  have w: "ext2_geom s"
    using assms(1) by (simp add: ext2_wf_def)
  note b = inode_bitmap_block [OF w assms(2)] and g = ext2_geom_simps [OF w]
  have k: "k < 8 * blockSize s"
    using assms(7) g(6) by linarith
  let ?ib = "unat (inode_bitmap (bgdts s ! grp))" and ?n = "trunc32 (grp * ipg s + k + 1)"
  let ?m = "bitmapGenericSet (inode_map s grp) k True"
  define s1 where "s1 = committed s ?ib ?m grp
      (bg_free_inodes_update (\<lambda>x. x - 1)) (s_free_inodes_update (\<lambda>x. x - 1))"
  define s2 where "s2 = committed s1 ?ib (bitmapGenericSet ?m k False) grp
      (bg_free_inodes_update (\<lambda>x. x + 1)) (s_free_inodes_update (\<lambda>x. x + 1))"
  have find: "ext2InodeFindL grp s = Inr (?n, s1)"
    using ext2InodeFindL_run [OF assms(1-3)] scan_first [OF assms(5) k assms(9,10)] assms(6)
    by (simp add: s1_def)
  have wf1: "ext2_wf s1"
    unfolding s1_def using assms(1) b(3) by (intro committed_wf) simp_all
  have map1: "inode_map s1 grp = ?m"
    unfolding s1_def using assms(2,4) w by (intro inode_map_committed) simp_all
  have ib1: "unat (inode_bitmap (bgdts s1 ! grp)) = ?ib" "blockGroups s1 = blockGroups s"
    "blockSize s1 = blockSize s" "ipg s1 = ipg s" "length (bgdts s1) = length (bgdts s)"
    using b(3) by (simp_all add: s1_def committed_geometry)
  have parts: "inode_num_ok s1 ?n \<and> inode_group s1 ?n = grp \<and> inode_index s1 ?n = k"
    using inode_number_parts [of ?n grp s1 k] assms(2,7,8) by (simp add: ib1)
  have del: "ext2InodeDelete ?n s1 = Inr ((), s2)"
    using ext2InodeDelete_run [OF wf1, of ?n] parts k by (simp add: map1 ib1 s2_def bitmapGenericGet_Set)
  have wf2: "ext2_wf s2"
    unfolding s2_def using wf1 b(3) ib1 by (intro committed_wf) simp_all
  have free: "meta_free s1 (block_pos s1 ?ib) (blockSize s1)"
    using assms(4) by (simp add: s1_def committed_geometry)
  have map2: "inode_map s2 grp = inode_map s grp"
    using inode_map_committed [of s1 grp "bitmapGenericSet ?m k False" "s_free_inodes_update (\<lambda>x. x + 1)"
        "\<lambda>x. x + 1"] wf1 free assms(2,9) k
    by (simp add: s2_def ib1 ext2_wf_def bitmap_set_clear)
  have inv: "bg_free_inodes_update ((\<lambda>x. x + 1) \<circ> (\<lambda>x. x - 1)) d = d" for d :: Ext2BlockGroup
    by (cases d) simp
  have "bgdts s2 = bgdts s" "superblock s2 = superblock s"
    using b(3) by (simp_all add: s2_def s1_def inv)
  moreover have "ext2InodeDelete ?n s2 = Inl Assert_failed"
  proof -
    have "inode_num_ok s2 ?n" "inode_group s2 ?n = grp" "inode_index s2 ?n = k"
      using inode_number_parts [of ?n grp s2 k] assms(2,7,8)
      by (simp_all add: s2_def s1_def committed_geometry)
    with ext2InodeDelete_run [OF wf2, of ?n] map2 assms(9) show ?thesis
      by simp
  qed
  ultimately show ?thesis
    using find del map2 wf2 by blast
qed

end
