(* ===== verification/Ext2_Block.thy ===== *)
theory Ext2_Block
  imports Ext2_Inode
begin

text \<open>
  \<^verbatim>\<open>ext2_util.c\<close>: the block map of an inode (direct, singly and doubly indirect pointers, read
  through the one-block lookup caches \<^verbatim>\<open>tmp1\<close> and \<^verbatim>\<open>tmp2\<close> of an \<^verbatim>\<open>Ext2LookupControl\<close>), and the
  allocation of runs of blocks in the block bitmaps.
\<close>

section \<open>Lookup controls and sizes\<close>

definition control0 :: Ext2LookupControl where
  "control0 = \<lparr>tmp1 = [], tmp1Block = 0, tmp2 = [], tmp2Block = 0\<rparr>"

definition ext2BlockFetchInit :: "('x Ext2_scheme) \<Rightarrow> Ext2LookupControl \<Rightarrow> Ext2LookupControl" where
  "ext2BlockFetchInit ext2 control =
     control\<lparr>tmp1 := replicate (blockSize ext2 div 4) 0, tmp2 := replicate (blockSize ext2 div 4) 0\<rparr>"

definition ext2BlockFetchCleanup :: "Ext2LookupControl \<Rightarrow> Ext2LookupControl" where
  "ext2BlockFetchCleanup control = control\<lparr>tmp1 := [], tmp2 := [], tmp1Block := 0, tmp2Block := 0\<rparr>"

definition ext2BlockSizeCalculate :: "('x Ext2_scheme) \<Rightarrow> nat \<Rightarrow> nat res" where
  "ext2BlockSizeCalculate ext2 raw =
     (let blocks = trunc32 (CEILING_DIVISION raw (blockSize ext2));
          perSpecial = blockSize ext2 div 4;
          base = 12;
          singlyBase = base + perSpecial;
          doublyBase = singlyBase + perSpecial * perSpecial
      in if blocks < base then Inr (blocks * blockSize ext2)
         else if blocks < singlyBase then Inr ((blocks + 1) * blockSize ext2)
         else if blocks < doublyBase then
           (let remaining = blocks - singlyBase; singly_needed = CEILING_DIVISION remaining perSpecial
            in Inr ((blocks + 1 + 1 + singly_needed) * blockSize ext2))
         else Inl Assert_failed)"

section \<open>The block map\<close>

text \<open>
  \<^verbatim>\<open>ext2BlockFetch\<close> takes the group's bitmap lock for reading around \<open>fetch_body\<close>. The result is
  the block number with the updated lookup control.
\<close>

definition word_at :: "u32 list \<Rightarrow> nat \<Rightarrow> u32 res" where
  "word_at ws i = (if i < length ws then Inr (ws ! i) else Inl Out_of_bounds)"

definition load_tmp1 :: "Ext2LookupControl \<Rightarrow> nat \<Rightarrow> Ext2LookupControl ext2_cmd" where
  "load_tmp1 control lba = (\<lambda>s.
     if tmp1Block control \<noteq> lba then
       bnd (get_sectors lba (blockSize s div SECTOR_SIZE))
         (\<lambda>b. ret (control\<lparr>tmp1Block := lba, tmp1 := words_of b\<rparr>)) s
     else Inr (control, s))"

definition load_tmp2 :: "Ext2LookupControl \<Rightarrow> nat \<Rightarrow> Ext2LookupControl ext2_cmd" where
  "load_tmp2 control lba = (\<lambda>s.
     if tmp2Block control \<noteq> lba then
       bnd (get_sectors lba (blockSize s div SECTOR_SIZE))
         (\<lambda>b. ret (control\<lparr>tmp2Block := lba, tmp2 := words_of b\<rparr>)) s
     else Inr (control, s))"

definition fetch_body ::
  "Ext2Inode \<Rightarrow> Ext2LookupControl \<Rightarrow> nat \<Rightarrow> (u32 \<times> Ext2LookupControl) ext2_cmd" where
  "fetch_body ino control cur = (\<lambda>s.
        let itemsPerBlock = blockSize s div 4;
            baseSingly = 12 + itemsPerBlock;
            baseDoubly = baseSingly + blockSize s * itemsPerBlock
        in if cur < 12 then Inr ((i_blocks ino ! cur, control), s)
           else if cur < baseSingly then
             (if i_blocks ino ! 12 \<noteq> 0 then
                bnd (load_tmp1 control (BLOCK_TO_LBA s 0 (unat (i_blocks ino ! 12)))) (\<lambda>control.
                bnd (lift (word_at (tmp1 control) (cur - 12))) (\<lambda>result.
                ret (result, control))) s
              else Inr ((0, control), s))
           else if cur < baseDoubly then
             (if i_blocks ino ! 13 \<noteq> 0 then
                bnd (load_tmp1 control (BLOCK_TO_LBA s 0 (unat (i_blocks ino ! 13)))) (\<lambda>control.
                let at = cur - baseSingly;
                    index = trunc32 (at div itemsPerBlock);
                    rem = trunc32 (at mod itemsPerBlock)
                in bnd (lift (word_at (tmp1 control) index)) (\<lambda>p.
                   if p \<noteq> 0 then
                     bnd (load_tmp2 control (BLOCK_TO_LBA s 0 (unat p))) (\<lambda>control.
                     bnd (lift (word_at (tmp2 control) rem)) (\<lambda>result.
                     ret (result, control)))
                   else ret (0, control))) s
              else Inr ((0, control), s))
           else Inl Halted)"

definition ext2BlockFetch ::
  "Ext2Inode \<Rightarrow> nat \<Rightarrow> Ext2LookupControl \<Rightarrow> nat \<Rightarrow> (u32 \<times> Ext2LookupControl) ext2_cmd" where
  "ext2BlockFetch ino inodeNum control cur = (\<lambda>s.
     bitmap_section spinlock_cnt_read_acquire spinlock_cnt_read_release (INODE_TO_BLOCK_GROUP 32 s inodeNum)
       (fetch_body ino control cur) s)"

section \<open>Allocating and freeing blocks\<close>

text \<open>
  The nested loops of \<^verbatim>\<open>ext2BlockFindL\<close> over byte \<open>i\<close> and bit \<open>j\<close>, with \<open>k = i * 8 + j\<close>;
  the result is \<open>foundBlk\<close> when the loops stop with \<open>found\<close>.
\<close>

function scan_blocks :: "byte list \<Rightarrow> nat \<Rightarrow> nat \<Rightarrow> nat \<Rightarrow> nat \<Rightarrow> nat option" where
  "scan_blocks buff amnt k foundBlk foundAmnt =
     (if k < 8 * length buff then
        (if buff ! (k div 8) AND mask1 (k mod 8) \<noteq> 0 then scan_blocks buff amnt (k + 1) (k + 1) 0
         else if foundAmnt + 1 \<ge> amnt then Some foundBlk
         else scan_blocks buff amnt (k + 1) foundBlk (foundAmnt + 1))
      else None)"
  by pat_completeness auto
termination
  by (relation "measure (\<lambda>(b, n, k, f, a). 8 * length b - k)") auto

declare scan_blocks.simps [simp del]

definition ext2BlockFindL :: "nat \<Rightarrow> nat \<Rightarrow> nat ext2_cmd" where
  "ext2BlockFindL grp amnt = (\<lambda>s.
     if length (bgdts s) \<le> grp then Inl Out_of_bounds
     else if unat (bg_free_blocks (bgdts s ! grp)) < amnt then Inr (0, s)
     else bitmap_section spinlock_cnt_write_acquire spinlock_cnt_write_release grp (\<lambda>s.
       let lba = BLOCK_TO_LBA s 0 (unat (block_bitmap (bgdts s ! grp)));
           n = blockSize s div SECTOR_SIZE
       in bnd (get_sectors lba n) (\<lambda>buff.
          let r = (case scan_blocks buff amnt 0 0 0 of Some foundBlk \<Rightarrow> foundBlk | None \<Rightarrow> 0)
          in if r = 0 then ret 0
             else andthen (set_sectors (foldl (\<lambda>b i. bitmapGenericSet b i True) buff [r..<r + amnt]) lba n)
                  (andthen (update_bgdt grp (bg_free_blocks_update (\<lambda>x. x - of_nat amnt)))
                  (andthen (update_superblock (s_free_blocks_update (\<lambda>x. x - of_nat amnt)))
                  (ret (trunc32 (grp * bpg s + r)))))) s) s)"

definition ext2BlockFind :: "nat \<Rightarrow> nat \<Rightarrow> nat ext2_cmd" where
  "ext2BlockFind groupSuggestion amnt = (\<lambda>s.
     if unat (s_free_blocks (superblock s)) < amnt then Inl Halted
     else bnd (ext2BlockFindL groupSuggestion amnt) (\<lambda>suggested.
       if suggested \<noteq> 0 then ret suggested
       else bnd (find_first (\<lambda>i. ext2BlockFindL i amnt)
                  (filter (\<lambda>i. i \<noteq> groupSuggestion) [0..<blockGroups s]))
         (\<lambda>r. if r \<noteq> 0 then ret r else fail Halted)) s)"

definition ext2BlockDelete :: "nat \<Rightarrow> nat \<Rightarrow> unit ext2_cmd" where
  "ext2BlockDelete grp index =
     bitmap_section spinlock_cnt_write_acquire spinlock_cnt_write_release grp (\<lambda>s.
       let lba = BLOCK_TO_LBA s 0 (unat (block_bitmap (bgdts s ! grp)));
           n = blockSize s div SECTOR_SIZE
       in andthen (check Out_of_bounds (grp < length (bgdts s)))
          (bnd (get_sectors lba n) (\<lambda>buff.
           andthen (check Out_of_bounds (index div 8 < length buff))
           (andthen (set_sectors (bitmapGenericSet buff index False) lba n)
           (andthen (update_bgdt grp (bg_free_blocks_update (\<lambda>x. x + 1)))
           (update_superblock (s_free_blocks_update (\<lambda>x. x + 1))))))) s)"

section \<open>Assigning and chaining\<close>

text \<open>The end of the singly indirect case: load the pointer block, clear it if new, set the entry.\<close>

definition assign_tail ::
  "ext2_sys \<Rightarrow> Ext2LookupControl \<Rightarrow> nat \<Rightarrow> u32 \<Rightarrow> Ext2Inode \<times> bool \<Rightarrow> (Ext2Inode \<times> Ext2LookupControl) ext2_cmd" where
  "assign_tail s control cur val = (\<lambda>(ino, noninit).
     let tmp1block = BLOCK_TO_LBA s 0 (unat (i_blocks ino ! 12)) in
     bnd (load_tmp1 control tmp1block) (\<lambda>control.
     let t = (if noninit then replicate (blockSize s div 4) 0 else tmp1 control) in
     andthen (check Out_of_bounds (cur - 12 < length t))
     (let control' = control\<lparr>tmp1 := t[cur - 12 := val]\<rparr>
      in andthen (set_sectors (bytes_of_words (tmp1 control')) tmp1block (blockSize s div SECTOR_SIZE))
         (ret (ino, control')))))"

definition ext2BlockAssign ::
  "Ext2Inode \<Rightarrow> nat \<Rightarrow> Ext2LookupControl \<Rightarrow> nat \<Rightarrow> u32 \<Rightarrow> (Ext2Inode \<times> Ext2LookupControl) ext2_cmd" where
  "ext2BlockAssign ino inodeNum control cur val = (\<lambda>s.
     let grp = INODE_TO_BLOCK_GROUP 32 s inodeNum;
         itemsPerBlock = blockSize s div 4;
         baseSingly = 12 + itemsPerBlock;
         acquire = bitmap_lock spinlock_cnt_write_acquire grp;
         rel = bitmap_lock spinlock_cnt_write_release grp
     in andthen acquire
        (bnd (if cur < 12 then
                (let ino' = ino\<lparr>i_blocks := (i_blocks ino)[cur := val]\<rparr>
                 in andthen (ext2InodeModifyM inodeNum ino') (ret (ino', control)))
              else if cur < baseSingly then
                bnd (if i_blocks ino ! 12 = 0 then
                       andthen rel
                       (bnd (ext2BlockFind grp 1) (\<lambda>block.
                        andthen acquire
                        (let ino' = ino\<lparr>i_blocks := (i_blocks ino)[12 := of_nat block]\<rparr>
                         in andthen (ext2InodeModifyM inodeNum ino') (ret (ino', True)))))
                     else ret (ino, False)) (assign_tail s control cur val)
              else fail Halted) (\<lambda>r.
         andthen rel (ret r))) s)"

fun chain_loop ::
  "nat \<Rightarrow> Ext2Inode \<Rightarrow> nat \<Rightarrow> Ext2LookupControl \<Rightarrow> nat \<Rightarrow> (u32 list \<times> Ext2LookupControl) ext2_cmd" where
  "chain_loop 0 ino num control cur = ret ([], control)"
| "chain_loop (Suc k) ino num control cur =
     bnd (ext2BlockFetch ino num control cur) (\<lambda>(b, control).
     bnd (chain_loop k ino num control (cur + 1)) (\<lambda>(bs, control).
     ret (b # bs, control)))"

definition ext2BlockChain :: "Ext2OpenFd \<Rightarrow> nat \<Rightarrow> nat \<Rightarrow> (u32 list \<times> Ext2OpenFd) ext2_cmd" where
  "ext2BlockChain fd cur blocks =
     bnd (chain_loop (1 + blocks) (fd_inode fd) (fd_inodeNum fd) (fd_lookup fd) cur) (\<lambda>(r, control).
     ret (r, fd\<lparr>fd_lookup := control\<rparr>))"

section \<open>Reading the block map\<close>

text \<open>
  The reference: \<open>ind_words s b\<close> is the pointer block \<open>b\<close> on disk, \<open>block_of s ino k\<close> the
  block that holds the \<open>k\<close>-th block of the file, 0 for a hole. \<open>control_ok\<close>: the two cached
  pointer blocks agree with the disk.
\<close>

definition ind_words :: "ext2_sys \<Rightarrow> nat \<Rightarrow> u32 list" where
  "ind_words s b = words_of (block_bytes s b)"

definition block_of :: "ext2_sys \<Rightarrow> Ext2Inode \<Rightarrow> nat \<Rightarrow> u32" where
  "block_of s ino k =
     (let p = blockSize s div 4 in
      if k < 12 then i_blocks ino ! k
      else if k < 12 + p then
        (if i_blocks ino ! 12 = 0 then 0 else ind_words s (unat (i_blocks ino ! 12)) ! (k - 12))
      else
        (if i_blocks ino ! 13 = 0 then 0
         else let q = ind_words s (unat (i_blocks ino ! 13)) ! ((k - 12 - p) div p)
              in if q = 0 then 0 else ind_words s (unat q) ! ((k - 12 - p) mod p)))"

definition file_blocks_max :: "('x Ext2_scheme) \<Rightarrow> nat" where
  "file_blocks_max s = 12 + blockSize s div 4 + (blockSize s div 4) * (blockSize s div 4)"

definition ptrs_ok :: "ext2_sys \<Rightarrow> Ext2Inode \<Rightarrow> bool" where
  "ptrs_ok s ino \<longleftrightarrow> inode_ok ino \<and> unat (i_blocks ino ! 12) < nblocks s \<and> unat (i_blocks ino ! 13) < nblocks s \<and>
     (i_blocks ino ! 13 \<noteq> 0 \<longrightarrow>
        (\<forall>q \<in> set (ind_words s (unat (i_blocks ino ! 13))). unat q < nblocks s))"

definition cached_ok :: "ext2_sys \<Rightarrow> nat \<Rightarrow> u32 list \<Rightarrow> bool" where
  "cached_ok s lba ws \<longleftrightarrow> length ws = blockSize s div 4 \<and>
     (lba \<noteq> 0 \<longrightarrow> ws = words_of (dev_seg (dev s) (lba * SECTOR_SIZE) (blockSize s)))"

definition control_ok :: "ext2_sys \<Rightarrow> Ext2LookupControl \<Rightarrow> bool" where
  "control_ok s c \<longleftrightarrow> cached_ok s (tmp1Block c) (tmp1 c) \<and> cached_ok s (tmp2Block c) (tmp2 c)"

text \<open>The pointer blocks of a file, and a control that caches no other block.\<close>

definition ptr_set :: "ext2_sys \<Rightarrow> Ext2Inode \<Rightarrow> u32 set" where
  "ptr_set s ino = (if i_blocks ino ! 12 = 0 then {} else {i_blocks ino ! 12}) \<union>
     (if i_blocks ino ! 13 = 0 then {}
      else insert (i_blocks ino ! 13) (set (ind_words s (unat (i_blocks ino ! 13))) - {0}))"

definition control_in :: "ext2_sys \<Rightarrow> Ext2Inode \<Rightarrow> Ext2LookupControl \<Rightarrow> bool" where
  "control_in s ino c \<longleftrightarrow> (let L = insert 0 ((\<lambda>b. BLOCK_TO_LBA s 0 (unat b)) ` ptr_set s ino)
     in tmp1Block c \<in> L \<and> tmp2Block c \<in> L)"

lemma length_ind_words [simp]: "length (ind_words s b) = blockSize s div 4"
  by (simp add: ind_words_def)

lemma control_ok_init [simp]: "control_ok s (ext2BlockFetchInit s control0)"
  by (simp add: control_ok_def cached_ok_def ext2BlockFetchInit_def control0_def)

lemma control_ok_frame [simp]:
  "control_ok (s\<lparr>WLOCKS_BLOCK_BITMAP := L\<rparr>) = control_ok s"
  "control_ok (s\<lparr>WLOCKS_INODE := L\<rparr>) = control_ok s"
  by (simp_all add: control_ok_def cached_ok_def fun_eq_iff)

lemma load_tmp_run:
  assumes "ext2_geom s" "control_ok s c" "b < nblocks s" "b \<noteq> 0"
  shows "\<exists>c'. load_tmp1 c (BLOCK_TO_LBA s 0 b) s = Inr (c', s) \<and> control_ok s c' \<and> tmp1 c' = ind_words s b \<and>
      tmp2 c' = tmp2 c \<and> tmp2Block c' = tmp2Block c \<and> tmp1Block c' = BLOCK_TO_LBA s 0 b"
    "\<exists>c'. load_tmp2 c (BLOCK_TO_LBA s 0 b) s = Inr (c', s) \<and> control_ok s c' \<and> tmp2 c' = ind_words s b \<and>
      tmp1Block c' = tmp1Block c \<and> tmp2Block c' = BLOCK_TO_LBA s 0 b"
proof -
  note g = ext2_geom_simps [OF assms(1)]
  have lba: "BLOCK_TO_LBA s 0 b \<noteq> 0"
    using assms(4) block_size_ok_facts(2) [OF g(2)] by (simp add: BLOCK_TO_LBA_spb [OF g(2)] spb_def)
  have pos: "BLOCK_TO_LBA s 0 b * SECTOR_SIZE = block_pos s b"
    by (rule BLOCK_TO_LBA_pos [OF g(2)])
  have "words_of (dev_seg (dev s) (BLOCK_TO_LBA s 0 b * SECTOR_SIZE) (blockSize s)) = ind_words s b"
    by (simp add: ind_words_def block_bytes_def pos)
  with lba get_block_run [OF assms(1,3)] assms(2)
  show "\<exists>c'. load_tmp1 c (BLOCK_TO_LBA s 0 b) s = Inr (c', s) \<and> control_ok s c' \<and> tmp1 c' = ind_words s b \<and>
      tmp2 c' = tmp2 c \<and> tmp2Block c' = tmp2Block c \<and> tmp1Block c' = BLOCK_TO_LBA s 0 b"
    "\<exists>c'. load_tmp2 c (BLOCK_TO_LBA s 0 b) s = Inr (c', s) \<and> control_ok s c' \<and> tmp2 c' = ind_words s b \<and>
      tmp1Block c' = tmp1Block c \<and> tmp2Block c' = BLOCK_TO_LBA s 0 b"
    by (auto simp: load_tmp1_def load_tmp2_def cmd_simps control_ok_def cached_ok_def ind_words_def)
qed

lemma items_per_block:
  assumes "ext2_geom s"
  shows "256 \<le> blockSize s div 4" "blockSize s div 4 \<le> 8192" "4 * (blockSize s div 4) = blockSize s"
  using block_size_ok_facts(3,4,6) [OF ext2_geom_simps(2) [OF assms]] by simp_all

lemma control_in_load:
  assumes "control_in s ino c" "b \<in> ptr_set s ino"
  shows "tmp1Block c' = BLOCK_TO_LBA s 0 (unat b) \<Longrightarrow> tmp2Block c' = tmp2Block c \<Longrightarrow> control_in s ino c'"
    "tmp2Block c' = BLOCK_TO_LBA s 0 (unat b) \<Longrightarrow> tmp1Block c' = tmp1Block c \<Longrightarrow> control_in s ino c'"
  using assms by (auto simp: control_in_def Let_def)

lemma control_in_init [simp]: "control_in s ino (ext2BlockFetchInit s control0)"
  by (simp add: control_in_def ext2BlockFetchInit_def control0_def)

lemma fetch_body_run:
  assumes "ext2_geom s" "ptrs_ok s ino" "control_ok s c" "cur < file_blocks_max s"
  shows "\<exists>c'. fetch_body ino c cur s = Inr ((block_of s ino cur, c'), s) \<and> control_ok s c' \<and>
    (control_in s ino c \<longrightarrow> control_in s ino c')"
proof -
  let ?p = "blockSize s div 4"
  note p = items_per_block [OF assms(1)]
  have ok: "unat (i_blocks ino ! 12) < nblocks s" "unat (i_blocks ino ! 13) < nblocks s"
    using assms(2) by (simp_all add: ptrs_ok_def)
  consider (direct) "cur < 12" | (singly) "12 \<le> cur" "cur < 12 + ?p" | (doubly) "12 + ?p \<le> cur"
    by linarith
  then show ?thesis
  proof cases
    case direct
    then show ?thesis
      using assms(3) by (simp add: fetch_body_def block_of_def Let_def)
  next
    case singly
    show ?thesis
    proof (cases "i_blocks ino ! 12 = 0")
      case True
      with singly assms(3) show ?thesis
        by (simp add: fetch_body_def block_of_def Let_def)
    next
      case False
      then have "unat (i_blocks ino ! 12) \<noteq> 0"
        by (simp add: unat_eq_0)
      from load_tmp_run(1) [OF assms(1,3) ok(1) this] obtain c' where
        "load_tmp1 c (BLOCK_TO_LBA s 0 (unat (i_blocks ino ! 12))) s = Inr (c', s)" "control_ok s c'"
        "tmp1 c' = ind_words s (unat (i_blocks ino ! 12))"
        "control_in s ino c \<longrightarrow> control_in s ino c'"
        using False control_in_load(1) [of s ino c "i_blocks ino ! 12"] by (auto simp: ptr_set_def)
      with False singly show ?thesis
        by (simp add: fetch_body_def block_of_def Let_def cmd_simps word_at_def)
    qed
  next
    case doubly
    define at where "at = cur - 12 - ?p"
    define dv where "dv = at div ?p"
    define md where "md = at mod ?p"
    have at: "at < ?p * ?p"
      using assms(4) doubly p(1) by (simp add: file_blocks_max_def at_def)
    then have idx: "dv < ?p" "md < ?p"
      using p(1) by (simp_all add: less_mult_imp_div_less dv_def md_def)
    have "?p * ?p \<le> blockSize s * ?p"
      by (intro mult_le_mono1) simp
    with at have "at < blockSize s * ?p"
      by linarith
    with doubly have base: "\<not> cur < 12" "\<not> cur < 12 + ?p" "cur < 12 + ?p + blockSize s * ?p"
      "cur - (12 + ?p) = at"
      by (auto simp: at_def)
    have small: "trunc32 k = k" if "k < ?p" for k
      using less_le_trans [OF that p(2)] by simp
    have t: "trunc32 (at div ?p) = dv" "trunc32 (at mod ?p) = md"
      using small [OF idx(1)] small [OF idx(2)] by (simp_all add: dv_def md_def)
    have spec: "block_of s ino cur = (if i_blocks ino ! 13 = 0 then 0
         else let q = ind_words s (unat (i_blocks ino ! 13)) ! dv in if q = 0 then 0 else ind_words s (unat q) ! md)"
      unfolding block_of_def Let_def dv_def md_def at_def by (simp only: base if_False)
    have code: "fetch_body ino c cur s =
       (if i_blocks ino ! 13 \<noteq> 0 then
          bnd (load_tmp1 c (BLOCK_TO_LBA s 0 (unat (i_blocks ino ! 13)))) (\<lambda>control.
          bnd (lift (word_at (tmp1 control) dv)) (\<lambda>p.
             if p \<noteq> 0 then
               bnd (load_tmp2 control (BLOCK_TO_LBA s 0 (unat p))) (\<lambda>control.
               bnd (lift (word_at (tmp2 control) md)) (\<lambda>result.
               ret (result, control)))
             else ret (0, control))) s
        else Inr ((0, c), s))"
      unfolding fetch_body_def Let_def by (simp only: base t if_False if_True)
    show ?thesis
    proof (cases "i_blocks ino ! 13 = 0")
      case True
      with assms(3) show ?thesis
        by (simp add: code spec)
    next
      case False
      then have "unat (i_blocks ino ! 13) \<noteq> 0"
        by (simp add: unat_eq_0)
      from load_tmp_run(1) [OF assms(1,3) ok(2) this] obtain c1 where
        c1: "load_tmp1 c (BLOCK_TO_LBA s 0 (unat (i_blocks ino ! 13))) s = Inr (c1, s)" "control_ok s c1"
        "tmp1 c1 = ind_words s (unat (i_blocks ino ! 13))"
        "control_in s ino c \<longrightarrow> control_in s ino c1"
        using False control_in_load(1) [of s ino c "i_blocks ino ! 13"] by (auto simp: ptr_set_def)
      define q where "q = ind_words s (unat (i_blocks ino ! 13)) ! dv"
      have q: "unat q < nblocks s"
        using assms(2) False idx(1) by (simp add: ptrs_ok_def q_def)
      have rd: "word_at (tmp1 c1) dv = Inr q"
        using idx(1) by (simp add: word_at_def c1(3) q_def)
      show ?thesis
      proof (cases "q = 0")
        case True
        with False c1(1,2,4) rd show ?thesis
          by (simp add: code spec cmd_simps flip: q_def)
      next
        case qn: False
        then have "unat q \<noteq> 0"
          by (simp add: unat_eq_0)
        from load_tmp_run(2) [OF assms(1) c1(2) q this] obtain c2 where
          c2: "load_tmp2 c1 (BLOCK_TO_LBA s 0 (unat q)) s = Inr (c2, s)" "control_ok s c2"
          "tmp2 c2 = ind_words s (unat q)" "control_in s ino c1 \<longrightarrow> control_in s ino c2"
          using False qn idx(1) control_in_load(2) [of s ino c1 q] by (auto simp: ptr_set_def q_def)
        have "word_at (tmp2 c2) md = Inr (ind_words s (unat q) ! md)"
          using idx(2) by (simp add: word_at_def c2(3))
        with False qn c1(1,4) rd c2(1,2,4) show ?thesis
          by (simp add: code spec cmd_simps flip: q_def)
      qed
    qed
  qed
qed

lemma ind_words_frame [simp]:
  "ind_words (s\<lparr>WLOCKS_BLOCK_BITMAP := L\<rparr>) b = ind_words s b"
  "ind_words (s\<lparr>WLOCKS_INODE := L\<rparr>) b = ind_words s b"
  by (simp_all add: ind_words_def)

lemma block_map_frame [simp]:
  "ptrs_ok (s\<lparr>WLOCKS_BLOCK_BITMAP := L\<rparr>) ino = ptrs_ok s ino"
  "block_of (s\<lparr>WLOCKS_BLOCK_BITMAP := L\<rparr>) ino k = block_of s ino k"
  "file_blocks_max (s\<lparr>WLOCKS_BLOCK_BITMAP := L\<rparr>) = file_blocks_max s"
  "control_in (s\<lparr>WLOCKS_BLOCK_BITMAP := L\<rparr>) ino c = control_in s ino c"
  by (simp_all add: ptrs_ok_def block_of_def file_blocks_max_def control_in_def ptr_set_def Let_def)

lemma ext2BlockFetch_run:
  assumes "ext2_geom s" "inode_num_ok s n" "ptrs_ok s ino" "control_ok s c" "cur < file_blocks_max s"
    "0 \<le> WLOCKS_BLOCK_BITMAP s ! inode_group s n"
  shows "\<exists>c'. ext2BlockFetch ino n c cur s = Inr ((block_of s ino cur, c'), s) \<and> control_ok s c' \<and>
    (control_in s ino c \<longrightarrow> control_in s ino c')"
proof -
  let ?g = "inode_group s n" and ?L = "WLOCKS_BLOCK_BITMAP s"
  let ?s = "s\<lparr>WLOCKS_BLOCK_BITMAP := ?L[?g := ?L ! ?g + 1]\<rparr>"
  have "?g < length ?L"
    using assms(1,2) ext2_geom_simps(12) by (auto simp: inode_num_ok_def)
  moreover obtain c' where c': "fetch_body ino c cur ?s = Inr ((block_of s ino cur, c'), ?s)" "control_ok s c'"
      "control_in s ino c \<longrightarrow> control_in s ino c'"
    using fetch_body_run [of ?s ino c cur] assms by auto
  moreover have "INODE_TO_BLOCK_GROUP 32 s n = ?g"
    by (rule inode_macros(3) [OF assms(2)])
  ultimately have "ext2BlockFetch ino n c cur s = Inr ((block_of s ino cur, c'), s)"
    unfolding ext2BlockFetch_def using assms(6)
    by (intro bitmap_section_run [where l = "?L ! ?g + 1"]) (simp_all add: spinlock_cnt_defs)
  with c' show ?thesis
    by blast
qed

text \<open>
  C9. \<open>ext2BlockFetch\<close> is the block map: on a well-formed volume, for every block index up to
  the doubly indirect range, it returns the block the on-disk pointers give (\<open>block_of\<close>),
  whatever coherent pointer blocks the lookup control has cached, and leaves the control
  coherent and the file system unchanged.
\<close>

theorem ext2BlockFetch_correct:
  assumes "ext2_wf s" "inode_num_ok s n" "ptrs_ok s ino" "control_ok s c" "cur < file_blocks_max s"
  shows "\<exists>c'. ext2BlockFetch ino n c cur s = Inr ((block_of s ino cur, c'), s) \<and> control_ok s c'"
  using ext2BlockFetch_run [of s n ino c cur] assms by (auto simp: ext2_wf_def locks_free_def inode_num_ok_def)

text \<open>
  C12. The bound of the doubly indirect range is wrong in the code: \<^verbatim>\<open>baseDoubly\<close> multiplies by
  the block size in bytes instead of the pointers per block, so the next three ranges of
  the same size are still taken as doubly indirect and index the pointer block \<^verbatim>\<open>tmp1\<close> past
  its end, where the code for a triply indirect block should have stopped.
\<close>

theorem ext2BlockFetch_overrun:
  assumes "ext2_wf s" "inode_num_ok s n" "ptrs_ok s ino" "control_ok s c" "i_blocks ino ! 13 \<noteq> 0"
    "file_blocks_max s \<le> cur" "cur < 12 + blockSize s div 4 + blockSize s * (blockSize s div 4)"
  shows "ext2BlockFetch ino n c cur s = Inl Out_of_bounds"
proof -
  let ?p = "blockSize s div 4" and ?g = "inode_group s n" and ?L = "WLOCKS_BLOCK_BITMAP s"
  have geom: "ext2_geom s" and free: "locks_free s"
    using assms(1) by (simp_all add: ext2_wf_def)
  note p = items_per_block [OF geom]
  let ?s = "s\<lparr>WLOCKS_BLOCK_BITMAP := ?L[?g := ?L ! ?g + 1]\<rparr>"
  let ?at = "cur - (12 + ?p)"
  have at: "?p * ?p \<le> ?at" "?at < blockSize s * ?p"
    using assms(6,7) by (simp_all add: file_blocks_max_def)
  then have idx: "?p \<le> ?at div ?p" "?at div ?p < blockSize s"
    using p(1) by (simp_all add: less_eq_div_iff_mult_less_eq less_mult_imp_div_less)
  have trunc: "trunc32 (?at div ?p) = ?at div ?p"
    using idx(2) block_size_ok_facts(4) [OF ext2_geom_simps(2) [OF geom]] by simp
  have n13: "unat (i_blocks ino ! 13) \<noteq> 0" "unat (i_blocks ino ! 13) < nblocks s"
    using assms(3,5) by (simp_all add: unat_eq_0 ptrs_ok_def)
  from load_tmp_run(1) [of ?s c, OF _ _ _ n13(1)] n13 geom assms(4) obtain c1 where
    c1: "load_tmp1 c (BLOCK_TO_LBA s 0 (unat (i_blocks ino ! 13))) ?s = Inr (c1, ?s)"
      "length (tmp1 c1) = ?p"
    by auto
  have "\<not> cur < 12" "\<not> cur < 12 + ?p"
    using assms(6) p(1) by (simp_all add: file_blocks_max_def)
  with c1 trunc idx assms(5,7) have "fetch_body ino c cur ?s = Inl Out_of_bounds"
    by (simp add: fetch_body_def Let_def cmd_simps word_at_def)
  moreover have "?g < length ?L" "?L ! ?g = 0"
    using assms(2) geom free ext2_geom_simps(12) by (auto simp: inode_num_ok_def locks_free_def)
  ultimately show ?thesis
    unfolding ext2BlockFetch_def inode_macros(3) [OF assms(2)] bitmap_section_def
    by (simp add: cmd_simps bitmap_lock_run spinlock_cnt_defs)
qed

section \<open>Allocation of runs of blocks\<close>

definition block_map :: "ext2_sys \<Rightarrow> nat \<Rightarrow> byte list" where
  "block_map s grp = block_bytes s (unat (block_bitmap (bgdts s ! grp)))"

lemma length_block_map [simp]: "length (block_map s grp) = blockSize s"
  by (simp add: block_map_def)

lemma scan_blocks_first_fit:
  "scan_blocks b amnt k blk n = first_fit (bitmapGenericGet b) (8 * length b) amnt k blk n"
proof (induction b amnt k blk n rule: scan_blocks.induct)
  case (1 b amnt k blk n)
  then show ?case
    by (simp add: scan_blocks.simps [of b amnt k] first_fit.simps [of _ _ _ k] bitmapGenericGet_def Let_def)
qed

definition blocks_taken :: "ext2_sys \<Rightarrow> nat \<Rightarrow> nat \<Rightarrow> nat \<Rightarrow> ext2_sys" where
  "blocks_taken s grp r amnt =
     committed s (unat (block_bitmap (bgdts s ! grp)))
       (foldl (\<lambda>b i. bitmapGenericSet b i True) (block_map s grp) [r..<r + amnt]) grp
       (bg_free_blocks_update (\<lambda>x. x - of_nat amnt)) (s_free_blocks_update (\<lambda>x. x - of_nat amnt))"

lemma ext2BlockFindL_run:
  fixes amnt :: nat
  assumes "ext2_geom s" "grp < blockGroups s" "WLOCKS_BLOCK_BITMAP s ! grp = 0"
    "\<not> LOCK_BGDT_WRITE s" "\<not> LOCK_SUPERBLOCK_WRITE s"
  defines "r \<equiv> (case scan_blocks (block_map s grp) amnt 0 0 0 of Some k \<Rightarrow> k | None \<Rightarrow> 0)"
  shows "ext2BlockFindL grp amnt s =
    (if unat (bg_free_blocks (bgdts s ! grp)) < amnt \<or> r = 0 then Inr (0, s)
     else Inr (trunc32 (grp * bpg s + r), blocks_taken s grp r amnt))"
proof -
  note b = inode_bitmap_block [OF assms(1,2)] and g = ext2_geom_simps [OF assms(1)] and l = assms(3-5)
  let ?s = "s\<lparr>WLOCKS_BLOCK_BITMAP := (WLOCKS_BLOCK_BITMAP s)[grp := - 1]\<rparr>"
  have geom: "ext2_geom ?s"
    using assms(1) by simp
  have fetch: "get_sectors (BLOCK_TO_LBA s 0 (unat (block_bitmap (bgdts s ! grp))))
      (blockSize s div SECTOR_SIZE) ?s = Inr (block_map s grp, ?s)"
    using get_block_run [OF geom, of "unat (block_bitmap (bgdts s ! grp))"] b(2)
    by (simp add: block_map_def)
  let ?m = "foldl (\<lambda>b i. bitmapGenericSet b i True) (block_map s grp) [r..<r + amnt]"
  have commit: "andthen (set_sectors ?m (BLOCK_TO_LBA s 0 (unat (block_bitmap (bgdts s ! grp))))
        (blockSize s div SECTOR_SIZE))
      (andthen (update_bgdt grp (bg_free_blocks_update (\<lambda>x. x - of_nat amnt)))
        (andthen (update_superblock (s_free_blocks_update (\<lambda>x. x - of_nat amnt))) (ret v))) ?s =
      Inr (v, (blocks_taken s grp r amnt)\<lparr>WLOCKS_BLOCK_BITMAP := (WLOCKS_BLOCK_BITMAP s)[grp := - 1]\<rparr>)" for v
    using commit_run(1) [OF geom, of "unat (block_bitmap (bgdts s ! grp))" ?m grp _ _ "ret v"] b l
    by (simp add: ret_run committed_locks blocks_taken_def)
  have in_range: "\<not> length (bgdts s) \<le> grp"
    using b(3) by simp
  show ?thesis
  proof (cases "unat (bg_free_blocks (bgdts s ! grp)) < amnt")
    case True
    with in_range show ?thesis
      by (simp add: ext2BlockFindL_def)
  next
    case free: False
    have "ext2BlockFindL grp amnt s = Inr (0, s)" if "r = 0"
      unfolding ext2BlockFindL_def if_not_P [OF in_range] if_not_P [OF free]
      by (rule bitmap_section_run [where l = "- 1"])
         (use that g(12) assms(2) l fetch in \<open>simp_all add: spinlock_cnt_defs cmd_simps Let_def flip: r_def\<close>)
    moreover have "ext2BlockFindL grp amnt s = Inr (trunc32 (grp * bpg s + r), blocks_taken s grp r amnt)" if "r \<noteq> 0"
      unfolding ext2BlockFindL_def if_not_P [OF in_range] if_not_P [OF free]
      by (rule bitmap_section_run [where l = "- 1"])
         (use that g(12) assms(2) l in
           \<open>simp_all add: spinlock_cnt_defs bnd_run fetch commit Let_def blocks_taken_def flip: r_def\<close>)
    ultimately show ?thesis
      using free by simp
  qed
qed

lemma blocks_taken_wf:
  "ext2_wf s \<Longrightarrow> grp < blockGroups s \<Longrightarrow> ext2_wf (blocks_taken s grp r amnt)"
  "ext2_geom s \<Longrightarrow> grp < blockGroups s \<Longrightarrow> ext2_geom (blocks_taken s grp r amnt)"
  unfolding blocks_taken_def
  by (intro committed_wf committed_geom; auto simp: ext2_wf_def dest: inode_bitmap_block(3))+

lemma block_map_taken:
  assumes "ext2_geom s" "grp < blockGroups s"
    "meta_free s (block_pos s (unat (block_bitmap (bgdts s ! grp)))) (blockSize s)"
  shows "block_map (blocks_taken s grp r amnt) grp =
    foldl (\<lambda>b i. bitmapGenericSet b i True) (block_map s grp) [r..<r + amnt]"
  using assms inode_bitmap_block(3) [OF assms(1,2)]
  by (simp add: block_map_def block_bytes_def blocks_taken_def committed_geometry committed_dev_seg)

lemma unat_minus_of_nat:
  fixes x :: "'a :: len word"
  assumes "n \<le> unat x"
  shows "unat (x - of_nat n) = unat x - n"
proof -
  have "n < 2 ^ LENGTH('a)"
    using assms unsigned_less [of x, where 'a = nat] by linarith
  then have "unat (of_nat n :: 'a word) = n"
    by (simp add: unsigned_of_nat take_bit_nat_eq_self)
  with assms show ?thesis
    by (simp add: unat_sub word_le_nat_alt)
qed

lemma get_taken:
  assumes "r + amnt \<le> 8 * length b" "j < 8 * length b"
  shows "bitmapGenericGet (foldl (\<lambda>b i. bitmapGenericSet b i True) b [r..<r + amnt]) j =
    (bitmapGenericGet b j \<or> r \<le> j \<and> j < r + amnt)"
  using assms by (subst gbits.get_fold) auto

text \<open>
  Block allocation is first fit: if \<open>r > 0\<close> is the lowest index at which the bitmap of the
  group has \<open>amnt\<close> free blocks in a row, \<open>ext2BlockFindL\<close> returns the first block of that run,
  marks exactly these \<open>amnt\<close> bits, and takes \<open>amnt\<close> off the free counters of the group and
  of the superblock, which cannot underflow. No lock is left held.
\<close>

theorem ext2BlockFindL_first_fit:
  assumes "ext2_wf s" "grp < blockGroups s" "0 < amnt" "0 < r"
    "amnt \<le> unat (bg_free_blocks (bgdts s ! grp))" "amnt \<le> unat (s_free_blocks (superblock s))"
    "meta_free s (block_pos s (unat (block_bitmap (bgdts s ! grp)))) (blockSize s)"
    "free_at (bitmapGenericGet (block_map s grp)) (8 * blockSize s) r amnt"
    "\<forall>q < r. \<not> free_at (bitmapGenericGet (block_map s grp)) (8 * blockSize s) q amnt"
  shows "\<exists>s'. ext2BlockFindL grp amnt s = Inr (trunc32 (grp * bpg s + r), s') \<and> ext2_wf s' \<and>
    (\<forall>j < 8 * blockSize s. bitmapGenericGet (block_map s' grp) j =
        (bitmapGenericGet (block_map s grp) j \<or> r \<le> j \<and> j < r + amnt)) \<and>
    unat (bg_free_blocks (bgdts s' ! grp)) = unat (bg_free_blocks (bgdts s ! grp)) - amnt \<and>
    unat (s_free_blocks (superblock s')) = unat (s_free_blocks (superblock s)) - amnt"
proof -
  have w: "ext2_geom s" "locks_free s"
    using assms(1) by (simp_all add: ext2_wf_def)
  have l: "WLOCKS_BLOCK_BITMAP s ! grp = 0" "\<not> LOCK_BGDT_WRITE s" "\<not> LOCK_SUPERBLOCK_WRITE s"
    using w(2) assms(2) by (simp_all add: locks_free_def)
  have bound: "r + amnt \<le> 8 * blockSize s"
    using assms(8) by (simp add: free_at_def)
  have scan: "scan_blocks (block_map s grp) amnt 0 0 0 = Some r"
    using first_fit_start [where n = amnt and used = "bitmapGenericGet (block_map s grp)"
        and lim = "8 * blockSize s" and i = 0] assms(3,8,9)
    by (auto simp: scan_blocks_first_fit split: option.splits) (meson linorder_neqE_nat)
  have run: "ext2BlockFindL grp amnt s = Inr (trunc32 (grp * bpg s + r), blocks_taken s grp r amnt)"
    using ext2BlockFindL_run [OF w(1) assms(2) l, of amnt] scan assms(4,5) by simp
  have grp: "grp < length (bgdts s)"
    by (rule inode_bitmap_block(3) [OF w(1) assms(2)])
  have "bitmapGenericGet (block_map (blocks_taken s grp r amnt) grp) j =
      (bitmapGenericGet (block_map s grp) j \<or> r \<le> j \<and> j < r + amnt)" if "j < 8 * blockSize s" for j
    using that bound by (simp add: block_map_taken [OF w(1) assms(2,7)] get_taken)
  moreover have "unat (bg_free_blocks (bgdts (blocks_taken s grp r amnt) ! grp)) =
      unat (bg_free_blocks (bgdts s ! grp)) - amnt"
    "unat (s_free_blocks (superblock (blocks_taken s grp r amnt))) = unat (s_free_blocks (superblock s)) - amnt"
    using grp assms(5,6) by (simp_all add: blocks_taken_def unat_minus_of_nat)
  ultimately show ?thesis
    using run blocks_taken_wf(1) [OF assms(1,2)] by blast
qed

lemma ext2BlockDelete_run:
  assumes "ext2_wf s" "grp < blockGroups s" "index < 8 * blockSize s"
  shows "ext2BlockDelete grp index s =
    Inr ((), committed s (unat (block_bitmap (bgdts s ! grp))) (bitmapGenericSet (block_map s grp) index False) grp
       (bg_free_blocks_update (\<lambda>x. x + 1)) (s_free_blocks_update (\<lambda>x. x + 1)))"
proof -
  have w: "ext2_geom s" "locks_free s"
    using assms(1) by (simp_all add: ext2_wf_def)
  note b = inode_bitmap_block [OF w(1) assms(2)] and g = ext2_geom_simps [OF w(1)]
  have l: "WLOCKS_BLOCK_BITMAP s ! grp = 0" "\<not> LOCK_BGDT_WRITE s" "\<not> LOCK_SUPERBLOCK_WRITE s"
    using w(2) assms(2) by (simp_all add: locks_free_def)
  let ?s = "s\<lparr>WLOCKS_BLOCK_BITMAP := (WLOCKS_BLOCK_BITMAP s)[grp := - 1]\<rparr>"
  have geom: "ext2_geom ?s"
    using w(1) by simp
  have idx: "index div 8 < blockSize s"
    using assms(3) by linarith
  have fetch: "get_sectors (BLOCK_TO_LBA s 0 (unat (block_bitmap (bgdts s ! grp))))
      (blockSize s div SECTOR_SIZE) ?s = Inr (block_map s grp, ?s)"
    using get_block_run [OF geom, of "unat (block_bitmap (bgdts s ! grp))"] b(2)
    by (simp add: block_map_def)
  have commit: "andthen (set_sectors (bitmapGenericSet (block_map s grp) index False)
        (BLOCK_TO_LBA s 0 (unat (block_bitmap (bgdts s ! grp)))) (blockSize s div SECTOR_SIZE))
      (andthen (update_bgdt grp (bg_free_blocks_update (\<lambda>x. x + 1)))
        (update_superblock (s_free_blocks_update (\<lambda>x. x + 1)))) ?s =
      Inr ((), (committed s (unat (block_bitmap (bgdts s ! grp))) (bitmapGenericSet (block_map s grp) index False) grp
         (bg_free_blocks_update (\<lambda>x. x + 1)) (s_free_blocks_update (\<lambda>x. x + 1)))
         \<lparr>WLOCKS_BLOCK_BITMAP := (WLOCKS_BLOCK_BITMAP s)[grp := - 1]\<rparr>)"
    using commit_run(2) [OF geom, of "unat (block_bitmap (bgdts s ! grp))"
        "bitmapGenericSet (block_map s grp) index False" grp] b l
    by (simp add: committed_locks)
  show ?thesis
    unfolding ext2BlockDelete_def Let_def
    by (rule bitmap_section_run [where l = "- 1"])
       (use b(3) g(12) assms(2) l idx in \<open>simp_all add: spinlock_cnt_defs bnd_run andthen_step check_run fetch commit\<close>)
qed

section \<open>The set of used blocks\<close>

text \<open>
  The abstract view of allocation: which blocks of the volume are in use. \<open>bitmaps_apart\<close>: the
  block bitmaps are different blocks and no copy of the metadata overlaps them; \<open>padded\<close>: as
  mkfs leaves it, the bits of a bitmap beyond the blocks of its group are set.
\<close>

definition block_used :: "ext2_sys \<Rightarrow> nat \<Rightarrow> bool" where
  "block_used s b = bitmapGenericGet (block_map s (b div bpg s)) (b mod bpg s)"

definition bitmaps_apart :: "ext2_sys \<Rightarrow> bool" where
  "bitmaps_apart s \<longleftrightarrow>
     (\<forall>g < blockGroups s. meta_free s (block_pos s (unat (block_bitmap (bgdts s ! g)))) (blockSize s)) \<and>
     (\<forall>g < blockGroups s. \<forall>h < blockGroups s. g \<noteq> h \<longrightarrow>
        block_bitmap (bgdts s ! g) \<noteq> block_bitmap (bgdts s ! h))"

definition group_size :: "('x Ext2_scheme) \<Rightarrow> nat \<Rightarrow> nat" where
  "group_size s grp = min (bpg s) (nblocks s - grp * bpg s)"

definition padded :: "ext2_sys \<Rightarrow> bool" where
  "padded s \<longleftrightarrow> (\<forall>g < blockGroups s. \<forall>j. group_size s g \<le> j \<and> j < 8 * blockSize s \<longrightarrow>
     bitmapGenericGet (block_map s g) j)"

lemma block_pos_apart:
  assumes "a \<noteq> b"
  shows "block_pos s a + blockSize s \<le> block_pos s b \<or> block_pos s b + blockSize s \<le> block_pos s a"
proof -
  have mono: "i * z + z \<le> j * z" if "i < j" for i j z :: nat
    using mult_le_mono1 [OF Suc_leI [OF that], of z] by simp
  from assms have "a < b \<or> b < a"
    by linarith
  then show ?thesis
    using mono [of a b "blockSize s"] mono [of b a "blockSize s"] by (auto simp: block_pos_def)
qed

lemma block_map_taken_other:
  assumes "ext2_geom s" "grp < blockGroups s" "h < blockGroups s" "h \<noteq> grp" "bitmaps_apart s"
  shows "block_map (blocks_taken s grp r amnt) h = block_map s h"
proof -
  let ?b = "unat (block_bitmap (bgdts s ! grp))" and ?c = "unat (block_bitmap (bgdts s ! h))"
  have "?b \<noteq> ?c"
    using assms(2-5) by (auto simp: bitmaps_apart_def dest: word_unat_eq_iff [THEN iffD2])
  moreover have "meta_free s (block_pos s ?c) (blockSize s)"
    using assms(3,5) by (simp add: bitmaps_apart_def)
  ultimately show ?thesis
    using assms(1,4) inode_bitmap_block(3) [OF assms(1,2)] block_pos_apart [of ?b ?c s]
    by (simp add: block_map_def block_bytes_def blocks_taken_def committed_geometry committed_dev_seg
        dev_seg_patch_other)
qed

lemma run_in_group:
  assumes "padded s" "grp < blockGroups s" "0 < amnt"
    "free_at (bitmapGenericGet (block_map s grp)) (8 * blockSize s) r amnt"
  shows "r + amnt \<le> group_size s grp"
proof (rule ccontr)
  assume "\<not> r + amnt \<le> group_size s grp"
  then have "group_size s grp \<le> r + amnt - 1" "r \<le> r + amnt - 1" "r + amnt - 1 < r + amnt"
    using assms(3) by auto
  moreover have "r + amnt \<le> 8 * blockSize s"
    using assms(4) by (simp add: free_at_def)
  ultimately show False
    using assms(1,2,4) unfolding padded_def free_at_def by (meson less_le_trans)
qed

lemma block_used_taken:
  assumes "ext2_geom s" "grp < blockGroups s" "bitmaps_apart s" "r + amnt \<le> group_size s grp"
    "b < nblocks s" "b div bpg s < blockGroups s"
  shows "block_used (blocks_taken s grp r amnt) b =
    (block_used s b \<or> grp * bpg s + r \<le> b \<and> b < grp * bpg s + r + amnt)"
proof -
  note g = ext2_geom_simps [OF assms(1)]
  let ?s = "blocks_taken s grp r amnt" and ?h = "b div bpg s" and ?j = "b mod bpg s"
  have eqs: "bpg ?s = bpg s" "blockSize ?s = blockSize s"
    by (simp_all add: blocks_taken_def committed_geometry)
  have b: "b = ?h * bpg s + ?j"
    by simp
  have j: "?j < bpg s"
    using g(3) by simp
  have ra: "r + amnt \<le> bpg s"
    using assms(4) by (simp add: group_size_def)
  show ?thesis
  proof (cases "?h = grp")
    case True
    have "bitmapGenericGet (block_map ?s grp) ?j = (bitmapGenericGet (block_map s grp) ?j \<or> r \<le> ?j \<and> ?j < r + amnt)"
      using assms(2,3) g(4) j ra
      by (subst block_map_taken [OF assms(1,2)]) (simp_all add: bitmaps_apart_def get_taken)
    moreover have shift: "(x + r \<le> y \<and> y < x + r + amnt) = (r \<le> j \<and> j < r + amnt)" if "y = x + j" for x y j
      using that by auto
    have "(grp * bpg s + r \<le> b \<and> b < grp * bpg s + r + amnt) = (r \<le> ?j \<and> ?j < r + amnt)"
      by (rule shift) (use b in \<open>simp only: True\<close>)
    ultimately show ?thesis
      using True by (simp add: block_used_def eqs)
  next
    case False
    have "\<not> (grp * bpg s + r \<le> b \<and> b < grp * bpg s + r + amnt)"
    proof
      assume "grp * bpg s + r \<le> b \<and> b < grp * bpg s + r + amnt"
      then have "grp * bpg s \<le> b" "b < Suc grp * bpg s"
        using ra by auto
      then have "?h = grp"
        by (intro div_nat_eqI) (simp_all add: mult.commute)
      with False show False by simp
    qed
    then show ?thesis
      using block_map_taken_other [OF assms(1,2,6) False assms(3)] by (auto simp: block_used_def eqs)
  qed
qed

text \<open>What a successful search of one group, and then of all groups, leaves.\<close>

definition alloc_post :: "ext2_sys \<Rightarrow> nat \<Rightarrow> nat \<Rightarrow> ext2_sys \<Rightarrow> bool" where
  "alloc_post s amnt n s' \<longleftrightarrow> (\<exists>grp r. grp < blockGroups s \<and> 0 < r \<and> n = grp * bpg s + r \<and>
     s' = blocks_taken s grp r amnt \<and> r + amnt \<le> group_size s grp \<and>
     free_at (bitmapGenericGet (block_map s grp)) (8 * blockSize s) r amnt)"

definition refuses :: "ext2_sys \<Rightarrow> nat \<Rightarrow> nat \<Rightarrow> bool" where
  "refuses s amnt grp \<longleftrightarrow> unat (bg_free_blocks (bgdts s ! grp)) < amnt \<or>
     (\<forall>r. free_at (bitmapGenericGet (block_map s grp)) (8 * blockSize s) r amnt \<longrightarrow>
        free_at (bitmapGenericGet (block_map s grp)) (8 * blockSize s) 0 amnt)"

lemma group_block_bound:
  assumes "ext2_geom s" "r + amnt \<le> group_size s grp" "0 < amnt"
  shows "grp * bpg s + r + amnt \<le> nblocks s" "trunc32 (grp * bpg s + r) = grp * bpg s + r"
proof -
  have "r + amnt \<le> nblocks s - grp * bpg s"
    using assms(2) by (simp add: group_size_def)
  then show le: "grp * bpg s + r + amnt \<le> nblocks s"
    using assms(3) by linarith
  have "nblocks s < 2 ^ 32"
    using unat_less_u32 [of "total_blocks (superblock s)"] by (simp add: nblocks_def)
  with le show "trunc32 (grp * bpg s + r) = grp * bpg s + r"
    by simp
qed

lemma ext2BlockFindL_cases:
  assumes "ext2_wf s" "grp < blockGroups s" "0 < amnt" "padded s"
  shows "ext2BlockFindL grp amnt s = Inr (0, s) \<and> refuses s amnt grp \<or>
    (\<exists>n s'. ext2BlockFindL grp amnt s = Inr (n, s') \<and> n \<noteq> 0 \<and> alloc_post s amnt n s')"
proof -
  have w: "ext2_geom s" "locks_free s"
    using assms(1) by (simp_all add: ext2_wf_def)
  have l: "WLOCKS_BLOCK_BITMAP s ! grp = 0" "\<not> LOCK_BGDT_WRITE s" "\<not> LOCK_SUPERBLOCK_WRITE s"
    using w(2) assms(2) by (simp_all add: locks_free_def)
  note run = ext2BlockFindL_run [OF w(1) assms(2) l, of amnt]
  have spec: "case scan_blocks (block_map s grp) amnt 0 0 0 of
      None \<Rightarrow> \<forall>r. \<not> free_at (bitmapGenericGet (block_map s grp)) (8 * blockSize s) r amnt
    | Some r \<Rightarrow> free_at (bitmapGenericGet (block_map s grp)) (8 * blockSize s) r amnt"
    using first_fit_start [OF assms(3), where used = "bitmapGenericGet (block_map s grp)"
        and lim = "8 * blockSize s" and i = 0]
    by (simp add: scan_blocks_first_fit split: option.splits)
  consider "unat (bg_free_blocks (bgdts s ! grp)) < amnt"
    | "scan_blocks (block_map s grp) amnt 0 0 0 = None"
    | "scan_blocks (block_map s grp) amnt 0 0 0 = Some 0"
    | r where "\<not> unat (bg_free_blocks (bgdts s ! grp)) < amnt" "0 < r"
        "scan_blocks (block_map s grp) amnt 0 0 0 = Some r"
    by (metis not_gr_zero option.exhaust)
  then show ?thesis
  proof cases
    case (4 r)
    then have free: "free_at (bitmapGenericGet (block_map s grp)) (8 * blockSize s) r amnt"
      using spec by simp
    have fit: "r + amnt \<le> group_size s grp"
      by (rule run_in_group [OF assms(4,2,3) free])
    have "ext2BlockFindL grp amnt s = Inr (grp * bpg s + r, blocks_taken s grp r amnt)"
      using run 4 group_block_bound(2) [OF w(1) fit assms(3)] by simp
    then show ?thesis
      using 4(2) free fit assms(2) by (auto simp: alloc_post_def)
  qed (use run spec in \<open>auto simp: refuses_def\<close>)
qed

lemma find_first_cases:
  assumes "\<And>i. i \<in> set is \<Longrightarrow> f i s = Inr (0, s) \<and> Q i \<or> (\<exists>n s'. f i s = Inr (n, s') \<and> n \<noteq> 0 \<and> P n s')"
  shows "find_first f is s = Inr (0, s) \<and> (\<forall>i \<in> set is. Q i) \<or>
    (\<exists>n s'. find_first f is s = Inr (n, s') \<and> n \<noteq> 0 \<and> P n s')"
  using assms
proof (induction "is")
  case Nil
  then show ?case by (simp add: cmd_simps)
next
  case (Cons i js)
  consider "f i s = Inr (0, s)" "Q i" | n s' where "f i s = Inr (n, s')" "n \<noteq> 0" "P n s'"
    using Cons.prems [of i] by auto
  then show ?case
    using Cons by cases (simp_all add: cmd_simps)
qed

lemma ext2BlockFind_cases:
  assumes "ext2_wf s" "grp < blockGroups s" "0 < amnt" "padded s"
  shows "ext2BlockFind grp amnt s = Inl Halted \<and>
      (unat (s_free_blocks (superblock s)) < amnt \<or> (\<forall>g < blockGroups s. refuses s amnt g)) \<or>
    (\<exists>n s'. ext2BlockFind grp amnt s = Inr (n, s') \<and> n \<noteq> 0 \<and> alloc_post s amnt n s')"
proof (cases "unat (s_free_blocks (superblock s)) < amnt")
  case True
  then show ?thesis
    by (simp add: ext2BlockFind_def)
next
  case False
  let ?others = "filter (\<lambda>i. i \<noteq> grp) [0..<blockGroups s]"
  have rest: "find_first (\<lambda>i. ext2BlockFindL i amnt) ?others s = Inr (0, s) \<and> (\<forall>i \<in> set ?others. refuses s amnt i) \<or>
    (\<exists>n s'. find_first (\<lambda>i. ext2BlockFindL i amnt) ?others s = Inr (n, s') \<and> n \<noteq> 0 \<and> alloc_post s amnt n s')"
    using ext2BlockFindL_cases [OF assms(1) _ assms(3,4)] by (intro find_first_cases) auto
  from ext2BlockFindL_cases [OF assms] show ?thesis
  proof (elim disjE conjE exE)
    assume "ext2BlockFindL grp amnt s = Inr (0, s)" "refuses s amnt grp"
    then show ?thesis
      using rest False by (auto simp: ext2BlockFind_def cmd_simps)
  next
    fix n s'
    assume "ext2BlockFindL grp amnt s = Inr (n, s')" "n \<noteq> 0" "alloc_post s amnt n s'"
    then show ?thesis
      using False by (auto simp: ext2BlockFind_def cmd_simps)
  qed
qed

lemma alloc_post_facts:
  assumes "ext2_wf s" "bitmaps_apart s" "0 < amnt" "alloc_post s amnt n s'"
  shows "ext2_wf s'" "0 < n" "n + amnt \<le> nblocks s"
    "\<forall>b. n \<le> b \<and> b < n + amnt \<longrightarrow> \<not> block_used s b"
    "\<forall>b < nblocks s. b div bpg s < blockGroups s \<longrightarrow>
       block_used s' b = (block_used s b \<or> n \<le> b \<and> b < n + amnt)"
proof -
  have w: "ext2_geom s"
    using assms(1) by (simp add: ext2_wf_def)
  from assms(4) obtain grp r where p: "grp < blockGroups s" "0 < r" "n = grp * bpg s + r"
    "s' = blocks_taken s grp r amnt" "r + amnt \<le> group_size s grp"
    "free_at (bitmapGenericGet (block_map s grp)) (8 * blockSize s) r amnt"
    by (auto simp: alloc_post_def)
  show "ext2_wf s'" "0 < n" "n + amnt \<le> nblocks s"
    using p blocks_taken_wf(1) [OF assms(1) p(1)] group_block_bound(1) [OF w p(5) assms(3)] by simp_all
  show "\<forall>b < nblocks s. b div bpg s < blockGroups s \<longrightarrow>
       block_used s' b = (block_used s b \<or> n \<le> b \<and> b < n + amnt)"
    using block_used_taken [OF w p(1) assms(2) p(5)] p by simp
  show "\<forall>b. n \<le> b \<and> b < n + amnt \<longrightarrow> \<not> block_used s b"
  proof (intro allI impI)
    fix b assume b: "n \<le> b \<and> b < n + amnt"
    define j where "j = b - grp * bpg s"
    have j: "b = grp * bpg s + j" "r \<le> j" "j < r + amnt"
      using b p(3) by (auto simp: j_def)
    moreover have "j < bpg s"
      using j(3) p(5) by (simp add: group_size_def)
    ultimately have "b div bpg s = grp" "b mod bpg s = j"
      by simp_all
    with p(6) j show "\<not> block_used s b"
      by (simp add: block_used_def free_at_def)
  qed
qed


section \<open>Writing the block map\<close>

definition inode_clear :: "ext2_sys \<Rightarrow> nat \<Rightarrow> nat \<Rightarrow> bool" where
  "inode_clear s n b \<longleftrightarrow> block_pos s b + blockSize s \<le> inode_pos s n \<or> inode_pos s n + INODE_BYTES \<le> block_pos s b"

lemma committed_inode_frame:
  assumes "superblock_counter fs" "group_counter fg" "grp < length (bgdts s)"
  shows "inode_group (committed s blk buf grp fg fs) = inode_group s"
    "inode_index (committed s blk buf grp fg fs) = inode_index s"
    "inode_num_ok (committed s blk buf grp fg fs) = inode_num_ok s"
    "inode_pos (committed s blk buf grp fg fs) = inode_pos s"
proof -
  show "inode_group (committed s blk buf grp fg fs) = inode_group s"
    "inode_index (committed s blk buf grp fg fs) = inode_index s"
    "inode_num_ok (committed s blk buf grp fg fs) = inode_num_ok s"
    using assms(1) by (auto simp: inode_group_def inode_index_def inode_num_ok_def committed_geometry fun_eq_iff)
  have "inode_table ((bgdts s)[grp := fg (bgdts s ! grp)] ! g) = inode_table (bgdts s ! g)" for g
    using assms(2,3) by (auto simp: group_counter_def nth_list_update)
  then show "inode_pos (committed s blk buf grp fg fs) = inode_pos s"
    using assms(1) by (auto simp: inode_pos_def inode_group_def inode_index_def committed_geometry fun_eq_iff)
qed

lemma alloc_post_inode_frame:
  assumes "ext2_geom s" "alloc_post s amnt n s'"
  shows "inode_group s' = inode_group s" "inode_num_ok s' = inode_num_ok s" "inode_pos s' = inode_pos s"
    "blockSize s' = blockSize s" "nblocks s' = nblocks s" "block_pos s' = block_pos s" "blockGroups s' = blockGroups s"
    "BLOCK_TO_LBA s' = BLOCK_TO_LBA s"
  using assms
  by (auto simp: alloc_post_def blocks_taken_def committed_inode_frame committed_geometry inode_bitmap_block(3)
      BLOCK_TO_LBA_def fun_eq_iff bpg_def [symmetric])

lemma bitmap_lock_wf:
  assumes "ext2_wf s" "g < blockGroups s"
  shows "bitmap_lock spinlock_cnt_write_acquire g s =
      Inr ((), s\<lparr>WLOCKS_BLOCK_BITMAP := (WLOCKS_BLOCK_BITMAP s)[g := - 1]\<rparr>)"
    "bitmap_lock spinlock_cnt_write_release g (s\<lparr>WLOCKS_BLOCK_BITMAP := (WLOCKS_BLOCK_BITMAP s)[g := - 1]\<rparr>) = Inr ((), s)"
proof -
  have "g < length (WLOCKS_BLOCK_BITMAP s)" "WLOCKS_BLOCK_BITMAP s ! g = 0"
    using assms ext2_geom_simps(12) by (auto simp: ext2_wf_def locks_free_def)
  moreover from this have "(WLOCKS_BLOCK_BITMAP s)[g := 0] = WLOCKS_BLOCK_BITMAP s"
    by (metis list_update_id)
  ultimately show "bitmap_lock spinlock_cnt_write_acquire g s =
      Inr ((), s\<lparr>WLOCKS_BLOCK_BITMAP := (WLOCKS_BLOCK_BITMAP s)[g := - 1]\<rparr>)"
    "bitmap_lock spinlock_cnt_write_release g (s\<lparr>WLOCKS_BLOCK_BITMAP := (WLOCKS_BLOCK_BITMAP s)[g := - 1]\<rparr>) = Inr ((), s)"
    by (simp_all add: bitmap_lock_run spinlock_cnt_defs)
qed

lemma inode_frame_bitmap [simp]:
  fixes s :: ext2_sys
  shows
  "inode_group (WLOCKS_BLOCK_BITMAP_update f s) = inode_group s"
  "inode_num_ok (WLOCKS_BLOCK_BITMAP_update f s) = inode_num_ok s"
  "inode_pos (WLOCKS_BLOCK_BITMAP_update f s) = inode_pos s"
  by (simp_all add: inode_group_def inode_index_def inode_pos_def inode_num_ok_def fun_eq_iff)

lemma modify_run_wf:
  assumes "ext2_wf s" "inode_num_ok s n" "inode_ok i" "length L = length (WLOCKS_BLOCK_BITMAP s)"
  shows "ext2InodeModifyM n i (s\<lparr>WLOCKS_BLOCK_BITMAP := L\<rparr>) =
      Inr ((), s\<lparr>WLOCKS_BLOCK_BITMAP := L, dev := dev_patch (dev s) (inode_pos s n) (enc_inode i)\<rparr>)"
    "ext2_wf (s\<lparr>dev := dev_patch (dev s) a xs\<rparr>)"
proof -
  have "ext2_geom s" "locks_free s"
    using assms(1) by (simp_all add: ext2_wf_def)
  moreover from this have "WLOCKS_INODE s ! inode_group s n = 0"
    using assms(2) by (simp add: locks_free_def inode_num_ok_def)
  ultimately show "ext2InodeModifyM n i (s\<lparr>WLOCKS_BLOCK_BITMAP := L\<rparr>) =
      Inr ((), s\<lparr>WLOCKS_BLOCK_BITMAP := L, dev := dev_patch (dev s) (inode_pos s n) (enc_inode i)\<rparr>)"
    "ext2_wf (s\<lparr>dev := dev_patch (dev s) a xs\<rparr>)"
    using assms ext2InodeModifyM_run [of "s\<lparr>WLOCKS_BLOCK_BITMAP := L\<rparr>" n i]
    by (simp_all add: ext2_wf_def locks_free_def)
qed

lemma dev_lock_swap:
  fixes s :: ext2_sys
  shows "s\<lparr>WLOCKS_BLOCK_BITMAP := L, dev := d\<rparr> = s\<lparr>dev := d, WLOCKS_BLOCK_BITMAP := L\<rparr>"
  by simp

text \<open>The three ways \<open>ext2BlockAssign\<close> goes.\<close>

lemma ext2BlockAssign_direct:
  fixes val :: u32
  assumes "ext2_wf s" "inode_num_ok s n" "inode_ok ino" "cur < 12"
  defines "ino' \<equiv> ino\<lparr>i_blocks := (i_blocks ino)[cur := val]\<rparr>"
  shows "ext2BlockAssign ino n c cur val s =
    Inr ((ino', c), s\<lparr>dev := dev_patch (dev s) (inode_pos s n) (enc_inode ino')\<rparr>)"
proof -
  have ok: "inode_ok ino'"
    using assms(3) by (simp add: ino'_def inode_ok_def)
  let ?g = "inode_group s n" and ?d = "dev_patch (dev s) (inode_pos s n) (enc_inode ino')"
  have g: "?g < blockGroups s"
    using assms(2) by (simp add: inode_num_ok_def)
  note m = modify_run_wf [OF assms(1,2) ok]
  have rel: "bitmap_lock spinlock_cnt_write_release ?g (s\<lparr>WLOCKS_BLOCK_BITMAP := (WLOCKS_BLOCK_BITMAP s)[?g := - 1], dev := ?d\<rparr>)
      = Inr ((), s\<lparr>dev := ?d\<rparr>)"
    using bitmap_lock_wf(2) [OF m(2) [OF refl], of ?g "inode_pos s n" "enc_inode ino'"] g
    by (simp add: dev_lock_swap)
  show ?thesis
    unfolding ext2BlockAssign_def Let_def inode_macros(3) [OF assms(2)]
    using assms(4) bitmap_lock_wf(1) [OF assms(1) g] m(1) rel
    by (simp add: cmd_simps flip: ino'_def)
qed

lemma load_tmp1_any:
  assumes "ext2_geom s" "b < nblocks s"
  shows "\<exists>c'. load_tmp1 c (BLOCK_TO_LBA s 0 b) s = Inr (c', s) \<and> tmp1Block c' = BLOCK_TO_LBA s 0 b"
  using get_block_run [OF assms] by (auto simp: load_tmp1_def cmd_simps)

lemma assign_tail_run:
  fixes val :: u32
  assumes "ext2_wf s" "i_blocks ino ! 12 \<noteq> 0" "unat (i_blocks ino ! 12) < nblocks s"
    "12 \<le> cur" "cur < 12 + blockSize s div 4" "length L = length (WLOCKS_BLOCK_BITMAP s)"
    "noninit \<or> control_ok s c"
  defines "t \<equiv> (if noninit then replicate (blockSize s div 4) 0
      else ind_words s (unat (i_blocks ino ! 12)))[cur - 12 := val]"
  shows "\<exists>c'. assign_tail s c cur val (ino, noninit) (s\<lparr>WLOCKS_BLOCK_BITMAP := L\<rparr>) =
      Inr ((ino, c'), s\<lparr>WLOCKS_BLOCK_BITMAP := L,
        dev := dev_patch (dev s) (block_pos s (unat (i_blocks ino ! 12))) (bytes_of_words t)\<rparr>) \<and>
      tmp1 c' = t \<and> tmp1Block c' = BLOCK_TO_LBA s 0 (unat (i_blocks ino ! 12))"
proof -
  let ?b = "unat (i_blocks ino ! 12)" and ?s = "s\<lparr>WLOCKS_BLOCK_BITMAP := L\<rparr>"
  have geom: "ext2_geom ?s" "ext2_geom s"
    using assms(1,6) by (simp_all add: ext2_wf_def)
  have b: "?b \<noteq> 0"
    using assms(2) by (simp add: unat_eq_0)
  have len: "length t = blockSize s div 4"
    by (simp add: t_def)
  obtain c' where c': "load_tmp1 c (BLOCK_TO_LBA s 0 ?b) ?s = Inr (c', ?s)"
    "noninit \<or> tmp1 c' = ind_words s ?b" "tmp1Block c' = BLOCK_TO_LBA s 0 ?b"
  proof (cases noninit)
    case True
    then show ?thesis
      using that load_tmp1_any [OF geom(1), of ?b c] assms(3) by auto
  next
    case False
    then have "control_ok ?s c"
      using assms(7) by simp
    from load_tmp_run(1) [OF geom(1) this _ b] load_tmp1_any [OF geom(1), of ?b c] assms(3) that show ?thesis
      by auto
  qed
  have t: "(if noninit then replicate (blockSize s div 4) 0 else tmp1 c')[cur - 12 := val] = t"
    using c'(2) by (auto simp: t_def)
  have "cur - 12 < length (if noninit then replicate (blockSize s div 4) 0 else tmp1 c')"
    using c'(2) assms(4,5) by auto
  moreover have "set_sectors (bytes_of_words t) (BLOCK_TO_LBA s 0 ?b) (blockSize s div SECTOR_SIZE) ?s =
      Inr ((), ?s\<lparr>dev := dev_patch (dev s) (block_pos s ?b) (bytes_of_words t)\<rparr>)"
    using set_block_run [OF geom(1), of ?b "bytes_of_words t"] assms(3) len items_per_block(3) [OF geom(2)] by simp
  ultimately have "assign_tail s c cur val (ino, noninit) ?s =
      Inr ((ino, c'\<lparr>tmp1 := t\<rparr>), ?s\<lparr>dev := dev_patch (dev s) (block_pos s ?b) (bytes_of_words t)\<rparr>)"
    using c'(1) by (simp add: assign_tail_def cmd_simps Let_def t)
  then show ?thesis
    using c'(3) by (intro exI [of _ "c'\<lparr>tmp1 := t\<rparr>"]) simp
qed

lemma release_after_patch:
  assumes "ext2_wf s" "g < blockGroups s"
  shows "bitmap_lock spinlock_cnt_write_release g
      (s\<lparr>WLOCKS_BLOCK_BITMAP := (WLOCKS_BLOCK_BITMAP s)[g := - 1], dev := dev_patch (dev s) a xs\<rparr>) =
    Inr ((), s\<lparr>dev := dev_patch (dev s) a xs\<rparr>)"
proof -
  have "ext2_wf (s\<lparr>dev := dev_patch (dev s) a xs\<rparr>)"
    using assms(1) by (simp add: ext2_wf_def locks_free_def)
  from bitmap_lock_wf(2) [OF this, of g] assms(2) show ?thesis
    by (simp add: dev_lock_swap)
qed

lemma ext2BlockAssign_singly:
  fixes val :: u32
  assumes "ext2_wf s" "inode_num_ok s n" "ptrs_ok s ino" "control_ok s c" "i_blocks ino ! 12 \<noteq> 0"
    "12 \<le> cur" "cur < 12 + blockSize s div 4"
  defines "b \<equiv> unat (i_blocks ino ! 12)"
  shows "\<exists>c'. ext2BlockAssign ino n c cur val s =
      Inr ((ino, c'), s\<lparr>dev := dev_patch (dev s) (block_pos s b) (bytes_of_words ((ind_words s b)[cur - 12 := val]))\<rparr>) \<and>
      tmp1 c' = (ind_words s b)[cur - 12 := val] \<and> tmp1Block c' = BLOCK_TO_LBA s 0 b"
proof -
  let ?g = "inode_group s n"
  have g: "?g < blockGroups s"
    using assms(2) by (simp add: inode_num_ok_def)
  have "b < nblocks s"
    using assms(3) by (simp add: ptrs_ok_def b_def)
  from assign_tail_run [OF assms(1,5) this [unfolded b_def] assms(6,7), where noninit = False and c = c
      and L = "(WLOCKS_BLOCK_BITMAP s)[?g := - 1]" and val = val] assms(4)
  obtain c' where c': "assign_tail s c cur val (ino, False) (s\<lparr>WLOCKS_BLOCK_BITMAP := (WLOCKS_BLOCK_BITMAP s)[?g := - 1]\<rparr>) =
      Inr ((ino, c'), s\<lparr>WLOCKS_BLOCK_BITMAP := (WLOCKS_BLOCK_BITMAP s)[?g := - 1],
        dev := dev_patch (dev s) (block_pos s b) (bytes_of_words ((ind_words s b)[cur - 12 := val]))\<rparr>)"
      "tmp1 c' = (ind_words s b)[cur - 12 := val]" "tmp1Block c' = BLOCK_TO_LBA s 0 b"
    by (auto simp: b_def)
  have "\<not> cur < 12"
    using assms(6) by simp
  then have "ext2BlockAssign ino n c cur val s =
      Inr ((ino, c'), s\<lparr>dev := dev_patch (dev s) (block_pos s b) (bytes_of_words ((ind_words s b)[cur - 12 := val]))\<rparr>)"
    unfolding ext2BlockAssign_def Let_def inode_macros(3) [OF assms(2)]
    using assms(5,7) bitmap_lock_wf(1) [OF assms(1) g] c'(1) release_after_patch [OF assms(1) g]
    by (simp add: cmd_simps)
  with c' show ?thesis
    by blast
qed

lemma ext2BlockAssign_fresh:
  fixes val :: u32
  assumes "ext2_wf s" "inode_num_ok s n" "inode_ok ino" "i_blocks ino ! 12 = 0" "12 \<le> cur"
    "cur < 12 + blockSize s div 4" "padded s" "bitmaps_apart s"
  shows "ext2BlockAssign ino n c cur val s = Inl Halted \<or>
    (\<exists>b s1 c'. alloc_post s 1 b s1 \<and> ext2_wf s1 \<and> 0 < b \<and> b < nblocks s \<and>
      ext2BlockAssign ino n c cur val s =
        Inr ((ino\<lparr>i_blocks := (i_blocks ino)[12 := of_nat b]\<rparr>, c'),
          s1\<lparr>dev := dev_patch (dev_patch (dev s1) (inode_pos s n)
              (enc_inode (ino\<lparr>i_blocks := (i_blocks ino)[12 := of_nat b]\<rparr>)))
            (block_pos s b) (bytes_of_words ((replicate (blockSize s div 4) 0)[cur - 12 := val]))\<rparr>) \<and>
      tmp1 c' = (replicate (blockSize s div 4) 0)[cur - 12 := val] \<and> tmp1Block c' = BLOCK_TO_LBA s 0 b)"
proof -
  let ?g = "inode_group s n"
  have g: "?g < blockGroups s"
    using assms(2) by (simp add: inode_num_ok_def)
  have w: "ext2_geom s"
    using assms(1) by (simp add: ext2_wf_def)
  have nlt: "\<not> cur < 12"
    using assms(5) by simp
  note lock = bitmap_lock_wf [OF assms(1) g]
  consider (halt) "ext2BlockFind ?g 1 s = Inl Halted"
    | (found) b s1 where "ext2BlockFind ?g 1 s = Inr (b, s1)" "alloc_post s 1 b s1"
    using ext2BlockFind_cases [OF assms(1) g zero_less_one assms(7)] by blast
  then show ?thesis
  proof cases
    case halt
    then have "ext2BlockAssign ino n c cur val s = Inl Halted"
      unfolding ext2BlockAssign_def Let_def inode_macros(3) [OF assms(2)]
      using assms(4,6) nlt lock by (simp add: cmd_simps)
    then show ?thesis ..
  next
    case find: (found b s1)
    note post = alloc_post_facts [OF assms(1,8) zero_less_one find(2)]
      and fr = alloc_post_inode_frame [OF w find(2)]
    let ?i = "ino\<lparr>i_blocks := (i_blocks ino)[12 := of_nat b]\<rparr>"
    have b: "0 < b" "b < nblocks s"
      using post(2,3) by simp_all
    have "nblocks s < 2 ^ 32"
      using unat_less_u32 [of "total_blocks (superblock s)"] by (simp add: nblocks_def)
    with b(2) have ub: "unat (of_nat b :: u32) = b"
      by (simp add: unsigned_of_nat take_bit_nat_eq_self)
    have ok: "inode_ok ?i" and b12: "(i_blocks ino)[12 := of_nat b] ! 12 = (of_nat b :: u32)"
      using assms(3) by (simp_all add: inode_ok_def EXT2_DIRECT_BLOCKS_def)
    have nz: "(of_nat b :: u32) \<noteq> 0"
      using ub b(1) by (metis unsigned_0 less_irrefl)
    have n1: "inode_num_ok s1 n" and g1: "?g < blockGroups s1"
      using assms(2) g by (simp_all add: fr)
    let ?L = "(WLOCKS_BLOCK_BITMAP s1)[?g := - 1]"
    let ?s2 = "s1\<lparr>dev := dev_patch (dev s1) (inode_pos s1 n) (enc_inode ?i)\<rparr>"
    note m = modify_run_wf(1) [OF post(1) n1 ok length_list_update]
    have wf2: "ext2_wf ?s2"
      by (rule modify_run_wf(2) [OF post(1) n1 ok refl])
    have L2: "(WLOCKS_BLOCK_BITMAP ?s2)[?g := - 1] = ?L"
      by simp
    have lt: "unat (i_blocks ?i ! 12) < nblocks ?s2" "cur < 12 + blockSize ?s2 div 4"
      using b(2) assms(6) by (simp_all add: b12 ub fr)
    have n12: "i_blocks ?i ! 12 \<noteq> 0"
      by (simp add: b12 nz)
    from assign_tail_run [OF wf2 n12 lt(1) assms(5) lt(2), where noninit = True and c = c
        and L = ?L and val = val]
    obtain c' where c': "assign_tail ?s2 c cur val (?i, True) (?s2\<lparr>WLOCKS_BLOCK_BITMAP := ?L\<rparr>) =
        Inr ((?i, c'), ?s2\<lparr>WLOCKS_BLOCK_BITMAP := ?L, dev := dev_patch (dev ?s2) (block_pos s b)
          (bytes_of_words ((replicate (blockSize s div 4) 0)[cur - 12 := val]))\<rparr>)"
      "tmp1 c' = (replicate (blockSize s div 4) 0)[cur - 12 := val]" "tmp1Block c' = BLOCK_TO_LBA s 0 b"
      by (auto simp: b12 ub fr)
    have tail: "assign_tail s c cur val (?i, True) = assign_tail ?s2 c cur val (?i, True)"
      by (simp add: assign_tail_def fr)
    have "ext2BlockAssign ino n c cur val s = Inr ((?i, c'), ?s2\<lparr>dev := dev_patch (dev ?s2) (block_pos s b)
          (bytes_of_words ((replicate (blockSize s div 4) 0)[cur - 12 := val]))\<rparr>)"
      unfolding ext2BlockAssign_def Let_def inode_macros(3) [OF assms(2)]
      using assms(4,6) nlt lock find(1) bitmap_lock_wf(1) [OF post(1) g1] m c'(1)
        release_after_patch [OF wf2, of ?g] g1
      by (simp add: cmd_simps tail dev_lock_swap)
    then show ?thesis
      using find(2) post(1) b c'(2,3) by (auto simp: fr)
  qed
qed

lemma ind_words_written:
  assumes "ext2_geom s" "length t = blockSize s div 4"
  shows "ind_words (s\<lparr>dev := dev_patch d (block_pos s b) (bytes_of_words t)\<rparr>) b = t"
  using assms items_per_block(3) [OF assms(1)] by (simp add: ind_words_def block_bytes_def)

lemma fetch_section:
  assumes "ext2_wf s" "inode_num_ok s n"
    "\<And>L. length L = length (WLOCKS_BLOCK_BITMAP s) \<Longrightarrow>
      fetch_body ino c cur (s\<lparr>WLOCKS_BLOCK_BITMAP := L\<rparr>) = Inr (r, s\<lparr>WLOCKS_BLOCK_BITMAP := L\<rparr>)"
  shows "ext2BlockFetch ino n c cur s = Inr (r, s)"
proof -
  let ?g = "inode_group s n" and ?L = "WLOCKS_BLOCK_BITMAP s"
  have "?g < length ?L" "?L ! ?g = 0"
    using assms(1,2) ext2_geom_simps(12) by (auto simp: inode_num_ok_def ext2_wf_def locks_free_def)
  then show ?thesis
    unfolding ext2BlockFetch_def inode_macros(3) [OF assms(2)]
    by (intro bitmap_section_run [where l = 1]) (simp_all add: spinlock_cnt_defs assms(3))
qed

lemma fetch_cached:
  assumes "ext2_wf s" "inode_num_ok s n" "12 \<le> cur" "cur < 12 + blockSize s div 4" "i_blocks ino ! 12 \<noteq> 0"
    "tmp1Block c = BLOCK_TO_LBA s 0 (unat (i_blocks ino ! 12))" "tmp1 c = t" "length t = blockSize s div 4"
  shows "ext2BlockFetch ino n c cur s = Inr ((t ! (cur - 12), c), s)"
  using assms by (intro fetch_section) (simp_all add: fetch_body_def load_tmp1_def cmd_simps word_at_def Let_def)


section \<open>Chains and sizes\<close>

lemma chain_loop_run:
  assumes "ext2_wf s" "inode_num_ok s n" "ptrs_ok s ino" "control_ok s c" "cur + k \<le> file_blocks_max s"
  shows "\<exists>c'. chain_loop k ino n c cur s = Inr ((map (block_of s ino) [cur..<cur + k], c'), s) \<and> control_ok s c' \<and>
    (control_in s ino c \<longrightarrow> control_in s ino c')"
  using assms(4,5)
proof (induction k arbitrary: c cur)
  case 0
  then show ?case by (simp add: cmd_simps)
next
  case (Suc k)
  obtain c1 where c1: "ext2BlockFetch ino n c cur s = Inr ((block_of s ino cur, c1), s)" "control_ok s c1"
    "control_in s ino c \<longrightarrow> control_in s ino c1"
    using ext2BlockFetch_run [OF _ assms(2,3) Suc.prems(1), of cur] Suc.prems(2) assms(1,2)
    by (auto simp: ext2_wf_def locks_free_def inode_num_ok_def)
  obtain c2 where "chain_loop k ino n c1 (cur + 1) s = Inr ((map (block_of s ino) [cur + 1..<cur + 1 + k], c2), s)"
    "control_ok s c2" "control_in s ino c1 \<longrightarrow> control_in s ino c2"
    using Suc.IH [OF c1(2), of "cur + 1"] Suc.prems(2) by auto
  with c1 show ?case
    by (auto simp: cmd_simps upt_conv_Cons simp del: upt_Suc)
qed

lemma ext2BlockChain_run:
  assumes "ext2_wf s" "inode_num_ok s (fd_inodeNum fd)" "ptrs_ok s (fd_inode fd)" "control_ok s (fd_lookup fd)"
    "cur + blocks < file_blocks_max s"
  shows "\<exists>c'. ext2BlockChain fd cur blocks s =
      Inr ((map (block_of s (fd_inode fd)) [cur..<cur + blocks + 1], fd\<lparr>fd_lookup := c'\<rparr>), s) \<and> control_ok s c' \<and>
    (control_in s (fd_inode fd) (fd_lookup fd) \<longrightarrow> control_in s (fd_inode fd) c')"
  using chain_loop_run [OF assms(1-4), of cur "1 + blocks"] assms(5)
  by (auto simp: ext2BlockChain_def cmd_simps add.assoc)

text \<open>
  The pointer blocks a file of \<open>n\<close> blocks needs: none for the 12 direct ones, one for the
  singly indirect range, then the doubly indirect block with one pointer block per
  \<open>p\<close> data blocks.
\<close>

definition pointer_blocks :: "nat \<Rightarrow> nat \<Rightarrow> nat" where
  "pointer_blocks p n =
     (if n \<le> 12 then 0 else if n \<le> 12 + p then 1 else 2 + CEILING_DIVISION (n - (12 + p)) p)"

text \<open>
  C13. \<open>ext2BlockSizeCalculate\<close> gives the space of the data blocks and of the pointer blocks,
  except at the two range boundaries: a file of exactly 12 blocks, or of exactly the direct
  and singly indirect blocks, is charged one pointer block too many, because the code tests
  the number of blocks where the last index is meant. Beyond the doubly indirect range the
  assertion fails.
\<close>

theorem ext2BlockSizeCalculate_overhead:
  assumes "ext2_wf s" "CEILING_DIVISION raw (blockSize s) = n" "n < 2 ^ 32"
  shows "ext2BlockSizeCalculate s raw =
    (if n < file_blocks_max s
     then Inr ((n + pointer_blocks (blockSize s div 4) n
                 + (if n = 12 \<or> n = 12 + blockSize s div 4 then 1 else 0)) * blockSize s)
     else Inl Assert_failed)"
proof -
  have p: "0 < blockSize s div 4"
    using items_per_block(1) assms(1) by (metis ext2_wf_def less_le_trans zero_less_numeral)
  consider "n < 12" | "n = 12" | "12 < n" "n < 12 + blockSize s div 4" | "n = 12 + blockSize s div 4"
    | "12 + blockSize s div 4 < n" "n < file_blocks_max s" | "file_blocks_max s \<le> n"
    by linarith
  then show ?thesis
    using p assms(2,3)
    by cases (simp_all add: ext2BlockSizeCalculate_def Let_def pointer_blocks_def file_blocks_max_def)
qed

end
