(* ===== verification/Dir_Block.thy ===== *)
theory Dir_Block
  imports Ext2_Types
begin

text \<open>
  One block of an ext2 directory: the inner \<^verbatim>\<open>while\<close> loops of \<^verbatim>\<open>ext2Traverse\<close>, \<^verbatim>\<open>ext2DirAllocate\<close>
  and \<^verbatim>\<open>ext2DirRemove\<close>, which walk the chain of variable-length entries in a block buffer.
  An entry of size 0 would make the source loop for ever (\<open>Diverges\<close>), an entry that leaves
  the buffer reads outside it (\<open>Out_of_bounds\<close>).

  The abstract view of a well-formed block is the list of its entries (\<open>dir_span\<close>); the
  lemmas say what each loop does to that list.
\<close>

section \<open>The loops\<close>

definition dir_at :: "byte list \<Rightarrow> nat \<Rightarrow> Ext2Directory res" where
  "dir_at names off = bindR (rdseg names off DIR_BYTES) (\<lambda>b. Inr (dec_dir b))"

definition entry_matches :: "byte list \<Rightarrow> nat \<Rightarrow> Ext2Directory \<Rightarrow> byte list \<Rightarrow> bool res" where
  "entry_matches names off d filename =
     (if d_inode d \<noteq> 0 \<and> length filename = unat (d_filenameLength d)
      then bindR (rdseg names (off + DIR_BYTES) (length filename)) (\<lambda>nm. Inr (nm = filename))
      else Inr False)"

text \<open>The search of \<^verbatim>\<open>ext2Traverse\<close> in one block: the inode number found, or none.\<close>

function lookup_scan :: "byte list \<Rightarrow> nat \<Rightarrow> byte list \<Rightarrow> u32 option res" where
  "lookup_scan names off search =
     (if off < length names then
        bindR (dir_at names off) (\<lambda>d.
        bindR (entry_matches names off d search) (\<lambda>found.
          if found then Inr (Some (d_inode d))
          else if d_size d = 0 then Inl Diverges
          else lookup_scan names (off + unat (d_size d)) search))
      else Inr None)"
  by pat_completeness auto
termination
  by (relation "measure (\<lambda>(names, off, search). length names - off)") (auto simp flip: unat_gt_0)

declare lookup_scan.simps [simp del]

text \<open>The insertion of \<^verbatim>\<open>ext2DirAllocate\<close> in one block.\<close>

datatype insertion = Name_exists | Inserted "byte list" | No_room

definition align4 :: "nat \<Rightarrow> nat" where
  "align4 n = (n + 3) div 4 * 4"

definition split_entry ::
  "byte list \<Rightarrow> nat \<Rightarrow> nat \<Rightarrow> nat \<Rightarrow> byte list \<Rightarrow> byte \<Rightarrow> u32 \<Rightarrow> byte list res" where
  "split_entry names off minForOld remainderForNew filename ty inode =
     bindR (wr names (off + 4) (bytes16 (of_nat minForOld))) (\<lambda>names1.
     wr names1 (off + minForOld)
       (enc_dir \<lparr>d_inode = inode, d_size = of_nat remainderForNew,
                 d_filenameLength = of_nat (length filename), d_type = ty\<rparr> @ filename))"

function insert_scan :: "byte list \<Rightarrow> nat \<Rightarrow> byte list \<Rightarrow> byte \<Rightarrow> u32 \<Rightarrow> insertion res" where
  "insert_scan names off filename ty inode =
     (if off < length names then
        bindR (dir_at names off) (\<lambda>d.
        bindR (entry_matches names off d filename) (\<lambda>found.
          if found then Inr Name_exists
          else let minForOld = align4 (DIR_BYTES + unat (d_filenameLength d));
                   minForNew = align4 (DIR_BYTES + length filename)
               in if minForOld + minForNew \<le> unat (d_size d)
                  then bindR (split_entry names off minForOld (unat (d_size d) - minForOld) filename ty inode)
                         (\<lambda>names'. Inr (Inserted names'))
                  else if d_size d = 0 then Inl Diverges
                  else insert_scan names (off + unat (d_size d)) filename ty inode))
      else Inr No_room)"
  by pat_completeness auto
termination
  by (relation "measure (\<lambda>(names, off, f, t, i). length names - off)") (auto simp flip: unat_gt_0)

declare insert_scan.simps [simp del]

text \<open>The change \<^verbatim>\<open>ext2DirRemove\<close> makes at a matching entry.\<close>

definition unlink_entry :: "byte list \<Rightarrow> nat \<Rightarrow> nat option \<Rightarrow> Ext2Directory \<Rightarrow> byte list res" where
  "unlink_entry names off before d =
     (if off = 0 then
        (if before \<noteq> None then Inl Assert_failed
         else wr names off (enc_dir (d\<lparr>d_inode := 0, d_filenameLength := 0\<rparr>)))
      else case before of
        None \<Rightarrow> Inl Undefined
      | Some b \<Rightarrow> bindR (dir_at names b) (\<lambda>db.
          wr names (b + 4) (bytes16 (d_size db + d_size d))))"

section \<open>Well-formed chains of entries\<close>

type_synonym entry = "Ext2Directory \<times> byte list"

definition entry_at :: "byte list \<Rightarrow> nat \<Rightarrow> entry \<Rightarrow> bool" where
  "entry_at b off e \<longleftrightarrow> (case e of (d, nm) \<Rightarrow>
     DIR_BYTES + length nm \<le> unat (d_size d) \<and> off + unat (d_size d) \<le> length b \<and>
     length nm = unat (d_filenameLength d) \<and>
     seg b off DIR_BYTES = enc_dir d \<and> seg b (off + DIR_BYTES) (length nm) = nm)"

fun dir_span :: "byte list \<Rightarrow> nat \<Rightarrow> entry list \<Rightarrow> nat \<Rightarrow> bool" where
  "dir_span b off [] stop = (off = stop)"
| "dir_span b off (e # es) stop = (entry_at b off e \<and> dir_span b (off + unat (d_size (fst e))) es stop)"

definition dir_block :: "byte list \<Rightarrow> entry list \<Rightarrow> bool" where
  "dir_block b es \<longleftrightarrow> dir_span b 0 es (length b)"

definition live :: "byte list \<Rightarrow> entry \<Rightarrow> bool" where
  "live nm e \<longleftrightarrow> d_inode (fst e) \<noteq> 0 \<and> snd e = nm"

definition find_entry :: "entry list \<Rightarrow> byte list \<Rightarrow> u32 option" where
  "find_entry es nm = map_option (d_inode \<circ> fst) (find (live nm) es)"

lemma find_entry_simps [simp]:
  "find_entry [] nm = None"
  "find_entry (e # es) nm = (if live nm e then Some (d_inode (fst e)) else find_entry es nm)"
  by (simp_all add: find_entry_def)

lemma find_entry_append:
  "find_entry (xs @ ys) nm = (case find_entry xs nm of None \<Rightarrow> find_entry ys nm | Some i \<Rightarrow> Some i)"
  by (induction xs) simp_all

lemma dir_span_append:
  "dir_span b off (xs @ ys) stop = (\<exists>m. dir_span b off xs m \<and> dir_span b m ys stop)"
  by (induction xs arbitrary: off) auto

lemma entry_at_size: "entry_at b off e \<Longrightarrow> DIR_BYTES \<le> unat (d_size (fst e))"
  by (auto simp: entry_at_def split: prod.splits)

lemma dir_span_le: "dir_span b off es stop \<Longrightarrow> off \<le> stop"
  by (induction es arbitrary: off) (fastforce dest: entry_at_size)+

lemma dir_span_bound: "dir_span b off es stop \<Longrightarrow> off \<le> length b \<Longrightarrow> stop \<le> length b"
  by (induction es arbitrary: off) (auto simp: entry_at_def split: prod.splits)

lemma dir_at_entry: "entry_at b off e \<Longrightarrow> dir_at b off = Inr (fst e)"
  by (auto simp: dir_at_def rdseg_def entry_at_def DIR_BYTES_def dest: le_trans split: prod.splits)

lemma entry_matches_entry:
  assumes "entry_at b off e"
  shows "entry_matches b off (fst e) nm = Inr (live nm e)"
proof -
  obtain d x where e: "e = (d, x)"
    by (cases e)
  with assms have "DIR_BYTES + length x \<le> unat (d_size d)" "off + unat (d_size d) \<le> length b"
    "length x = unat (d_filenameLength d)" "seg b (off + DIR_BYTES) (length x) = x"
    unfolding entry_at_def by blast+
  then show ?thesis
    by (auto simp: e entry_matches_def live_def rdseg_def)
qed

lemma entry_at_frame:
  assumes "entry_at b off e" "length b' = length b"
    "\<And>i. off \<le> i \<Longrightarrow> i < off + unat (d_size (fst e)) \<Longrightarrow> b' ! i = b ! i"
  shows "entry_at b' off e"
proof -
  obtain d x where e: "e = (d, x)"
    by (cases e)
  have sz: "DIR_BYTES + length x \<le> unat (d_size d)"
    using assms(1) unfolding e entry_at_def by blast
  have "seg b' off DIR_BYTES = seg b off DIR_BYTES" "seg b' (off + DIR_BYTES) (length x) = seg b (off + DIR_BYTES) (length x)"
    by (rule seg_eqI [OF assms(2)], rule assms(3), use sz in \<open>simp_all add: e\<close>)+
  then show ?thesis
    using assms(1) by (auto simp only: e entry_at_def prod.case assms(2))
qed

lemma dir_span_frame:
  assumes "dir_span b off es stop" "length b' = length b" "\<And>i. off \<le> i \<Longrightarrow> i < stop \<Longrightarrow> b' ! i = b ! i"
  shows "dir_span b' off es stop"
  using assms(1,3)
proof (induction es arbitrary: off)
  case Nil
  then show ?case by simp
next
  case (Cons e es)
  let ?o = "off + unat (d_size (fst e))"
  have rest: "dir_span b ?o es stop" and e: "entry_at b off e"
    using Cons.prems(1) by simp_all
  from dir_span_le [OF rest] have "?o \<le> stop" .
  with Cons.prems(2) have "entry_at b' off e"
    by (intro entry_at_frame [OF e assms(2)]) simp
  moreover have "dir_span b' ?o es stop"
    using rest Cons.prems(2) by (intro Cons.IH) simp_all
  ultimately show ?case by simp
qed

lemma lookup_scan_span:
  "dir_span b off es (length b) \<Longrightarrow> lookup_scan b off nm = Inr (find_entry es nm)"
proof (induction es arbitrary: off)
  case Nil
  then show ?case
    by (subst lookup_scan.simps) simp
next
  case (Cons e es)
  then have e: "entry_at b off e"
    by simp
  have sz: "DIR_BYTES \<le> unat (d_size (fst e))" "off + unat (d_size (fst e)) \<le> length b"
    using e entry_at_size [OF e] by (auto simp: entry_at_def split: prod.splits)
  then have "off < length b" "d_size (fst e) \<noteq> 0"
    by (auto simp: DIR_BYTES_def)
  with Cons show ?case
    by (simp add: lookup_scan.simps [of b off] dir_at_entry [OF e] entry_matches_entry [OF e])
qed

lemma blit_enc_dir:
  "blit (enc_dir d) 4 (bytes16 w) = enc_dir (d\<lparr>d_size := w\<rparr>)"
  by (simp add: blit_def enc_dir_def)

lemma align4_bounds: "n \<le> align4 n" "align4 n \<le> n + 3"
  unfolding align4_def by presburger+

text \<open>Splitting an entry with room: the old entry shrinks, the new one takes the rest.\<close>

lemma split_entry_spec:
  fixes ty :: byte and inode :: u32
  assumes e: "entry_at b off (d, nm)" and len: "length b < 2 ^ 16" "length f < 256"
    and mo: "DIR_BYTES + length nm \<le> mo" "mo + (DIR_BYTES + length f) \<le> unat (d_size d)"
  defines "nd \<equiv> \<lparr>d_inode = inode, d_size = of_nat (unat (d_size d) - mo), d_filenameLength = of_nat (length f), d_type = ty\<rparr>"
  shows "\<exists>b'. split_entry b off mo (unat (d_size d) - mo) f ty inode = Inr b' \<and> length b' = length b \<and>
    dir_span b' off [(d\<lparr>d_size := of_nat mo\<rparr>, nm), (nd, f)] (off + unat (d_size d)) \<and>
    (\<forall>i. i < off \<or> off + unat (d_size d) \<le> i \<and> i < length b \<longrightarrow> b' ! i = b ! i)"
proof -
  let ?z = "unat (d_size d)"
  have z: "off + ?z \<le> length b" "length nm = unat (d_filenameLength d)" "seg b off DIR_BYTES = enc_dir d"
    "seg b (off + DIR_BYTES) (length nm) = nm"
    using e unfolding entry_at_def by blast+
  let ?b1 = "blit b (off + 4) (bytes16 (of_nat mo))"
  let ?b2 = "blit ?b1 (off + mo) (enc_dir nd @ f)"
  have fits: "off + 4 + 2 \<le> length b" "off + mo + (DIR_BYTES + length f) \<le> length b" "length ?b1 = length b"
    "mo + DIR_BYTES \<le> ?z"
    using mo z(1) by (simp_all add: DIR_BYTES_def)
  have len2: "length ?b2 = length b"
    using fits by simp
  have umo: "unat (of_nat mo :: u16) = mo" and urest: "unat (of_nat (?z - mo) :: u16) = ?z - mo"
    using mo z(1) len(1) by (intro unat_of_nat_id; linarith)+
  have uf: "unat (of_nat (length f) :: byte) = length f"
    using len(2) by (intro unat_of_nat_id) simp
  have run: "split_entry b off mo (?z - mo) f ty inode = Inr ?b2"
    using fits by (simp add: split_entry_def wr_def nd_def)
  have "seg ?b2 off DIR_BYTES = seg ?b1 off DIR_BYTES"
    "seg ?b2 (off + DIR_BYTES) (length nm) = seg ?b1 (off + DIR_BYTES) (length nm)"
    using fits mo by (auto intro!: seg_blit_other)
  moreover have "seg ?b1 off DIR_BYTES = enc_dir (d\<lparr>d_size := of_nat mo\<rparr>)"
    using fits z(3) by (subst seg_blit_within) (simp_all add: DIR_BYTES_def blit_enc_dir)
  moreover have "seg ?b1 (off + DIR_BYTES) (length nm) = nm"
    using fits mo z by (subst seg_blit_other) (auto simp: DIR_BYTES_def)
  ultimately have e1: "entry_at ?b2 off (d\<lparr>d_size := of_nat mo\<rparr>, nm)"
    using fits mo z umo len2 by (simp add: entry_at_def)
  have "seg ?b2 (off + mo) (length (enc_dir nd @ f)) = enc_dir nd @ f"
    using fits by (intro seg_blit_same) simp
  then have "seg ?b2 (off + mo) DIR_BYTES @ seg ?b2 (off + mo + DIR_BYTES) (length f) = enc_dir nd @ f"
    by (simp add: seg_join)
  then have "seg ?b2 (off + mo) DIR_BYTES = enc_dir nd" "seg ?b2 (off + mo + DIR_BYTES) (length f) = f"
    using fits len2 by (simp_all add: append_eq_append_conv)
  then have e2: "entry_at ?b2 (off + mo) (nd, f)"
    using fits mo z urest uf len2 by (simp add: entry_at_def nd_def)
  have "?b2 ! i = b ! i" if "i < off \<or> off + ?z \<le> i \<and> i < length b" for i
    using that fits mo by (auto simp: nth_blit DIR_BYTES_def)
  then show ?thesis
    using run len2 e1 e2 umo urest mo(2) by (intro exI [of _ ?b2]) (simp add: nd_def)
qed

definition has_room :: "byte list \<Rightarrow> entry \<Rightarrow> bool" where
  "has_room f e \<longleftrightarrow>
     align4 (DIR_BYTES + unat (d_filenameLength (fst e))) + align4 (DIR_BYTES + length f) \<le> unat (d_size (fst e))"

definition shrink :: "entry \<Rightarrow> entry" where
  "shrink e = (case e of (d, nm) \<Rightarrow> (d\<lparr>d_size := of_nat (align4 (DIR_BYTES + unat (d_filenameLength d)))\<rparr>, nm))"

definition rest_entry :: "entry \<Rightarrow> byte list \<Rightarrow> byte \<Rightarrow> u32 \<Rightarrow> entry" where
  "rest_entry e f ty inode = (case e of (d, nm) \<Rightarrow>
     (\<lparr>d_inode = inode, d_size = of_nat (unat (d_size d) - align4 (DIR_BYTES + unat (d_filenameLength d))),
       d_filenameLength = of_nat (length f), d_type = ty\<rparr>, f))"

text \<open>
  What \<open>insert_scan\<close> does: it stops at the first entry that has the name or has room; at the
  former it reports the name, at the latter it splits the entry.
\<close>

lemma insert_scan_span:
  assumes "dir_span b off es (length b)" "off \<le> length b" "length b < 2 ^ 16" "length f < 256"
  shows "(\<exists>pre e post. es = pre @ e # post \<and> (\<forall>x \<in> set pre. \<not> live f x \<and> \<not> has_room f x) \<and>
      (live f e \<and> insert_scan b off f ty inode = Inr Name_exists \<or>
       \<not> live f e \<and> has_room f e \<and>
       (\<exists>b'. insert_scan b off f ty inode = Inr (Inserted b') \<and> length b' = length b \<and>
          dir_span b' off (pre @ shrink e # rest_entry e f ty inode # post) (length b') \<and>
          (\<forall>i < off. b' ! i = b ! i)))) \<or>
    insert_scan b off f ty inode = Inr No_room \<and> (\<forall>x \<in> set es. \<not> live f x \<and> \<not> has_room f x)"
  using assms(1,2)
proof (induction es arbitrary: off)
  case Nil
  then have "insert_scan b off f ty inode = Inr No_room"
    by (subst insert_scan.simps) simp
  then show ?case by simp
next
  case (Cons e es)
  obtain d nm where d: "e = (d, nm)"
    by (cases e)
  have e: "entry_at b off e"
    using Cons.prems by simp
  have sz: "DIR_BYTES + length nm \<le> unat (d_size d)" "off + unat (d_size d) \<le> length b"
    "length nm = unat (d_filenameLength d)"
    using e unfolding d entry_at_def by blast+
  then have lt: "off < length b" "d_size d \<noteq> 0"
    by (auto simp: DIR_BYTES_def)
  have step: "insert_scan b off f ty inode =
      (if live f e then Inr Name_exists
       else if has_room f e
       then bindR (split_entry b off (align4 (DIR_BYTES + length nm))
              (unat (d_size d) - align4 (DIR_BYTES + length nm)) f ty inode) (\<lambda>b'. Inr (Inserted b'))
       else insert_scan b (off + unat (d_size d)) f ty inode)"
    using lt dir_at_entry [OF e] entry_matches_entry [OF e, of f] sz(3)
    by (subst insert_scan.simps) (simp add: d has_room_def Let_def)
  consider (found) "live f e" | (room) "\<not> live f e" "has_room f e" | (later) "\<not> live f e" "\<not> has_room f e"
    by blast
  then show ?case
  proof cases
    case found
    then show ?thesis
      by (intro disjI1 exI [of _ "[]"] exI [of _ e] exI [of _ es]) (simp add: step)
  next
    case room
    let ?mo = "align4 (DIR_BYTES + length nm)"
    have "DIR_BYTES + length nm \<le> ?mo" "?mo + (DIR_BYTES + length f) \<le> unat (d_size d)"
      using room(2) align4_bounds(1) [of "DIR_BYTES + length nm"] align4_bounds(1) [of "DIR_BYTES + length f"]
      by (simp_all add: has_room_def d sz(3))
    from split_entry_spec [OF e [unfolded d] assms(3,4) this, of ty inode]
    obtain b' where b': "split_entry b off ?mo (unat (d_size d) - ?mo) f ty inode = Inr b'" "length b' = length b"
      "dir_span b' off [shrink e, rest_entry e f ty inode] (off + unat (d_size d))"
      "\<forall>i. i < off \<or> off + unat (d_size d) \<le> i \<and> i < length b \<longrightarrow> b' ! i = b ! i"
      by (auto simp: d shrink_def rest_entry_def sz(3))
    have "dir_span b' (off + unat (d_size d)) es (length b')"
      using Cons.prems(1) b'(2,4) by (simp add: d) (rule dir_span_frame, auto)
    with b'(3) have "dir_span b' off ([shrink e, rest_entry e f ty inode] @ es) (length b')"
      unfolding dir_span_append by blast
    with room b' show ?thesis
      by (intro disjI1 exI [of _ "[]"] exI [of _ e] exI [of _ es]) (simp add: step)
  next
    case later
    have span: "dir_span b (off + unat (d_size d)) es (length b)"
      using Cons.prems(1) by (simp add: d)
    have eq: "insert_scan b off f ty inode = insert_scan b (off + unat (d_size d)) f ty inode"
      using later by (simp add: step)
    from Cons.IH [OF span sz(2)] show ?thesis
    proof (elim disjE exE conjE)
      fix pre x post
      assume es: "es = pre @ x # post" "\<forall>x \<in> set pre. \<not> live f x \<and> \<not> has_room f x" and "live f x"
        "insert_scan b (off + unat (d_size d)) f ty inode = Inr Name_exists"
      then show ?thesis
        using later by (intro disjI1 exI [of _ "e # pre"] exI [of _ x] exI [of _ post]) (simp add: eq)
    next
      fix pre x post b'
      assume es: "es = pre @ x # post" "\<forall>x \<in> set pre. \<not> live f x \<and> \<not> has_room f x"
        "\<not> live f x" "has_room f x" "insert_scan b (off + unat (d_size d)) f ty inode = Inr (Inserted b')"
        "length b' = length b"
        "dir_span b' (off + unat (d_size d)) (pre @ shrink x # rest_entry x f ty inode # post) (length b')"
        "\<forall>i < off + unat (d_size d). b' ! i = b ! i"
      have "entry_at b' off e"
        using es(8) by (intro entry_at_frame [OF e es(6)]) (simp add: d)
      with es later show ?thesis
        by (intro disjI1 exI [of _ "e # pre"] exI [of _ x] exI [of _ post]) (simp add: eq d)
    next
      assume "insert_scan b (off + unat (d_size d)) f ty inode = Inr No_room"
        "\<forall>x \<in> set es. \<not> live f x \<and> \<not> has_room f x"
      then show ?thesis
        using later by (simp add: eq)
    qed
  qed
qed

end
