(* ===== verification/Vfs_Types.thy ===== *)
theory Vfs_Types
  imports Errno
begin

text \<open>
  Data that every file system hands to the virtual file system: the status of a file
  (\<^verbatim>\<open>struct stat\<close>), the file types of \<^verbatim>\<open>st_mode\<close>, and the records of a directory listing
  with \<^verbatim>\<open>dents_add\<close>, which appends one of them.
\<close>

definition slash :: byte where "slash = 47"
definition SEEK_CURR :: nat where "SEEK_CURR = 1"

section \<open>Status\<close>

definition S_IFDIR :: u16 where "S_IFDIR = 0x4000"
definition S_IFREG :: u16 where "S_IFREG = 0x8000"
definition S_IRWXU :: u16 where "S_IRWXU = 0x1C0"

record stat =
  st_dev :: nat
  st_ino :: nat
  st_mode :: u16
  st_nlink :: u16
  st_uid :: nat
  st_gid :: nat
  st_rdev :: nat
  st_blksize :: int
  st_size :: int
  st_blocks :: int
  st_atime :: u32
  st_mtime :: u32
  st_ctime :: u32

text \<open>\<^verbatim>\<open>fsStat\<close> of \<^verbatim>\<open>vfs_stat.cpp\<close>: a handler that returns 0 has succeeded.\<close>

definition fsStat :: "('f \<Rightarrow> (int \<times> stat) res) option \<Rightarrow> 'f \<Rightarrow> (bool \<times> stat option) res" where
  "fsStat handler fd = (case handler of
     None \<Rightarrow> Inr (False, None)
   | Some h \<Rightarrow> bindR (h fd) (\<lambda>(r, st). Inr (r = 0, Some st)))"

section \<open>Directory records\<close>

text \<open>
  \<^verbatim>\<open>dents_add\<close> of \<^verbatim>\<open>dents.cpp\<close>: one record is appended to the caller's buffer, which has room for
  \<open>hardlimit\<close> bytes. The buffer is the list of the records written, each \<open>d_reclen\<close> bytes
  after the one before; \<^verbatim>\<open>allocatedlimit\<close> is the \<^verbatim>\<open>int\<close> the caller's \<^verbatim>\<open>size_t\<close> is accessed through.
  \<open>rand n\<close> is the value \<^verbatim>\<open>rand()\<close> gives for the \<open>n\<close>-th record.
\<close>

record linux_dirent64 =
  d_ino :: u64
  d_off :: u64
  d_reclen :: u16
  dt_type :: byte
  d_name :: "byte list"

datatype DENTS_RES = DENTS_NO_SPACE | DENTS_SUCCESS | DENTS_RETURN

definition CDT_DIR :: byte where "CDT_DIR = 4"
definition CDT_REG :: byte where "CDT_REG = 8"
definition CDT_LNK :: byte where "CDT_LNK = 10"

definition dents_add ::
  "(nat \<Rightarrow> u64) \<Rightarrow> linux_dirent64 list \<Rightarrow> u32 \<Rightarrow> u32 \<Rightarrow> byte list \<Rightarrow> u32 \<Rightarrow> byte \<Rightarrow>
   DENTS_RES \<times> linux_dirent64 list \<times> u32" where
  "dents_add rand dirp allocatedlimit hardlimit filename inode ty =
     (let reclen = 23 + length filename + 1 in
      if scast allocatedlimit + of_nat reclen + 2 > (ucast hardlimit :: u64) then
        (if allocatedlimit \<noteq> 0 then DENTS_RETURN else DENTS_NO_SPACE, dirp, allocatedlimit)
      else (DENTS_SUCCESS,
            dirp @ [\<lparr>d_ino = ucast inode, d_off = rand (length dirp), d_reclen = of_nat reclen, dt_type = ty,
                     d_name = filename @ [0]\<rparr>],
            allocatedlimit + of_nat reclen))"

end
