(* ===== verification/Ext2_Traverse.thy ===== *)
theory Ext2_Traverse
  imports Ext2_Block Dir_Block Vfs_Types
begin

text \<open>
  \<^verbatim>\<open>ext2_traverse.c\<close>: looking a name up in a directory and resolving an absolute path. Names
  and paths are the bytes of the C strings without the terminator. A symbolic link on the
  way stops the walk and hands the rewritten path back through \<^verbatim>\<open>symlinkResolve\<close>; the result
  is the inode number (0 for failure) with that path, if any.
\<close>

section \<open>Looking up one name\<close>

fun traverse_blocks ::
  "nat \<Rightarrow> Ext2Inode \<Rightarrow> nat \<Rightarrow> Ext2LookupControl \<Rightarrow> nat \<Rightarrow> byte list \<Rightarrow> u32 ext2_cmd" where
  "traverse_blocks 0 ino num control blockNum search = ret 0"
| "traverse_blocks (Suc k) ino num control blockNum search =
     bnd (ext2BlockFetch ino num control blockNum) (\<lambda>(block, control).
       if block = 0 then ret 0
       else (\<lambda>s. bnd (get_sectors (BLOCK_TO_LBA s 0 (unat block)) (blockSize s div SECTOR_SIZE)) (\<lambda>names.
         bnd (lift (lookup_scan names 0 search)) (\<lambda>r.
           case r of Some i \<Rightarrow> ret i
           | None \<Rightarrow> traverse_blocks k ino num control (blockNum + 1) search)) s))"

definition ext2Traverse :: "nat \<Rightarrow> byte list \<Rightarrow> u32 ext2_cmd" where
  "ext2Traverse initInode search =
     bnd (ext2InodeFetch initInode) (\<lambda>ino s.
       traverse_blocks (CEILING_DIVISION (unat (i_size ino)) (blockSize s)) ino initInode
         (ext2BlockFetchInit s control0) 0 search s)"

section \<open>Resolving a path\<close>

definition bang :: byte where "bang = 33"
definition EXT2_ROOT_INODE :: nat where "EXT2_ROOT_INODE = 2"
definition EXT2_S_IFLNK :: u16 where "EXT2_S_IFLNK = 0xA000"
definition EXT2_S_IFDIR :: u16 where "EXT2_S_IFDIR = 0x4000"

definition is_link :: "Ext2Inode \<Rightarrow> bool" where
  "is_link i \<longleftrightarrow> i_permission i AND 0xF000 = EXT2_S_IFLNK"

definition dir_bit :: "Ext2Inode \<Rightarrow> bool" where
  "dir_bit i \<longleftrightarrow> i_permission i AND S_IFDIR \<noteq> 0"

text \<open>The target text of a link: in the inode's block array, or in its first block.\<close>

definition link_text :: "Ext2Inode \<Rightarrow> byte list ext2_cmd" where
  "link_text inode = (\<lambda>s.
     if unat (i_size inode) > 60 then
       andthen (check Assert_failed (unat (i_size inode) < blockSize s))
       (get_sectors (BLOCK_TO_LBA s 0 (unat (i_blocks inode ! 0))) (blockSize s div SECTOR_SIZE)) s
     else Inr (bytes_of_words (i_blocks inode), s))"

definition link_target :: "byte list \<Rightarrow> nat \<Rightarrow> nat \<Rightarrow> byte list \<Rightarrow> nat \<Rightarrow> byte list" where
  "link_target path lastslash len start sz =
     (if start ! 0 \<noteq> slash then
        seg path 0 (lastslash + 1) @ seg start 0 sz @ drop (lastslash + 1 + len) path
      else bang # seg start 0 sz)"

function path_loop ::
  "byte list \<Rightarrow> bool \<Rightarrow> bool \<Rightarrow> nat \<Rightarrow> nat \<Rightarrow> nat \<Rightarrow> (nat \<times> byte list option) ext2_cmd" where
  "path_loop path follow resolve i lastslash cur =
     (if i < length path then
        (let last = (i = length path - 1) in
         if path ! i = slash \<or> last then
           (let len = (i - lastslash - 1) + (if last then 1 else 0) in
            bnd (ext2Traverse cur (seg path (lastslash + 1) len)) (\<lambda>found.
            let cur = unat found in
            if cur = 0 then ret (0, None)
            else bnd (ext2InodeFetch cur) (\<lambda>inode.
              if is_link inode \<and> (\<not> last \<or> follow) then
                bnd (link_text inode) (\<lambda>start.
                  andthen (check Undefined resolve)
                  (ret (0, Some (link_target path lastslash len start (unat (i_size inode))))))
              else if last then ret (cur, None)
              else if \<not> dir_bit inode then ret (0, None)
              else path_loop path follow resolve (i + 1) i cur)))
         else path_loop path follow resolve (i + 1) lastslash cur)
      else ret (0, None))"
  by pat_completeness auto
termination
  by (relation "measure (\<lambda>(path, f, r, i, l, c). length path - i)") auto

declare path_loop.simps [simp del]

definition ext2TraversePath ::
  "byte list \<Rightarrow> nat \<Rightarrow> bool \<Rightarrow> bool \<Rightarrow> (nat \<times> byte list option) ext2_cmd" where
  "ext2TraversePath path initInode follow resolve =
     (if length path = 1 then ret (2, None) else path_loop path follow resolve 1 0 initInode)"

section \<open>Directories on disk\<close>

text \<open>
  \<open>dir_has s ino ess\<close>: the directory consists of whole blocks, none missing, and \<open>ess\<close> lists
  the entries of each.
\<close>

definition dir_has :: "ext2_sys \<Rightarrow> Ext2Inode \<Rightarrow> entry list list \<Rightarrow> bool" where
  "dir_has s ino ess \<longleftrightarrow> CEILING_DIVISION (unat (i_size ino)) (blockSize s) = length ess \<and>
     length ess \<le> file_blocks_max s \<and>
     (\<forall>i < length ess. block_of s ino i \<noteq> 0 \<and> unat (block_of s ino i) < nblocks s \<and>
        dir_block (block_bytes s (unat (block_of s ino i))) (ess ! i))"

definition found_inode :: "entry list list \<Rightarrow> byte list \<Rightarrow> u32" where
  "found_inode ess nm = (case find_entry (concat ess) nm of None \<Rightarrow> 0 | Some i \<Rightarrow> i)"

lemma traverse_blocks_run:
  assumes "ext2_wf s" "inode_num_ok s n" "ptrs_ok s ino" "control_ok s c" "blockNum + k = length ess"
    "length ess \<le> file_blocks_max s"
    "\<forall>i < length ess. block_of s ino i \<noteq> 0 \<and> unat (block_of s ino i) < nblocks s \<and>
        dir_block (block_bytes s (unat (block_of s ino i))) (ess ! i)"
  shows "traverse_blocks k ino n c blockNum nm s = Inr (found_inode (drop blockNum ess) nm, s)"
  using assms(4,5)
proof (induction k arbitrary: c blockNum)
  case 0
  then show ?case by (simp add: cmd_simps found_inode_def)
next
  case (Suc k)
  have lt: "blockNum < length ess"
    using Suc.prems(2) by simp
  obtain c' where c': "ext2BlockFetch ino n c blockNum s = Inr ((block_of s ino blockNum, c'), s)" "control_ok s c'"
    using ext2BlockFetch_run [OF _ assms(2,3) Suc.prems(1), of blockNum] lt assms(1,2,6)
    by (auto simp: ext2_wf_def locks_free_def inode_num_ok_def)
  let ?b = "unat (block_of s ino blockNum)"
  have b: "block_of s ino blockNum \<noteq> 0" "?b < nblocks s" "dir_block (block_bytes s ?b) (ess ! blockNum)"
    using assms(7) lt by auto
  have get: "get_sectors (BLOCK_TO_LBA s 0 ?b) (blockSize s div SECTOR_SIZE) s = Inr (block_bytes s ?b, s)"
    using get_block_run [OF _ b(2)] assms(1) by (simp add: ext2_wf_def)
  have scan: "lookup_scan (block_bytes s ?b) 0 nm = Inr (find_entry (ess ! blockNum) nm)"
    using b(3) by (simp add: dir_block_def lookup_scan_span)
  have "find_entry (concat (drop blockNum ess)) nm =
      (case find_entry (ess ! blockNum) nm of None \<Rightarrow> find_entry (concat (drop (Suc blockNum) ess)) nm | Some i \<Rightarrow> Some i)"
    using lt by (simp add: Cons_nth_drop_Suc [symmetric] find_entry_append)
  then show ?case
    using c' b(1) get scan Suc.IH [OF c'(2), of "blockNum + 1"] Suc.prems(2)
    by (cases "find_entry (ess ! blockNum) nm") (simp_all add: cmd_simps found_inode_def)
qed

lemma ext2Traverse_run:
  assumes "ext2_wf s" "inode_num_ok s n" "ptrs_ok s (inode_at s n)" "dir_has s (inode_at s n) ess"
  shows "ext2Traverse n nm s = Inr (found_inode ess nm, s)"
proof -
  have "ext2InodeFetch n s = Inr (inode_at s n, s)"
    using assms(1,2) by (intro ext2InodeFetch_run) (simp_all add: ext2_wf_def locks_free_def inode_num_ok_def)
  then show ?thesis
    using traverse_blocks_run [OF assms(1-3) control_ok_init, of 0 "length ess" ess nm] assms(4)
    by (simp add: ext2Traverse_def cmd_simps dir_has_def)
qed

text \<open>
  C6. \<open>ext2Traverse\<close> is the first-match lookup in the directory: on a well-formed directory it
  returns the inode number of the first live entry with the name, over all its blocks in
  order, and 0 when there is none, changing nothing.
\<close>

theorem ext2Traverse_lookup:
  assumes "ext2_wf s" "inode_num_ok s n" "ptrs_ok s (inode_at s n)" "dir_has s (inode_at s n) ess"
  shows "ext2Traverse n nm s =
    Inr (case find (\<lambda>(d, x). d_inode d \<noteq> 0 \<and> x = nm) (concat ess) of None \<Rightarrow> 0 | Some (d, x) \<Rightarrow> d_inode d, s)"
proof -
  have "found_inode ess nm =
      (case find (\<lambda>(d, x). d_inode d \<noteq> 0 \<and> x = nm) (concat ess) of None \<Rightarrow> 0 | Some (d, x) \<Rightarrow> d_inode d)"
    unfolding found_inode_def find_entry_def live_def
    by (simp add: case_prod_beta' option.case_eq_if option.map_sel)
  then show ?thesis
    by (simp add: ext2Traverse_run [OF assms])
qed

section \<open>Path resolution as a walk over components\<close>

text \<open>
  A volume whose directories are well formed: \<open>D\<close> is a set of inode numbers closed under
  directory entries, \<open>dirs n\<close> the entries of directory \<open>n\<close>. \<open>walk\<close> follows the components:
  it reaches an inode, ends nowhere, or stops at a link with the components still to go.
\<close>

definition link_ok :: "ext2_sys \<Rightarrow> Ext2Inode \<Rightarrow> bool" where
  "link_ok s i \<longleftrightarrow> unat (i_size i) \<le> 60 \<or> unat (i_size i) < blockSize s \<and> unat (i_blocks i ! 0) < nblocks s"

definition text_of :: "ext2_sys \<Rightarrow> Ext2Inode \<Rightarrow> byte list" where
  "text_of s i = (if unat (i_size i) > 60 then block_bytes s (unat (i_blocks i ! 0)) else bytes_of_words (i_blocks i))"

definition tree_ok :: "ext2_sys \<Rightarrow> nat set \<Rightarrow> (nat \<Rightarrow> entry list list) \<Rightarrow> bool" where
  "tree_ok s D dirs \<longleftrightarrow> (\<forall>n \<in> D. inode_num_ok s n \<and> (is_link (inode_at s n) \<longrightarrow> link_ok s (inode_at s n)) \<and>
     (dir_bit (inode_at s n) \<longrightarrow> ptrs_ok s (inode_at s n) \<and> dir_has s (inode_at s n) (dirs n) \<and>
        (\<forall>e \<in> set (concat (dirs n)). d_inode (fst e) \<noteq> 0 \<longrightarrow> unat (d_inode (fst e)) \<in> D)))"

datatype walk_result = Reached nat | Nowhere | Link_at nat "byte list" "byte list list"

fun walk :: "ext2_sys \<Rightarrow> (nat \<Rightarrow> entry list list) \<Rightarrow> bool \<Rightarrow> nat \<Rightarrow> byte list list \<Rightarrow> walk_result" where
  "walk s dirs follow cur [] = Nowhere"
| "walk s dirs follow cur (c # cs) =
     (let t = unat (found_inode (dirs cur) c) in
      if t = 0 then Nowhere
      else if is_link (inode_at s t) \<and> (cs \<noteq> [] \<or> follow) then Link_at t c cs
      else if cs = [] then Reached t
      else if \<not> dir_bit (inode_at s t) then Nowhere
      else walk s dirs follow t cs)"

fun path_of :: "byte list list \<Rightarrow> byte list" where
  "path_of [] = []"
| "path_of (c # cs) = slash # c @ path_of cs"

definition component :: "byte list \<Rightarrow> bool" where
  "component c \<longleftrightarrow> c \<noteq> [] \<and> slash \<notin> set c"

definition path_result ::
  "ext2_sys \<Rightarrow> byte list \<Rightarrow> walk_result \<Rightarrow> (nat \<times> byte list option)" where
  "path_result s path r = (case r of
     Reached n \<Rightarrow> (n, None)
   | Nowhere \<Rightarrow> (0, None)
   | Link_at t c cs \<Rightarrow> (0, Some (link_target path (length path - length (path_of cs) - length c - 1) (length c)
       (text_of s (inode_at s t)) (unat (i_size (inode_at s t))))))"

lemma found_inode_closed:
  assumes "\<forall>e \<in> set (concat ess). d_inode (fst e) \<noteq> 0 \<longrightarrow> unat (d_inode (fst e)) \<in> D"
    "unat (found_inode ess nm) \<noteq> 0"
  shows "unat (found_inode ess nm) \<in> D"
proof -
  obtain i where i: "find_entry (concat ess) nm = Some i"
    using assms(2) by (auto simp: found_inode_def split: option.splits)
  then obtain e where "find (live nm) (concat ess) = Some e" "i = d_inode (fst e)"
    by (auto simp: find_entry_def)
  then have "e \<in> set (concat ess)"
    by (metis find_Some_iff nth_mem)
  moreover have eq: "found_inode ess nm = d_inode (fst e)"
    using i \<open>i = d_inode (fst e)\<close> by (simp add: found_inode_def)
  moreover have "d_inode (fst e) \<noteq> 0"
    using assms(2) eq by auto
  ultimately show ?thesis
    using assms(1) by auto
qed

lemma link_text_run:
  assumes "ext2_wf s" "link_ok s i"
  shows "link_text i s = Inr (text_of s i, s)"
  using assms get_block_run [of s "unat (i_blocks i ! 0)"]
  by (auto simp: link_text_def link_ok_def text_of_def cmd_simps ext2_wf_def)

lemma path_loop_skip:
  assumes "path = P @ slash # c @ rest" "slash \<notin> set c" "j \<le> length c" "rest = [] \<longrightarrow> j < length c"
  shows "path_loop path f r (length P + 1) (length P) cur = path_loop path f r (length P + 1 + j) (length P) cur"
  using assms(3,4)
proof (induction j)
  case 0
  then show ?case by simp
next
  case (Suc j)
  let ?i = "length P + 1 + j"
  have "path ! ?i = c ! j"
    using assms(1) Suc.prems by (simp add: nth_append)
  moreover have "c ! j \<noteq> slash"
    using assms(2) Suc.prems by (metis Suc_le_lessD nth_mem)
  moreover have "?i < length path" "?i \<noteq> length path - 1"
    using assms(1) Suc.prems by (cases rest; simp)+
  ultimately have "path_loop path f r ?i (length P) cur = path_loop path f r (?i + 1) (length P) cur"
    by (subst path_loop.simps) simp
  with Suc show ?case by simp
qed

lemma path_loop_component:
  assumes "ext2_wf s" "tree_ok s D dirs" "cur \<in> D" "dir_bit (inode_at s cur)" "component c"
    "path = P @ slash # c @ rest" "rest = [] \<or> (\<exists>x y. rest = slash # x # y)"
  defines "t \<equiv> unat (found_inode (dirs cur) c)"
  shows "path_loop path follow True (length P + 1) (length P) cur s =
    (if t = 0 then Inr ((0, None), s)
     else if is_link (inode_at s t) \<and> (rest \<noteq> [] \<or> follow)
     then Inr ((0, Some (link_target path (length P) (length c) (text_of s (inode_at s t))
            (unat (i_size (inode_at s t))))), s)
     else if rest = [] then Inr ((t, None), s)
     else if \<not> dir_bit (inode_at s t) then Inr ((0, None), s)
     else path_loop path follow True (length P + 1 + length c + 1) (length P + 1 + length c) t s)"
proof -
  have c: "0 < length c" "slash \<notin> set c"
    using assms(5) by (simp_all add: component_def)
  have cur: "inode_num_ok s cur" "ptrs_ok s (inode_at s cur)" "dir_has s (inode_at s cur) (dirs cur)"
    "\<forall>e \<in> set (concat (dirs cur)). d_inode (fst e) \<noteq> 0 \<longrightarrow> unat (d_inode (fst e)) \<in> D"
    using assms(2-4) unfolding tree_ok_def by blast+
  define j where "j = (if rest = [] then length c - 1 else length c)"
  let ?i = "length P + 1 + j" and ?last = "rest = []"
  have skip: "path_loop path follow True (length P + 1) (length P) cur =
      path_loop path follow True ?i (length P) cur"
    using c by (intro path_loop_skip [OF assms(6)]) (auto simp: j_def)
  have i: "?i < length path" "(?i = length path - 1) = ?last" "path ! ?i = slash \<or> ?last"
    "(?i - length P - 1) + (if ?last then 1 else 0) = length c"
    using c(1) assms(6,7) by (auto simp: j_def nth_append)
  have name: "seg path (Suc (length P)) (length c) = c"
    using assms(6) by (simp add: seg_def)
  have trav: "ext2Traverse cur c s = Inr (found_inode (dirs cur) c, s)"
    by (rule ext2Traverse_run [OF assms(1) cur(1-3)])
  have fetch: "ext2InodeFetch t s = Inr (inode_at s t, s)" "is_link (inode_at s t) \<Longrightarrow> link_ok s (inode_at s t)"
    if "t \<noteq> 0"
  proof -
    have "t \<in> D"
      using found_inode_closed [OF cur(4)] that by (simp add: t_def)
    then show "is_link (inode_at s t) \<Longrightarrow> link_ok s (inode_at s t)"
      using assms(2) unfolding tree_ok_def by blast
    have "inode_num_ok s t"
      using assms(2) \<open>t \<in> D\<close> unfolding tree_ok_def by blast
    then show "ext2InodeFetch t s = Inr (inode_at s t, s)"
      using assms(1) by (intro ext2InodeFetch_run) (simp_all add: ext2_wf_def locks_free_def inode_num_ok_def)
  qed
  have jlen: "\<not> ?last \<Longrightarrow> j = length c"
    by (simp add: j_def)
  show ?thesis
    unfolding skip path_loop.simps [of path follow True ?i] Let_def i(2,4)
    using i(1,3) trav fetch link_text_run [OF assms(1)] jlen
    by (auto simp: cmd_simps name t_def [symmetric])
qed

lemma path_loop_walk:
  assumes "ext2_wf s" "tree_ok s D dirs" "cur \<in> D" "dir_bit (inode_at s cur)" "cs \<noteq> []"
    "\<forall>c \<in> set cs. component c" "path = P @ path_of cs"
  shows "path_loop path follow True (length P + 1) (length P) cur s =
    Inr (path_result s path (walk s dirs follow cur cs), s)"
  using assms(3-7)
proof (induction cs arbitrary: P cur)
  case Nil
  then show ?case by simp
next
  case (Cons c cs)
  let ?t = "unat (found_inode (dirs cur) c)" and ?rest = "path_of cs"
  have c: "component c" and path: "path = P @ slash # c @ ?rest"
    using Cons.prems by simp_all
  have rest: "(?rest = []) = (cs = [])" "?rest = [] \<or> (\<exists>x y. ?rest = slash # x # y)"
    using Cons.prems(4) by (cases cs; auto simp: component_def neq_Nil_conv)+
  have pos: "length path - length ?rest - length c - 1 = length P"
    using path by simp
  have res: "path_result s path Nowhere = (0, None)" "path_result s path (Reached t) = (t, None)"
    "path_result s path (Link_at t c cs) = (0, Some (link_target path (length P) (length c)
       (text_of s (inode_at s t)) (unat (i_size (inode_at s t)))))" for t
    by (simp_all only: path_result_def walk_result.case pos)
  note step = path_loop_component [OF assms(1,2) Cons.prems(1,2) c path rest(2), of follow]
  show ?case
  proof (cases "?t = 0 \<or> is_link (inode_at s ?t) \<and> (cs \<noteq> [] \<or> follow) \<or> cs = [] \<or> \<not> dir_bit (inode_at s ?t)")
    case True
    then consider (missing) "?t = 0"
      | (linked) "?t \<noteq> 0" "is_link (inode_at s ?t) \<and> (cs \<noteq> [] \<or> follow)"
      | (ended) "?t \<noteq> 0" "\<not> (is_link (inode_at s ?t) \<and> (cs \<noteq> [] \<or> follow))" "cs = []"
      | (plain) "?t \<noteq> 0" "\<not> (is_link (inode_at s ?t) \<and> (cs \<noteq> [] \<or> follow))" "cs \<noteq> []" "\<not> dir_bit (inode_at s ?t)"
      by argo
    then show ?thesis
    proof cases
      case missing
      show ?thesis unfolding step walk.simps Let_def if_P [OF missing] res ..
    next
      case linked
      show ?thesis
        unfolding step rest(1) walk.simps Let_def if_not_P [OF linked(1)] if_P [OF linked(2)] res ..
    next
      case ended
      show ?thesis
        unfolding step rest(1) walk.simps Let_def if_not_P [OF ended(1)] if_not_P [OF ended(2)] if_P [OF ended(3)] res ..
    next
      case plain
      show ?thesis
        unfolding step rest(1) walk.simps Let_def if_not_P [OF plain(1)] if_not_P [OF plain(2)]
          if_not_P [OF plain(3)] if_P [OF plain(4)] res ..
    qed
  next
    case False
    have go: "?t \<noteq> 0" "\<not> (is_link (inode_at s ?t) \<and> (cs \<noteq> [] \<or> follow))" "cs \<noteq> []" "\<not> \<not> dir_bit (inode_at s ?t)"
      using False by argo+
    have "\<forall>e \<in> set (concat (dirs cur)). d_inode (fst e) \<noteq> 0 \<longrightarrow> unat (d_inode (fst e)) \<in> D"
      using assms(2) Cons.prems(1,2) unfolding tree_ok_def by blast
    then have "?t \<in> D"
      using go(1) by (rule found_inode_closed)
    moreover have "\<forall>c \<in> set cs. component c" "path = (P @ slash # c) @ path_of cs"
      using Cons.prems(4) path by simp_all
    ultimately have "path_loop path follow True (length (P @ slash # c) + 1) (length (P @ slash # c)) ?t s =
        Inr (path_result s path (walk s dirs follow ?t cs), s)"
      using go(3,4) by (intro Cons.IH) simp_all
    moreover have "length (P @ slash # c) = length P + 1 + length c"
      by simp
    ultimately have "path_loop path follow True (length P + 1 + length c + 1) (length P + 1 + length c) ?t s =
        Inr (path_result s path (walk s dirs follow ?t cs), s)"
      by (simp only:)
    then show ?thesis
      unfolding step rest(1) walk.simps Let_def if_not_P [OF go(1)] if_not_P [OF go(2)]
        if_not_P [OF go(3)] if_not_P [OF go(4)] .
  qed
qed

text \<open>
  C5. Path resolution is the walk over the components: for a path \<^verbatim>\<open>/c1/.../cn\<close> on a volume
  with well-formed directories, \<open>ext2TraversePath\<close> looks each component up in the directory
  the previous one led to. It returns the inode reached, fails when a component is missing
  or a non-directory is in the way, and at a symbolic link (the last component only if
  \<open>follow\<close>) stops with the path rewritten: the link text in place of the component, or
  marked with an exclamation mark when it is absolute.
\<close>

theorem ext2TraversePath_walk:
  assumes "ext2_wf s" "tree_ok s D dirs" "2 \<in> D" "dir_bit (inode_at s 2)" "cs \<noteq> []" "\<forall>c \<in> set cs. component c"
  shows "ext2TraversePath (path_of cs) EXT2_ROOT_INODE follow True s =
    Inr (path_result s (path_of cs) (walk s dirs follow 2 cs), s)"
proof -
  have "length (path_of cs) \<noteq> 1"
    using assms(5,6) by (cases cs) (auto simp: component_def)
  then show ?thesis
    using path_loop_walk [OF assms, of "path_of cs" "[]" follow]
    by (simp add: ext2TraversePath_def EXT2_ROOT_INODE_def)
qed

end
