(* ===== verification/Vfs_Path.thy ===== *)
theory Vfs_Path
  imports Ext2_Traverse
begin

text \<open>
  Paths in the virtual file system: sanitizing (\<^verbatim>\<open>filesystems/vfs/vfs_sanitize.cpp\<close>), the choice of a
  mount point and the resolution of symbolic links across mount points
  (\<^verbatim>\<open>filesystems/vfs/vfs_mnt.cpp\<close>). A C string is the byte list before its terminator; a buffer
  is a byte list whose contents after allocation are arbitrary (\<open>junk\<close>), and what lies behind it in
  memory is \<open>past\<close>. \<^verbatim>\<open>memcpy\<close> copies upwards, so that a copy to a lower, overlapping place
  moves the bytes unchanged.
\<close>

definition dot :: byte where "dot = 46"

definition peek :: "byte list \<Rightarrow> nat \<Rightarrow> byte" where
  "peek b i = (if i < length b then b ! i else 0)"

section \<open>Sanitizing\<close>

text \<open>The loop of \<^verbatim>\<open>fsSanitizeCopySafe\<close> on the rest of the source string, into another buffer.\<close>

fun copy_safe :: "byte list \<Rightarrow> byte list" where
  "copy_safe [] = []"
| "copy_safe (c # cs) =
     (if c = slash \<and> peek cs 0 = slash then copy_safe cs
      else if c = slash \<and> peek cs 0 = 0 then copy_safe cs
      else if c = slash \<and> peek cs 0 = dot \<and> (peek cs 1 = slash \<or> peek cs 1 = 0) then copy_safe (tl cs)
      else c # copy_safe cs)"

definition fsSanitizeCopySafe :: "byte list \<Rightarrow> byte list" where
  "fsSanitizeCopySafe filename = (let out = copy_safe filename in if out = [] then [slash] else out)"

text \<open>The same loop when source and target are one buffer.\<close>

function inplace_loop :: "byte list \<Rightarrow> nat \<Rightarrow> nat \<Rightarrow> (nat \<times> byte list) res" where
  "inplace_loop b i j =
     (if length b \<le> i then Inl Out_of_bounds
      else if b ! i = 0 then Inr (j, b)
      else if b ! i = slash \<and> peek b (i + 1) = slash then inplace_loop b (i + 1) j
      else if b ! i = slash \<and> peek b (i + 1) = 0 then inplace_loop b (i + 1) j
      else if b ! i = slash \<and> peek b (i + 1) = dot \<and> (peek b (i + 2) = slash \<or> peek b (i + 2) = 0)
        then inplace_loop b (i + 2) j
      else if length b \<le> j then Inl Out_of_bounds
      else inplace_loop (b[j := b ! i]) (i + 1) (j + 1))"
  by pat_completeness auto
termination
  by (relation "measure (\<lambda>(b, i, j). length b - i)") auto

declare inplace_loop.simps [simp del]

definition sanitize_in_place :: "byte list \<Rightarrow> byte list res" where
  "sanitize_in_place b =
     bindR (inplace_loop b 0 0) (\<lambda>(j, b1).
     bindR (wr b1 j [0]) (\<lambda>b2.
     if j = 0 then wr b2 0 [slash, 0] else Inr b2))"

text \<open>
  The loop that removes \<^verbatim>\<open>/..\<close> with the component before it; \<open>n\<close> is \<^verbatim>\<open>finalSize\<close>. The copy takes
  as many bytes as if the source were at \<open>idx + 3\<close>, so it reads behind the buffer when a
  component is removed.
\<close>

definition at_dotdot :: "byte list \<Rightarrow> nat \<Rightarrow> bool" where
  "at_dotdot b i \<longleftrightarrow> peek b i = slash \<and> peek b (i + 1) = dot \<and> peek b (i + 2) = dot \<and>
     (peek b (i + 3) = slash \<or> peek b (i + 3) = 0)"

definition slash_before :: "byte list \<Rightarrow> nat \<Rightarrow> nat" where
  "slash_before b i = (case find (\<lambda>k. b ! k = slash) (rev [0..<i]) of None \<Rightarrow> 0 | Some k \<Rightarrow> k)"

definition read_over :: "(nat \<Rightarrow> byte) \<Rightarrow> byte list \<Rightarrow> nat \<Rightarrow> nat \<Rightarrow> byte list" where
  "read_over past b off len = map (\<lambda>k. if off + k < length b then b ! (off + k) else past (off + k - length b)) [0..<len]"

function dots_loop :: "(nat \<Rightarrow> byte) \<Rightarrow> byte list \<Rightarrow> nat \<Rightarrow> nat \<Rightarrow> (nat \<times> byte list) res" where
  "dots_loop past b i n =
     (if i < n then
        (if at_dotdot b i then
           (let idx = slash_before b i; lentocopy = n - idx - 3 + 1 in
            bindR (wr b idx (read_over past b (i + 3) lentocopy)) (\<lambda>b'.
            dots_loop past b' idx (n - (i + 3 - idx))))
         else dots_loop past b (i + 1) n)
      else Inr (n, b))"
  by pat_completeness auto
termination
proof (relation "inv_image (less_than <*lex*> less_than) (\<lambda>(past, b, i, n). (n, n - i))", goal_cases)
  case (2 past b i n idx lentocopy b')
  have "idx \<le> i"
    unfolding 2(3) slash_before_def by (auto simp: find_Some_iff split: option.split) (metis diff_Suc_less length_rev length_upt
        less_imp_le nth_mem set_rev set_upt atLeastLessThan_iff diff_zero)
  with 2 show ?case by auto
qed auto

declare dots_loop.simps [simp del]

definition cstr :: "byte list \<Rightarrow> byte list" where
  "cstr b = takeWhile (\<lambda>c. c \<noteq> 0) b"

definition fsSanitize :: "(nat \<Rightarrow> byte) \<Rightarrow> (nat \<Rightarrow> byte) \<Rightarrow> byte list \<Rightarrow> byte list \<Rightarrow> byte list res" where
  "fsSanitize junk past prefix filename =
     bindR
       (if peek filename 0 \<noteq> slash then
          (let cwdLen = length prefix; b0 = map junk [0..<cwdLen + 1 + length filename + 1] in
           bindR (wr b0 0 prefix) (\<lambda>b1.
           let deep = (peek prefix 0 = slash \<and> peek prefix 1 \<noteq> 0); offset = (if deep then 1 else 0) in
           bindR (if deep then wr b1 cwdLen [slash] else Inr b1) (\<lambda>b2.
           bindR (wr b2 (offset + cwdLen) (fsSanitizeCopySafe filename @ [0])) (\<lambda>b3.
           bindR (sanitize_in_place b3) (\<lambda>b4.
           wr b4 (cwdLen + offset + length filename) [0])))))
        else wr (map junk [0..<length filename + 1]) 0 (fsSanitizeCopySafe filename @ [0]))
       (\<lambda>b. bindR (dots_loop past b 0 (length (cstr b))) (\<lambda>(n, b').
            bindR (if n = 0 then wr b' 0 [slash, 0] else Inr b') (\<lambda>b''. Inr (cstr b''))))"

section \<open>Mount points\<close>

record MountPoint =
  mnt_prefix :: "byte list"

definition root :: "byte list" where "root = [slash]"

definition fsStripMountpoint :: "byte list \<Rightarrow> MountPoint \<Rightarrow> byte list" where
  "fsStripMountpoint filename mnt =
     (let out = drop (length (mnt_prefix mnt) - 1) filename in if out \<noteq> [] then out else root)"

fun determine_loop :: "byte list \<Rightarrow> MountPoint list \<Rightarrow> MountPoint option \<Rightarrow> nat \<Rightarrow> MountPoint option" where
  "determine_loop filename [] best bestLen = best"
| "determine_loop filename (browse # rest) best bestLen =
     (let len = length (mnt_prefix browse) - 1 in
      if bestLen \<le> len \<and> take len filename = take len (mnt_prefix browse) \<and>
         (peek filename len = slash \<or> peek filename len = 0)
      then determine_loop filename rest (Some browse) len
      else determine_loop filename rest best bestLen)"

definition fsDetermineMountPoint :: "MountPoint list \<Rightarrow> byte list \<Rightarrow> MountPoint option" where
  "fsDetermineMountPoint dsMountPoint filename = determine_loop filename dsMountPoint None 0"

definition exclamation :: byte where "exclamation = 33"

definition fsResolveSymlink :: "MountPoint \<Rightarrow> byte list \<Rightarrow> byte list option" where
  "fsResolveSymlink mnt symlink =
     (if peek symlink 0 = slash then Some (take (length (mnt_prefix mnt) - 1) (mnt_prefix mnt) @ symlink)
      else if peek symlink 0 = exclamation then Some (tl symlink)
      else None)"


section \<open>Components\<close>

text \<open>
  The specification: a path is split at slashes; empty fields and \<^verbatim>\<open>.\<close> are dropped; \<^verbatim>\<open>..\<close> removes the
  component before it, if there is one.
\<close>

fun split_slash :: "byte list \<Rightarrow> byte list list" where
  "split_slash [] = [[]]"
| "split_slash (c # cs) =
     (if c = slash then [] # split_slash cs else (c # hd (split_slash cs)) # tl (split_slash cs))"

definition keep :: "byte list \<Rightarrow> bool" where
  "keep c \<longleftrightarrow> c \<noteq> [] \<and> c \<noteq> [dot]"

definition components :: "byte list \<Rightarrow> byte list list" where
  "components p = filter keep (split_slash p)"

definition resolve :: "byte list list \<Rightarrow> byte list list \<Rightarrow> byte list list" where
  "resolve = foldl (\<lambda>ds e. if e = [dot, dot] then butlast ds else ds @ [e])"

definition normal_path :: "byte list list \<Rightarrow> byte list" where
  "normal_path cs = (if cs = [] then [slash] else path_of cs)"

definition field :: "byte list \<Rightarrow> bool" where
  "field c \<longleftrightarrow> slash \<notin> set c \<and> 0 \<notin> set c"

lemma byte_consts [simp]: "slash \<noteq> 0" "dot \<noteq> 0" "slash \<noteq> dot" "dot \<noteq> slash" "0 \<noteq> slash" "0 \<noteq> dot"
  by (simp_all add: slash_def dot_def)

lemma split_slash_ne [simp]: "split_slash p \<noteq> []"
  by (induction p) auto

lemma split_join: "hd (split_slash p) @ path_of (tl (split_slash p)) = p"
proof (induction p)
  case (Cons c p)
  have "path_of (split_slash p) = slash # hd (split_slash p) @ path_of (tl (split_slash p))"
    by (cases "split_slash p") simp_all
  with Cons show ?case by simp
qed simp

lemma split_field: "0 \<notin> set p \<Longrightarrow> \<forall>c \<in> set (split_slash p). field c"
proof (induction p)
  case (Cons c p)
  obtain d ds where "split_slash p = d # ds" by (cases "split_slash p") simp_all
  with Cons show ?case by (auto simp: field_def)
qed (simp add: field_def)

lemma path_of_append [simp]: "path_of (xs @ ys) = path_of xs @ path_of ys"
  by (induction xs) simp_all

lemma path_of_absolute: "peek p 0 = slash \<Longrightarrow> path_of (tl (split_slash p)) = p"
  using split_join [of p] by (cases p) (auto simp: peek_def split: if_splits)

lemma peek_path_of: "peek (path_of cs) 0 = (if cs = [] then 0 else slash)"
  by (cases cs) (simp_all add: peek_def)

lemma peek_Cons [simp]: "peek (x # xs) 0 = x" "peek (x # xs) (Suc i) = peek xs i" "peek [] i = 0"
  by (simp_all add: peek_def)

lemma copy_safe_field: "field c \<Longrightarrow> copy_safe (c @ rest) = c @ copy_safe rest"
  by (induction c) (auto simp: field_def)

lemma copy_safe_path: "\<forall>c \<in> set cs. field c \<Longrightarrow> copy_safe (path_of cs) = path_of (filter keep cs)"
proof (induction cs)
  case (Cons c cs)
  then have ih: "copy_safe (path_of cs) = path_of (filter keep cs)" and c: "field c" by auto
  consider "c = []" | "c = [dot]" | d ds where "c = d # ds" "c \<noteq> [dot]" by (cases c) auto
  then show ?case
  proof cases
    case 1
    then have "\<not> keep c" by (simp add: keep_def)
    with 1 show ?thesis using ih peek_path_of [of cs] by auto
  next
    case 2
    then have "\<not> keep c" by (simp add: keep_def)
    with 2 show ?thesis using ih peek_path_of [of cs] by auto
  next
    case 3
    then have d: "d \<noteq> slash" "d \<noteq> 0" "d = dot \<Longrightarrow> peek (ds @ path_of cs) 0 \<noteq> slash \<and> peek (ds @ path_of cs) 0 \<noteq> 0"
      using c by (auto simp: field_def) (cases ds; auto)+
    then have "copy_safe (path_of (c # cs)) = slash # copy_safe (c @ path_of cs)"
      using 3(1) by auto
    moreover have "keep c" using 3 by (simp add: keep_def)
    ultimately show ?thesis using ih copy_safe_field [OF c, of "path_of cs"] by (simp del: copy_safe.simps)
  qed
qed simp

lemma length_copy_safe: "length (copy_safe p) \<le> length p"
proof (induction p rule: copy_safe.induct)
  case (2 c cs)
  have "length (tl cs) \<le> length cs" by (cases cs) simp_all
  with 2 show ?case by (auto intro: le_SucI le_trans)
qed simp

section \<open>Sanitizing in place\<close>

lemma peek_drop: "drop i b = ys @ 0 # r \<Longrightarrow> k \<le> length ys \<Longrightarrow> peek b (i + k) = peek ys k"
proof -
  assume a: "drop i b = ys @ 0 # r" "k \<le> length ys"
  have "length b - i = length ys + Suc (length r)" using arg_cong [OF a(1), of length] by simp
  with a(2) have "i + k < length b" by linarith
  then have "peek b (i + k) = drop i b ! k" by (simp add: peek_def)
  also have "\<dots> = peek ys k" unfolding a(1) using a(2) by (auto simp: peek_def nth_append)
  finally show ?thesis .
qed

lemma inplace_loop_run:
  assumes "drop i b = ys @ 0 # r" "0 \<notin> set ys" "j \<le> i"
  shows "\<exists>b'. inplace_loop b i j = Inr (j + length (copy_safe ys), b') \<and> length b' = length b \<and>
    take (j + length (copy_safe ys)) b' = take j b @ copy_safe ys"
  using assms
proof (induction ys arbitrary: b i j rule: copy_safe.induct)
  case 1
  then have "i < length b" "b ! i = 0"
    by (metis append_Nil drop_eq_Nil leI list.distinct(1), metis append_Nil drop_eq_Nil hd_drop_conv_nth leI list.distinct(1) list.sel(1))
  then show ?case by (simp add: inplace_loop.simps)
next
  case (2 c cs)
  have len: "i < length b" using arg_cong [OF "2.prems"(1), of length] by simp
  have bi: "b ! i = c" using "2.prems"(1) len by (metis append_Cons hd_drop_conv_nth list.sel(1))
  have nx: "drop (i + 1) b = cs @ 0 # r" using "2.prems"(1) by (metis Suc_eq_plus1 append_Cons drop_Suc drop_tl list.sel(3))
  have c0: "c \<noteq> 0" "0 \<notin> set cs" using "2.prems"(2) by auto
  have p1: "peek b (i + 1) = peek cs 0" using peek_drop [OF nx, of 0] by simp
  have p2: "cs \<noteq> [] \<Longrightarrow> peek b (i + 2) = peek cs 1" using peek_drop [OF nx, of 1] by (cases cs) simp_all
  note unf = inplace_loop.simps [of b i j]
  consider (a) "c = slash \<and> peek cs 0 = slash" | (b) "c = slash \<and> peek cs 0 = 0"
    | (c) "c = slash \<and> peek cs 0 = dot \<and> (peek cs 1 = slash \<or> peek cs 1 = 0)"
    | (d) "\<not> (c = slash \<and> peek cs 0 = slash)" "\<not> (c = slash \<and> peek cs 0 = 0)"
       "\<not> (c = slash \<and> peek cs 0 = dot \<and> (peek cs 1 = slash \<or> peek cs 1 = 0))" by blast
  then show ?case
  proof cases
    case a
    have "inplace_loop b i j = inplace_loop b (i + 1) j" using a len bi p1 by (simp add: unf)
    with "2.IH"(1) [OF a nx c0(2)] "2.prems"(3) a show ?thesis by simp
  next
    case b
    have "inplace_loop b i j = inplace_loop b (i + 1) j" using b len bi p1 by (simp add: unf)
    with "2.IH"(2) [OF _ b nx c0(2)] "2.prems"(3) b show ?thesis by simp
  next
    case c
    then obtain e es where cs: "cs = e # es" by (cases cs) auto
    have nx2: "drop (i + 2) b = tl cs @ 0 # r" using nx cs by (metis Suc_1 Suc_eq_plus1 add_Suc_right append_Cons drop_Suc drop_tl list.sel(3))
    have "inplace_loop b i j = inplace_loop b (i + 2) j" using c len bi p1 p2 cs by (simp add: unf)
    moreover have "\<exists>b'. inplace_loop b (i + 2) j = Inr (j + length (copy_safe (tl cs)), b') \<and> length b' = length b \<and>
        take (j + length (copy_safe (tl cs))) b' = take j b @ copy_safe (tl cs)"
      by (rule "2.IH"(3) [OF _ _ c nx2]) (use c c0(2) cs "2.prems"(3) in auto)
    ultimately show ?thesis using c by simp
  next
    case d
    let ?b1 = "b[j := c]"
    have "\<not> length b \<le> j" using len "2.prems"(3) by simp
    with d len bi p1 p2 c0 have run: "inplace_loop b i j = inplace_loop ?b1 (i + 1) (j + 1)"
      by (cases cs) (auto simp: unf)
    have "drop (i + 1) ?b1 = cs @ 0 # r" using nx "2.prems"(3) by simp
    from "2.IH"(4) [OF d this c0(2), of "j + 1"] "2.prems"(3) obtain b' where
      b': "inplace_loop ?b1 (i + 1) (j + 1) = Inr (j + 1 + length (copy_safe cs), b')" "length b' = length b"
        "take (j + 1 + length (copy_safe cs)) b' = take (j + 1) ?b1 @ copy_safe cs" by auto
    have "take (j + 1) ?b1 = take j b @ [c]"
      using len "2.prems"(3) by (simp add: take_Suc_conv_app_nth)
    with b' run d show ?thesis by (intro exI [of _ b']) auto
  qed
qed


section \<open>Removing parent components\<close>

text \<open>
  \<open>dots_state b n ds es\<close>: the buffer holds the string \<open>path_of (ds @ es)\<close> of length \<open>n\<close>, its components
  \<open>ds\<close> are behind the scanning position and \<open>es\<close> are still ahead of it.
\<close>

definition dots_state :: "byte list \<Rightarrow> nat \<Rightarrow> byte list list \<Rightarrow> byte list list \<Rightarrow> bool" where
  "dots_state b n ds es \<longleftrightarrow> n = length (path_of (ds @ es)) \<and> n < length b \<and>
     take (Suc n) b = path_of (ds @ es) @ [0] \<and> (\<forall>c \<in> set (ds @ es). field c)"

lemma take_nth: "take n b = xs \<Longrightarrow> i < length xs \<Longrightarrow> b ! i = xs ! i"
  by (metis length_take min_less_iff_conj nth_take)

lemma path_bytes_nz: "\<forall>c \<in> set cs. field c \<Longrightarrow> 0 \<notin> set (path_of cs)"
  by (induction cs) (auto simp: field_def)

lemma at_dotdot_component:
  assumes "dots_state b n ds (e # es)"
  shows "at_dotdot b (length (path_of ds)) \<longleftrightarrow> e = [dot, dot]"
proof -
  let ?i = "length (path_of ds)"
  have st: "take (Suc n) b = path_of ds @ slash # e @ path_of es @ [0]" "n < length b"
    and n: "n = ?i + Suc (length e + length (path_of es))" and e: "field e"
    using assms by (auto simp: dots_state_def)
  have d: "drop ?i b = (slash # e @ path_of es) @ 0 # drop (Suc n) b"
  proof -
    have "drop ?i b = drop ?i (take (Suc n) b @ drop (Suc n) b)" by simp
    also have "\<dots> = (slash # e @ path_of es) @ 0 # drop (Suc n) b" unfolding st(1) by simp
    finally show ?thesis .
  qed
  have pk: "peek b (?i + k) = peek (slash # e @ path_of es) k" if "k \<le> Suc (length e + length (path_of es))" for k
    using peek_drop [OF d, of k] that by simp
  have b0: "peek b ?i = slash" using pk [of 0] by simp
  have rest: "peek (path_of es) 0 = slash \<or> peek (path_of es) 0 = 0" using peek_path_of [of es] by auto
  consider "e = []" | x where "e = [x]" | x y where "e = [x, y]" | x y z zs where "e = x # y # z # zs"
    by (metis neq_Nil_conv)
  then show ?thesis
  proof cases
    case 1
    then have "peek b (?i + 1) = peek (path_of es) 0" using pk [of 1] by simp
    with rest 1 show ?thesis by (auto simp: at_dotdot_def)
  next
    case (2 x)
    then have "peek b (?i + 2) = peek (path_of es) 0" using pk [of 2] by (simp add: numeral_2_eq_2)
    with rest 2 show ?thesis by (auto simp: at_dotdot_def)
  next
    case (3 x y)
    then have "peek b (?i + 1) = x" "peek b (?i + 2) = y" "peek b (?i + 3) = peek (path_of es) 0"
      using pk [of 1] pk [of 2] pk [of 3] by (simp_all add: numeral_2_eq_2 numeral_3_eq_3)
    with rest b0 3 show ?thesis by (auto simp: at_dotdot_def)
  next
    case (4 x y z zs)
    then have "peek b (?i + 3) = z" using pk [of 3] by (simp add: numeral_3_eq_3)
    with e 4 show ?thesis by (auto simp: at_dotdot_def field_def)
  qed
qed

lemma not_at_dotdot: "b ! i \<noteq> slash \<Longrightarrow> i < length b \<Longrightarrow> \<not> at_dotdot b i"
  by (simp add: at_dotdot_def peek_def)

lemma dots_skip:
  assumes "i + k \<le> n" "n \<le> length b" "\<forall>q. i \<le> q \<and> q < i + k \<longrightarrow> \<not> at_dotdot b q"
  shows "dots_loop past b i n = dots_loop past b (i + k) n"
  using assms
proof (induction k arbitrary: i)
  case (Suc k)
  then have "dots_loop past b i n = dots_loop past b (i + 1) n"
    by (simp add: dots_loop.simps [of past b i n])
  also have "\<dots> = dots_loop past b (i + 1 + k) n"
    by (rule Suc.IH) (use Suc.prems in auto)
  finally show ?case by simp
qed simp

lemma dots_pass:
  assumes st: "dots_state b n ds (e # es)" and e: "e \<noteq> [dot, dot]"
  shows "dots_loop past b (length (path_of ds)) n = dots_loop past b (length (path_of (ds @ [e]))) n \<and>
    dots_state b n (ds @ [e]) es"
proof
  let ?i = "length (path_of ds)" and ?k = "Suc (length e)"
  have tk: "take (Suc n) b = path_of ds @ slash # e @ path_of es @ [0]" "n < length b" "?i + ?k \<le> n" "field e"
    using st by (auto simp: dots_state_def)
  have "\<not> at_dotdot b q" if q: "?i \<le> q" "q < ?i + ?k" for q
  proof (cases "q = ?i")
    case True
    then show ?thesis using at_dotdot_component [OF st] e by simp
  next
    case False
    with q have m: "q - ?i - 1 < length e" "q = ?i + Suc (q - ?i - 1)" by auto
    then have "b ! q = e ! (q - ?i - 1)"
      using take_nth [OF tk(1), of q] by (simp add: nth_append)
    with m(1) tk(4) have "b ! q \<noteq> slash" by (metis field_def nth_mem)
    then show ?thesis using not_at_dotdot tk(2,3) q by simp
  qed
  then have "dots_loop past b ?i n = dots_loop past b (?i + ?k) n"
    using tk by (intro dots_skip) auto
  then show "dots_loop past b ?i n = dots_loop past b (length (path_of (ds @ [e]))) n" by simp
  have same: "(ds @ [e]) @ es = ds @ e # es" by simp
  show "dots_state b n (ds @ [e]) es" using st unfolding dots_state_def same .
qed

lemma find_rev_last:
  assumes "k < i" "P k" "\<And>q. k < q \<Longrightarrow> q < i \<Longrightarrow> \<not> P q"
  shows "find P (rev [0..<i]) = Some k"
  unfolding find_Some_iff using assms by (intro exI [of _ "i - 1 - k"]) (auto simp: rev_nth)

lemma slash_before_last:
  assumes st: "dots_state b n (ds @ [d]) es"
  shows "slash_before b (length (path_of (ds @ [d]))) = length (path_of ds)"
proof -
  let ?k = "length (path_of ds)" and ?i = "length (path_of (ds @ [d]))"
  have tk: "take (Suc n) b = path_of ds @ slash # d @ path_of es @ [0]" "field d"
    using st by (auto simp: dots_state_def)
  have k: "b ! ?k = slash" using take_nth [OF tk(1), of ?k] by simp
  have "b ! q \<noteq> slash" if "?k < q" "q < ?i" for q
  proof -
    have m: "q - ?k - 1 < length d" "q = ?k + Suc (q - ?k - 1)" using that by auto
    then have "b ! q = d ! (q - ?k - 1)"
      using take_nth [OF tk(1), of q] by (simp add: nth_append)
    with m(1) tk(2) show ?thesis by (metis field_def nth_mem)
  qed
  then have "find (\<lambda>q. b ! q = slash) (rev [0..<?i]) = Some ?k"
    using k by (intro find_rev_last) simp_all
  then show ?thesis by (simp add: slash_before_def)
qed


lemma read_over_take:
  assumes "m \<le> len" "off + m \<le> length b"
  shows "take m (read_over past b off len) = take m (drop off b)"
  by (rule nth_equalityI) (use assms in \<open>auto simp: read_over_def\<close>)

lemma dots_pop:
  assumes st: "dots_state b n ds ([dot, dot] # es)"
  shows "\<exists>b' n'. dots_loop past b (length (path_of ds)) n = dots_loop past b' (length (path_of (butlast ds))) n' \<and>
    dots_state b' n' (butlast ds) es \<and> length b' = length b"
proof -
  let ?i = "length (path_of ds)" and ?idx = "length (path_of (butlast ds))" and ?m = "Suc (length (path_of es))"
  have tk: "take (Suc n) b = path_of ds @ [slash, dot, dot] @ path_of es @ [0]" "n < length b"
    and n: "n = ?i + 3 + length (path_of es)" and f: "\<forall>c \<in> set (ds @ es). field c"
    using st by (auto simp: dots_state_def)
  have idx: "slash_before b ?i = ?idx"
  proof (cases ds rule: rev_cases)
    case Nil
    then show ?thesis by (simp add: slash_before_def)
  next
    case (snoc ds' d)
    with st have "dots_state b n (ds' @ [d]) ([dot, dot] # es)" by simp
    from slash_before_last [OF this] snoc show ?thesis by simp
  qed
  have le: "?idx \<le> ?i" by (cases ds rule: rev_cases) simp_all
  let ?len = "n - ?idx - 3 + 1" and ?n' = "n - (?i + 3 - ?idx)"
  define src where "src = read_over past b (?i + 3) ?len"
  have lsrc: "length src = ?len" by (simp add: src_def read_over_def)
  have w: "wr b ?idx src = Inr (blit b ?idx src)"
    using le n tk(2) by (simp add: wr_def lsrc)
  have n': "?n' = ?idx + length (path_of es)" using le n by simp
  have "take ?m (drop (?i + 3) b) = path_of es @ [0]"
  proof -
    have "take ?m (drop (?i + 3) b) = drop (?i + 3) (take (Suc n) b)" using n by (simp add: drop_take)
    then show ?thesis unfolding tk(1) by simp
  qed
  moreover have "take ?m src = take ?m (drop (?i + 3) b)"
    unfolding src_def by (rule read_over_take) (use le n tk(2) in simp_all)
  ultimately have src: "take ?m src = path_of es @ [0]" by simp
  have "take ?idx b = path_of (butlast ds)"
  proof -
    have "take ?idx b = take ?idx (take (Suc n) b)" using le n by simp
    also have "\<dots> = path_of (butlast ds)" unfolding tk(1) by (cases ds rule: rev_cases) simp_all
    finally show ?thesis .
  qed
  moreover have "take (Suc ?n') (blit b ?idx src) = take ?idx b @ take ?m src"
    unfolding n' using le n tk(2) lsrc by (simp add: blit_def take_append)
  ultimately have "take (Suc ?n') (blit b ?idx src) = path_of (butlast ds @ es) @ [0]"
    using src by simp
  moreover have "length (blit b ?idx src) = length b" using le n tk(2) lsrc by simp
  moreover have "\<forall>c \<in> set (butlast ds @ es). field c" using f by (auto dest: in_set_butlastD)
  ultimately have st': "dots_state (blit b ?idx src) ?n' (butlast ds) es"
    using n' tk(2) n le by (simp add: dots_state_def)
  have "dots_loop past b ?i n = dots_loop past (blit b ?idx src) ?idx ?n'"
    using at_dotdot_component [OF st] n w unfolding dots_loop.simps [of past b ?i n] idx Let_def src_def by simp
  with st' \<open>length (blit b ?idx src) = length b\<close> show ?thesis by blast
qed

lemma dots_loop_run:
  assumes "dots_state b n ds es"
  shows "\<exists>b' n'. dots_loop past b (length (path_of ds)) n = Inr (n', b') \<and> dots_state b' n' (resolve ds es) [] \<and> length b' = length b"
  using assms
proof (induction es arbitrary: b n ds)
  case Nil
  then have "n = length (path_of ds)" by (simp add: dots_state_def)
  then have "dots_loop past b (length (path_of ds)) n = Inr (n, b)" by (subst dots_loop.simps) simp
  with Nil show ?case by (simp add: resolve_def)
next
  case (Cons e es)
  show ?case
  proof (cases "e = [dot, dot]")
    case True
    obtain b1 n1 where b1: "dots_loop past b (length (path_of ds)) n = dots_loop past b1 (length (path_of (butlast ds))) n1"
      "dots_state b1 n1 (butlast ds) es" "length b1 = length b"
      using dots_pop [OF Cons.prems [unfolded True]] by blast
    from Cons.IH [OF b1(2)] b1(1,3) True show ?thesis by (simp add: resolve_def)
  next
    case False
    from dots_pass [OF Cons.prems False, of past] Cons.IH [of b n "ds @ [e]"] False show ?thesis
      by (simp add: resolve_def)
  qed
qed


section \<open>The whole function\<close>

definition str_at :: "byte list \<Rightarrow> byte list \<Rightarrow> bool" where
  "str_at b xs \<longleftrightarrow> take (Suc (length xs)) b = xs @ [0] \<and> 0 \<notin> set xs"

lemma str_at_length: "str_at b xs \<Longrightarrow> length xs < length b"
  unfolding str_at_def by (metis Suc_le_eq length_append_singleton length_take min.bounded_iff order_refl)

lemma str_at_cstr: "str_at b xs \<Longrightarrow> cstr b = xs"
proof -
  assume a: "str_at b xs"
  then have "b = xs @ 0 # drop (Suc (length xs)) b"
    unfolding str_at_def by (metis append_Cons append_Nil append_assoc append_take_drop_id)
  then have "cstr b = cstr (xs @ 0 # drop (Suc (length xs)) b)" by simp
  also have "\<dots> = xs" using a unfolding cstr_def str_at_def by (subst takeWhile_append2) auto
  finally show ?thesis .
qed

lemma wr_str:
  assumes "off + length xs < length b" "take off b = p" "length p = off" "0 \<notin> set (p @ xs)"
  obtains b' where "wr b off (xs @ [0]) = Inr b'" "str_at b' (p @ xs)" "length b' = length b"
proof
  let ?b = "blit b off (xs @ [0])"
  show "wr b off (xs @ [0]) = Inr ?b" using assms(1) by (simp add: wr_def)
  show "str_at ?b (p @ xs)" using assms by (simp add: str_at_def blit_def)
  show "length ?b = length b" using assms(1) by simp
qed

lemma wr_end:
  assumes "str_at b xs" "length xs \<le> pos" "pos < length b"
  obtains b' where "wr b pos [0] = Inr b'" "str_at b' xs" "length b' = length b"
proof
  let ?b = "blit b pos [0]"
  show "wr b pos [0] = Inr ?b" using assms(3) by (simp add: wr_def)
  show "length ?b = length b" using assms(3) by simp
  have "take (Suc (length xs)) ?b = xs @ [0]"
  proof (cases "length xs = pos")
    case True
    have "take pos b = xs" using assms(1) True unfolding str_at_def by (metis append_eq_conv_conj le_add2 min.absorb1 plus_1_eq_Suc take_take)
    with True assms(3) show ?thesis by (simp add: blit_def)
  next
    case False
    then have "Suc (length xs) \<le> pos" using assms(2) by simp
    then have "take (Suc (length xs)) ?b = take (Suc (length xs)) b" using assms(3) by (simp add: blit_def min_def)
    with assms(1) show ?thesis by (simp add: str_at_def)
  qed
  with assms(1) show "str_at ?b xs" by (simp add: str_at_def)
qed

lemma copy_safe_subset: "set (copy_safe xs) \<subseteq> set xs"
proof (induction xs rule: copy_safe.induct)
  case (2 c cs)
  have sub: "x \<in> set (tl cs) \<Longrightarrow> x \<in> set cs" for x by (cases cs) auto
  from 2 show ?case by (auto dest: sub)
qed simp

lemma sanitize_in_place_run:
  assumes "str_at b xs" "2 \<le> length b"
  obtains b' where "sanitize_in_place b = Inr b'" "str_at b' (fsSanitizeCopySafe xs)" "length b' = length b"
proof -
  have "b = xs @ 0 # drop (Suc (length xs)) b"
    using assms(1) unfolding str_at_def by (metis append_Cons append_Nil append_assoc append_take_drop_id)
  then have d: "drop 0 b = xs @ 0 # drop (Suc (length xs)) b" by simp
  have nz: "0 \<notin> set xs" using assms(1) by (simp add: str_at_def)
  from inplace_loop_run [OF d nz order_refl] obtain b1 where
    b1: "inplace_loop b 0 0 = Inr (length (copy_safe xs), b1)" "length b1 = length b"
      "take (length (copy_safe xs)) b1 = copy_safe xs" by auto
  have lt: "length (copy_safe xs) < length b1"
    using length_copy_safe [of xs] str_at_length [OF assms(1)] b1(2) by simp
  have nz': "0 \<notin> set (copy_safe xs)" using nz copy_safe_subset by blast
  obtain b2 where b2: "wr b1 (length (copy_safe xs)) [0] = Inr b2" "str_at b2 (copy_safe xs)" "length b2 = length b1"
    using wr_str [of "length (copy_safe xs)" "[]" b1 "copy_safe xs"] lt b1(3) nz' by auto
  show ?thesis
  proof (cases "copy_safe xs = []")
    case True
    obtain b3 where "wr b2 0 [slash, 0] = Inr b3" "str_at b3 [slash]" "length b3 = length b2"
      using wr_str [of 0 "[slash]" b2 "[]"] assms(2) b1(2) b2(3) by auto
    with True b1 b2 show ?thesis by (intro that [of b3]) (simp_all add: sanitize_in_place_def fsSanitizeCopySafe_def)
  next
    case False
    with b1 b2 show ?thesis by (intro that [of b2]) (simp_all add: sanitize_in_place_def fsSanitizeCopySafe_def)
  qed
qed

lemma finish_run:
  assumes "str_at b (normal_path cs)" "\<forall>c \<in> set cs. field c" "2 \<le> length b"
  shows "bindR (dots_loop past b 0 (length (cstr b))) (\<lambda>(n, b').
      bindR (if n = 0 then wr b' 0 [slash, 0] else Inr b') (\<lambda>b''. Inr (cstr b''))) = Inr (normal_path (resolve [] cs))"
proof -
  define es where "es = (if cs = [] then [[]] else cs)"
  have es: "path_of es = normal_path cs" "\<forall>c \<in> set es. field c"
    using assms(2) by (auto simp: es_def normal_path_def field_def)
  have st: "dots_state b (length (cstr b)) [] es"
    using assms(1) str_at_length [OF assms(1)] es str_at_cstr [OF assms(1)] by (simp add: dots_state_def str_at_def)
  from dots_loop_run [OF st, of past] obtain b' n' where
    b': "dots_loop past b 0 (length (cstr b)) = Inr (n', b')" "dots_state b' n' (resolve [] es) []" "length b' = length b" by auto
  have r: "normal_path (resolve [] cs) = normal_path (resolve [] es)"
    by (simp add: es_def resolve_def normal_path_def)
  have s': "str_at b' (path_of (resolve [] es))" "n' = length (path_of (resolve [] es))"
    using b'(2) path_bytes_nz [of "resolve [] es"] unfolding dots_state_def str_at_def by auto
  show ?thesis
  proof (cases "n' = 0")
    case True
    then have "resolve [] es = []" using s'(2) by (cases "resolve [] es") simp_all
    moreover obtain b3 where "wr b' 0 [slash, 0] = Inr b3" "str_at b3 [slash]"
      using wr_str [of 0 "[slash]" b' "[]"] assms(3) b'(3) by auto
    ultimately show ?thesis using b'(1) True r str_at_cstr by (simp add: normal_path_def)
  next
    case False
    then have "resolve [] es \<noteq> []" using s'(2) by auto
    with False b'(1) r str_at_cstr [OF s'(1)] show ?thesis by (simp add: normal_path_def)
  qed
qed

lemma copy_safe_normal: "\<forall>c \<in> set cs. field c \<Longrightarrow> fsSanitizeCopySafe (path_of cs) = normal_path (filter keep cs)"
  by (cases "filter keep cs") (simp_all add: fsSanitizeCopySafe_def copy_safe_path normal_path_def Let_def)


lemma components_fields: "0 \<notin> set p \<Longrightarrow> \<forall>c \<in> set (components p). field c"
  using split_field [of p] by (auto simp: components_def)

lemma components_absolute: "peek p 0 = slash \<Longrightarrow> components p = filter keep (tl (split_slash p))"
  by (cases p) (auto simp: components_def keep_def split: if_splits)

lemma length_normal: "peek p 0 = slash \<Longrightarrow> 0 \<notin> set p \<Longrightarrow> length (fsSanitizeCopySafe p) \<le> length p"
  using length_copy_safe [of p] by (cases p) (auto simp: fsSanitizeCopySafe_def Let_def)

lemma sanitize_absolute:
  assumes "peek p 0 = slash" "0 \<notin> set p"
  shows "fsSanitizeCopySafe p = normal_path (components p)"
  using copy_safe_normal [of "tl (split_slash p)"] split_field [OF assms(2)] path_of_absolute [OF assms(1)] components_absolute [OF assms(1)]
  by (metis list.set_sel(2) split_slash_ne)

lemma normal_nz: "\<forall>c \<in> set cs. field c \<Longrightarrow> 0 \<notin> set (normal_path cs)"
  using path_bytes_nz [of cs] by (simp add: normal_path_def)

lemma split_append_slash: "split_slash (p @ slash # q) = split_slash p @ split_slash q"
proof (induction p)
  case (Cons c p)
  then show ?case by (cases "split_slash p") auto
qed simp

lemma components_join: "components (p @ slash # q) = components p @ components q"
  by (simp add: components_def split_append_slash)

lemma components_clean:
  assumes "q \<noteq> []" "peek q 0 \<noteq> slash" "0 \<notin> set q"
  shows "components (copy_safe q) = components q"
proof -
  obtain c cs where sp: "split_slash q = c # cs" by (cases "split_slash q") simp_all
  have f: "field c" "\<forall>c \<in> set cs. field c" using split_field [OF assms(3)] sp by auto
  have q: "q = c @ path_of cs" using split_join [of q] sp by simp
  have "copy_safe q = c @ path_of (filter keep cs)"
    unfolding q using copy_safe_field [OF f(1)] copy_safe_path [OF f(2)] by simp
  moreover have "split_slash (c @ path_of ds) = c # ds" if "\<forall>d \<in> set ds. field d" for ds
    using f(1) that
  proof (induction ds arbitrary: c)
    case Nil
    then show ?case by (induction c) (auto simp: field_def)
  next
    case (Cons d ds)
    have "split_slash (c @ slash # d @ path_of ds) = split_slash c @ split_slash (d @ path_of ds)"
      by (rule split_append_slash)
    moreover have "split_slash c = [c]" using Cons.prems(1) by (induction c) (auto simp: field_def)
    ultimately show ?case using Cons by simp
  qed
  ultimately show ?thesis using f(2) sp by (simp add: components_def)
qed

lemma fsSanitize_absolute:
  assumes "peek filename 0 = slash" "0 \<notin> set filename"
  shows "fsSanitize junk past prefix filename = Inr (normal_path (resolve [] (components filename)))"
proof -
  have f: "\<forall>c \<in> set (components filename). field c" using assms(2) by (rule components_fields)
  have ne: "filename \<noteq> []" using assms(1) by auto
  obtain b where b: "wr (map junk [0..<length filename + 1]) 0 (fsSanitizeCopySafe filename @ [0]) = Inr b"
    "str_at b (normal_path (components filename))" "length b = length filename + 1"
    using wr_str [of 0 "fsSanitizeCopySafe filename" "map junk [0..<length filename + 1]" "[]"]
      length_normal [OF assms] sanitize_absolute [OF assms] normal_nz [OF f] by auto
  have "2 \<le> length b" using b(3) ne by (cases filename) simp_all
  from finish_run [OF b(2) f this, of past] b(1) assms(1) show ?thesis
    by (simp add: fsSanitize_def)
qed

lemma fsSanitize_relative:
  assumes "peek filename 0 \<noteq> slash" "filename \<noteq> []" "0 \<notin> set filename" "peek prefix 0 = slash" "0 \<notin> set prefix"
  shows "fsSanitize junk past prefix filename = Inr (normal_path (resolve [] (components (prefix @ slash # filename))))"
proof -
  let ?cw = "length prefix" and ?deep = "peek prefix 1 \<noteq> 0" and ?S = "fsSanitizeCopySafe filename"
  define L where "L = ?cw + 1 + length filename + 1"
  define off where "off = (if ?deep then 1 else 0 :: nat)"
  define P where "P = (if ?deep then prefix @ [slash] else prefix)"
  have cw: "0 < ?cw" using assms(4) by (cases prefix) auto
  have S: "?S = copy_safe filename" "length ?S \<le> length filename" "0 \<notin> set ?S" "?S \<noteq> []"
  proof -
    obtain c cs where "filename = c # cs" "c \<noteq> slash" using assms(1,2) by (cases filename) auto
    then have "copy_safe filename \<noteq> []" by simp
    then show "?S = copy_safe filename" "?S \<noteq> []" by (simp_all add: fsSanitizeCopySafe_def)
    then show "length ?S \<le> length filename" "0 \<notin> set ?S" using length_copy_safe [of filename] copy_safe_subset assms(3) by auto
  qed
  have b1: "wr (map junk [0..<L]) 0 prefix = Inr (blit (map junk [0..<L]) 0 prefix)"
    by (simp add: wr_def L_def)
  let ?b1 = "blit (map junk [0..<L]) 0 prefix"
  have l1: "length ?b1 = L" "take ?cw ?b1 = prefix" by (simp_all add: L_def blit_def)
  define b2 where "b2 = (if ?deep then blit ?b1 ?cw [slash] else ?b1)"
  have b2: "(if ?deep then wr ?b1 ?cw [slash] else Inr ?b1) = Inr b2"
    using l1(1) by (simp add: b2_def wr_def L_def)
  have l2: "length b2 = L" "take (off + ?cw) b2 = P" "length P = off + ?cw"
    using l1 by (simp_all add: b2_def off_def P_def L_def) (simp_all add: blit_def)
  obtain b3 where b3: "wr b2 (off + ?cw) (?S @ [0]) = Inr b3" "str_at b3 (P @ ?S)" "length b3 = length b2"
  proof (rule wr_str)
    show "off + ?cw + length ?S < length b2" using l2(1) S(2) by (simp add: L_def off_def)
    show "0 \<notin> set (P @ ?S)" using S(3) assms(5) by (simp add: P_def)
  qed (use l2(2,3) in simp_all)
  obtain b4 where b4: "sanitize_in_place b3 = Inr b4" "str_at b4 (fsSanitizeCopySafe (P @ ?S))" "length b4 = length b3"
    by (rule sanitize_in_place_run [OF b3(2)]) (use b3(3) l2(1) in \<open>simp_all add: L_def\<close>)
  have PS: "peek (P @ ?S) 0 = slash" "0 \<notin> set (P @ ?S)"
    using assms(4,5) S(3) cw by (auto simp: P_def peek_def nth_append)
  have "components (P @ ?S) = components (prefix @ slash # ?S)"
  proof (cases ?deep)
    case False
    then have "prefix = [slash]" using assms(4,5) by (cases prefix; cases "tl prefix") (auto simp: peek_def)
    then show ?thesis using False by (simp add: P_def components_def keep_def)
  qed (simp add: P_def)
  also have "\<dots> = components (prefix @ slash # filename)"
    using components_clean [OF assms(2,1,3)] S(1) by (simp add: components_join)
  finally have comps: "fsSanitizeCopySafe (P @ ?S) = normal_path (components (prefix @ slash # filename))"
    using sanitize_absolute [OF PS] by simp
  have "length (fsSanitizeCopySafe (P @ ?S)) \<le> ?cw + off + length filename"
    using length_normal [OF PS] l2(3) S(2) by simp
  then obtain b5 where b5: "wr b4 (?cw + off + length filename) [0] = Inr b5"
    "str_at b5 (normal_path (components (prefix @ slash # filename)))" "length b5 = L"
  proof (rule wr_end [OF b4(2)])
    show "?cw + off + length filename < length b4" using b4(3) b3(3) l2(1) by (simp add: L_def off_def)
  qed (use b4(3) b3(3) l2(1) comps in simp_all)
  have f: "\<forall>c \<in> set (components (prefix @ slash # filename)). field c"
    using assms(3,5) by (intro components_fields) simp
  have "2 \<le> length b5" using b5(3) by (simp add: L_def)
  note fin = finish_run [OF b5(2) f this, of past]
  show ?thesis
    using assms(1,4) b1 b2 b3(1) b4(1) b5(1) fin
    unfolding fsSanitize_def Let_def L_def [symmetric] by (cases ?deep) (simp_all add: off_def)
qed


lemma resolve_simps:
  "resolve ds [] = ds"
  "resolve ds (e # es) = resolve (if e = [dot, dot] then butlast ds else ds @ [e]) es"
  by (simp_all add: resolve_def)

lemma resolve_all:
  assumes "\<forall>c \<in> set ds. P c" "\<forall>e \<in> set es. e = [dot, dot] \<or> P e"
  shows "\<forall>c \<in> set (resolve ds es). P c"
  using assms
proof (induction es arbitrary: ds)
  case Nil
  then show ?case by (simp add: resolve_simps)
next
  case (Cons e es)
  have "\<forall>c \<in> set (if e = [dot, dot] then butlast ds else ds @ [e]). P c"
    using Cons.prems by (cases "e = [dot, dot]") (auto dest: in_set_butlastD)
  moreover have "\<forall>e \<in> set es. e = [dot, dot] \<or> P e" using Cons.prems(2) by simp
  ultimately show ?case unfolding resolve_simps by (rule Cons.IH)
qed

text \<open>
  C34. Sanitizing gives the normal form of a path: for a non-empty file name, absolute or relative to
  an absolute working directory, the result is \<^verbatim>\<open>/\<close> or \<^verbatim>\<open>/c1/.../cn\<close> where the components are
  those of the path without empty ones and \<^verbatim>\<open>.\<close>, each \<^verbatim>\<open>..\<close> removing the component before
  it; no component of the result is empty, \<^verbatim>\<open>.\<close> or \<^verbatim>\<open>..\<close>, or contains a slash. The result
  depends neither on what the allocated buffer held nor on the memory behind it.
\<close>

theorem fsSanitize_normal:
  assumes "filename \<noteq> []" "0 \<notin> set filename" "peek prefix 0 = slash" "0 \<notin> set prefix"
    "cs = resolve [] (components (if peek filename 0 = slash then filename else prefix @ slash # filename))"
  shows "fsSanitize junk past prefix filename = Inr (if cs = [] then [slash] else path_of cs) \<and>
    (\<forall>c \<in> set cs. component c \<and> c \<noteq> [dot] \<and> c \<noteq> [dot, dot])"
proof
  let ?p = "if peek filename 0 = slash then filename else prefix @ slash # filename"
  show "fsSanitize junk past prefix filename = Inr (if cs = [] then [slash] else path_of cs)"
    using fsSanitize_absolute [of filename junk past prefix] fsSanitize_relative [of filename prefix junk past] assms
    by (simp add: normal_path_def)
  have nz: "0 \<notin> set ?p" using assms(2,4) by simp
  have "\<forall>c \<in> set cs. keep c \<and> field c \<and> c \<noteq> [dot, dot]"
    unfolding assms(5) by (rule resolve_all) (use components_fields [OF nz] in \<open>auto simp: components_def\<close>)
  then show "\<forall>c \<in> set cs. component c \<and> c \<noteq> [dot] \<and> c \<noteq> [dot, dot]"
    by (auto simp: keep_def field_def component_def)
qed

theorem fsSanitize_normal_witness:
  "fsSanitize (\<lambda>_. 7) (\<lambda>_. 9) [slash, 104] [97, slash, dot, dot, slash, slash, dot, slash, 98, slash] =
     Inr [slash, 104, slash, 98]"
proof -
  have cs: "resolve [] (components ([slash, 104] @ slash # [97, slash, dot, dot, slash, slash, dot, slash, 98, slash])) = [[104], [98]]"
    by (simp add: components_def keep_def resolve_def slash_def dot_def)
  have p: "peek [97, slash, dot, dot, slash, slash, dot, slash, 98, slash] 0 \<noteq> slash" by (simp add: slash_def)
  show ?thesis
    using fsSanitize_normal [of "[97, slash, dot, dot, slash, slash, dot, slash, 98, slash]" "[slash, 104]" "[[104], [98]]" "\<lambda>_. 7" "\<lambda>_. 9"] cs p
    by (simp add: slash_def dot_def)
qed

text \<open>
  \<open>mounted_at mnt p\<close>: the path lies at or below the mount point, whose prefix ends in a slash.
\<close>

definition mounted_at :: "MountPoint \<Rightarrow> byte list \<Rightarrow> bool" where
  "mounted_at mnt p \<longleftrightarrow> p = butlast (mnt_prefix mnt) \<or> (\<exists>rest. p = mnt_prefix mnt @ rest)"

definition prefix_ok :: "MountPoint \<Rightarrow> bool" where
  "prefix_ok mnt \<longleftrightarrow> mnt_prefix mnt \<noteq> [] \<and> last (mnt_prefix mnt) = slash \<and> 0 \<notin> set (mnt_prefix mnt)"

lemma prefix_ok_split: "prefix_ok mnt \<Longrightarrow> mnt_prefix mnt = butlast (mnt_prefix mnt) @ [slash]"
  unfolding prefix_ok_def by (metis append_butlast_last_id)

lemma match_mounted:
  assumes "prefix_ok mnt" "0 \<notin> set p"
  shows "take (length (mnt_prefix mnt) - 1) p = take (length (mnt_prefix mnt) - 1) (mnt_prefix mnt) \<and>
      (peek p (length (mnt_prefix mnt) - 1) = slash \<or> peek p (length (mnt_prefix mnt) - 1) = 0) \<longleftrightarrow> mounted_at mnt p"
proof -
  let ?q = "butlast (mnt_prefix mnt)" and ?n = "length (mnt_prefix mnt) - 1"
  have q: "mnt_prefix mnt = ?q @ [slash]" "length ?q = ?n" "take ?n (mnt_prefix mnt) = ?q"
    using prefix_ok_split [OF assms(1)] by (simp_all add: butlast_conv_take)
  show ?thesis
  proof
    assume a: "take ?n p = take ?n (mnt_prefix mnt) \<and> (peek p ?n = slash \<or> peek p ?n = 0)"
    then have t: "take ?n p = ?q" using q(3) by simp
    show "mounted_at mnt p"
    proof (cases "?n < length p")
      case True
      then have "p ! ?n = slash" using a assms(2) by (auto simp: peek_def dest: nth_mem)
      with True t have "p = ?q @ slash # drop (Suc ?n) p" by (metis id_take_nth_drop)
      with q(1) show ?thesis unfolding mounted_at_def by (metis append.assoc append_Cons append_Nil)
    next
      case False
      with t show ?thesis by (simp add: mounted_at_def)
    qed
  next
    assume "mounted_at mnt p"
    then show "take ?n p = take ?n (mnt_prefix mnt) \<and> (peek p ?n = slash \<or> peek p ?n = 0)"
      unfolding mounted_at_def
    proof
      assume "p = ?q"
      with q show ?thesis by (simp add: peek_def)
    next
      assume "\<exists>rest. p = mnt_prefix mnt @ rest"
      then obtain rest where p: "p = ?q @ slash # rest" using q(1) by (metis append.assoc append_Cons append_Nil)
      then show ?thesis using q(2,3) by (simp add: peek_def nth_append)
    qed
  qed
qed

lemma determine_loop_spec:
  assumes "\<forall>m \<in> set ms. prefix_ok m" "0 \<notin> set p"
    "case best of None \<Rightarrow> bestLen = 0 | Some m \<Rightarrow> mounted_at m p \<and> bestLen = length (mnt_prefix m) - 1"
  shows "case determine_loop p ms best bestLen of
      None \<Rightarrow> best = None \<and> (\<forall>m \<in> set ms. \<not> mounted_at m p)
    | Some m \<Rightarrow> mounted_at m p \<and> (Some m = best \<or> m \<in> set ms) \<and> bestLen \<le> length (mnt_prefix m) - 1 \<and>
        (\<forall>m' \<in> set ms. mounted_at m' p \<longrightarrow> length (mnt_prefix m') - 1 \<le> length (mnt_prefix m) - 1)"
  using assms(1,3)
proof (induction ms arbitrary: best bestLen)
  case Nil
  then show ?case by (auto split: option.splits)
next
  case (Cons m ms)
  let ?len = "length (mnt_prefix m) - 1"
  have m: "take ?len p = take ?len (mnt_prefix m) \<and> (peek p ?len = slash \<or> peek p ?len = 0) \<longleftrightarrow> mounted_at m p"
    using match_mounted [of m p] Cons.prems(1) assms(2) by simp
  show ?case
  proof (cases "bestLen \<le> ?len \<and> mounted_at m p")
    case True
    then have "determine_loop p (m # ms) best bestLen = determine_loop p ms (Some m) ?len"
      using m by (simp add: Let_def)
    with Cons.IH [where best = "Some m" and bestLen = ?len] Cons.prems(1) True show ?thesis
      by (auto split: option.splits)
  next
    case False
    then have "determine_loop p (m # ms) best bestLen = determine_loop p ms best bestLen"
      using m by (auto simp: Let_def)
    with Cons.IH [OF _ Cons.prems(2)] Cons.prems False show ?thesis
      by (auto split: option.splits)
  qed
qed

text \<open>
  C35. The mount point of a path is the one with the longest prefix: it is a registered mount point
  the path lies at or below, no other such mount point has a longer prefix, and none is found
  only if the path lies below none. Stripping the prefix leaves the path inside the mount
  point: \<^verbatim>\<open>/\<close>, or the rest with its leading slash.
\<close>

theorem fsDetermineMountPoint_longest:
  assumes "\<forall>m \<in> set ms. prefix_ok m" "0 \<notin> set p"
  shows "case fsDetermineMountPoint ms p of
      None \<Rightarrow> \<forall>m \<in> set ms. \<not> mounted_at m p
    | Some m \<Rightarrow> m \<in> set ms \<and> mounted_at m p \<and>
        (\<forall>m' \<in> set ms. mounted_at m' p \<longrightarrow> length (mnt_prefix m') \<le> length (mnt_prefix m)) \<and>
        fsStripMountpoint p m = (if p = butlast (mnt_prefix m) then [slash] else drop (length (mnt_prefix m) - 1) p) \<and>
        peek (fsStripMountpoint p m) 0 = slash"
proof (cases "fsDetermineMountPoint ms p")
  case None
  with determine_loop_spec [OF assms, where best = None and bestLen = 0] show ?thesis by (simp add: fsDetermineMountPoint_def)
next
  case (Some m)
  with determine_loop_spec [OF assms, where best = None and bestLen = 0] have m: "mounted_at m p" "m \<in> set ms"
    "\<forall>m' \<in> set ms. mounted_at m' p \<longrightarrow> length (mnt_prefix m') - 1 \<le> length (mnt_prefix m) - 1"
    by (simp_all add: fsDetermineMountPoint_def)
  have ok: "mnt_prefix m \<noteq> []" "mnt_prefix m = butlast (mnt_prefix m) @ [slash]"
    using assms(1) m(2) prefix_ok_split by (auto simp: prefix_ok_def)
  have strip: "fsStripMountpoint p m = (if p = butlast (mnt_prefix m) then [slash] else drop (length (mnt_prefix m) - 1) p) \<and>
      peek (fsStripMountpoint p m) 0 = slash"
    using m(1) unfolding mounted_at_def
  proof
    assume "p = butlast (mnt_prefix m)"
    then show ?thesis by (simp add: fsStripMountpoint_def root_def Let_def)
  next
    assume "\<exists>rest. p = mnt_prefix m @ rest"
    then obtain rest where "p = butlast (mnt_prefix m) @ slash # rest" using ok(2) by (metis append.assoc append_Cons append_Nil)
    then show ?thesis by (simp add: fsStripMountpoint_def Let_def)
  qed
  have "length (mnt_prefix m') \<le> length (mnt_prefix m)" if "m' \<in> set ms" "mounted_at m' p" for m'
  proof -
    have "0 < length (mnt_prefix m')" "0 < length (mnt_prefix m)" using assms(1) that(1) m(2) by (auto simp: prefix_ok_def)
    moreover have "length (mnt_prefix m') - 1 \<le> length (mnt_prefix m) - 1" using m(3) that by blast
    ultimately show ?thesis by linarith
  qed
  with m(1,2) strip show ?thesis unfolding Some option.case by blast
qed

theorem fsDetermineMountPoint_longest_witness:
  "fsDetermineMountPoint [\<lparr>mnt_prefix = [slash]\<rparr>, \<lparr>mnt_prefix = [slash, 100, slash]\<rparr>] [slash, 100, slash, 120] \<noteq> None"
proof -
  let ?ms = "[\<lparr>mnt_prefix = [slash]\<rparr>, \<lparr>mnt_prefix = [slash, 100, slash]\<rparr>]" and ?p = "[slash, 100, slash, 120]"
  have "\<forall>m \<in> set ?ms. prefix_ok m" "0 \<notin> set ?p" by (simp_all add: prefix_ok_def slash_def)
  from fsDetermineMountPoint_longest [OF this] have
    "fsDetermineMountPoint ?ms ?p = None \<Longrightarrow> \<forall>m \<in> set ?ms. \<not> mounted_at m ?p" by simp
  moreover have "mounted_at \<lparr>mnt_prefix = [slash]\<rparr> ?p" by (simp add: mounted_at_def)
  ultimately show ?thesis by auto
qed

end
