(* ===== verification/Fd_Table.thy ===== *)
theory Fd_Table
  imports Open_File Vfs_Path Avl_Tree Byte_Bitmap Spinlock
begin

text \<open>
  The descriptor table of a task and the opening of files
  (\<^verbatim>\<open>filesystems/vfs/vfs_controller.cpp\<close>, and \<^verbatim>\<open>dup\<close> and \<^verbatim>\<open>dup2\<close> of \<^verbatim>\<open>syscalls/linux/syscalls_fs.cpp\<close>). The
  table is a bitmap of the descriptor numbers in use, an AVL tree from numbers to open files, and
  a counting lock; open files are objects on the heap. It composes the components below it:
  the bitmap primitives, the AVL tree through its interface \<open>key_map\<close>, the lock, and the path
  functions.

  What the table does not define is an argument: the address \<^verbatim>\<open>calloc\<close> returns (\<open>addr\<close>), the result of
  the file system's \<^verbatim>\<open>open\<close>, \<^verbatim>\<open>close\<close> and \<^verbatim>\<open>duplicate\<close> handlers. The lock \<^verbatim>\<open>LOCK_OPERATIONS\<close> of an open
  file, which \<^verbatim>\<open>spinlock_acquire\<close> never sets, is left out.
\<close>

record fd_sys =
  WLOCK_FILES :: SpinlockCnt
  rlimitFdsSoft :: nat
  fdBitmap :: "byte list"
  firstFile :: AVLheader
  nodes :: "u64 \<rightharpoonup> OpenFile"

type_synonym 'a fd_cmd = "(fd_sys, 'a) cmd"

definition VFS_CLOSE_FLAG_RETAIN_ID :: nat where "VFS_CLOSE_FLAG_RETAIN_ID = 1"
definition FASYNC :: u32 where "FASYNC = 0x2000"

definition wlocked :: "'a fd_cmd \<Rightarrow> 'a fd_cmd" where
  "wlocked body =
     bnd (gets WLOCK_FILES) (\<lambda>l. bnd (lift (spinlock_cnt_write_acquire l)) (\<lambda>l1.
     andthen (modify (\<lambda>s. s\<lparr>WLOCK_FILES := l1\<rparr>))
     (bnd body (\<lambda>r.
      bnd (gets WLOCK_FILES) (\<lambda>l2. bnd (lift (spinlock_cnt_write_release l2)) (\<lambda>l3.
      andthen (modify (\<lambda>s. s\<lparr>WLOCK_FILES := l3\<rparr>)) (ret r)))))))"

definition bitmap_mark :: "nat \<Rightarrow> bool \<Rightarrow> unit fd_cmd" where
  "bitmap_mark i v =
     bnd (gets fdBitmap) (\<lambda>b. andthen (check Out_of_bounds (i < 8 * length b))
       (modify (\<lambda>s. s\<lparr>fdBitmap := bitmapGenericSet b i v\<rparr>)))"

definition get_node :: "u64 \<Rightarrow> OpenFile fd_cmd" where
  "get_node a = (\<lambda>s. case nodes s a of None \<Rightarrow> Inl Undefined | Some f \<Rightarrow> Inr (f, s))"

definition put_node :: "u64 \<Rightarrow> OpenFile \<Rightarrow> unit fd_cmd" where
  "put_node a f = modify (\<lambda>s. s\<lparr>nodes := (nodes s)(a \<mapsto> f)\<rparr>)"

definition free_node :: "u64 \<Rightarrow> unit fd_cmd" where
  "free_node a = modify (\<lambda>s. s\<lparr>nodes := (nodes s)(a := None)\<rparr>)"

definition fsRegisterNode :: "u64 \<Rightarrow> nat \<Rightarrow> u64 fd_cmd" where
  "fsRegisterNode addr fid =
     wlocked (andthen (put_node addr (new_file\<lparr>of_id := fid\<rparr>))
       (bnd (gets firstFile) (\<lambda>t. bnd (lift (AVLAllocate t (of_nat fid) addr)) (\<lambda>t'.
        andthen (modify (\<lambda>s. s\<lparr>firstFile := t'\<rparr>)) (ret addr)))))"

definition fsUnregisterNode :: "u64 \<Rightarrow> bool fd_cmd" where
  "fsUnregisterNode a =
     wlocked (bnd (get_node a) (\<lambda>f.
       bnd (gets firstFile) (\<lambda>t. bnd (lift (AVLUnregister t (of_nat (of_id f)))) (\<lambda>(t', r).
       andthen (modify (\<lambda>s. s\<lparr>firstFile := t'\<rparr>)) (ret r)))))"

fun id_scan :: "byte list \<Rightarrow> nat list \<Rightarrow> nat option res" where
  "id_scan b [] = Inr None"
| "id_scan b (i # is) =
     (if 8 * length b \<le> i then Inl Out_of_bounds
      else if \<not> bitmapGenericGet b i then Inr (Some i) else id_scan b is)"

definition fsIdFind :: "nat fd_cmd" where
  "fsIdFind =
     bnd (wlocked (bnd (gets (\<lambda>s. (fdBitmap s, rlimitFdsSoft s))) (\<lambda>(b, lim).
       bnd (lift (id_scan b [0..<lim])) (\<lambda>r.
       case r of None \<Rightarrow> ret None | Some i \<Rightarrow> andthen (bitmap_mark i True) (ret (Some i))))))
     (\<lambda>r. case r of None \<Rightarrow> fail Assert_failed | Some i \<Rightarrow> ret i)"

definition fsIdRemove :: "nat \<Rightarrow> unit fd_cmd" where
  "fsIdRemove fd = wlocked (bitmap_mark fd False)"

definition fsUserGetNode :: "nat \<Rightarrow> u64 fd_cmd" where
  "fsUserGetNode fd =
     bnd (gets WLOCK_FILES) (\<lambda>l. bnd (lift (spinlock_cnt_read_acquire l)) (\<lambda>l1.
     andthen (modify (\<lambda>s. s\<lparr>WLOCK_FILES := l1\<rparr>))
     (bnd (gets (\<lambda>s. AVLLookup (firstFile s) (of_nat fd))) (\<lambda>browse.
      bnd (gets WLOCK_FILES) (\<lambda>l2. bnd (lift (spinlock_cnt_read_release l2)) (\<lambda>l3.
      andthen (modify (\<lambda>s. s\<lparr>WLOCK_FILES := l3\<rparr>)) (ret browse)))))))"

definition fsUserDuplicateNode :: "(OpenFile \<Rightarrow> OpenFile \<Rightarrow> bool \<times> OpenFile) \<Rightarrow> u64 \<Rightarrow> u64 \<Rightarrow> nat option \<Rightarrow> u64 fd_cmd" where
  "fsUserDuplicateNode duplicate addr original suggid =
     bnd (case suggid of None \<Rightarrow> fsIdFind | Some i \<Rightarrow> ret i) (\<lambda>fid.
     bnd (fsRegisterNode addr fid) (\<lambda>orphan.
     bnd (get_node original) (\<lambda>f.
     case duplicate f (f\<lparr>of_id := fid\<rparr>) of (okay, f') \<Rightarrow>
       if okay then andthen (put_node orphan f') (ret orphan)
       else andthen (free_node orphan) (ret 0))))"

definition fsCloseGeneric :: "(OpenFile \<Rightarrow> bool) \<Rightarrow> u64 \<Rightarrow> bool fd_cmd" where
  "fsCloseGeneric close a =
     bnd (fsUnregisterNode a) (\<lambda>_.
     bnd (get_node a) (\<lambda>f.
     andthen (if of_closeFlags f AND VFS_CLOSE_FLAG_RETAIN_ID = 0 then fsIdRemove (of_id f) else ret ())
     (andthen (free_node a) (ret (close f)))))"

definition fsUserClose :: "(OpenFile \<Rightarrow> bool) \<Rightarrow> nat \<Rightarrow> u64 fd_cmd" where
  "fsUserClose close fd =
     bnd (fsUserGetNode fd) (\<lambda>a.
     if a = 0 then ret (ERR EBADF)
     else bnd (fsCloseGeneric close a) (\<lambda>res. ret (if res then 0 else - 1)))"

definition syscallDup :: "(OpenFile \<Rightarrow> OpenFile \<Rightarrow> bool \<times> OpenFile) \<Rightarrow> u64 \<Rightarrow> nat \<Rightarrow> u64 fd_cmd" where
  "syscallDup duplicate addr fd =
     bnd (fsUserGetNode fd) (\<lambda>a.
     if a = 0 then ret (ERR EBADF)
     else bnd (fsUserDuplicateNode duplicate addr a None) (\<lambda>n.
       bnd (get_node n) (\<lambda>f. andthen (put_node n (f\<lparr>of_closeOnExec := False\<rparr>)) (ret (of_nat (of_id f))))))"

definition dup2_reserve :: "nat \<Rightarrow> u64 fd_cmd" where
  "dup2_reserve newFd =
     wlocked (bnd (gets (\<lambda>s. AVLLookup (firstFile s) (of_nat newFd))) (\<lambda>browse.
       andthen (if browse = 0 then bitmap_mark newFd True
                else bnd (get_node browse) (\<lambda>f.
                  put_node browse (f\<lparr>of_closeFlags := of_closeFlags f OR VFS_CLOSE_FLAG_RETAIN_ID\<rparr>)))
         (ret browse)))"

definition syscallDup2 ::
  "(OpenFile \<Rightarrow> bool) \<Rightarrow> (OpenFile \<Rightarrow> OpenFile \<Rightarrow> bool \<times> OpenFile) \<Rightarrow> u64 \<Rightarrow> nat \<Rightarrow> nat \<Rightarrow> u64 fd_cmd" where
  "syscallDup2 close duplicate addr oldFd newFd =
     bnd (fsUserGetNode oldFd) (\<lambda>a.
     if a = 0 then ret (ERR EBADF)
     else if oldFd = newFd then ret (of_nat newFd)
     else
       bnd (dup2_reserve newFd) (\<lambda>browse.
       andthen (if browse \<noteq> 0 then bnd (fsUserClose close newFd) (\<lambda>r. check Assert_failed (r = 0)) else ret ())
       (bnd (fsUserDuplicateNode duplicate addr a (Some newFd)) (\<lambda>n.
        andthen (check Assert_failed (n \<noteq> 0))
        (bnd (get_node n) (\<lambda>f. andthen (put_node n (f\<lparr>of_closeOnExec := False\<rparr>)) (ret (of_nat newFd))))))))"

section \<open>Opening\<close>

text \<open>
  \<open>openh mnt path flags f\<close> is the result of the mount point's open handler: its return value, a
  symbolic link to follow, and the open file with the handler's data (a table without the handler is
  the one that returns 0, no link and the file as it is). Following a link opens again; \<open>fuel\<close>
  bounds the links followed, and \<open>addr fuel\<close> is the address \<^verbatim>\<open>calloc\<close> returns on that attempt.
\<close>

definition drop_node :: "u64 \<Rightarrow> unit fd_cmd" where
  "drop_node a =
     andthen (fsUnregisterNode a)
     (bnd (get_node a) (\<lambda>f. andthen (fsIdRemove (of_id f)) (free_node a)))"

definition open_flags :: "u32 \<Rightarrow> OpenFile \<Rightarrow> OpenFile" where
  "open_flags flags f = (if has_flag flags O_CLOEXEC then f\<lparr>of_closeOnExec := True\<rparr> else f)"

definition open_finish ::
  "(byte list \<Rightarrow> u64 fd_cmd) \<Rightarrow> MountPoint \<Rightarrow> u64 \<Rightarrow> u64 \<times> byte list option \<times> OpenFile \<Rightarrow> u64 fd_cmd" where
  "open_finish again mnt target = (\<lambda>(r, symlink, f).
     andthen (put_node target f)
     (if RET_IS_ERR r then
        andthen (drop_node target)
        (case symlink of
           None \<Rightarrow> ret r
         | Some l \<Rightarrow>
             if r \<noteq> ERR ELOOP then
               (case fsResolveSymlink mnt l of None \<Rightarrow> fail Undefined | Some p \<Rightarrow> again p)
             else ret r)
      else ret target))"

fun fsOpenGeneric ::
  "nat \<Rightarrow> (nat \<Rightarrow> byte) \<Rightarrow> (nat \<Rightarrow> byte) \<Rightarrow> MountPoint list \<Rightarrow>
   (MountPoint \<Rightarrow> byte list \<Rightarrow> u32 \<Rightarrow> OpenFile \<Rightarrow> u64 \<times> byte list option \<times> OpenFile) \<Rightarrow>
   byte list \<Rightarrow> (nat \<Rightarrow> u64) \<Rightarrow> byte list \<Rightarrow> u32 \<Rightarrow> u64 fd_cmd" where
  "fsOpenGeneric 0 junk past ms openh cwd addr filename flags = fail Diverges"
| "fsOpenGeneric (Suc fuel) junk past ms openh cwd addr filename flags =
     bnd (lift (fsSanitize junk past cwd filename)) (\<lambda>safeFilename.
     bnd fsIdFind (\<lambda>fid.
     bnd (fsRegisterNode (addr fuel) fid) (\<lambda>target.
     bnd (get_node target) (\<lambda>f0.
     andthen (put_node target (f0\<lparr>of_flags := flags\<rparr>))
     (case fsDetermineMountPoint ms safeFilename of
        None \<Rightarrow> andthen (drop_node target) (ret 0)
      | Some mnt \<Rightarrow>
          open_finish (\<lambda>p. fsOpenGeneric fuel junk past ms openh cwd addr p flags) mnt target
            (openh mnt (fsStripMountpoint safeFilename mnt) flags
               (open_flags flags (f0\<lparr>of_flags := flags\<rparr>))))))))"

definition fsUserOpen where
  "fsUserOpen fuel junk past ms openh cwd addr filename flags =
     (if has_flag flags FASYNC then ret (ERR ENOSYS)
      else bnd (fsOpenGeneric fuel junk past ms openh cwd addr filename flags) (\<lambda>a.
        if RET_IS_ERR a then ret a
        else bnd (get_node a) (\<lambda>f. ret (of_nat (of_id f)))))"


section \<open>The abstract table\<close>

text \<open>
  A descriptor table is a finite map from numbers to open files (\<open>fd_map\<close>). \<open>fd_ok\<close> ties the
  representation together: the bitmap marks exactly the numbers the tree binds, every binding leads
  to a live object that knows its own number, and nobody holds the lock.
\<close>

definition fd_cap :: "fd_sys \<Rightarrow> nat" where
  "fd_cap s = 8 * length (fdBitmap s)"

definition fd_ok :: "fd_sys \<Rightarrow> bool" where
  "fd_ok s \<longleftrightarrow>
     WLOCK_FILES s = 0 \<and> avl_ok (firstFile s) \<and> nodes s 0 = None \<and>
     rlimitFdsSoft s \<le> fd_cap s \<and> fd_cap s < 2 ^ 64 \<and>
     (\<forall>i < fd_cap s. bitmapGenericGet (fdBitmap s) i = (contents (firstFile s) (of_nat i) \<noteq> None)) \<and>
     (\<forall>k a. contents (firstFile s) k = Some a \<longrightarrow> unat k < fd_cap s \<and>
        (\<exists>f. nodes s a = Some f \<and> of_id f = unat k \<and> of_closeFlags f = 0))"

definition fd_map :: "fd_sys \<Rightarrow> nat \<rightharpoonup> OpenFile" where
  "fd_map s i = (if i < fd_cap s then Option.bind (contents (firstFile s) (of_nat i)) (nodes s) else None)"

definition fd_free :: "fd_sys \<Rightarrow> nat option" where
  "fd_free s = find (\<lambda>i. fd_map s i = None) [0..<rlimitFdsSoft s]"

section \<open>Intermediate states\<close>

text \<open>
  \<open>fd_rep X Y s\<close> is \<open>fd_ok\<close> between two steps of an operation: the numbers of \<open>X\<close> are marked in the bitmap
  without being bound yet, and the files at the numbers of \<open>Y\<close> carry the flag that keeps their number
  when they are closed. Each primitive is run once, with its effect on \<open>fd_map\<close>.
\<close>

definition fd_rep :: "nat set \<Rightarrow> nat set \<Rightarrow> fd_sys \<Rightarrow> bool" where
  "fd_rep X Y s \<longleftrightarrow>
     WLOCK_FILES s = 0 \<and> avl_ok (firstFile s) \<and> nodes s 0 = None \<and>
     rlimitFdsSoft s \<le> fd_cap s \<and> fd_cap s < 2 ^ 64 \<and>
     (\<forall>i < fd_cap s. bitmapGenericGet (fdBitmap s) i = (i \<in> X \<or> contents (firstFile s) (of_nat i) \<noteq> None)) \<and>
     (\<forall>k a. contents (firstFile s) k = Some a \<longrightarrow> unat k < fd_cap s \<and>
        (\<exists>f. nodes s a = Some f \<and> of_id f = unat k \<and> of_closeFlags f = (if unat k \<in> Y then 1 else 0)))"

definition fd_same :: "fd_sys \<Rightarrow> fd_sys \<Rightarrow> bool" where
  "fd_same s s' \<longleftrightarrow> fd_cap s' = fd_cap s \<and> rlimitFdsSoft s' = rlimitFdsSoft s"

lemma fd_ok_rep: "fd_ok s = fd_rep {} {} s"
  by (simp add: fd_ok_def fd_rep_def)

lemma fd_repD:
  assumes "fd_rep X Y s"
  shows "WLOCK_FILES s = 0" "avl_ok (firstFile s)" "nodes s 0 = None"
    "rlimitFdsSoft s \<le> fd_cap s" "fd_cap s < 2 ^ 64"
    "i < fd_cap s \<Longrightarrow> bitmapGenericGet (fdBitmap s) i = (i \<in> X \<or> contents (firstFile s) (of_nat i) \<noteq> None)"
    "contents (firstFile s) k = Some a \<Longrightarrow> unat k < fd_cap s"
  using assms by (auto simp: fd_rep_def)

lemma fd_rep_node:
  assumes "fd_rep X Y s" "contents (firstFile s) k = Some a"
  obtains f where "nodes s a = Some f" "of_id f = unat k" "of_closeFlags f = (if unat k \<in> Y then 1 else 0)"
    "unat k < fd_cap s" "a \<noteq> 0"
  using assms by (fastforce simp: fd_rep_def)

lemma fd_word: "i < fd_cap s \<Longrightarrow> fd_cap s < 2 ^ 64 \<Longrightarrow> unat (of_nat i :: u64) = i"
  by (simp add: unsigned_of_nat take_bit_nat_eq_self)

lemma fd_key_eq:
  "i < fd_cap s \<Longrightarrow> fd_cap s < 2 ^ 64 \<Longrightarrow> (k = (of_nat i :: u64)) = (unat k = i)"
  using fd_word [of i s] by (auto intro: unsigned_word_eqI)

lemma fd_repI:
  assumes "WLOCK_FILES s = 0" "avl_ok (firstFile s)" "nodes s 0 = None"
    "rlimitFdsSoft s \<le> fd_cap s" "fd_cap s < 2 ^ 64"
    "\<And>i. i < fd_cap s \<Longrightarrow> bitmapGenericGet (fdBitmap s) i = (i \<in> X \<or> contents (firstFile s) (of_nat i) \<noteq> None)"
    "\<And>k a. contents (firstFile s) k = Some a \<Longrightarrow> unat k < fd_cap s \<and>
        (\<exists>f. nodes s a = Some f \<and> of_id f = unat k \<and> of_closeFlags f = (if unat k \<in> Y then 1 else 0))"
  shows "fd_rep X Y s"
  using assms by (simp add: fd_rep_def)

lemma fd_map_Some:
  assumes "fd_rep X Y s" "fd_map s i = Some f"
  obtains a where "i < fd_cap s" "contents (firstFile s) (of_nat i) = Some a" "nodes s a = Some f"
    "of_id f = i" "of_closeFlags f = (if i \<in> Y then 1 else 0)" "a \<noteq> 0"
proof -
  obtain a where a: "i < fd_cap s" "contents (firstFile s) (of_nat i) = Some a" "nodes s a = Some f"
    using assms(2) by (auto simp: fd_map_def bind_eq_Some_conv split: if_splits)
  then show thesis
    using that fd_rep_node [OF assms(1) a(2)] fd_word [OF a(1) fd_repD(5) [OF assms(1)]] by auto
qed

lemma fd_mapD:
  assumes "fd_rep X Y s" "fd_map s i = Some f"
  shows "i < fd_cap s" "of_id f = i" "of_closeFlags f = (if i \<in> Y then 1 else 0)"
  by (rule fd_map_Some [OF assms]; assumption)+

lemma fd_map_None:
  "fd_rep X Y s \<Longrightarrow> i < fd_cap s \<Longrightarrow> fd_map s i = None \<longleftrightarrow> contents (firstFile s) (of_nat i) = None"
  by (cases "contents (firstFile s) (of_nat i)") (auto simp: fd_map_def elim: fd_rep_node)

lemma fd_addr_inj:
  assumes "fd_rep X Y s" "contents (firstFile s) k = Some a" "contents (firstFile s) k' = Some a"
  shows "k' = k"
  using fd_rep_node [OF assms(1,2)] fd_rep_node [OF assms(1,3)]
  by (metis option.inject unsigned_word_eqI)

lemma wlocked_run:
  assumes "WLOCK_FILES s = 0" "body (s\<lparr>WLOCK_FILES := - 1\<rparr>) = Inr (r, s1)" "WLOCK_FILES s1 = - 1"
  shows "wlocked body s = Inr (r, s1\<lparr>WLOCK_FILES := 0\<rparr>)"
  using assms by (simp add: wlocked_def spinlock_cnt_defs cmd_simps)

lemma id_scan_find:
  "\<forall>i \<in> set is. i < 8 * length b \<Longrightarrow> id_scan b is = Inr (find (\<lambda>i. \<not> bitmapGenericGet b i) is)"
  by (induction "is") auto

lemma find_cong_set: "(\<And>x. x \<in> set xs \<Longrightarrow> P x = Q x) \<Longrightarrow> find P xs = find Q xs"
  by (induction xs) auto

lemma fsIdFind_run:
  assumes "fd_rep {} Y s" "fd_free s = Some i"
  shows "\<exists>s'. fsIdFind s = Inr (i, s') \<and> fd_rep {i} Y s' \<and> fd_map s' = fd_map s \<and>
    nodes s' = nodes s \<and> fd_same s s' \<and> i < fd_cap s \<and> fd_map s i = None"
proof -
  note r = fd_repD [OF assms(1)]
  define s' where "s' = s\<lparr>fdBitmap := bitmapGenericSet (fdBitmap s) i True\<rparr>"
  have "find (\<lambda>i. \<not> bitmapGenericGet (fdBitmap s) i) [0..<rlimitFdsSoft s] = fd_free s"
    unfolding fd_free_def using r(4) by (intro find_cong_set) (auto simp: r(6) fd_map_None [OF assms(1)])
  then have "id_scan (fdBitmap s) [0..<rlimitFdsSoft s] = Inr (Some i)"
    using r(4) assms(2) by (subst id_scan_find) (auto simp: fd_cap_def)
  moreover have i: "i < fd_cap s" "fd_map s i = None"
    using assms(2) r(4) by (auto simp: fd_free_def find_Some_iff)
  ultimately have "fsIdFind s = Inr (i, s')"
    using r(1) wlocked_run [OF r(1)]
    by (simp add: fsIdFind_def cmd_simps bitmap_mark_def fd_cap_def s'_def wlocked_def spinlock_cnt_defs)
  moreover have "fd_cap s' = fd_cap s"
    by (simp add: s'_def fd_cap_def)
  moreover have "bitmapGenericGet (fdBitmap s') j = (j = i \<or> bitmapGenericGet (fdBitmap s) j)" if "j < fd_cap s" for j
    using that i(1) by (auto simp: s'_def fd_cap_def bitmapGenericGet_Set)
  ultimately show ?thesis
    using assms(1) i by (auto simp: fd_rep_def fd_same_def fd_map_def fun_eq_iff s'_def)
qed

lemma fsUserGetNode_run:
  "fd_rep X Y s \<Longrightarrow>
   fsUserGetNode fd s = Inr (case contents (firstFile s) (of_nat fd) of None \<Rightarrow> 0 | Some a \<Rightarrow> a, s)"
  by (simp add: fsUserGetNode_def cmd_simps spinlock_cnt_defs fd_repD avl.lookup_ok [OF fd_repD(2)])

lemma fsRegisterNode_run:
  assumes "fd_rep {i} Y s" "i < fd_cap s" "fd_map s i = None" "addr \<noteq> 0" "nodes s addr = None" "i \<notin> Y"
  shows "\<exists>s'. fsRegisterNode addr i s = Inr (addr, s') \<and> fd_rep {} Y s' \<and>
    fd_map s' = (fd_map s)(i \<mapsto> new_file\<lparr>of_id := i\<rparr>) \<and>
    nodes s' = (nodes s)(addr \<mapsto> new_file\<lparr>of_id := i\<rparr>) \<and>
    contents (firstFile s') (of_nat i) = Some addr \<and> fd_same s s'"
proof -
  note r = fd_repD [OF assms(1)]
  have c: "contents (firstFile s) (of_nat i) = None"
    using assms(3) fd_map_None [OF assms(1,2)] by simp
  obtain t' where t': "AVLAllocate (firstFile s) (of_nat i) addr = Inr t'" "avl_ok t'"
      "contents t' = (contents (firstFile s))(of_nat i \<mapsto> addr)"
    using avl.insert_ok [OF r(2) c] by blast
  define s' where "s' = s\<lparr>nodes := (nodes s)(addr \<mapsto> new_file\<lparr>of_id := i\<rparr>), firstFile := t'\<rparr>"
  have "fsRegisterNode addr i s = Inr (addr, s')"
    using r(1) t'(1)
    by (simp add: fsRegisterNode_def wlocked_def spinlock_cnt_defs cmd_simps put_node_def s'_def)
  moreover have old: "contents (firstFile s) k \<noteq> Some addr" for k
    using assms(5) by (auto elim: fd_rep_node [OF assms(1)])
  moreover have key: "(of_nat j = (of_nat i :: u64)) = (j = i)" if "j < fd_cap s" for j
    using that assms(2) r(5) by (metis fd_word)
  moreover have cap: "fd_cap s' = fd_cap s"
    by (simp add: s'_def fd_cap_def)
  moreover have "fd_rep {} Y s'"
  proof (rule fd_repI)
    fix j assume "j < fd_cap s'"
    then show "bitmapGenericGet (fdBitmap s') j = (j \<in> {} \<or> contents (firstFile s') (of_nat j) \<noteq> None)"
      using r(6) [of j] key [of j] cap t'(3) by (auto simp: s'_def)
  next
    fix k a assume k: "contents (firstFile s') k = Some a"
    show "unat k < fd_cap s' \<and> (\<exists>f. nodes s' a = Some f \<and> of_id f = unat k \<and>
        of_closeFlags f = (if unat k \<in> Y then 1 else 0))"
    proof (cases "unat k = i")
      case True
      with k have "a = addr"
        using t'(3) fd_key_eq [OF assms(2) r(5), of k] by (simp add: s'_def)
      with True show ?thesis
        using assms(2,6) cap by (simp add: s'_def)
    next
      case False
      with k have k': "contents (firstFile s) k = Some a"
        using t'(3) fd_key_eq [OF assms(2) r(5), of k] by (simp add: s'_def)
      moreover have "a \<noteq> addr"
        using old [of k] k' by auto
      ultimately show ?thesis
        using cap by (elim fd_rep_node [OF assms(1)]) (auto simp: s'_def)
    qed
  qed (use r assms(4) t'(2) cap in \<open>simp_all add: s'_def\<close>)
  ultimately show ?thesis
    using assms(2) t'(3)
    by (auto simp: s'_def fd_same_def fd_map_def fun_eq_iff bind_eq_Some_conv split: bind_splits)
qed

lemma put_node_run:
  assumes "fd_rep X Y s" "contents (firstFile s) (of_nat i) = Some a" "i < fd_cap s" "of_id f = i"
    "of_closeFlags f = (if i \<in> Y' then 1 else 0)" "Y' - {i} = Y - {i}"
  shows "\<exists>s'. put_node a f s = Inr ((), s') \<and> fd_rep X Y' s' \<and> fd_map s' = (fd_map s)(i \<mapsto> f) \<and>
    nodes s' = (nodes s)(a \<mapsto> f) \<and> firstFile s' = firstFile s \<and> fd_same s s'"
proof -
  note r = fd_repD [OF assms(1)]
  define s' where "s' = s\<lparr>nodes := (nodes s)(a \<mapsto> f)\<rparr>"
  have a0: "a \<noteq> 0"
    using fd_rep_node [OF assms(1,2)] by auto
  have cap: "fd_cap s' = fd_cap s"
    by (simp add: s'_def fd_cap_def)
  have only: "(contents (firstFile s) k = Some a) = (k = of_nat i)" for k
    using assms(2) fd_addr_inj [OF assms(1,2), of k] by metis
  have key: "(of_nat j = (of_nat i :: u64)) = (j = i)" if "j < fd_cap s" for j
    using that assms(3) r(5) by (metis fd_word)
  have "fd_rep X Y' s'"
  proof (rule fd_repI)
    fix k b assume "contents (firstFile s') k = Some b"
    then have k: "contents (firstFile s) k = Some b"
      by (simp add: s'_def)
    show "unat k < fd_cap s' \<and> (\<exists>f. nodes s' b = Some f \<and> of_id f = unat k \<and>
        of_closeFlags f = (if unat k \<in> Y' then 1 else 0))"
    proof (cases "unat k = i")
      case True
      then have "k = of_nat i"
        using fd_key_eq [OF assms(3) r(5), of k] by simp
      with k assms(2) have "b = a"
        by simp
      with True assms cap show ?thesis
        by (simp add: s'_def)
    next
      case False
      then have "b \<noteq> a" "(unat k \<in> Y') = (unat k \<in> Y)"
        using k only [of k] fd_word [OF assms(3) r(5)] assms(6) by auto
      with k cap show ?thesis
        by (elim fd_rep_node [OF assms(1)]) (auto simp: s'_def)
    qed
  qed (use r a0 cap in \<open>simp_all add: s'_def\<close>)
  moreover have "fd_map s' j = ((fd_map s)(i \<mapsto> f)) j" for j
    using assms(2,3) only [of "of_nat j"] key [of j] cap
    by (cases "contents (firstFile s) (of_nat j)") (auto simp: fd_map_def s'_def)
  ultimately show ?thesis
    using cap by (auto simp: put_node_def cmd_simps fd_same_def s'_def)
qed


lemma fd_of_nat_eq:
  "fd_rep X Y s \<Longrightarrow> i < fd_cap s \<Longrightarrow> j < fd_cap s \<Longrightarrow> (of_nat j = (of_nat i :: u64)) = (j = i)"
  by (metis fd_word fd_repD(5))

lemma fsUnregisterNode_run:
  assumes "fd_rep X Y s" "fd_map s i = Some f" "contents (firstFile s) (of_nat i) = Some a"
  shows "\<exists>s' b. fsUnregisterNode a s = Inr (b, s') \<and> fd_rep (insert i X) Y s' \<and>
    fd_map s' = (fd_map s)(i := None) \<and> nodes s' = nodes s \<and> fd_same s s' \<and>
    (\<forall>k. contents (firstFile s') k \<noteq> Some a) \<and> nodes s a = Some f"
proof -
  note r = fd_repD [OF assms(1)]
  have f: "i < fd_cap s" "nodes s a = Some f" "of_id f = i"
    using fd_map_Some [OF assms(1,2)] assms(3) by auto
  obtain t' b where t': "AVLUnregister (firstFile s) (of_nat i) = Inr (t', b)" "avl_ok t'"
      "contents t' = (contents (firstFile s))(of_nat i := None)"
    using avl.remove_ok [OF r(2)] by blast
  define s' where "s' = s\<lparr>firstFile := t'\<rparr>"
  have cap: "fd_cap s' = fd_cap s"
    by (simp add: s'_def fd_cap_def)
  have key: "(of_nat j = (of_nat i :: u64)) = (j = i)" if "j < fd_cap s" for j
    using fd_of_nat_eq [OF assms(1) f(1) that] .
  have "fsUnregisterNode a s = Inr (b, s')"
    using r(1) t'(1) f
    by (simp add: fsUnregisterNode_def wlocked_def spinlock_cnt_defs cmd_simps get_node_def s'_def)
  moreover have "fd_rep (insert i X) Y s'"
  proof (rule fd_repI)
    fix j assume "j < fd_cap s'"
    then show "bitmapGenericGet (fdBitmap s') j = (j \<in> insert i X \<or> contents (firstFile s') (of_nat j) \<noteq> None)"
      using r(6) [of j] key [of j] assms(3) cap by (auto simp: s'_def t'(3))
  next
    fix k b assume "contents (firstFile s') k = Some b"
    then have "contents (firstFile s) k = Some b"
      by (simp add: s'_def t'(3) split: if_splits)
    then show "unat k < fd_cap s' \<and> (\<exists>f. nodes s' b = Some f \<and> of_id f = unat k \<and>
        of_closeFlags f = (if unat k \<in> Y then 1 else 0))"
      using cap by (elim fd_rep_node [OF assms(1)]) (auto simp: s'_def)
  qed (use r t'(2) cap in \<open>simp_all add: s'_def\<close>)
  moreover have "fd_map s' j = ((fd_map s)(i := None)) j" for j
    using key [of j] cap by (auto simp: fd_map_def s'_def t'(3))
  moreover have "contents (firstFile s') k \<noteq> Some a" for k
    using fd_addr_inj [OF assms(1,3), of k] by (auto simp: s'_def t'(3))
  ultimately show ?thesis
    using cap f(2) by (auto simp: fd_same_def s'_def)
qed

lemma fsIdRemove_run:
  assumes "fd_rep (insert i X) Y s" "i < fd_cap s" "fd_map s i = None" "i \<notin> X"
  shows "\<exists>s'. fsIdRemove i s = Inr ((), s') \<and> fd_rep X Y s' \<and> fd_map s' = fd_map s \<and>
    nodes s' = nodes s \<and> firstFile s' = firstFile s \<and> fd_same s s'"
proof -
  note r = fd_repD [OF assms(1)]
  define s' where "s' = s\<lparr>fdBitmap := bitmapGenericSet (fdBitmap s) i False\<rparr>"
  have cap: "fd_cap s' = fd_cap s"
    by (simp add: s'_def fd_cap_def)
  have "contents (firstFile s) (of_nat i) = None"
    using assms(3) fd_map_None [OF assms(1,2)] by simp
  then have "bitmapGenericGet (fdBitmap s') j = (j \<in> X \<or> contents (firstFile s) (of_nat j) \<noteq> None)" if "j < fd_cap s" for j
    using that assms(2,4) r(6) [of j] by (auto simp: s'_def fd_cap_def bitmapGenericGet_Set)
  moreover have "fsIdRemove i s = Inr ((), s')"
    using r(1) assms(2)
    by (simp add: fsIdRemove_def wlocked_def spinlock_cnt_defs cmd_simps bitmap_mark_def s'_def fd_cap_def)
  ultimately show ?thesis
    using assms(1) cap by (auto simp: fd_rep_def fd_same_def fd_map_def fun_eq_iff s'_def)
qed

lemma free_node_run:
  assumes "fd_rep X Y s" "\<forall>k. contents (firstFile s) k \<noteq> Some a"
  shows "\<exists>s'. free_node a s = Inr ((), s') \<and> fd_rep X Y s' \<and> fd_map s' = fd_map s \<and>
    nodes s' = (nodes s)(a := None) \<and> fd_same s s'"
proof -
  note r = fd_repD [OF assms(1)]
  define s' where "s' = s\<lparr>nodes := (nodes s)(a := None)\<rparr>"
  have cap: "fd_cap s' = fd_cap s"
    by (simp add: s'_def fd_cap_def)
  have "fd_rep X Y s'"
  proof (rule fd_repI)
    fix k b assume "contents (firstFile s') k = Some b"
    then have "contents (firstFile s) k = Some b" "b \<noteq> a"
      using assms(2) by (auto simp: s'_def)
    then show "unat k < fd_cap s' \<and> (\<exists>f. nodes s' b = Some f \<and> of_id f = unat k \<and>
        of_closeFlags f = (if unat k \<in> Y then 1 else 0))"
      using cap by (elim fd_rep_node [OF assms(1)]) (auto simp: s'_def)
  qed (use r cap in \<open>simp_all add: s'_def\<close>)
  moreover have "fd_map s' j = fd_map s j" for j
    using assms(2) cap by (cases "contents (firstFile s) (of_nat j)") (auto simp: fd_map_def s'_def)
  ultimately show ?thesis
    using cap by (auto simp: free_node_def cmd_simps fd_same_def s'_def)
qed

lemma fd_same_trans: "fd_same s s' \<Longrightarrow> fd_same s' s'' \<Longrightarrow> fd_same s s''"
  by (simp add: fd_same_def)

lemma fsCloseGeneric_run:
  assumes "fd_rep X Y s" "fd_map s i = Some f" "contents (firstFile s) (of_nat i) = Some a" "i \<notin> X"
  shows "\<exists>s'. fsCloseGeneric close a s = Inr (close f, s') \<and>
    fd_rep (if i \<in> Y then insert i X else X) Y s' \<and> fd_map s' = (fd_map s)(i := None) \<and>
    nodes s' = (nodes s)(a := None) \<and> fd_same s s'"
proof -
  obtain b s1 where s1: "fsUnregisterNode a s = Inr (b, s1)" "fd_rep (insert i X) Y s1"
      "fd_map s1 = (fd_map s)(i := None)" "nodes s1 = nodes s" "fd_same s s1"
      "\<forall>k. contents (firstFile s1) k \<noteq> Some a" "nodes s a = Some f"
    using fsUnregisterNode_run [OF assms(1-3)] by blast
  note f = fd_mapD [OF assms(1,2)]
  have "\<exists>s2. (if of_closeFlags f AND VFS_CLOSE_FLAG_RETAIN_ID = 0 then fsIdRemove (of_id f) else ret ()) s1 = Inr ((), s2) \<and>
      fd_rep (if i \<in> Y then insert i X else X) Y s2 \<and> fd_map s2 = fd_map s1 \<and>
      nodes s2 = nodes s1 \<and> firstFile s2 = firstFile s1 \<and> fd_same s1 s2"
  proof (cases "i \<in> Y")
    case True
    with s1(2) f show ?thesis
      by (simp add: VFS_CLOSE_FLAG_RETAIN_ID_def cmd_simps fd_same_def)
  next
    case False
    have "i < fd_cap s1" "fd_map s1 i = None"
      using f(1) s1(3,5) by (simp_all add: fd_same_def)
    from fsIdRemove_run [OF s1(2) this assms(4)] False f show ?thesis
      by (simp add: VFS_CLOSE_FLAG_RETAIN_ID_def)
  qed
  then obtain s2 where s2: "(if of_closeFlags f AND VFS_CLOSE_FLAG_RETAIN_ID = 0 then fsIdRemove (of_id f) else ret ()) s1 = Inr ((), s2)"
      "fd_rep (if i \<in> Y then insert i X else X) Y s2" "fd_map s2 = fd_map s1"
      "nodes s2 = nodes s1" "firstFile s2 = firstFile s1" "fd_same s1 s2"
    by blast
  obtain s3 where s3: "free_node a s2 = Inr ((), s3)" "fd_rep (if i \<in> Y then insert i X else X) Y s3"
      "fd_map s3 = fd_map s2" "nodes s3 = (nodes s2)(a := None)" "fd_same s2 s3"
    using free_node_run [OF s2(2), of a] s1(6) s2(5) by auto
  have "fsCloseGeneric close a s = Inr (close f, s3)"
    using s1(1,4,7) s2(1) s3(1) unfolding fsCloseGeneric_def
    by (simp add: bnd_run andthen_run get_node_def ret_run)
  with s3 s2 s1 show ?thesis
    by (metis fd_same_trans)
qed

lemma drop_node_run:
  assumes "fd_rep {} Y s" "fd_map s i = Some f" "contents (firstFile s) (of_nat i) = Some a"
  shows "\<exists>s'. drop_node a s = Inr ((), s') \<and> fd_rep {} Y s' \<and> fd_map s' = (fd_map s)(i := None) \<and>
    nodes s' = (nodes s)(a := None) \<and> fd_same s s'"
proof -
  obtain b s1 where s1: "fsUnregisterNode a s = Inr (b, s1)" "fd_rep {i} Y s1"
      "fd_map s1 = (fd_map s)(i := None)" "nodes s1 = nodes s" "fd_same s s1"
      "\<forall>k. contents (firstFile s1) k \<noteq> Some a" "nodes s a = Some f"
    using fsUnregisterNode_run [OF assms] by blast
  have "i < fd_cap s1" "fd_map s1 i = None" "of_id f = i"
    using fd_mapD [OF assms(1,2)] s1(3,5) by (simp_all add: fd_same_def)
  note s2 = fsIdRemove_run [OF s1(2) this(1,2), simplified] this(3)
  then obtain s2 where s2: "fsIdRemove (of_id f) s1 = Inr ((), s2)" "fd_rep {} Y s2" "fd_map s2 = fd_map s1"
      "nodes s2 = nodes s1" "firstFile s2 = firstFile s1" "fd_same s1 s2"
    by auto
  obtain s3 where s3: "free_node a s2 = Inr ((), s3)" "fd_rep {} Y s3"
      "fd_map s3 = fd_map s2" "nodes s3 = (nodes s2)(a := None)" "fd_same s2 s3"
    using free_node_run [OF s2(2), of a] s1(6) s2(5) by auto
  have "drop_node a s = Inr ((), s3)"
    using s1(1,4,7) s2(1) s3(1) by (simp add: drop_node_def cmd_simps get_node_def)
  with s3 s2 s1 show ?thesis
    by (metis fd_same_trans)
qed

definition fd_fresh :: "u64 \<Rightarrow> fd_sys \<Rightarrow> bool" where
  "fd_fresh addr s \<longleftrightarrow> addr \<noteq> 0 \<and> nodes s addr = None"

lemma fd_map_same: "fd_rep X Y s \<Longrightarrow> fd_cap s \<le> i \<Longrightarrow> i < 2 ^ 64 \<Longrightarrow> contents (firstFile s) (of_nat i) = None"
proof (rule ccontr)
  assume a: "fd_rep X Y s" "fd_cap s \<le> i" "i < 2 ^ 64" "contents (firstFile s) (of_nat i) \<noteq> None"
  then have "unat (of_nat i :: u64) < fd_cap s"
    using fd_repD(7) [OF a(1)] by auto
  with a show False
    by (simp add: unsigned_of_nat take_bit_nat_eq_self)
qed

lemma fd_get_none:
  assumes "fd_rep X Y s" "fd_map s fd = None" "fd < 2 ^ 64"
  shows "fsUserGetNode fd s = Inr (0, s)"
proof -
  have "contents (firstFile s) (of_nat fd) = None"
    using assms fd_map_same [OF assms(1)] fd_map_None [OF assms(1)] by (cases "fd < fd_cap s") auto
  with fsUserGetNode_run [OF assms(1)] show ?thesis
    by simp
qed

lemma fd_get_some:
  assumes "fd_rep X Y s" "fd_map s fd = Some f"
  obtains a where "fsUserGetNode fd s = Inr (a, s)" "a \<noteq> 0" "nodes s a = Some f"
    "contents (firstFile s) (of_nat fd) = Some a"
  using fd_map_Some [OF assms] fsUserGetNode_run [OF assms(1), of fd] that by (metis option.simps(5))

lemma fsUserClose_run:
  assumes "fd_rep {} Y s" "fd_map s fd = Some f"
  shows "\<exists>s'. fsUserClose close fd s = Inr (if close f then 0 else - 1, s') \<and>
    fd_rep (if fd \<in> Y then {fd} else {}) Y s' \<and> fd_map s' = (fd_map s)(fd := None) \<and>
    (\<exists>a. nodes s a = Some f \<and> nodes s' = (nodes s)(a := None)) \<and> fd_same s s'"
proof -
  obtain a where a: "fsUserGetNode fd s = Inr (a, s)" "a \<noteq> 0" "nodes s a = Some f"
      "contents (firstFile s) (of_nat fd) = Some a"
    by (rule fd_get_some [OF assms])
  from fsCloseGeneric_run [OF assms a(4), of close] show ?thesis
    using a by (auto simp: fsUserClose_def cmd_simps)
qed

lemma fsUserDuplicateNode_run:
  assumes "fd_rep {i} {} s" "i < fd_cap s" "fd_map s i = None" "fd_fresh addr s" "nodes s a = Some f"
    "duplicate f (f\<lparr>of_id := i\<rparr>) = (True, f')" "of_id f' = i" "of_closeFlags f' = 0"
  shows "\<exists>s'. fsUserDuplicateNode duplicate addr a (Some i) s = Inr (addr, s') \<and> fd_rep {} {} s' \<and>
    fd_map s' = (fd_map s)(i \<mapsto> f') \<and> contents (firstFile s') (of_nat i) = Some addr \<and>
    nodes s' addr = Some f' \<and> fd_same s s'"
proof -
  have fresh: "addr \<noteq> 0" "nodes s addr = None"
    using assms(4) by (simp_all add: fd_fresh_def)
  obtain s1 where s1: "fsRegisterNode addr i s = Inr (addr, s1)" "fd_rep {} {} s1"
      "fd_map s1 = (fd_map s)(i \<mapsto> new_file\<lparr>of_id := i\<rparr>)" "nodes s1 = (nodes s)(addr \<mapsto> new_file\<lparr>of_id := i\<rparr>)"
      "contents (firstFile s1) (of_nat i) = Some addr" "fd_same s s1"
    using fsRegisterNode_run [OF assms(1-3) fresh] by blast
  have na: "nodes s1 a = Some f"
    using assms(5) fresh(2) s1(4) by auto
  obtain s2 where s2: "put_node addr f' s1 = Inr ((), s2)" "fd_rep {} {} s2" "fd_map s2 = (fd_map s1)(i \<mapsto> f')"
      "nodes s2 = (nodes s1)(addr \<mapsto> f')" "firstFile s2 = firstFile s1" "fd_same s1 s2"
    using put_node_run [OF s1(2,5), of f' "{}"] assms(2,7,8) s1(6) by (auto simp: fd_same_def)
  have "fsUserDuplicateNode duplicate addr a (Some i) s = Inr (addr, s2)"
    using s1(1) na assms(6) s2(1) by (simp add: fsUserDuplicateNode_def cmd_simps get_node_def)
  then show ?thesis
    using s2 s1 by (auto simp: fd_same_def)
qed

lemma dup_find:
  "fsIdFind s = Inr (i, s1) \<Longrightarrow>
   fsUserDuplicateNode duplicate addr a None s = fsUserDuplicateNode duplicate addr a (Some i) s1"
  by (simp add: fsUserDuplicateNode_def cmd_simps)

lemma dup_finish:
  assumes "fd_rep {} {} s" "fd_map s i = Some f" "contents (firstFile s) (of_nat i) = Some a" "nodes s a = Some f"
  shows "\<exists>s'. bnd (get_node a) (\<lambda>f. andthen (put_node a (f\<lparr>of_closeOnExec := False\<rparr>)) (ret (g f))) s = Inr (g f, s') \<and>
    fd_rep {} {} s' \<and> fd_map s' = (fd_map s)(i \<mapsto> f\<lparr>of_closeOnExec := False\<rparr>) \<and> fd_same s s'"
  using put_node_run [OF assms(1,3), of "f\<lparr>of_closeOnExec := False\<rparr>" "{}"] fd_mapD [OF assms(1,2)] assms(4)
  by (auto simp: cmd_simps get_node_def)

lemma syscallDup_run:
  assumes "fd_ok s" "fd_map s fd = Some f" "fd_free s = Some i" "fd_fresh addr s"
    "duplicate f (f\<lparr>of_id := i\<rparr>) = (True, f')" "of_id f' = i" "of_closeFlags f' = 0"
  shows "\<exists>s'. syscallDup duplicate addr fd s = Inr (of_nat i, s') \<and> fd_ok s' \<and>
    fd_map s' = (fd_map s)(i \<mapsto> f'\<lparr>of_closeOnExec := False\<rparr>)"
proof -
  have r: "fd_rep {} {} s"
    using assms(1) by (simp add: fd_ok_rep)
  obtain a where a: "fsUserGetNode fd s = Inr (a, s)" "a \<noteq> 0" "nodes s a = Some f"
      "contents (firstFile s) (of_nat fd) = Some a"
    by (rule fd_get_some [OF r assms(2)])
  obtain s1 where s1: "fsIdFind s = Inr (i, s1)" "fd_rep {i} {} s1" "fd_map s1 = fd_map s"
      "nodes s1 = nodes s" "fd_same s s1" "i < fd_cap s" "fd_map s i = None"
    using fsIdFind_run [OF r assms(3)] by blast
  have "i < fd_cap s1" "fd_map s1 i = None" "fd_fresh addr s1" "nodes s1 a = Some f"
    using s1 assms(4) a(3) by (simp_all add: fd_same_def fd_fresh_def)
  note d = fsUserDuplicateNode_run [where duplicate = duplicate, OF s1(2) this assms(5-7)]
  then obtain s2 where s2: "fsUserDuplicateNode duplicate addr a None s = Inr (addr, s2)" "fd_rep {} {} s2"
      "fd_map s2 = (fd_map s1)(i \<mapsto> f')" "contents (firstFile s2) (of_nat i) = Some addr" "nodes s2 addr = Some f'"
    using dup_find [OF s1(1)] by auto
  from dup_finish [OF s2(2) _ s2(4,5), of "\<lambda>f. of_nat (of_id f)"] s2(3)
  obtain s3 where "bnd (get_node addr) (\<lambda>f. andthen (put_node addr (f\<lparr>of_closeOnExec := False\<rparr>)) (ret (of_nat (of_id f)))) s2
      = Inr (of_nat (of_id f') :: u64, s3)" "fd_rep {} {} s3"
      "fd_map s3 = (fd_map s2)(i \<mapsto> f'\<lparr>of_closeOnExec := False\<rparr>)"
    by auto
  then show ?thesis
    using a(1,2) s2(1,3) s1(3) assms(6) by (simp add: syscallDup_def bnd_step fd_ok_rep)
qed

lemma fd_rep_unretain:
  assumes "fd_rep X Y s" "fd_map s i = None" "i < fd_cap s"
  shows "fd_rep X (Y - {i}) s"
proof -
  have "contents (firstFile s) k \<noteq> None \<Longrightarrow> unat k \<noteq> i" for k
    using assms fd_map_None [OF assms(1,3)] fd_key_eq [OF assms(3) fd_repD(5) [OF assms(1)], of k] by auto
  then show ?thesis
    using assms(1) unfolding fd_rep_def by (metis Diff_iff option.distinct(1) singletonD)
qed


lemma dup2_reserve_free:
  assumes "fd_rep {} {} s" "fd_map s i = None" "i < fd_cap s"
  shows "\<exists>s'. dup2_reserve i s = Inr (0, s') \<and> fd_rep {i} {} s' \<and> fd_map s' = fd_map s \<and>
    nodes s' = nodes s \<and> fd_same s s'"
proof -
  note r = fd_repD [OF assms(1)]
  define s' where "s' = s\<lparr>fdBitmap := bitmapGenericSet (fdBitmap s) i True\<rparr>"
  have cap: "fd_cap s' = fd_cap s"
    by (simp add: s'_def fd_cap_def)
  have "AVLLookup (firstFile s) (of_nat i) = 0"
    using assms fd_map_None [OF assms(1,3)] by (simp add: avl.lookup_ok [OF r(2)])
  then have "dup2_reserve i s = Inr (0, s')"
    using r(1) assms(3)
    by (simp add: dup2_reserve_def wlocked_def spinlock_cnt_defs cmd_simps bitmap_mark_def s'_def fd_cap_def)
  moreover have "bitmapGenericGet (fdBitmap s') j = (j = i \<or> bitmapGenericGet (fdBitmap s) j)" if "j < fd_cap s" for j
    using that assms(3) by (auto simp: s'_def fd_cap_def bitmapGenericGet_Set)
  ultimately show ?thesis
    using assms(1) cap by (auto simp: fd_rep_def fd_same_def fd_map_def fun_eq_iff s'_def)
qed

lemma dup2_reserve_used:
  assumes "fd_rep {} {} s" "fd_map s i = Some g"
  shows "\<exists>s' b. dup2_reserve i s = Inr (b, s') \<and> b \<noteq> 0 \<and> fd_rep {} {i} s' \<and>
    fd_map s' = (fd_map s)(i \<mapsto> g\<lparr>of_closeFlags := 1\<rparr>) \<and>
    nodes s b = Some g \<and> nodes s' = (nodes s)(b \<mapsto> g\<lparr>of_closeFlags := 1\<rparr>) \<and> fd_same s s'"
proof -
  note r = fd_repD [OF assms(1)] and g = fd_mapD [OF assms]
  obtain b where b: "contents (firstFile s) (of_nat i) = Some b" "nodes s b = Some g" "b \<noteq> 0"
    by (rule fd_map_Some [OF assms])
  obtain s' where s': "put_node b (g\<lparr>of_closeFlags := 1\<rparr>) s = Inr ((), s')" "fd_rep {} {i} s'"
      "fd_map s' = (fd_map s)(i \<mapsto> g\<lparr>of_closeFlags := 1\<rparr>)"
      "nodes s' = (nodes s)(b \<mapsto> g\<lparr>of_closeFlags := 1\<rparr>)" "fd_same s s'"
    using put_node_run [OF assms(1) b(1) g(1), of "g\<lparr>of_closeFlags := 1\<rparr>" "{i}"] g by auto
  have "AVLLookup (firstFile s) (of_nat i) = b"
    using b by (simp add: avl.lookup_ok [OF r(2)])
  then have "dup2_reserve i s = Inr (b, s')"
    using r(1) b g s'(1)
    by (simp add: dup2_reserve_def wlocked_def spinlock_cnt_defs cmd_simps get_node_def put_node_def
        VFS_CLOSE_FLAG_RETAIN_ID_def) auto
  with s' b show ?thesis
    by blast
qed

lemma dup2_vacate:
  assumes "fd_rep {} {} s" "i < fd_cap s" "\<And>g. fd_map s i = Some g \<Longrightarrow> close (g\<lparr>of_closeFlags := 1\<rparr>)"
    "nodes s a = Some f" "of_id f \<noteq> i" "fd_fresh addr s"
  shows "\<exists>s'. bnd (dup2_reserve i) (\<lambda>browse.
       andthen (if browse \<noteq> 0 then bnd (fsUserClose close i) (\<lambda>r. check Assert_failed (r = 0)) else ret ()) k) s = k s' \<and>
     fd_rep {i} {} s' \<and> fd_map s' = (fd_map s)(i := None) \<and> nodes s' a = Some f \<and> fd_fresh addr s' \<and> fd_same s s'"
proof (cases "fd_map s i")
  case None
  from dup2_reserve_free [OF assms(1) None assms(2)]
  obtain s' where "dup2_reserve i s = Inr (0, s')" "fd_rep {i} {} s'" "fd_map s' = fd_map s"
    "nodes s' = nodes s" "fd_same s s'"
    by blast
  with None assms(4,6) show ?thesis
    by (intro exI [of _ s']) (auto simp: cmd_simps fun_upd_idem fd_fresh_def)
next
  case (Some g)
  from dup2_reserve_used [OF assms(1) Some]
  obtain b s1 where s1: "dup2_reserve i s = Inr (b, s1)" "b \<noteq> 0" "fd_rep {} {i} s1"
      "fd_map s1 = (fd_map s)(i \<mapsto> g\<lparr>of_closeFlags := 1\<rparr>)" "nodes s b = Some g"
      "nodes s1 = (nodes s)(b \<mapsto> g\<lparr>of_closeFlags := 1\<rparr>)" "fd_same s s1"
    by blast
  have cl: "close (g\<lparr>of_closeFlags := 1\<rparr>)"
    using assms(3) Some by blast
  have gid: "of_id g = i"
    using fd_mapD(2) [OF assms(1) Some] .
  obtain s2 c where s2: "fsUserClose close i s1 = Inr (0, s2)" "fd_rep {i} {i} s2"
      "fd_map s2 = (fd_map s1)(i := None)" "nodes s1 c = Some (g\<lparr>of_closeFlags := 1\<rparr>)"
      "nodes s2 = (nodes s1)(c := None)" "fd_same s1 s2"
    using fsUserClose_run [OF s1(3), of i "g\<lparr>of_closeFlags := 1\<rparr>" close] cl s1(4) by auto
  have "fd_rep {i} {} s2"
    using fd_rep_unretain [OF s2(2), of i] s2(3,6) s1(7) assms(2) by (simp add: fd_same_def)
  moreover have "a \<noteq> b" "a \<noteq> c"
    using s1(5,6) s2(4) assms(4,5) gid by (auto split: if_splits)
  then have "nodes s2 a = Some f"
    using s2(5) s1(6) assms(4) by simp
  moreover have "fd_fresh addr s2"
    using assms(6) s2(5) s1(5,6) by (auto simp: fd_fresh_def)
  ultimately show ?thesis
    using s1 s2 by (intro exI [of _ s2]) (auto simp: cmd_simps fd_same_def)
qed

lemma syscallDup2_run:
  assumes "fd_ok s" "fd_map s oldFd = Some f" "newFd < fd_cap s" "newFd \<noteq> oldFd" "fd_fresh addr s"
    "\<And>g. fd_map s newFd = Some g \<Longrightarrow> close (g\<lparr>of_closeFlags := 1\<rparr>)"
    "duplicate f (f\<lparr>of_id := newFd\<rparr>) = (True, f')" "of_id f' = newFd" "of_closeFlags f' = 0"
  shows "\<exists>s'. syscallDup2 close duplicate addr oldFd newFd s = Inr (of_nat newFd, s') \<and> fd_ok s' \<and>
    fd_map s' = (fd_map s)(newFd \<mapsto> f'\<lparr>of_closeOnExec := False\<rparr>)"
proof -
  have r: "fd_rep {} {} s"
    using assms(1) by (simp add: fd_ok_rep)
  obtain a where a: "fsUserGetNode oldFd s = Inr (a, s)" "a \<noteq> 0" "nodes s a = Some f"
    by (rule fd_get_some [OF r assms(2)])
  have id: "of_id f \<noteq> newFd"
    using fd_mapD(2) [OF r assms(2)] assms(4) by simp
  let ?k = "bnd (fsUserDuplicateNode duplicate addr a (Some newFd)) (\<lambda>n.
      andthen (check Assert_failed (n \<noteq> 0))
      (bnd (get_node n) (\<lambda>f. andthen (put_node n (f\<lparr>of_closeOnExec := False\<rparr>)) (ret (of_nat newFd :: u64)))))"
  obtain s1 where s1: "bnd (dup2_reserve newFd) (\<lambda>browse.
       andthen (if browse \<noteq> 0 then bnd (fsUserClose close newFd) (\<lambda>r. check Assert_failed (r = 0)) else ret ()) ?k) s = ?k s1"
      "fd_rep {newFd} {} s1" "fd_map s1 = (fd_map s)(newFd := None)" "nodes s1 a = Some f" "fd_fresh addr s1" "fd_same s s1"
    using dup2_vacate [where close = close and k = ?k, OF r assms(3,6) a(3) id assms(5)] by blast
  have "newFd < fd_cap s1" "fd_map s1 newFd = None"
    using s1(3,6) assms(3) by (simp_all add: fd_same_def)
  from fsUserDuplicateNode_run [where duplicate = duplicate, OF s1(2) this s1(5,4) assms(7-9)]
  obtain s2 where s2: "fsUserDuplicateNode duplicate addr a (Some newFd) s1 = Inr (addr, s2)" "fd_rep {} {} s2"
      "fd_map s2 = (fd_map s1)(newFd \<mapsto> f')" "contents (firstFile s2) (of_nat newFd) = Some addr" "nodes s2 addr = Some f'"
    by blast
  from dup_finish [OF s2(2) _ s2(4,5), of "\<lambda>_. of_nat newFd :: u64"] s2(3)
  obtain s3 where s3: "bnd (get_node addr) (\<lambda>f. andthen (put_node addr (f\<lparr>of_closeOnExec := False\<rparr>)) (ret (of_nat newFd))) s2
      = Inr (of_nat newFd :: u64, s3)" "fd_rep {} {} s3"
      "fd_map s3 = (fd_map s2)(newFd \<mapsto> f'\<lparr>of_closeOnExec := False\<rparr>)"
    by auto
  have "addr \<noteq> 0"
    using assms(5) by (simp add: fd_fresh_def)
  then have "?k s1 = Inr (of_nat newFd, s3)"
    using s2(1) s3(1) by (simp add: bnd_step andthen_run check_run)
  then have "syscallDup2 close duplicate addr oldFd newFd s = Inr (of_nat newFd, s3)"
    using a(1,2) assms(4) s1(1) by (simp add: syscallDup2_def bnd_step)
  then show ?thesis
    using s3 s2(3) s1(3) by (simp add: fd_ok_rep)
qed

section \<open>What an open resolves to\<close>

text \<open>
  \<open>resolve_open\<close> is opening without a descriptor table: the file the handlers produce for number
  \<open>fid\<close>, or the value that refuses it (0 when no mount point covers the path). \<open>keeps_id\<close> is
  what the table relies on of the open handlers: they do not touch the number and the close flags.
\<close>

datatype open_result = Opened OpenFile | Refused u64

fun resolve_open ::
  "nat \<Rightarrow> (nat \<Rightarrow> byte) \<Rightarrow> (nat \<Rightarrow> byte) \<Rightarrow> MountPoint list \<Rightarrow>
   (MountPoint \<Rightarrow> byte list \<Rightarrow> u32 \<Rightarrow> OpenFile \<Rightarrow> u64 \<times> byte list option \<times> OpenFile) \<Rightarrow>
   byte list \<Rightarrow> nat \<Rightarrow> byte list \<Rightarrow> u32 \<Rightarrow> open_result res" where
  "resolve_open 0 junk past ms openh cwd fid filename flags = Inl Diverges"
| "resolve_open (Suc fuel) junk past ms openh cwd fid filename flags =
     bindR (fsSanitize junk past cwd filename) (\<lambda>safe.
     case fsDetermineMountPoint ms safe of
       None \<Rightarrow> Inr (Refused 0)
     | Some mnt \<Rightarrow>
         (case openh mnt (fsStripMountpoint safe mnt) flags
            (open_flags flags (new_file\<lparr>of_id := fid, of_flags := flags\<rparr>)) of (r, symlink, f) \<Rightarrow>
          if \<not> RET_IS_ERR r then Inr (Opened f)
          else case symlink of
            None \<Rightarrow> Inr (Refused r)
          | Some l \<Rightarrow> if r = ERR ELOOP then Inr (Refused r)
              else (case fsResolveSymlink mnt l of None \<Rightarrow> Inl Undefined
                    | Some p \<Rightarrow> resolve_open fuel junk past ms openh cwd fid p flags)))"

lemma open_start:
  assumes "fd_rep {} {} s" "fd_free s = Some i" "fd_fresh addr s"
  shows "\<exists>s'. bnd fsIdFind (\<lambda>fid. bnd (fsRegisterNode addr fid) (\<lambda>target. bnd (get_node target) (\<lambda>f0.
      andthen (put_node target (f0\<lparr>of_flags := flags\<rparr>)) (k target f0)))) s = k addr (new_file\<lparr>of_id := i\<rparr>) s' \<and>
    fd_rep {} {} s' \<and> fd_map s' = (fd_map s)(i \<mapsto> new_file\<lparr>of_id := i, of_flags := flags\<rparr>) \<and>
    nodes s' = (nodes s)(addr \<mapsto> new_file\<lparr>of_id := i, of_flags := flags\<rparr>) \<and>
    contents (firstFile s') (of_nat i) = Some addr \<and> fd_same s s' \<and> i < fd_cap s \<and> fd_map s i = None"
proof -
  obtain s1 where s1: "fsIdFind s = Inr (i, s1)" "fd_rep {i} {} s1" "fd_map s1 = fd_map s"
      "nodes s1 = nodes s" "fd_same s s1" "i < fd_cap s" "fd_map s i = None"
    using fsIdFind_run [OF assms(1,2)] by blast
  have "i < fd_cap s1" "fd_map s1 i = None" "addr \<noteq> 0" "nodes s1 addr = None" "i \<notin> {}"
    using s1 assms(3) by (simp_all add: fd_same_def fd_fresh_def)
  from fsRegisterNode_run [OF s1(2) this]
  obtain s2 where s2: "fsRegisterNode addr i s1 = Inr (addr, s2)" "fd_rep {} {} s2"
      "fd_map s2 = (fd_map s1)(i \<mapsto> new_file\<lparr>of_id := i\<rparr>)" "nodes s2 = (nodes s1)(addr \<mapsto> new_file\<lparr>of_id := i\<rparr>)"
      "contents (firstFile s2) (of_nat i) = Some addr" "fd_same s1 s2"
    by blast
  have cap: "i < fd_cap s2"
    using s1(5,6) s2(6) by (simp add: fd_same_def)
  from put_node_run [OF s2(2,5) cap, of "new_file\<lparr>of_id := i, of_flags := flags\<rparr>" "{}"]
  obtain s3 where s3: "put_node addr (new_file\<lparr>of_id := i, of_flags := flags\<rparr>) s2 = Inr ((), s3)" "fd_rep {} {} s3"
      "fd_map s3 = (fd_map s2)(i \<mapsto> new_file\<lparr>of_id := i, of_flags := flags\<rparr>)"
      "nodes s3 = (nodes s2)(addr \<mapsto> new_file\<lparr>of_id := i, of_flags := flags\<rparr>)" "firstFile s3 = firstFile s2" "fd_same s2 s3"
    by auto
  show ?thesis
    using s1 s2 s3 by (intro exI [of _ s3]) (auto simp: bnd_step andthen_run get_node_def fd_same_def)
qed

lemma open_drop:
  assumes "fd_rep {} {} s'" "fd_map s' = (fd_map s)(i \<mapsto> f)" "nodes s' = (nodes s)(addr \<mapsto> f)"
    "contents (firstFile s') (of_nat i) = Some addr" "fd_same s s'" "fd_map s i = None" "fd_fresh addr s"
  shows "\<exists>s''. drop_node addr s' = Inr ((), s'') \<and> fd_ok s'' \<and> fd_map s'' = fd_map s \<and> nodes s'' = nodes s \<and> fd_same s s''"
proof -
  have "fd_map s' i = Some f"
    using assms(2) by simp
  from drop_node_run [OF assms(1) this assms(4)]
  obtain s'' where "drop_node addr s' = Inr ((), s'')" "fd_rep {} {} s''" "fd_map s'' = (fd_map s')(i := None)"
    "nodes s'' = (nodes s')(addr := None)" "fd_same s' s''"
    by blast
  with assms(2,3,5-7) show ?thesis
    by (intro exI [of _ s'']) (auto simp: fd_ok_rep fd_same_def fd_fresh_def fun_upd_idem)
qed

lemma fd_free_cong: "fd_map s' = fd_map s \<Longrightarrow> fd_same s s' \<Longrightarrow> fd_free s' = fd_free s"
  by (simp add: fd_free_def fd_same_def)

definition keeps_id where
  "keeps_id openh \<longleftrightarrow> (\<forall>m p flags f. of_id (snd (snd (openh m p flags f))) = of_id f \<and>
     of_closeFlags (snd (snd (openh m p flags f))) = of_closeFlags (f :: OpenFile))"

lemma keeps_idD:
  "keeps_id openh \<Longrightarrow> openh m p flags f = (r, l, f') \<Longrightarrow> of_id f' = of_id f \<and> of_closeFlags f' = of_closeFlags f"
  unfolding keeps_id_def by (metis snd_conv)

definition open_outcome :: "fd_sys \<Rightarrow> nat \<Rightarrow> open_result res \<Rightarrow> (fault + u64 \<times> fd_sys) \<Rightarrow> bool" where
  "open_outcome s i spec out \<longleftrightarrow>
     (case spec of
        Inl e \<Rightarrow> out = Inl e
      | Inr (Refused r) \<Rightarrow> (\<exists>s'. out = Inr (r, s') \<and> fd_ok s' \<and> fd_map s' = fd_map s \<and> (r = 0 \<or> RET_IS_ERR r))
      | Inr (Opened f) \<Rightarrow> (\<exists>s' a. out = Inr (a, s') \<and> fd_ok s' \<and> fd_map s' = (fd_map s)(i \<mapsto> f) \<and>
                                nodes s' a = Some f \<and> of_id f = i \<and> \<not> RET_IS_ERR a))"


lemma open_finish_outcome:
  assumes s: "fd_rep {} {} s'" "fd_map s' = (fd_map s)(i \<mapsto> f0)" "nodes s' = (nodes s)(target \<mapsto> f0)"
      "contents (firstFile s') (of_nat i) = Some target" "fd_same s s'" "fd_map s i = None" "fd_fresh target s"
      "i < fd_cap s"
    and f: "of_id f = i" "of_closeFlags f = 0" "\<not> RET_IS_ERR target"
    and again: "\<And>p t. fd_ok t \<Longrightarrow> fd_map t = fd_map s \<Longrightarrow> nodes t = nodes s \<Longrightarrow> fd_same s t \<Longrightarrow>
      open_outcome t i (spec p) (again p t)"
  shows "open_outcome s i
    (if \<not> RET_IS_ERR r then Inr (Opened f)
     else case symlink of None \<Rightarrow> Inr (Refused r)
       | Some l \<Rightarrow> if r = ERR ELOOP then Inr (Refused r)
           else (case fsResolveSymlink mnt l of None \<Rightarrow> Inl Undefined | Some p \<Rightarrow> spec p))
    (open_finish again mnt target (r, symlink, f) s')"
proof -
  have "i < fd_cap s'"
    using s(5,8) by (simp add: fd_same_def)
  from put_node_run [OF s(1,4) this, of f "{}"] f(1,2)
  obtain s2 where s2: "put_node target f s' = Inr ((), s2)" "fd_rep {} {} s2" "fd_map s2 = (fd_map s)(i \<mapsto> f)"
      "nodes s2 = (nodes s)(target \<mapsto> f)" "contents (firstFile s2) (of_nat i) = Some target" "fd_same s s2"
    using s(2-5) by (auto simp: fd_same_def)
  show ?thesis
  proof (cases "RET_IS_ERR r")
    case False
    then show ?thesis
      using s2 f by (simp add: open_outcome_def open_finish_def andthen_run ret_run fd_ok_rep)
  next
    case True
    from open_drop [OF s2(2-6) s(6,7)]
    obtain s3 where s3: "drop_node target s2 = Inr ((), s3)" "fd_ok s3" "fd_map s3 = fd_map s"
        "nodes s3 = nodes s" "fd_same s s3"
      by blast
    have "open_finish again mnt target (r, symlink, f) s' =
        (case symlink of None \<Rightarrow> ret r
         | Some l \<Rightarrow> if r \<noteq> ERR ELOOP then
             (case fsResolveSymlink mnt l of None \<Rightarrow> fail Undefined | Some p \<Rightarrow> again p)
           else ret r) s3"
      using s2(1) s3(1) True by (simp add: open_finish_def andthen_run)
    moreover have "open_outcome s i (Inr (Refused r)) (Inr (r, s3))" "open_outcome s i (Inl Undefined) (Inl Undefined)"
      using True s3 by (simp_all add: open_outcome_def)
    moreover have "open_outcome s i (spec p) (again p s3)" for p
      using again [OF s3(2-5), of p] unfolding open_outcome_def s3(3) .
    ultimately show ?thesis
      using True by (auto simp: ret_run fail_run split: option.splits)
  qed
qed

lemma fsOpenGeneric_outcome:
  assumes "fd_ok s" "fd_free s = Some i" "\<forall>n. fd_fresh (addr n) s \<and> \<not> RET_IS_ERR (addr n)" "keeps_id openh"
  shows "open_outcome s i (resolve_open fuel junk past ms openh cwd i filename flags)
           (fsOpenGeneric fuel junk past ms openh cwd addr filename flags s)"
  using assms
proof (induction fuel arbitrary: s filename)
  case 0
  then show ?case
    by (simp add: open_outcome_def fail_run)
next
  case (Suc fuel)
  have rep: "fd_rep {} {} s" and fr: "fd_fresh (addr fuel) s"
    using Suc.prems by (simp_all add: fd_ok_rep)
  note start = open_start [where flags = flags, OF rep Suc.prems(2) fr]
  show ?case
  proof (cases "fsSanitize junk past cwd filename")
    case (Inl e)
    then show ?thesis
      by (simp add: open_outcome_def cmd_simps)
  next
    case safe: (Inr safe)
    show ?thesis
    proof (cases "fsDetermineMountPoint ms safe")
      case None
      let ?k = "\<lambda>target f0. andthen (drop_node target) (ret 0)"
      obtain s' where s': "fsOpenGeneric (Suc fuel) junk past ms openh cwd addr filename flags s = ?k (addr fuel) (new_file\<lparr>of_id := i\<rparr>) s'"
          "fd_rep {} {} s'" "fd_map s' = (fd_map s)(i \<mapsto> new_file\<lparr>of_id := i, of_flags := flags\<rparr>)"
          "nodes s' = (nodes s)(addr fuel \<mapsto> new_file\<lparr>of_id := i, of_flags := flags\<rparr>)"
          "contents (firstFile s') (of_nat i) = Some (addr fuel)" "fd_same s s'" "fd_map s i = None"
        using start [where k = ?k] safe None by (auto simp: bnd_run lift_run)
      from open_drop [OF s'(2-7) fr] show ?thesis
        using s'(1) safe None by (auto simp: open_outcome_def cmd_simps)
    next
      case (Some mnt)
      let ?f1 = "open_flags flags (new_file\<lparr>of_id := i, of_flags := flags\<rparr>)"
      let ?again = "\<lambda>p. fsOpenGeneric fuel junk past ms openh cwd addr p flags"
      let ?k = "\<lambda>target f0. open_finish ?again mnt target (openh mnt (fsStripMountpoint safe mnt) flags
               (open_flags flags (f0\<lparr>of_flags := flags\<rparr>)))"
      obtain r symlink f where oh: "openh mnt (fsStripMountpoint safe mnt) flags ?f1 = (r, symlink, f)"
        by (cases "openh mnt (fsStripMountpoint safe mnt) flags ?f1")
      have f: "of_id f = i" "of_closeFlags f = 0"
        using keeps_idD [OF Suc.prems(4) oh] by (simp_all add: open_flags_def split: if_splits)
      obtain s' where s': "fsOpenGeneric (Suc fuel) junk past ms openh cwd addr filename flags s = ?k (addr fuel) (new_file\<lparr>of_id := i\<rparr>) s'"
          "fd_rep {} {} s'" "fd_map s' = (fd_map s)(i \<mapsto> new_file\<lparr>of_id := i, of_flags := flags\<rparr>)"
          "nodes s' = (nodes s)(addr fuel \<mapsto> new_file\<lparr>of_id := i, of_flags := flags\<rparr>)"
          "contents (firstFile s') (of_nat i) = Some (addr fuel)" "fd_same s s'" "fd_map s i = None" "i < fd_cap s"
        using start [where k = ?k] safe Some by (auto simp: bnd_run lift_run)
      have again: "open_outcome t i (resolve_open fuel junk past ms openh cwd i p flags) (?again p t)"
        if "fd_ok t" "fd_map t = fd_map s" "nodes t = nodes s" "fd_same s t" for p t
        using that Suc.prems(2,3) fd_free_cong [OF that(2,4)]
        by (intro Suc.IH Suc.prems(4)) (simp_all add: fd_fresh_def)
      have run: "fsOpenGeneric (Suc fuel) junk past ms openh cwd addr filename flags s =
          open_finish ?again mnt (addr fuel) (r, symlink, f) s'"
        using s'(1) oh by simp
      have "\<not> RET_IS_ERR (addr fuel)"
        using Suc.prems(3) by blast
      note outcome = open_finish_outcome [OF s'(2-7) fr s'(8) f this again]
      have spec: "resolve_open (Suc fuel) junk past ms openh cwd i filename flags =
          (if \<not> RET_IS_ERR r then Inr (Opened f)
           else case symlink of None \<Rightarrow> Inr (Refused r)
             | Some l \<Rightarrow> if r = ERR ELOOP then Inr (Refused r)
                 else (case fsResolveSymlink mnt l of None \<Rightarrow> Inl Undefined
                   | Some p \<Rightarrow> resolve_open fuel junk past ms openh cwd i p flags))"
        by (simp add: safe Some oh)
      show ?thesis
        unfolding run spec by (rule outcome)
    qed
  qed
qed


section \<open>The descriptor operations as operations of the map\<close>

text \<open>
  C36. Opening a file: with a free descriptor number below the limit, \<open>fsUserOpen\<close> does on the table what
  path resolution (\<open>resolve_open\<close>: sanitizing, choosing the mount point, the mount's open handler, following
  links) says. An opened file is bound to the lowest free number, which is returned, and nothing else
  changes; a refused open returns the error and leaves every descriptor as it was; with no mount
  point for the path the null pointer is dereferenced.
\<close>

theorem fsUserOpen_refines:
  assumes "fd_ok s" "fd_free s = Some i" "\<forall>n. fd_fresh (addr n) s \<and> \<not> RET_IS_ERR (addr n)" "keeps_id openh"
    "\<not> has_flag flags FASYNC"
  shows "case resolve_open fuel junk past ms openh cwd i filename flags of
      Inl e \<Rightarrow> fsUserOpen fuel junk past ms openh cwd addr filename flags s = Inl e
    | Inr (Refused r) \<Rightarrow>
        if r = 0 then fsUserOpen fuel junk past ms openh cwd addr filename flags s = Inl Undefined
        else RET_IS_ERR r \<and> (\<exists>s'. fsUserOpen fuel junk past ms openh cwd addr filename flags s = Inr (r, s') \<and>
               fd_ok s' \<and> fd_map s' = fd_map s)
    | Inr (Opened f) \<Rightarrow>
        \<exists>s'. fsUserOpen fuel junk past ms openh cwd addr filename flags s = Inr (of_nat i, s') \<and>
          fd_ok s' \<and> fd_map s' = (fd_map s)(i \<mapsto> f)"
proof -
  have err0: "\<not> RET_IS_ERR 0"
    by (simp add: RET_IS_ERR_def)
  note out = fsOpenGeneric_outcome [OF assms(1-4), of fuel junk past ms cwd filename flags]
  let ?open = "fsOpenGeneric fuel junk past ms openh cwd addr filename flags s"
  have fs: "fsUserOpen fuel junk past ms openh cwd addr filename flags s =
      (case ?open of Inl e \<Rightarrow> Inl e | Inr (a, s') \<Rightarrow>
         (if RET_IS_ERR a then ret a else bnd (get_node a) (\<lambda>f. ret (of_nat (of_id f)))) s')"
    using assms(5) by (simp add: fsUserOpen_def bnd_run)
  have null: "get_node 0 s' = Inl Undefined" if "fd_ok s'" for s'
    using that by (simp add: get_node_def fd_ok_def)
  show ?thesis
  proof (cases "resolve_open fuel junk past ms openh cwd i filename flags")
    case (Inl e)
    with out fs show ?thesis
      by (simp add: open_outcome_def)
  next
    case (Inr v)
    show ?thesis
    proof (cases v)
      case (Opened f)
      with Inr out fs show ?thesis
        by (auto simp: open_outcome_def get_node_def cmd_simps)
    next
      case (Refused r)
      with Inr out obtain s' where "?open = Inr (r, s')" "fd_ok s'" "fd_map s' = fd_map s" "r = 0 \<or> RET_IS_ERR r"
        by (auto simp: open_outcome_def)
      with Inr Refused fs err0 null show ?thesis
        by (auto simp: cmd_simps)
    qed
  qed
qed

text \<open>A table with descriptor 0 open, limited to the eight numbers of its one-byte bitmap.\<close>

definition demo_fds :: fd_sys where
  "demo_fds = \<lparr>WLOCK_FILES = 0, rlimitFdsSoft = 8, fdBitmap = [1], firstFile = Node 0 Null Null 1 0x1000,
     nodes = [0x1000 \<mapsto> new_file]\<rparr>"

lemma demo_fd_contents: "contents (firstFile demo_fds) = [0 \<mapsto> 0x1000]"
  by (auto simp: demo_fds_def contents_def fun_eq_iff)

lemma demo_fd_ok: "fd_ok demo_fds"
proof -
  have cap: "fd_cap demo_fds = 8"
    by (simp add: demo_fds_def fd_cap_def)
  have bits: "bitmapGenericGet (fdBitmap demo_fds) i = (i = 0)" if "i < 8" for i
    using that by (simp add: demo_fds_def bitmapGenericGet_bit bit_1_iff)
  have key: "((of_nat i :: u64) = 0) = (i = 0)" if "i < 8" for i
    using that by (auto simp: word_of_nat_eq_0_iff dest!: dvd_imp_le)
  have "avl_ok (firstFile demo_fds)"
    by (simp add: demo_fds_def avl_ok_def search_tree_def)
  then show ?thesis
    using bits key by (simp add: fd_ok_def cap demo_fd_contents) (simp add: demo_fds_def)
qed

lemma demo_fd_map: "fd_cap demo_fds = 8" "fd_map demo_fds 0 = Some new_file" "fd_map demo_fds 1 = None"
  "fd_free demo_fds = Some 1"
proof -
  show "fd_cap demo_fds = 8" and m0: "fd_map demo_fds 0 = Some new_file" and m1: "fd_map demo_fds 1 = None"
    by (simp_all add: fd_map_def demo_fd_contents) (simp_all add: demo_fds_def fd_cap_def)
  have "rlimitFdsSoft demo_fds = 8"
    by (simp add: demo_fds_def)
  with m0 m1 show "fd_free demo_fds = Some 1"
    unfolding fd_free_def by (intro find_upt_Some) (auto simp: less_Suc_eq)
qed

lemma demo_fresh: "fd_fresh 0x2000 demo_fds \<and> \<not> RET_IS_ERR 0x2000"
  by (simp add: fd_fresh_def demo_fds_def RET_IS_ERR_def)

lemma demo_path: "fsSanitize (\<lambda>_. 0) (\<lambda>_. 0) [slash] [slash, 97] = Inr [slash, 97]"
  by code_simp

theorem fsUserOpen_refines_witness:
  "\<exists>s'. fsUserOpen 2 (\<lambda>_. 0) (\<lambda>_. 0) [\<lparr>mnt_prefix = [slash]\<rparr>] (\<lambda>m p flags f. (0, None, f)) [slash] (\<lambda>_. 0x2000)
      [slash, 97] 0 demo_fds = Inr (1, s') \<and> fd_ok s' \<and> fd_map s' = (fd_map demo_fds)(1 \<mapsto> new_file\<lparr>of_id := 1\<rparr>)"
proof -
  let ?openh = "\<lambda>(m :: MountPoint) (p :: byte list) (flags :: u32) (f :: OpenFile). (0 :: u64, None :: byte list option, f)"
  have k: "keeps_id ?openh" and n: "\<not> has_flag 0 FASYNC"
    by (simp_all add: keeps_id_def has_flag_def)
  have "resolve_open 2 (\<lambda>_. 0) (\<lambda>_. 0) [\<lparr>mnt_prefix = [slash]\<rparr>] ?openh [slash] 1 [slash, 97] 0 = Inr (Opened (new_file\<lparr>of_id := 1\<rparr>))"
    by (simp add: numeral_2_eq_2 demo_path fsDetermineMountPoint_def Let_def peek_def RET_IS_ERR_def open_flags_def has_flag_def)
  with fsUserOpen_refines [OF demo_fd_ok demo_fd_map(4) _ k n, of "\<lambda>_. 0x2000" 2 "\<lambda>_. 0" "\<lambda>_. 0" "[\<lparr>mnt_prefix = [slash]\<rparr>]" "[slash]" "[slash, 97]"]
    demo_fresh show ?thesis
    by simp
qed

text \<open>
  C37. Closing: a descriptor that is open is unbound, its number becomes free again, its object is released and
  every other descriptor is untouched, whatever the file's own close handler answers; a number
  that is not open gives \<open>EBADF\<close> and changes nothing.
\<close>

theorem fsUserClose_refines:
  assumes "fd_ok s" "fd < 2 ^ 64"
  shows "case fd_map s fd of
      None \<Rightarrow> fsUserClose close fd s = Inr (ERR EBADF, s)
    | Some f \<Rightarrow> \<exists>s'. fsUserClose close fd s = Inr (if close f then 0 else - 1, s') \<and> fd_ok s' \<and>
        fd_map s' = (fd_map s)(fd := None) \<and> (\<exists>a. nodes s a = Some f \<and> nodes s' = (nodes s)(a := None))"
proof (cases "fd_map s fd")
  case None
  then show ?thesis
    using fd_get_none [of "{}" "{}" s fd] assms by (simp add: fd_ok_rep fsUserClose_def cmd_simps)
next
  case (Some f)
  then show ?thesis
    using fsUserClose_run [of "{}" s fd f close] assms(1) by (auto simp: fd_ok_rep)
qed

theorem fsUserClose_refines_witness:
  "\<exists>s'. fsUserClose (\<lambda>_. True) 0 demo_fds = Inr (0, s') \<and> fd_ok s' \<and> fd_map s' = (fd_map demo_fds)(0 := None)"
  using fsUserClose_refines [OF demo_fd_ok, of 0 "\<lambda>_. True"] by (auto simp: demo_fd_map)

text \<open>
  C38. \<open>dup\<close> binds the lowest free number to a copy of the file with the close-on-exec mark cleared; when the
  file's duplicate handler refuses, the null pointer it gets is written through before it is tested.
\<close>

theorem syscallDup_refines:
  assumes "fd_ok s" "fd_map s fd = Some f" "fd_free s = Some i" "fd_fresh addr s"
    "duplicate f (f\<lparr>of_id := i\<rparr>) = (okay, f')" "of_id f' = i" "of_closeFlags f' = 0"
  shows "if okay
    then \<exists>s'. syscallDup duplicate addr fd s = Inr (of_nat i, s') \<and> fd_ok s' \<and>
           fd_map s' = (fd_map s)(i \<mapsto> f'\<lparr>of_closeOnExec := False\<rparr>)
    else syscallDup duplicate addr fd s = Inl Undefined"
proof (cases okay)
  case True
  then show ?thesis
    using syscallDup_run [where duplicate = duplicate, OF assms(1-4) _ assms(6,7)] assms(5) by simp
next
  case False
  have r: "fd_rep {} {} s"
    using assms(1) by (simp add: fd_ok_rep)
  obtain a where a: "fsUserGetNode fd s = Inr (a, s)" "a \<noteq> 0" "nodes s a = Some f"
    by (rule fd_get_some [OF r assms(2)])
  from fsIdFind_run [OF r assms(3)]
  obtain s1 where s1: "fsIdFind s = Inr (i, s1)" "fd_rep {i} {} s1" "fd_map s1 = fd_map s"
      "nodes s1 = nodes s" "fd_same s s1" "i < fd_cap s" "fd_map s i = None"
    by blast
  have "i < fd_cap s1" "fd_map s1 i = None" "addr \<noteq> 0" "nodes s1 addr = None" "i \<notin> {}"
    using s1 assms(4) by (simp_all add: fd_same_def fd_fresh_def)
  from fsRegisterNode_run [OF s1(2) this]
  obtain s2 where s2: "fsRegisterNode addr i s1 = Inr (addr, s2)" "fd_rep {} {} s2"
      "nodes s2 = (nodes s1)(addr \<mapsto> new_file\<lparr>of_id := i\<rparr>)"
    by blast
  have "nodes s2 a = Some f"
    using a(3) s1(4) s2(3) assms(4) by (auto simp: fd_fresh_def)
  moreover have "nodes s2 0 = None"
    using fd_repD(3) [OF s2(2)] .
  ultimately show ?thesis
    using False a(1,2) s1(1) s2(1) assms(5)
    by (simp add: syscallDup_def fsUserDuplicateNode_def cmd_simps get_node_def free_node_def)
qed

theorem syscallDup_refines_witness:
  "\<exists>s'. syscallDup (\<lambda>f f'. (True, f')) 0x2000 0 demo_fds = Inr (1, s') \<and> fd_ok s' \<and>
     fd_map s' = (fd_map demo_fds)(1 \<mapsto> new_file\<lparr>of_id := 1, of_closeOnExec := False\<rparr>)"
  using syscallDup_refines [where duplicate = "\<lambda>f f'. (True, f')" and okay = True,
      OF demo_fd_ok demo_fd_map(2,4) conjunct1 [OF demo_fresh] refl] by simp



text \<open>
  C40. \<open>dup2\<close> checks its second argument against nothing: a target number at or past the end of the descriptor
  bitmap is marked all the same, outside the array.
\<close>

theorem syscallDup2_overrun:
  assumes "fd_ok s" "fd_map s oldFd \<noteq> None" "fd_cap s \<le> newFd" "newFd < 2 ^ 32"
  shows "syscallDup2 close duplicate addr oldFd newFd s = Inl Out_of_bounds"
proof -
  have r: "fd_rep {} {} s"
    using assms(1) by (simp add: fd_ok_rep)
  obtain f where f: "fd_map s oldFd = Some f"
    using assms(2) by auto
  obtain a where a: "fsUserGetNode oldFd s = Inr (a, s)" "a \<noteq> 0"
    by (rule fd_get_some [OF r f])
  have "oldFd \<noteq> newFd"
    using fd_mapD(1) [OF r f] assms(3) by simp
  moreover have "dup2_reserve newFd s = Inl Out_of_bounds"
    using assms(3,4) fd_map_same [OF r assms(3)] fd_repD(1,2) [OF r]
    by (simp add: dup2_reserve_def wlocked_def spinlock_cnt_defs cmd_simps bitmap_mark_def fd_cap_def avl.lookup_ok)
  ultimately show ?thesis
    using a by (simp add: syscallDup2_def cmd_simps)
qed

theorem syscallDup2_overrun_witness:
  "syscallDup2 (\<lambda>_. True) (\<lambda>f f'. (True, f')) 0x2000 0 8 demo_fds = Inl Out_of_bounds"
  using syscallDup2_overrun [OF demo_fd_ok, of 0 8] by (simp add: demo_fd_map)

end
