(* ===== verification/Paging.thy ===== *)
theory Paging
  imports Physical_Memory Spinlock
begin

text \<open>
  The page tables of the kernel (\<^verbatim>\<open>memory/paging.cpp\<close>): four levels of tables of 512 entries in
  physical memory, allocated from the physical memory manager. \<open>page_mem a i\<close> is the \<open>i\<close>-th 64-bit word
  of the page at the page-aligned physical address \<open>a\<close>; the kernel reaches it at \<open>a + HHDMoffset\<close>, where the
  boot loader maps all of physical memory. A page directory is passed as a kernel pointer. The
  registers and the fields of the running task the functions use are part of the state; there
  is no translation cache, so that \<^verbatim>\<open>invalidate\<close> has no effect.
\<close>

section \<open>Entries and addresses\<close>

definition PF_PRESENT :: u64 where "PF_PRESENT = 0x1"
definition PF_RW :: u64 where "PF_RW = 0x2"
definition PF_USER :: u64 where "PF_USER = 0x4"
definition PF_PS :: u64 where "PF_PS = 0x80"
definition PF_SHARED :: u64 where "PF_SHARED = 0x200"

definition PGSHIFT_PML4E :: nat where "PGSHIFT_PML4E = 39"
definition PGSHIFT_PDPTE :: nat where "PGSHIFT_PDPTE = 30"
definition PGSHIFT_PDE :: nat where "PGSHIFT_PDE = 21"
definition PGSHIFT_PTE :: nat where "PGSHIFT_PTE = 12"
definition PGMASK_ENTRY :: u64 where "PGMASK_ENTRY = 0x1ff"

definition BITS_TO_VIRT_ADDR :: "nat \<Rightarrow> nat \<Rightarrow> nat \<Rightarrow> nat \<Rightarrow> u64" where
  "BITS_TO_VIRT_ADDR pml4_index pdpte_index pd_index pt_index =
     push_bit PGSHIFT_PML4E (of_nat pml4_index) OR push_bit PGSHIFT_PDPTE (of_nat pdpte_index) OR
     push_bit PGSHIFT_PDE (of_nat pd_index) OR push_bit PGSHIFT_PTE (of_nat pt_index)"

definition AMD64_MM_STRIPSX :: "u64 \<Rightarrow> u64" where
  "AMD64_MM_STRIPSX a = a AND 0xFFFFFFFFFFFF"

definition PML4E :: "u64 \<Rightarrow> nat" where "PML4E a = unat (drop_bit PGSHIFT_PML4E a AND PGMASK_ENTRY)"
definition PDPTE :: "u64 \<Rightarrow> nat" where "PDPTE a = unat (drop_bit PGSHIFT_PDPTE a AND PGMASK_ENTRY)"
definition PDE :: "u64 \<Rightarrow> nat" where "PDE a = unat (drop_bit PGSHIFT_PDE a AND PGMASK_ENTRY)"
definition PTE :: "u64 \<Rightarrow> nat" where "PTE a = unat (drop_bit PGSHIFT_PTE a AND PGMASK_ENTRY)"

definition PTE_ADDR_MASK :: u64 where "PTE_ADDR_MASK = 0x000ffffffffff000"

definition PTE_GET_ADDR :: "u64 \<Rightarrow> u64" where
  "PTE_GET_ADDR e = e AND PTE_ADDR_MASK"

definition P_PHYS_ADDR :: "u64 \<Rightarrow> u64" where
  "P_PHYS_ADDR x = x AND NOT 0xFFF"

section \<open>State\<close>

record pg_sys =
  pg_mm :: mm
  HHDMoffset :: nat
  phys_extent :: nat
  page_mem :: "nat \<Rightarrow> nat \<Rightarrow> u64"
  WLOCK_PAGING :: SpinlockCnt
  globalPagedir :: nat
  cr3 :: nat
  tasksInitiated :: bool
  infoPd_pagedir :: nat
  pagedirOverride :: nat

type_synonym 'a pg_cmd = "(pg_sys, 'a) cmd"

definition in_mm :: "'a mm_cmd \<Rightarrow> 'a pg_cmd" where
  "in_mm c = (\<lambda>s. case c (pg_mm s) of Inl e \<Rightarrow> Inl e | Inr (x, m) \<Rightarrow> Inr (x, s\<lparr>pg_mm := m\<rparr>))"

definition rdw :: "nat \<Rightarrow> nat \<Rightarrow> u64 pg_cmd" where
  "rdw f i = gets (\<lambda>s. page_mem s f i)"

definition wrw :: "nat \<Rightarrow> nat \<Rightarrow> u64 \<Rightarrow> unit pg_cmd" where
  "wrw f i v = modify (\<lambda>s. s\<lparr>page_mem := (page_mem s)(f := (page_mem s f)(i := v))\<rparr>)"

definition table_of :: "nat \<Rightarrow> nat pg_cmd" where
  "table_of ptr = gets (\<lambda>s. sub_t ptr (HHDMoffset s))"

definition wr_locked :: "'a pg_cmd \<Rightarrow> 'a pg_cmd" where
  "wr_locked body =
     bnd (gets WLOCK_PAGING) (\<lambda>l. bnd (lift (spinlock_cnt_write_acquire l)) (\<lambda>l1.
     andthen (modify (\<lambda>s. s\<lparr>WLOCK_PAGING := l1\<rparr>))
     (bnd body (\<lambda>r.
      bnd (gets WLOCK_PAGING) (\<lambda>l2. bnd (lift (spinlock_cnt_write_release l2)) (\<lambda>l3.
      andthen (modify (\<lambda>s. s\<lparr>WLOCK_PAGING := l3\<rparr>)) (ret r)))))))"

definition rd_acquire :: "unit pg_cmd" where
  "rd_acquire = bnd (gets WLOCK_PAGING) (\<lambda>l. bnd (lift (spinlock_cnt_read_acquire l)) (\<lambda>l'. modify (\<lambda>s. s\<lparr>WLOCK_PAGING := l'\<rparr>)))"

definition rd_release :: "unit pg_cmd" where
  "rd_release = bnd (gets WLOCK_PAGING) (\<lambda>l. bnd (lift (spinlock_cnt_read_release l)) (\<lambda>l'. modify (\<lambda>s. s\<lparr>WLOCK_PAGING := l'\<rparr>)))"

section \<open>Mapping\<close>

definition paging_physical_allocate :: "nat pg_cmd" where
  "paging_physical_allocate =
     bnd (in_mm (physical_allocate 1)) (\<lambda>phys.
     andthen (modify (\<lambda>s. s\<lparr>page_mem := (page_mem s)(phys := \<lambda>_. 0)\<rparr>)) (ret phys))"

definition ensure_table :: "nat \<Rightarrow> nat \<Rightarrow> nat pg_cmd" where
  "ensure_table table index =
     bnd (rdw table index) (\<lambda>e.
     andthen (if e AND PF_PRESENT = 0
              then bnd paging_physical_allocate (\<lambda>target.
                wrw table index (of_nat target OR PF_PRESENT OR PF_RW OR PF_USER))
              else ret ())
     (bnd (rdw table index) (\<lambda>e. ret (unat (PTE_GET_ADDR e)))))"

definition map_page :: "nat \<Rightarrow> u64 \<Rightarrow> u64 \<Rightarrow> u64 \<Rightarrow> unit pg_cmd" where
  "map_page pml4 virt_addr phys_addr flags =
     bnd (ensure_table pml4 (PML4E virt_addr)) (\<lambda>pdp.
     bnd (ensure_table pdp (PDPTE virt_addr)) (\<lambda>pd.
     bnd (ensure_table pd (PDE virt_addr)) (\<lambda>pt.
     bnd (rdw pt (PTE virt_addr)) (\<lambda>e.
     andthen (if e AND PF_PRESENT \<noteq> 0 then in_mm (physical_free (unat (PTE_GET_ADDR e)) 1) else ret ())
       (wrw pt (PTE virt_addr) (P_PHYS_ADDR phys_addr OR PF_PRESENT OR flags))))))"

definition virtual_mapL :: "nat \<Rightarrow> u64 \<Rightarrow> u64 \<Rightarrow> u64 \<Rightarrow> unit pg_cmd" where
  "virtual_mapL pagedir virt_addr phys_addr flags =
     (if unat virt_addr mod PAGE_SIZE \<noteq> 0 then fail Halted
      else bnd (table_of pagedir) (\<lambda>pml4.
        wr_locked (map_page pml4 (AMD64_MM_STRIPSX virt_addr) phys_addr flags)))"

definition virtual_map :: "u64 \<Rightarrow> u64 \<Rightarrow> u64 \<Rightarrow> unit pg_cmd" where
  "virtual_map virt_addr phys_addr flags = bnd (gets globalPagedir) (\<lambda>d. virtual_mapL d virt_addr phys_addr flags)"

text \<open>The product \<^verbatim>\<open>i * PAGE_SIZE\<close> is computed as an \<^verbatim>\<open>int\<close>.\<close>

definition map_region_step :: "u64 \<Rightarrow> u64 \<Rightarrow> u64 \<Rightarrow> nat \<Rightarrow> unit pg_cmd" where
  "map_region_step virt_addr phys_addr flags i =
     andthen (check Undefined (i * PAGE_SIZE < 2 ^ 31))
       (virtual_map (virt_addr + of_nat (i * PAGE_SIZE)) (phys_addr + of_nat (i * PAGE_SIZE)) flags)"

definition virtual_map_region_by_length :: "u64 \<Rightarrow> u64 \<Rightarrow> nat \<Rightarrow> u64 \<Rightarrow> unit pg_cmd" where
  "virtual_map_region_by_length virt_addr phys_addr len flags =
     (let pagesAmnt = trunc32 (ceil_t len PAGE_SIZE)
      in for_each (map_region_step virt_addr phys_addr flags) [0..<pagesAmnt])"

section \<open>Translation\<close>

definition walk_tables :: "nat \<Rightarrow> u64 \<Rightarrow> u64 \<Rightarrow> u64 pg_cmd" where
  "walk_tables pml4 virt_addr virt_addr_init =
     bnd (rdw pml4 (PML4E virt_addr)) (\<lambda>e4. if e4 AND PF_PRESENT = 0 then ret 0 else
     bnd (rdw (unat (PTE_GET_ADDR e4)) (PDPTE virt_addr)) (\<lambda>e3. if e3 AND PF_PRESENT = 0 then ret 0 else
     bnd (rdw (unat (PTE_GET_ADDR e3)) (PDE virt_addr)) (\<lambda>e2. if e2 AND PF_PRESENT = 0 then ret 0 else
     bnd (rdw (unat (PTE_GET_ADDR e2)) (PTE virt_addr)) (\<lambda>e1. if e1 AND PF_PRESENT \<noteq> 0
       then ret (PTE_GET_ADDR e1 + (virt_addr_init AND 0xFFF)) else ret 0))))"

definition paging_virtual_to_physical :: "u64 \<Rightarrow> u64 pg_cmd" where
  "paging_virtual_to_physical virt_addr =
     bnd (gets (\<lambda>s. (globalPagedir s, HHDMoffset s, phys_extent s))) (\<lambda>(dir, h, extent).
     if dir = 0 then ret 0
     else if h \<le> unat virt_addr \<and> unat virt_addr < size_t (h + extent) then ret (virt_addr - of_nat h)
     else bnd (table_of dir) (\<lambda>pml4.
       andthen rd_acquire
       (bnd (walk_tables pml4 (AMD64_MM_STRIPSX (virt_addr AND NOT 0xFFF)) virt_addr) (\<lambda>r.
        andthen rd_release (ret r)))))"

section \<open>Page directories\<close>

definition paging_initialize :: "unit pg_cmd" where
  "paging_initialize =
     bnd (gets cr3) (\<lambda>pdPhys.
     if pdPhys = 0 then fail Halted
     else modify (\<lambda>s. s\<lparr>globalPagedir := size_t (pdPhys + HHDMoffset s)\<rparr>))"

definition change_page_directory_unsafe :: "nat \<Rightarrow> unit pg_cmd" where
  "change_page_directory_unsafe pd =
     bnd (paging_virtual_to_physical (of_nat pd)) (\<lambda>targ.
     if targ = 0 then fail Halted
     else modify (\<lambda>s. s\<lparr>cr3 := unat targ, globalPagedir := pd\<rparr>))"

definition change_page_directory_fake :: "nat \<Rightarrow> unit pg_cmd" where
  "change_page_directory_fake pd =
     bnd (in_mm (virtual_to_physical pd)) (\<lambda>p.
     if p = 0 then fail Halted else modify (\<lambda>s. s\<lparr>globalPagedir := pd\<rparr>))"

definition change_page_directory :: "nat \<Rightarrow> unit pg_cmd" where
  "change_page_directory pd =
     andthen (modify (\<lambda>s. if tasksInitiated s
                 then s\<lparr>pagedirOverride := (if pd = infoPd_pagedir s then 0 else pd)\<rparr> else s))
       (change_page_directory_unsafe pd)"

definition get_page_directory :: "nat pg_cmd" where
  "get_page_directory = gets globalPagedir"

text \<open>\<^verbatim>\<open>GetTaskPageDirectory\<close> of a task with the given override and directory.\<close>

definition GetTaskPageDirectory :: "nat \<Rightarrow> nat \<Rightarrow> nat" where
  "GetTaskPageDirectory override pagedir = (if override \<noteq> 0 then override else pagedir)"

definition page_directory_allocate :: "nat \<Rightarrow> nat pg_cmd" where
  "page_directory_allocate model =
     bnd (gets tasksInitiated) (\<lambda>t.
     if \<not> t then fail Halted
     else bnd (in_mm (virtual_allocate 1)) (\<lambda>out.
       bnd (table_of out) (\<lambda>f. bnd (table_of model) (\<lambda>m.
       andthen (modify (\<lambda>s. s\<lparr>page_mem := (page_mem s)(f := \<lambda>_. 0)\<rparr>))
       (andthen (for_each (\<lambda>i. bnd (rdw m i) (wrw f i)) [0..<512]) (ret out))))))"

text \<open>The entries of a table that lead to a page of the usual size, in order.\<close>

definition skipped :: "u64 \<Rightarrow> bool" where
  "skipped e \<longleftrightarrow> e AND PF_PRESENT = 0 \<or> e AND PF_PS \<noteq> 0"

definition each_entry :: "(nat \<Rightarrow> u64 \<Rightarrow> unit pg_cmd) \<Rightarrow> nat \<Rightarrow> unit pg_cmd" where
  "each_entry body table =
     for_each (\<lambda>i. bnd (rdw table i) (\<lambda>e. if skipped e then ret () else body i e)) [0..<512]"

definition each_user_page :: "(nat \<Rightarrow> nat \<Rightarrow> nat \<Rightarrow> nat \<Rightarrow> u64 \<Rightarrow> unit pg_cmd) \<Rightarrow> nat \<Rightarrow> unit pg_cmd" where
  "each_user_page body pml4 =
     each_entry (\<lambda>i4 e4. each_entry (\<lambda>i3 e3. each_entry (\<lambda>i2 e2. each_entry (\<lambda>i1 e1.
       if e1 AND PF_USER = 0 then ret () else body i4 i3 i2 i1 e1)
       (unat (PTE_GET_ADDR e2))) (unat (PTE_GET_ADDR e3))) (unat (PTE_GET_ADDR e4))) pml4"

definition page_directory_free :: "nat \<Rightarrow> unit pg_cmd" where
  "page_directory_free page_dir =
     bnd (table_of page_dir) (\<lambda>pml4.
     wr_locked (each_user_page (\<lambda>_ _ _ _ e. in_mm (physical_free (unat (PTE_GET_ADDR e)) 1)) pml4))"

definition duplicate_page :: "nat \<Rightarrow> nat \<Rightarrow> nat \<Rightarrow> nat \<Rightarrow> nat \<Rightarrow> u64 \<Rightarrow> unit pg_cmd" where
  "duplicate_page target pml4_index pdp_index pd_index pt_index e =
     (let physSource = unat (PTE_GET_ADDR e) in
      bnd (if e AND PF_SHARED \<noteq> 0 then ret physSource else paging_physical_allocate) (\<lambda>physTarget.
      andthen (modify (\<lambda>s. s\<lparr>page_mem := (page_mem s)(physTarget := page_mem s physSource)\<rparr>))
      (andthen rd_release
      (andthen (virtual_mapL target (BITS_TO_VIRT_ADDR pml4_index pdp_index pd_index pt_index) (of_nat physTarget) (PF_RW OR PF_USER))
        rd_acquire))))"

definition page_directory_user_duplicate :: "nat \<Rightarrow> nat \<Rightarrow> unit pg_cmd" where
  "page_directory_user_duplicate source target =
     bnd (table_of source) (\<lambda>pml4.
     andthen rd_acquire (andthen (each_user_page (duplicate_page target) pml4) rd_release))"

section \<open>Address arithmetic\<close>

lemma bit_PTE_ADDR_MASK: "bit PTE_ADDR_MASK n \<longleftrightarrow> 12 \<le> n \<and> n < 52"
proof -
  have *: "PTE_ADDR_MASK = push_bit 12 (mask 40)"
    by (simp add: PTE_ADDR_MASK_def mask_eq_exp_minus_1 push_bit_eq_mult)
  show ?thesis
    unfolding * by (auto simp: bit_simps)
qed

lemma bit_low12: "bit (0xFFF :: u64) n \<longleftrightarrow> n < 12"
proof -
  have *: "(0xFFF :: u64) = mask 12"
    by (simp add: mask_eq_exp_minus_1)
  show ?thesis
    unfolding * by (auto simp: bit_simps)
qed

lemma bit_flags [simp]: "bit PF_PRESENT n = (n = 0)" "bit PF_RW n = (n = 1)" "bit PF_USER n = (n = 2)"
proof -
  have *: "PF_PRESENT = 2 ^ 0" "PF_RW = 2 ^ 1" "PF_USER = 2 ^ 2"
    by (simp_all add: PF_PRESENT_def PF_RW_def PF_USER_def)
  show "bit PF_PRESENT n = (n = 0)" "bit PF_RW n = (n = 1)" "bit PF_USER n = (n = 2)"
    unfolding * bit_exp_iff by auto
qed

lemma present_bit: "e AND PF_PRESENT = 0 \<longleftrightarrow> \<not> bit e 0"
  by (auto simp: PF_PRESENT_def and_one_eq even_bit_succ_iff bit_0 odd_iff_mod_2_eq_one)

lemma unat_take_bit: "unat (take_bit k w) = unat w mod 2 ^ k" for w :: u64
  unfolding unsigned_take_bit_eq by (rule take_bit_eq_mod)

definition frame_ok :: "nat \<Rightarrow> bool" where
  "frame_ok a \<longleftrightarrow> PAGE_SIZE dvd a \<and> a < 2 ^ 52"

lemma bit_frame:
  assumes "frame_ok a"
  shows "bit (of_nat a :: u64) n \<Longrightarrow> 12 \<le> n \<and> n < 52"
proof -
  assume b: "bit (of_nat a :: u64) n"
  then have n: "bit a n"
    by (simp add: bit_of_nat_iff_bit bit_simps)
  obtain k where k: "a = push_bit 12 k"
    using assms by (auto simp: frame_ok_def PAGE_SIZE_def dvd_def push_bit_eq_mult mult.commute)
  have "12 \<le> n"
    using n unfolding k by (simp add: bit_push_bit_iff_nat)
  moreover have "n < 52"
  proof (rule ccontr)
    assume "\<not> n < 52"
    then have "(2 :: nat) ^ 52 \<le> 2 ^ n"
      by (intro power_increasing) auto
    with assms have "a < 2 ^ n"
      by (simp add: frame_ok_def)
    with n show False
      by (simp add: bit_iff_odd)
  qed
  ultimately show ?thesis by simp
qed

lemma PTE_GET_ADDR_frame:
  assumes "frame_ok a" "\<And>n. bit w n \<Longrightarrow> n < 12 \<or> 52 \<le> n"
  shows "unat (PTE_GET_ADDR (of_nat a OR w)) = a"
proof -
  have "PTE_GET_ADDR (of_nat a OR w) = of_nat a"
  proof (rule bit_word_eqI)
    fix n assume "n < LENGTH(64)"
    show "bit (PTE_GET_ADDR (of_nat a OR w)) n = bit (of_nat a :: u64) n"
      using bit_frame [OF assms(1), of n] assms(2) [of n]
      by (auto simp: PTE_GET_ADDR_def bit_and_iff bit_or_iff bit_PTE_ADDR_MASK)
  qed
  moreover have "unat (of_nat a :: u64) = a"
    using assms(1) by (simp add: frame_ok_def unsigned_of_nat take_bit_nat_eq_self)
  ultimately show ?thesis by simp
qed

lemma frame_ok_PTE_GET_ADDR: "frame_ok (unat (PTE_GET_ADDR e))"
proof -
  have "take_bit 12 (PTE_GET_ADDR e) = 0" 
    by (intro bit_word_eqI) (auto simp: PTE_GET_ADDR_def bit_simps bit_PTE_ADDR_MASK)
  then have "unat (PTE_GET_ADDR e) mod 2 ^ 12 = 0"
    using unat_take_bit [of 12 "PTE_GET_ADDR e"] by (simp add: unat_0)
  moreover have "take_bit 52 (PTE_GET_ADDR e) = PTE_GET_ADDR e"
    by (intro bit_word_eqI) (auto simp: PTE_GET_ADDR_def bit_simps bit_PTE_ADDR_MASK)
  then have "unat (PTE_GET_ADDR e) = unat (PTE_GET_ADDR e) mod 2 ^ 52"
    using unat_take_bit [of 52 "PTE_GET_ADDR e"] by simp
  then have "unat (PTE_GET_ADDR e) < 2 ^ 52"
    by (metis mod_less_divisor zero_less_numeral zero_less_power)
  ultimately show ?thesis
    by (simp add: frame_ok_def PAGE_SIZE_def mod_eq_0_iff_dvd)
qed

text \<open>The four indices of a page.\<close>

definition va_path :: "u64 \<Rightarrow> nat list" where
  "va_path v = (let a = AMD64_MM_STRIPSX v in [PML4E a, PDPTE a, PDE a, PTE a])"

lemma bit_entry_mask: "bit PGMASK_ENTRY n \<longleftrightarrow> n < 9"
proof -
  have *: "PGMASK_ENTRY = mask 9"
    by (simp add: PGMASK_ENTRY_def mask_eq_exp_minus_1)
  show ?thesis
    unfolding * by (auto simp: bit_simps)
qed

lemma index_less: "unat (drop_bit k a AND PGMASK_ENTRY) < 512" for a :: u64
proof -
  have "drop_bit k a AND PGMASK_ENTRY = take_bit 9 (drop_bit k a)"
    by (intro bit_word_eqI) (auto simp: bit_simps bit_entry_mask)
  then have "unat (drop_bit k a AND PGMASK_ENTRY) = unat (drop_bit k a) mod 2 ^ 9"
    by (simp only: unat_take_bit)
  then show ?thesis by simp
qed

lemma va_path_bounds [simp]: "length (va_path v) = 4" "set (va_path v) \<subseteq> {..<512}"
  using index_less by (auto simp: va_path_def Let_def PML4E_def PDPTE_def PDE_def PTE_def)

lemma bit_index: "bit (unat (drop_bit k a AND PGMASK_ENTRY)) n \<longleftrightarrow> n < 9 \<and> bit a (k + n)" for a :: u64
  by (auto simp: bit_unsigned_iff bit_simps bit_entry_mask dest: bit_imp_le_length)

text \<open>Two addresses have the same indices exactly when they lie in the same page, up to the bits above 47.\<close>

lemma va_path_eq: "va_path v = va_path w \<longleftrightarrow> (\<forall>n. 12 \<le> n \<and> n < 48 \<longrightarrow> bit v n = bit w n)"
proof
  have strip: "bit (AMD64_MM_STRIPSX x) n \<longleftrightarrow> n < 48 \<and> bit x n" for x n
  proof -
    have *: "(0xFFFFFFFFFFFF :: u64) = mask 48"
      by (simp add: mask_eq_exp_minus_1)
    show ?thesis
      unfolding AMD64_MM_STRIPSX_def * by (auto simp: bit_simps)
  qed
  note idx = PML4E_def PDPTE_def PDE_def PTE_def PGSHIFT_PML4E_def PGSHIFT_PDPTE_def PGSHIFT_PDE_def PGSHIFT_PTE_def
  {
    assume eq: "va_path v = va_path w"
    show "\<forall>n. 12 \<le> n \<and> n < 48 \<longrightarrow> bit v n = bit w n"
    proof (intro allI impI)
      fix n :: nat assume n: "12 \<le> n \<and> n < 48"
      have at: "bit v (k + m) = bit w (k + m)" if "m < 9" "k + m < 48" "k \<in> {39, 30, 21, 12}" for k m
      proof -
        have "unat (drop_bit k (AMD64_MM_STRIPSX v) AND PGMASK_ENTRY) = unat (drop_bit k (AMD64_MM_STRIPSX w) AND PGMASK_ENTRY)"
          using eq that(3) by (auto simp: va_path_def Let_def idx)
        then have "bit (unat (drop_bit k (AMD64_MM_STRIPSX v) AND PGMASK_ENTRY)) m = bit (unat (drop_bit k (AMD64_MM_STRIPSX w) AND PGMASK_ENTRY)) m"
          by simp
        then show ?thesis
          using that unfolding bit_index strip by simp
      qed
      consider "n < 21" | "21 \<le> n" "n < 30" | "30 \<le> n" "n < 39" | "39 \<le> n"
        by linarith
      then show "bit v n = bit w n"
        using n at [of "n - 12" 12] at [of "n - 21" 21] at [of "n - 30" 30] at [of "n - 39" 39] by cases auto
    qed
  next
    assume eq: "\<forall>n. 12 \<le> n \<and> n < 48 \<longrightarrow> bit v n = bit w n"
    have "unat (drop_bit k (AMD64_MM_STRIPSX v) AND PGMASK_ENTRY) = unat (drop_bit k (AMD64_MM_STRIPSX w) AND PGMASK_ENTRY)"
      if "12 \<le> k" for k
      using that eq by (intro bit_eqI) (auto simp: bit_index strip)
    then show "va_path v = va_path w"
      by (simp add: va_path_def Let_def idx)
  }
qed

section \<open>What paging needs of the physical memory manager\<close>

locale frame_source =
  fixes allocate :: "('s, nat) cmd"
    and release :: "nat \<Rightarrow> ('s, unit) cmd"
    and frames :: "'s \<Rightarrow> nat set"
    and free :: "'s \<Rightarrow> nat set"
    and invar :: "'s \<Rightarrow> bool"
  assumes finite_free: "finite (free s)"
    and allocate_ok: "invar s \<Longrightarrow> free s \<noteq> {} \<Longrightarrow>
      \<exists>a s'. allocate s = Inr (a, s') \<and> invar s' \<and> frame_ok a \<and> a \<in> free s \<and>
        free s' = free s - {a} \<and> frames s' = frames s"
    and release_ok: "invar s \<Longrightarrow> a \<in> frames s \<Longrightarrow> a \<noteq> 0 \<Longrightarrow>
      \<exists>s'. release a s = Inr ((), s') \<and> invar s' \<and> free s' = insert a (free s) \<and> frames s' = frames s"
begin

lemma allocate_card:
  assumes "invar s" "k < card (free s)"
  shows "\<exists>a s'. allocate s = Inr (a, s') \<and> invar s' \<and> frame_ok a \<and> a \<in> free s \<and>
    free s' = free s - {a} \<and> frames s' = frames s \<and> k \<le> card (free s')"
proof -
  have "free s \<noteq> {}"
    using assms(2) by (metis card.empty not_less_zero)
  then obtain a s' where a: "allocate s = Inr (a, s')" "invar s'" "frame_ok a" "a \<in> free s" "free s' = free s - {a}"
      "frames s' = frames s"
    using allocate_ok [OF assms(1)] by blast
  have "card (free s) = Suc (card (free s'))"
    using card.remove [OF finite_free [of s] a(4)] a(5) by simp
  with assms(2) have "k \<le> card (free s')"
    by simp
  with a show ?thesis
    by blast
qed

end

definition mm_ok :: "mm \<Rightarrow> bool" where
  "mm_ok m \<longleftrightarrow> bitmap_ok (physical m) \<and> mem_start (physical m) = 0 \<and> 0 < BitmapSizeInBlocks (physical m) \<and>
     bitmap_get (physical m) 0 \<and> BitmapSizeInBlocks (physical m) * BLOCK_SIZE \<le> 2 ^ 52"

definition mm_frames :: "mm \<Rightarrow> nat set" where
  "mm_frames m = (\<lambda>j. j * BLOCK_SIZE) ` {j. j < BitmapSizeInBlocks (physical m)}"

definition mm_free :: "mm \<Rightarrow> nat set" where
  "mm_free m = (\<lambda>j. j * BLOCK_SIZE) ` {j. j < BitmapSizeInBlocks (physical m) \<and> \<not> bitmap_get (physical m) j}"

lemma block_inj: "inj (\<lambda>j. j * BLOCK_SIZE)"
  by (simp add: inj_on_def BLOCK_SIZE_def)

lemma finite_mm_free: "finite (mm_free m)"
  by (simp add: mm_free_def)

lemma physical_allocate_one:
  assumes "mm_ok m" "mm_free m \<noteq> {}"
  shows "\<exists>a m'. physical_allocate 1 m = Inr (a, m') \<and> mm_ok m' \<and> frame_ok a \<and> a \<in> mm_free m \<and>
    mm_free m' = mm_free m - {a} \<and> mm_frames m' = mm_frames m"
proof -
  let ?b = "physical m"
  let ?F = "{j. j < BitmapSizeInBlocks ?b \<and> \<not> bitmap_get ?b j}"
  have ok: "bitmap_ok ?b" "mem_start ?b = 0" "bitmap_get ?b 0" "BitmapSizeInBlocks ?b * BLOCK_SIZE \<le> 2 ^ 52" "0 < BitmapSizeInBlocks ?b"
    using assms(1) by (simp_all add: mm_ok_def)
  obtain q where "q < BitmapSizeInBlocks ?b" "\<not> bitmap_get ?b q"
    using assms(2) by (auto simp: mm_free_def)
  then have "free_run ?b q 1"
    by (auto simp: free_run_def less_Suc_eq_le dest: antisym)
  then obtain r b' where r: "run_allocates ?b 1 r b'"
      "physical_allocate (int 1) m = (if r = 0 then Inl Halted else Inr (r * BLOCK_SIZE, m\<lparr>physical := b'\<rparr>))"
    using physical_allocate_run [OF ok(1,2), of 1] by (auto split: if_splits)
  have rr: "r < BitmapSizeInBlocks ?b" "\<not> bitmap_get ?b r"
    using r(1) by (auto simp: run_allocates_def free_run_def)
  have r0: "r \<noteq> 0"
    using rr ok(3) by metis
  have b': "bitmap_ok b'" "BitmapSizeInBlocks b' = BitmapSizeInBlocks ?b" "mem_start b' = 0"
      "\<And>j. j < BitmapSizeInBlocks ?b \<Longrightarrow> bitmap_get b' j = (bitmap_get ?b j \<or> j = r)"
    using r(1) ok(2) by (auto simp: run_allocates_def)
  have set: "{j. j < BitmapSizeInBlocks b' \<and> \<not> bitmap_get b' j} = ?F - {r}"
    using b'(2,4) rr by auto
  have "mm_free (m\<lparr>physical := b'\<rparr>) = (\<lambda>j. j * BLOCK_SIZE) ` (?F - {r})"
    unfolding mm_free_def set [symmetric] by simp
  then have "mm_free (m\<lparr>physical := b'\<rparr>) = mm_free m - {r * BLOCK_SIZE}"
    unfolding image_set_diff [OF block_inj] mm_free_def by simp
  moreover have "r * BLOCK_SIZE \<in> mm_free m"
    using rr by (auto simp: mm_free_def)
  moreover have "mm_ok (m\<lparr>physical := b'\<rparr>)"
    using b' ok by (simp add: mm_ok_def)
  moreover have "mm_frames (m\<lparr>physical := b'\<rparr>) = mm_frames m"
    using b'(2) by (simp add: mm_frames_def)
  moreover have "frame_ok (r * BLOCK_SIZE)"
  proof -
    have "r * BLOCK_SIZE < BitmapSizeInBlocks ?b * BLOCK_SIZE"
      using rr(1) by (simp add: BLOCK_SIZE_def)
    with ok(4) show ?thesis
      by (simp add: frame_ok_def PAGE_SIZE_def BLOCK_SIZE_def)
  qed
  ultimately show ?thesis
    using r(2) r0 by auto
qed

lemma physical_free_one:
  assumes "mm_ok m" "a \<in> mm_frames m" "a \<noteq> 0"
  shows "\<exists>m'. physical_free a 1 m = Inr ((), m') \<and> mm_ok m' \<and> mm_free m' = insert a (mm_free m) \<and> mm_frames m' = mm_frames m"
proof -
  let ?b = "physical m"
  have ok: "bitmap_ok ?b" "mem_start ?b = 0" "bitmap_get ?b 0" "BitmapSizeInBlocks ?b * BLOCK_SIZE \<le> 2 ^ 52" "0 < BitmapSizeInBlocks ?b"
    using assms(1) by (simp_all add: mm_ok_def)
  obtain r where r: "a = r * BLOCK_SIZE" "r < BitmapSizeInBlocks ?b"
    using assms(2) by (auto simp: mm_frames_def)
  have r0: "0 < r"
    using assms(3) r(1) by (cases r) auto
  have bound: "r + 1 \<le> BitmapSizeInBlocks ?b"
    using r(2) by simp
  obtain b' where b': "mark_region ?b (r * BLOCK_SIZE) (1 * BLOCK_SIZE) False = Inr b'" "bitmap_ok b'" "same_shape ?b b'"
    "\<And>j. j < BitmapSizeInBlocks ?b \<Longrightarrow> bitmap_get b' j = (bitmap_get ?b j \<and> \<not> (r \<le> j \<and> j < r + 1))"
    by (rule release_run [OF ok(1,2) bound zero_less_one]) (rule that)
  have run: "physical_free a 1 m = Inr ((), m\<lparr>physical := b'\<rparr>)"
    using physical_mark_run [OF refl b'(1)] r(1)
    by (simp add: physical_free_def cmd_simps int_to_size_t_def BLOCK_SIZE_def)
  have shape: "BitmapSizeInBlocks b' = BitmapSizeInBlocks ?b" "mem_start b' = 0"
    using b'(3) ok(2) by (simp_all add: same_shape_def)
  have set: "{j. j < BitmapSizeInBlocks b' \<and> \<not> bitmap_get b' j} = insert r {j. j < BitmapSizeInBlocks ?b \<and> \<not> bitmap_get ?b j}"
    using b'(4) r(2) shape by auto
  have "mm_free (m\<lparr>physical := b'\<rparr>) = (\<lambda>j. j * BLOCK_SIZE) ` insert r {j. j < BitmapSizeInBlocks ?b \<and> \<not> bitmap_get ?b j}"
    unfolding mm_free_def set [symmetric] by simp
  then have "mm_free (m\<lparr>physical := b'\<rparr>) = insert a (mm_free m)"
    unfolding image_insert mm_free_def r(1) .
  moreover have "mm_ok (m\<lparr>physical := b'\<rparr>)"
    using b' ok shape r0 by (simp add: mm_ok_def)
  moreover have "mm_frames (m\<lparr>physical := b'\<rparr>) = mm_frames m"
    using shape by (simp add: mm_frames_def)
  ultimately show ?thesis
    using run by auto
qed

interpretation frames: frame_source "physical_allocate 1" "\<lambda>a. physical_free a 1" mm_frames mm_free mm_ok
  by unfold_locales (use finite_mm_free physical_allocate_one physical_free_one in blast)+

end
