(* ===== verification/Page_Tables.thy ===== *)
theory Page_Tables
  imports Paging
begin

text \<open>
  The page tables as a tree: what a path of indices leads to, the invariant that the tables of the managed part of the
  address space are distinct frames that are not free, and what adding a table or writing an entry does to the
  mappings. The frames come through the interface \<open>frame_source\<close> of the physical memory manager.
\<close>

section \<open>The tree of tables\<close>

text \<open>
  \<open>node m f p\<close> follows the indices \<open>p\<close> from the table \<open>f\<close>: three indices lead to a page table, four to the
  page that is mapped. \<open>managed U p\<close> restricts paths to the top-level entries \<open>U\<close>, the part of the address
  space the kernel manages itself; the boot loader's window on physical memory lies outside.
\<close>

fun node :: "(nat \<Rightarrow> nat \<Rightarrow> u64) \<Rightarrow> nat \<Rightarrow> nat list \<Rightarrow> nat option" where
  "node m f [] = Some f"
| "node m f (i # is) = (if m f i AND PF_PRESENT = 0 then None else node m (unat (PTE_GET_ADDR (m f i))) is)"

definition managed :: "nat set \<Rightarrow> nat list \<Rightarrow> bool" where
  "managed U p \<longleftrightarrow> set p \<subseteq> {..<512} \<and> (p \<noteq> [] \<longrightarrow> hd p \<in> U)"

definition tables_ok :: "nat set \<Rightarrow> (nat \<Rightarrow> nat \<Rightarrow> u64) \<Rightarrow> nat \<Rightarrow> nat set \<Rightarrow> bool" where
  "tables_ok U m pd F \<longleftrightarrow>
     (\<forall>p q f. managed U p \<and> managed U q \<and> length p \<le> 3 \<and> length q \<le> 3 \<and> node m pd p = Some f \<and> node m pd q = Some f \<longrightarrow> p = q) \<and>
     (\<forall>p f. managed U p \<and> length p \<le> 4 \<and> node m pd p = Some f \<longrightarrow> f \<notin> F) \<and>
     (\<forall>p q f. managed U p \<and> managed U q \<and> length p = 4 \<and> length q \<le> 3 \<and> node m pd p = Some f \<longrightarrow> node m pd q \<noteq> Some f)"

lemma tables_okD:
  assumes "tables_ok U m pd F"
  shows "managed U p \<Longrightarrow> managed U q \<Longrightarrow> length p \<le> 3 \<Longrightarrow> length q \<le> 3 \<Longrightarrow> node m pd p = Some f \<Longrightarrow> node m pd q = Some f \<Longrightarrow> p = q"
    "managed U p \<Longrightarrow> length p \<le> 4 \<Longrightarrow> node m pd p = Some f \<Longrightarrow> f \<notin> F"
    "managed U p \<Longrightarrow> managed U q \<Longrightarrow> length p = 4 \<Longrightarrow> length q \<le> 3 \<Longrightarrow> node m pd p = Some f \<Longrightarrow> node m pd q \<noteq> Some f"
  using assms unfolding tables_ok_def by blast+

lemma tables_ok_cong:
  assumes "tables_ok U m pd F" "\<And>q. managed U q \<Longrightarrow> length q \<le> 4 \<Longrightarrow> node m' pd q = node m pd q" "F' \<subseteq> F"
  shows "tables_ok U m' pd F'"
  unfolding tables_ok_def
proof (intro conjI allI impI; elim conjE)
  fix p q f assume "managed U p" "managed U q" "length p \<le> 3" "length q \<le> 3" "node m' pd p = Some f" "node m' pd q = Some f"
  then show "p = q"
    using assms(2) [of p] assms(2) [of q] tables_okD(1) [OF assms(1), of p q f] by simp
next
  fix p f assume "managed U p" "length p \<le> 4" "node m' pd p = Some f"
  then show "f \<notin> F'"
    using assms(2) [of p] tables_okD(2) [OF assms(1), of p f] assms(3) by auto
next
  fix p q f assume "managed U p" "managed U q" "length p = 4" "length q \<le> 3" "node m' pd p = Some f"
  then show "node m' pd q \<noteq> Some f"
    using assms(2) [of p] assms(2) [of q] tables_okD(3) [OF assms(1), of p q f] by simp
qed

lemma node_append: "node m f (p @ q) = Option.bind (node m f p) (\<lambda>g. node m g q)"
  by (induction p arbitrary: f) auto

lemma node_snoc:
  "node m f (p @ [i]) = Option.bind (node m f p) (\<lambda>g. if m g i AND PF_PRESENT = 0 then None else Some (unat (PTE_GET_ADDR (m g i))))"
  unfolding node_append by (cases "node m f p") auto

lemma managed_snoc: "managed U (p @ [i]) \<Longrightarrow> managed U p"
  by (auto simp: managed_def hd_append split: if_splits)

lemma managed_app: "managed U (p @ q) \<Longrightarrow> managed U p"
  by (auto simp: managed_def hd_append split: if_splits)

text \<open>Changing memory that holds no table changes no path.\<close>

lemma node_other:
  assumes "tables_ok U m pd F" "\<And>f. f \<notin> F \<Longrightarrow> m' f = m f"
  shows "managed U q \<Longrightarrow> length q \<le> 4 \<Longrightarrow> node m' pd q = node m pd q"
proof (induction q rule: rev_induct)
  case Nil
  then show ?case by simp
next
  case (snoc i r)
  then have r: "managed U r" "length r \<le> 4" and eq: "node m' pd r = node m pd r"
    using managed_snoc [of U r i] by auto
  have "m' g = m g" if "node m pd r = Some g" for g
    using assms(2) tables_okD(2) [OF assms(1) r that] by blast
  with eq show ?case
    by (cases "node m pd r") (auto simp: node_snoc)
qed

text \<open>Writing one entry of a table changes the paths through that entry only.\<close>

lemma node_write:
  assumes "tables_ok U m pd F" "node m pd p = Some f" "managed U p" "length p \<le> 3"
    "\<And>g j. (g, j) \<noteq> (f, i) \<Longrightarrow> m' g j = m g j"
  shows "managed U q \<Longrightarrow> length q \<le> 4 \<Longrightarrow> \<nexists>r. q = p @ i # r \<Longrightarrow> node m' pd q = node m pd q"
proof (induction q rule: rev_induct)
  case Nil
  then show ?case by simp
next
  case (snoc j r)
  have r: "managed U r" "length r \<le> 3"
    using managed_snoc [OF snoc.prems(1)] snoc.prems(2) by auto
  have "\<nexists>x. r = p @ i # x"
    using snoc.prems(3) by auto
  then have eq: "node m' pd r = node m pd r"
    by (intro snoc.IH r(1) le_trans [OF r(2)]) simp_all
  have "m' g j = m g j" if g: "node m pd r = Some g" for g
  proof (rule assms(5))
    have "r = p" if "g = f"
      using tables_okD(1) [OF assms(1) r(1) assms(3) r(2) assms(4)] g assms(2) that by blast
    then show "(g, j) \<noteq> (f, i)"
      using snoc.prems(3) by auto
  qed
  with eq show ?case
    unfolding node_snoc by (cases "node m pd r") simp_all
qed

lemma node_written:
  assumes "tables_ok U m pd F" "node m pd p = Some f" "managed U p" "length p \<le> 3"
    "\<And>g j. (g, j) \<noteq> (f, i) \<Longrightarrow> m' g j = m g j"
  shows "node m' pd (p @ i # r) =
    (if m' f i AND PF_PRESENT = 0 then None else node m' (unat (PTE_GET_ADDR (m' f i))) r)"
proof -
  have "node m' pd p = Some f"
    using node_write [OF assms assms(3)] assms(2,4) by simp
  then show ?thesis
    by (simp add: node_append)
qed

text \<open>Linking a fresh zeroed table at an empty entry.\<close>

lemma node_link:
  assumes ok: "tables_ok U m pd F" and p: "node m pd p = Some f" "managed U p" "length p \<le> 2"
    and e: "m f i AND PF_PRESENT = 0" "i < 512" "p = [] \<Longrightarrow> i \<in> U"
    and g: "g \<in> F" "unat (PTE_GET_ADDR w) = g" "w AND PF_PRESENT \<noteq> 0"
    and m': "m' f i = w" "\<And>h j. h \<noteq> g \<Longrightarrow> (h, j) \<noteq> (f, i) \<Longrightarrow> m' h j = m h j" "\<And>j. (g, j) \<noteq> (f, i) \<Longrightarrow> m' g j = 0"
  shows "managed U q \<Longrightarrow> length q \<le> 4 \<Longrightarrow> node m' pd q = (if q = p @ [i] then Some g else node m pd q)"
    and "tables_ok U m' pd (F - {g})"
proof -
  define m1 where "m1 = (\<lambda>h j. if h = g then 0 else m h j)"
  have gf: "f \<noteq> g"
    using tables_okD(2) [OF ok p(2) _ p(1)] p(3) g(1) by auto
  have same: "node m1 pd q = node m pd q" if "managed U q" "length q \<le> 4" for q
    by (rule node_other [OF ok _ that]) (use g(1) in \<open>auto simp: m1_def\<close>)
  have ok': "tables_ok U m1 pd F"
    by (rule tables_ok_cong [OF ok same]) auto
  have step: "m' h j = m1 h j" if "(h, j) \<noteq> (f, i)" for h j
    using m'(2,3) that by (auto simp: m1_def)
  have node': "node m' pd q = (if q = p @ [i] then Some g else node m pd q)" if q: "managed U q" "length q \<le> 4" for q
  proof (cases "\<exists>r. q = p @ i # r")
    case True
    then obtain r where r: "q = p @ i # r" by blast
    have "node m1 pd p = Some f"
      using same [OF p(2)] p(1,3) by simp
    moreover have "length p \<le> 3"
      using p(3) by simp
    ultimately have "node m' pd (p @ i # r) = (if m' f i AND PF_PRESENT = 0 then None else node m' (unat (PTE_GET_ADDR (m' f i))) r)"
      by (rule node_written [OF ok' _ p(2)]) (rule step)
    then have "node m' pd q = node m' g r"
      using g(2,3) unfolding m'(1) r by simp
    moreover have "node m' g r = (if r = [] then Some g else None)"
      using gf m'(3) by (cases r) auto
    moreover have "node m pd q = None"
      using p(1) e(1) by (simp add: r node_append)
    ultimately show ?thesis
      using r by auto
  next
    case False
    have "node m1 pd p = Some f"
      using same [OF p(2)] p(1,3) by simp
    from node_write [OF ok' this p(2) _ step q] False p(3) show ?thesis
      using same [OF q] by auto
  qed
  then show "managed U q \<Longrightarrow> length q \<le> 4 \<Longrightarrow> node m' pd q = (if q = p @ [i] then Some g else node m pd q)" .
  have fresh: "node m pd q \<noteq> Some g" if "managed U q" "length q \<le> 4" for q
    using tables_okD(2) [OF ok that] g(1) by blast
  show "tables_ok U m' pd (F - {g})"
    unfolding tables_ok_def
  proof (intro conjI allI impI; elim conjE)
    fix q r h assume "managed U q" "managed U r" "length q \<le> 3" "length r \<le> 3" "node m' pd q = Some h" "node m' pd r = Some h"
    then show "q = r"
      using node' [of q] node' [of r] fresh [of q] fresh [of r] tables_okD(1) [OF ok, of q r h]
      by (auto split: if_splits)
  next
    fix q h assume "managed U q" "length q \<le> 4" "node m' pd q = Some h"
    then show "h \<notin> F - {g}"
      using node' [of q] tables_okD(2) [OF ok, of q h] by (auto split: if_splits)
  next
    fix q r h assume "managed U q" "managed U r" "length q = 4" "length r \<le> 3" "node m' pd q = Some h"
    then show "node m' pd r \<noteq> Some h"
      using node' [of q] node' [of r] fresh [of q] tables_okD(3) [OF ok, of q r h] p(3)
      by (auto split: if_splits)
  qed
qed

section \<open>Mapping a page\<close>

definition pg_ok :: "nat set \<Rightarrow> nat \<Rightarrow> pg_sys \<Rightarrow> bool" where
  "pg_ok U pd s \<longleftrightarrow> mm_ok (pg_mm s) \<and> tables_ok U (page_mem s) pd (mm_free (pg_mm s))"

definition is_table :: "nat set \<Rightarrow> nat \<Rightarrow> pg_sys \<Rightarrow> nat \<Rightarrow> bool" where
  "is_table U pd s f \<longleftrightarrow> (\<exists>q. managed U q \<and> length q \<le> 3 \<and> node (page_mem s) pd q = Some f)"

text \<open>
  \<open>pg_grow U pd s s'\<close>: tables were added, from free frames; every mapping and the contents of every page that
  is neither free nor a table are as before.
\<close>

definition pg_grow :: "nat set \<Rightarrow> nat \<Rightarrow> pg_sys \<Rightarrow> pg_sys \<Rightarrow> bool" where
  "pg_grow U pd s s' \<longleftrightarrow>
     pg_ok U pd s' \<and> mm_frames (pg_mm s') = mm_frames (pg_mm s) \<and> mm_free (pg_mm s') \<subseteq> mm_free (pg_mm s) \<and>
     s' = s\<lparr>pg_mm := pg_mm s', page_mem := page_mem s'\<rparr> \<and>
     (\<forall>q. managed U q \<and> length q = 4 \<longrightarrow> node (page_mem s') pd q = node (page_mem s) pd q) \<and>
     (\<forall>q. managed U q \<and> length q \<le> 3 \<longrightarrow> node (page_mem s') pd q = node (page_mem s) pd q \<or>
        node (page_mem s) pd q = None \<and> (\<exists>x \<in> mm_free (pg_mm s). node (page_mem s') pd q = Some x)) \<and>
     (\<forall>f. f \<notin> mm_free (pg_mm s) \<and> \<not> is_table U pd s f \<longrightarrow> page_mem s' f = page_mem s f)"

lemma pg_grow_refl: "pg_ok U pd s \<Longrightarrow> pg_grow U pd s s"
  by (simp add: pg_grow_def)

lemma pg_growD:
  assumes "pg_grow U pd s s'"
  shows "pg_ok U pd s'" "mm_frames (pg_mm s') = mm_frames (pg_mm s)" "mm_free (pg_mm s') \<subseteq> mm_free (pg_mm s)"
    "s' = s\<lparr>pg_mm := pg_mm s', page_mem := page_mem s'\<rparr>"
    "managed U q \<Longrightarrow> length q = 4 \<Longrightarrow> node (page_mem s') pd q = node (page_mem s) pd q"
    "managed U q \<Longrightarrow> length q \<le> 3 \<Longrightarrow> node (page_mem s') pd q = node (page_mem s) pd q \<or>
        node (page_mem s) pd q = None \<and> (\<exists>x \<in> mm_free (pg_mm s). node (page_mem s') pd q = Some x)"
    "f \<notin> mm_free (pg_mm s) \<Longrightarrow> \<not> is_table U pd s f \<Longrightarrow> page_mem s' f = page_mem s f"
  using assms unfolding pg_grow_def by blast+

lemma is_table_grow:
  assumes "pg_grow U pd s s'" "is_table U pd s' f" "f \<notin> mm_free (pg_mm s)"
  shows "is_table U pd s f"
proof -
  obtain q where q: "managed U q" "length q \<le> 3" "node (page_mem s') pd q = Some f"
    using assms(2) by (auto simp: is_table_def)
  with pg_growD(6) [OF assms(1) q(1,2)] assms(3) have "node (page_mem s) pd q = Some f"
    by auto
  with q show ?thesis
    by (auto simp: is_table_def)
qed

lemma pg_grow_trans:
  assumes "pg_grow U pd s s'" "pg_grow U pd s' s''"
  shows "pg_grow U pd s s''"
  unfolding pg_grow_def
proof (intro conjI allI impI)
  show "pg_ok U pd s''" "mm_frames (pg_mm s'') = mm_frames (pg_mm s)" "mm_free (pg_mm s'') \<subseteq> mm_free (pg_mm s)"
    using pg_growD(1-3) [OF assms(1)] pg_growD(1-3) [OF assms(2)] by auto
  show "s'' = s\<lparr>pg_mm := pg_mm s'', page_mem := page_mem s''\<rparr>"
    using pg_growD(4) [OF assms(1)] pg_growD(4) [OF assms(2)] by (cases s, cases s', cases s'') auto
next
  fix q assume q: "managed U q \<and> length q = 4"
  then show "node (page_mem s'') pd q = node (page_mem s) pd q"
    using pg_growD(5) [OF assms(1)] pg_growD(5) [OF assms(2)] by auto
next
  fix q assume q: "managed U q \<and> length q \<le> 3"
  then show "node (page_mem s'') pd q = node (page_mem s) pd q \<or>
        node (page_mem s) pd q = None \<and> (\<exists>x \<in> mm_free (pg_mm s). node (page_mem s'') pd q = Some x)"
    using pg_growD(6) [OF assms(1), of q] pg_growD(6) [OF assms(2), of q] pg_growD(3) [OF assms(1)]
    by (elim disjE conjE bexE) auto
next
  fix f assume f: "f \<notin> mm_free (pg_mm s) \<and> \<not> is_table U pd s f"
  then have "f \<notin> mm_free (pg_mm s')" "\<not> is_table U pd s' f"
    using pg_growD(3) [OF assms(1)] is_table_grow [OF assms(1), of f] by auto
  with f show "page_mem s'' f = page_mem s f"
    using pg_growD(7) [OF assms(1), of f] pg_growD(7) [OF assms(2), of f] by simp
qed

lemma ensure_table_run:
  assumes ok: "pg_ok U pd s" and p: "node (page_mem s) pd p = Some f" "managed U (p @ [i])" "length p \<le> 2"
    and k: "k < card (mm_free (pg_mm s))"
  shows "\<exists>s' t. ensure_table f i s = Inr (t, s') \<and> pg_grow U pd s s' \<and> node (page_mem s') pd (p @ [i]) = Some t \<and>
    k \<le> card (mm_free (pg_mm s'))"
proof (cases "page_mem s f i AND PF_PRESENT = 0")
  case False
  then have "ensure_table f i s = Inr (unat (PTE_GET_ADDR (page_mem s f i)), s)"
    by (simp add: ensure_table_def rdw_def cmd_simps)
  moreover have "node (page_mem s) pd (p @ [i]) = Some (unat (PTE_GET_ADDR (page_mem s f i)))"
    using p(1) False by (simp add: node_snoc)
  ultimately show ?thesis
    using pg_grow_refl [OF ok] k by (intro exI conjI) auto
next
  case True
  have mm: "mm_ok (pg_mm s)" and tb: "tables_ok U (page_mem s) pd (mm_free (pg_mm s))"
    using ok by (simp_all add: pg_ok_def)
  obtain g m where g: "physical_allocate 1 (pg_mm s) = Inr (g, m)" "mm_ok m" "frame_ok g" "g \<in> mm_free (pg_mm s)"
      "mm_free m = mm_free (pg_mm s) - {g}" "mm_frames m = mm_frames (pg_mm s)" "k \<le> card (mm_free m)"
    using frames.allocate_card [OF mm k] by blast
  define w where "w = (of_nat g OR PF_PRESENT OR PF_RW OR PF_USER :: u64)"
  define m' where "m' = ((page_mem s)(g := \<lambda>_. 0))(f := (((page_mem s)(g := \<lambda>_. 0)) f)(i := w))"
  define s' where "s' = s\<lparr>pg_mm := m, page_mem := m'\<rparr>"
  have w: "unat (PTE_GET_ADDR w) = g" "w AND PF_PRESENT \<noteq> 0"
  proof -
    show "unat (PTE_GET_ADDR w) = g"
      unfolding w_def by (rule PTE_GET_ADDR_frame [OF g(3)]) (auto simp: bit_or_iff)
    have "bit w 0"
      by (simp add: w_def bit_or_iff)
    then show "w AND PF_PRESENT \<noteq> 0"
      using present_bit [of w] by simp
  qed
  have pm: "managed U p"
    by (rule managed_snoc [OF p(2)])
  have fg: "f \<noteq> g"
    using tables_okD(2) [OF tb pm _ p(1)] p(3) g(4) by auto
  have m'f: "m' f i = w"
    by (simp add: m'_def)
  have m'o: "m' h j = page_mem s h j" if "h \<noteq> g" "(h, j) \<noteq> (f, i)" for h j
    using that by (auto simp: m'_def)
  have m'g: "m' g j = 0" if "(g, j) \<noteq> (f, i)" for j
    using fg by (auto simp: m'_def)
  have i: "i < 512" "p = [] \<Longrightarrow> i \<in> U"
    using p(2) by (auto simp: managed_def)
  have lk1: "node m' pd q = (if q = p @ [i] then Some g else node (page_mem s) pd q)" if "managed U q" "length q \<le> 4" for q
    by (rule node_link(1) [where m' = m', OF tb p(1) pm p(3) True i(1) _ g(4) w m'f _ _ that]) (use i(2) m'o m'g in auto)
  have lk2: "tables_ok U m' pd (mm_free (pg_mm s) - {g})"
    by (rule node_link(2) [where m' = m', OF tb p(1) pm p(3) True i(1) _ g(4) w m'f]) (use i(2) m'o m'g in auto)
  have run: "ensure_table f i s = Inr (g, s')"
    using True g(1) w(1)
    by (simp add: ensure_table_def rdw_def wrw_def cmd_simps paging_physical_allocate_def in_mm_def s'_def m'_def w_def)
  have "pg_ok U pd s'"
    using lk2 g(2,5) by (simp add: pg_ok_def s'_def)
  moreover have "node (page_mem s') pd q = node (page_mem s) pd q" if "managed U q" "length q = 4" for q
    using lk1 [of q] that p(3) by (auto simp: s'_def)
  moreover have "node (page_mem s') pd q = node (page_mem s) pd q \<or>
      node (page_mem s) pd q = None \<and> (\<exists>x \<in> mm_free (pg_mm s). node (page_mem s') pd q = Some x)" if "managed U q" "length q \<le> 3" for q
  proof (cases "q = p @ [i]")
    case True
    have "node (page_mem s) pd q = None"
      using p(1) \<open>page_mem s f i AND PF_PRESENT = 0\<close> by (simp add: True node_snoc)
    moreover have "node (page_mem s') pd q = Some g"
      using lk1 [of q] that True by (simp add: s'_def)
    ultimately show ?thesis
      using g(4) by blast
  next
    case False
    with lk1 [of q] that show ?thesis
      by (simp add: s'_def)
  qed
  moreover have "page_mem s' h = page_mem s h" if "h \<notin> mm_free (pg_mm s)" "\<not> is_table U pd s h" for h
  proof -
    have "h \<noteq> g" "h \<noteq> f"
      using that g(4) p(1,3) pm by (auto simp: is_table_def)
    then show ?thesis
      by (simp add: s'_def m'_def)
  qed
  ultimately have "pg_grow U pd s s'"
    using g(5,6) unfolding pg_grow_def by (auto simp: s'_def)
  moreover have "node (page_mem s') pd (p @ [i]) = Some g"
    using lk1 [OF p(2)] p(3) by (simp add: s'_def)
  ultimately show ?thesis
    using run g(7) by (intro exI [of _ s'] exI [of _ g]) (simp add: s'_def)
qed

lemma leaf_write:
  assumes ok: "tables_ok U m pd F" and p: "node m pd p = Some f" "managed U (p @ [i])" "length p = 3"
    and m': "m' f i = e" "\<And>g j. (g, j) \<noteq> (f, i) \<Longrightarrow> m' g j = m g j"
    and e: "e AND PF_PRESENT \<noteq> 0" "unat (PTE_GET_ADDR e) = b"
    and b: "b \<notin> F'" "\<And>q. managed U q \<Longrightarrow> length q \<le> 3 \<Longrightarrow> node m pd q \<noteq> Some b"
    and F': "\<And>q h. managed U q \<Longrightarrow> length q \<le> 4 \<Longrightarrow> q \<noteq> p @ [i] \<Longrightarrow> node m pd q = Some h \<Longrightarrow> h \<notin> F'"
  shows "managed U q \<Longrightarrow> length q \<le> 4 \<Longrightarrow> node m' pd q = (if q = p @ [i] then Some b else node m pd q)"
    and "tables_ok U m' pd F'"
proof -
  have pm: "managed U p" and len: "length p \<le> 3"
    using managed_snoc [OF p(2)] p(3) by auto
  have node': "node m' pd q = (if q = p @ [i] then Some b else node m pd q)" if q: "managed U q" "length q \<le> 4" for q
  proof (cases "q = p @ [i]")
    case True
    have "node m' pd (p @ i # []) = (if m' f i AND PF_PRESENT = 0 then None else node m' (unat (PTE_GET_ADDR (m' f i))) [])"
      by (rule node_written [OF ok p(1) pm len]) (rule m'(2))
    with True e m'(1) show ?thesis
      by simp
  next
    case False
    then have "\<nexists>r. q = p @ i # r"
      using q(2) p(3) by (auto simp: length_Suc_conv)
    then have "node m' pd q = node m pd q"
      by (intro node_write [OF ok p(1) pm len _ q]) (rule m'(2))
    with False show ?thesis
      by simp
  qed
  then show "managed U q \<Longrightarrow> length q \<le> 4 \<Longrightarrow> node m' pd q = (if q = p @ [i] then Some b else node m pd q)" .
  have short: "node m' pd q = node m pd q" if "managed U q" "length q \<le> 3" for q
    using node' [of q] that p(3) by auto
  show "tables_ok U m' pd F'"
    unfolding tables_ok_def
  proof (intro conjI allI impI; elim conjE)
    fix q r h assume "managed U q" "managed U r" "length q \<le> 3" "length r \<le> 3" "node m' pd q = Some h" "node m' pd r = Some h"
    then show "q = r"
      using short [of q] short [of r] tables_okD(1) [OF ok, of q r h] by simp
  next
    fix q h assume "managed U q" "length q \<le> 4" "node m' pd q = Some h"
    then show "h \<notin> F'"
      using node' [of q] F' [of q h] b(1) by (auto split: if_splits)
  next
    fix q r h assume "managed U q" "managed U r" "length q = 4" "length r \<le> 3" "node m' pd q = Some h"
    then show "node m' pd r \<noteq> Some h"
      using node' [of q] short [of r] b(2) [of r] tables_okD(3) [OF ok, of q r h] by (auto split: if_splits)
  qed
qed

text \<open>
  When a page may be mapped: its frame is neither free nor a table, and the frame it replaces, if any, is one the
  memory manager can take back because nothing else maps it.
\<close>

definition can_map :: "nat set \<Rightarrow> nat \<Rightarrow> pg_sys \<Rightarrow> nat list \<Rightarrow> nat \<Rightarrow> bool" where
  "can_map U pd s p b \<longleftrightarrow> b \<notin> mm_free (pg_mm s) \<and> \<not> is_table U pd s b \<and>
     (\<forall>a. node (page_mem s) pd p = Some a \<longrightarrow> a \<in> mm_frames (pg_mm s) \<and> a \<noteq> 0 \<and> a \<noteq> b \<and>
        (\<forall>q. managed U q \<and> length q = 4 \<and> q \<noteq> p \<longrightarrow> node (page_mem s) pd q \<noteq> Some a))"

definition mapped :: "nat set \<Rightarrow> nat \<Rightarrow> pg_sys \<Rightarrow> nat list \<Rightarrow> nat \<Rightarrow> pg_sys \<Rightarrow> bool" where
  "mapped U pd s p b s' \<longleftrightarrow> pg_ok U pd s' \<and> mm_frames (pg_mm s') = mm_frames (pg_mm s) \<and>
     mm_free (pg_mm s') \<subseteq> mm_free (pg_mm s) \<union> {a. node (page_mem s) pd p = Some a} \<and>
     s' = s\<lparr>pg_mm := pg_mm s', page_mem := page_mem s'\<rparr> \<and>
     (\<forall>q. managed U q \<and> length q = 4 \<longrightarrow> node (page_mem s') pd q = (if q = p then Some b else node (page_mem s) pd q)) \<and>
     (\<forall>f. is_table U pd s' f \<longrightarrow> is_table U pd s f \<or> f \<in> mm_free (pg_mm s)) \<and>
     (\<forall>f. f \<notin> mm_free (pg_mm s) \<and> \<not> is_table U pd s f \<longrightarrow> page_mem s' f = page_mem s f)"

lemma bit_P_PHYS_ADDR: "bit (P_PHYS_ADDR x) n \<longleftrightarrow> bit x n \<and> 12 \<le> n"
  unfolding P_PHYS_ADDR_def bit_and_iff bit_not_iff bit_low12 by (auto dest: bit_imp_le_length)

lemma PTE_GET_ADDR_entry:
  assumes "flags AND PTE_ADDR_MASK = 0"
  shows "PTE_GET_ADDR (P_PHYS_ADDR phys OR PF_PRESENT OR flags) = PTE_GET_ADDR phys"
proof (rule bit_word_eqI)
  fix n assume "n < LENGTH(64)"
  have "\<not> (bit flags n \<and> bit PTE_ADDR_MASK n)"
    using assms by (metis bit_and_iff bit_0_eq bot_apply bot_bool_def)
  then show "bit (PTE_GET_ADDR (P_PHYS_ADDR phys OR PF_PRESENT OR flags)) n = bit (PTE_GET_ADDR phys) n"
    by (auto simp: PTE_GET_ADDR_def bit_P_PHYS_ADDR bit_and_iff bit_or_iff bit_PTE_ADDR_MASK)
qed

lemma leaf_step:
  assumes ok: "pg_ok U pd s" and p: "node (page_mem s) pd p = Some f" "managed U (p @ [i])" "length p = 3"
    and cm: "can_map U pd s (p @ [i]) (unat (PTE_GET_ADDR phys))" and fl: "flags AND PTE_ADDR_MASK = 0"
  shows "\<exists>s'. bnd (rdw f i) (\<lambda>e.
      andthen (if e AND PF_PRESENT \<noteq> 0 then in_mm (physical_free (unat (PTE_GET_ADDR e)) 1) else ret ())
        (wrw f i (P_PHYS_ADDR phys OR PF_PRESENT OR flags))) s = Inr ((), s') \<and>
    mapped U pd s (p @ [i]) (unat (PTE_GET_ADDR phys)) s' \<and> card (mm_free (pg_mm s)) \<le> card (mm_free (pg_mm s'))"
proof -
  let ?b = "unat (PTE_GET_ADDR phys)" and ?w = "P_PHYS_ADDR phys OR PF_PRESENT OR flags" and ?F = "mm_free (pg_mm s)"
  define m' where "m' = (page_mem s)(f := (page_mem s f)(i := ?w))"
  have mm: "mm_ok (pg_mm s)" and tb: "tables_ok U (page_mem s) pd ?F"
    using ok by (simp_all add: pg_ok_def)
  have w: "?w AND PF_PRESENT \<noteq> 0" "unat (PTE_GET_ADDR ?w) = ?b"
    using present_bit [of ?w] by (simp_all add: bit_or_iff PTE_GET_ADDR_entry [OF fl])
  have b: "?b \<notin> ?F" "\<And>q. managed U q \<Longrightarrow> length q \<le> 3 \<Longrightarrow> node (page_mem s) pd q \<noteq> Some ?b"
    using cm by (auto simp: can_map_def is_table_def)
  have entry: "node (page_mem s) pd (p @ [i]) = (if page_mem s f i AND PF_PRESENT = 0 then None else Some (unat (PTE_GET_ADDR (page_mem s f i))))"
    using p(1) by (simp add: node_snoc)
  obtain m where m: "(if page_mem s f i AND PF_PRESENT \<noteq> 0 then in_mm (physical_free (unat (PTE_GET_ADDR (page_mem s f i))) 1) else ret ()) s
        = Inr ((), s\<lparr>pg_mm := m\<rparr>)" "mm_ok m" "mm_frames m = mm_frames (pg_mm s)"
      "mm_free m = ?F \<union> {a. node (page_mem s) pd (p @ [i]) = Some a}"
  proof (cases "page_mem s f i AND PF_PRESENT = 0")
    case True
    then show ?thesis
      using that [of "pg_mm s"] mm entry by (simp add: cmd_simps)
  next
    case False
    let ?a = "unat (PTE_GET_ADDR (page_mem s f i))"
    have "?a \<in> mm_frames (pg_mm s)" "?a \<noteq> 0"
      using cm False entry by (auto simp: can_map_def)
    from frames.release_ok [OF mm this] obtain m where "physical_free ?a 1 (pg_mm s) = Inr ((), m)" "mm_ok m"
        "mm_free m = insert ?a ?F" "mm_frames m = mm_frames (pg_mm s)"
      by blast
    then show ?thesis
      using that [of m] False entry by (simp add: in_mm_def)
  qed
  define s' where "s' = s\<lparr>pg_mm := m, page_mem := m'\<rparr>"
  have m'f: "m' f i = ?w" and m'o: "\<And>g j. (g, j) \<noteq> (f, i) \<Longrightarrow> m' g j = page_mem s g j"
    by (auto simp: m'_def)
  have bF: "?b \<notin> mm_free m"
    using b(1) cm m(4) by (auto simp: can_map_def)
  have F': "h \<notin> mm_free m" if q: "managed U q" "length q \<le> 4" "q \<noteq> p @ [i]" "node (page_mem s) pd q = Some h" for q h
  proof -
    have "node (page_mem s) pd (p @ [i]) \<noteq> Some h"
    proof (cases "length q = 4")
      case True
      then show ?thesis
        using cm q by (auto simp: can_map_def)
    next
      case False
      then have "length q \<le> 3"
        using q(2) by simp
      then show ?thesis
        using tables_okD(3) [OF tb p(2) q(1), of h] p(3) q(4) by auto
    qed
    with tables_okD(2) [OF tb q(1,2,4)] m(4) show ?thesis
      by simp
  qed
  have lw1: "node m' pd q = (if q = p @ [i] then Some ?b else node (page_mem s) pd q)" if "managed U q" "length q \<le> 4" for q
    by (rule leaf_write(1) [OF tb p _ m'o w bF b(2) F' that]) (use m'f in auto)
  have lw2: "tables_ok U m' pd (mm_free m)"
    by (rule leaf_write(2) [OF tb p _ m'o w bF b(2) F']) (use m'f in auto)
  have "is_table U pd s h" if t: "is_table U pd s' h" for h
  proof -
    obtain q where q: "managed U q" "length q \<le> 3" "node m' pd q = Some h"
      using t by (auto simp: is_table_def s'_def)
    then have "q \<noteq> p @ [i]"
      using p(3) by auto
    with q lw1 [of q] show ?thesis
      by (auto simp: is_table_def)
  qed
  moreover have "page_mem s' h = page_mem s h" if "\<not> is_table U pd s h" for h
    using that p managed_snoc [OF p(2)] by (auto simp: s'_def m'_def is_table_def)
  ultimately have "mapped U pd s (p @ [i]) ?b s'"
    using lw1 lw2 m(2,3,4) unfolding mapped_def pg_ok_def by (auto simp: s'_def)
  moreover have "card ?F \<le> card (mm_free (pg_mm s'))"
    using m(4) finite_mm_free [of m] by (intro card_mono) (auto simp: s'_def)
  moreover have "bnd (rdw f i) (\<lambda>e.
      andthen (if e AND PF_PRESENT \<noteq> 0 then in_mm (physical_free (unat (PTE_GET_ADDR e)) 1) else ret ())
        (wrw f i ?w)) s = Inr ((), s')"
    using m(1) by (simp add: bnd_run andthen_run rdw_def gets_run wrw_def modify_run s'_def m'_def)
  ultimately show ?thesis
    by blast
qed


lemma mapped_grow:
  assumes "pg_grow U pd s s1" "mapped U pd s1 p b s'" "managed U p" "length p = 4"
  shows "mapped U pd s p b s'"
  unfolding mapped_def
proof (intro conjI allI impI)
  note g = pg_growD [OF assms(1)]
  have m: "pg_ok U pd s'" "mm_frames (pg_mm s') = mm_frames (pg_mm s1)"
    "mm_free (pg_mm s') \<subseteq> mm_free (pg_mm s1) \<union> {a. node (page_mem s1) pd p = Some a}"
    "s' = s1\<lparr>pg_mm := pg_mm s', page_mem := page_mem s'\<rparr>"
    using assms(2) by (simp_all add: mapped_def)
  show "pg_ok U pd s'" "mm_frames (pg_mm s') = mm_frames (pg_mm s)"
    using m(1,2) g(2) by simp_all
  show "mm_free (pg_mm s') \<subseteq> mm_free (pg_mm s) \<union> {a. node (page_mem s) pd p = Some a}"
    using m(3) g(3) g(5) [OF assms(3,4)] by auto
  show "s' = s\<lparr>pg_mm := pg_mm s', page_mem := page_mem s'\<rparr>"
    using m(4) g(4) by (cases s, cases s1, cases s') auto
next
  fix q assume "managed U q \<and> length q = 4"
  then show "node (page_mem s') pd q = (if q = p then Some b else node (page_mem s) pd q)"
    using assms(2) pg_growD(5) [OF assms(1), of q] by (simp add: mapped_def)
next
  fix f assume "is_table U pd s' f"
  then have "is_table U pd s1 f \<or> f \<in> mm_free (pg_mm s1)"
    using assms(2) by (auto simp: mapped_def)
  then show "is_table U pd s f \<or> f \<in> mm_free (pg_mm s)"
    using is_table_grow [OF assms(1), of f] pg_growD(3) [OF assms(1)] by auto
next
  fix f assume f: "f \<notin> mm_free (pg_mm s) \<and> \<not> is_table U pd s f"
  then have "f \<notin> mm_free (pg_mm s1) \<and> \<not> is_table U pd s1 f"
    using is_table_grow [OF assms(1), of f] pg_growD(3) [OF assms(1)] by auto
  then show "page_mem s' f = page_mem s f"
    using assms(2) pg_growD(7) [OF assms(1), of f] f by (simp add: mapped_def)
qed

lemma can_map_grow:
  assumes "pg_grow U pd s s1" "can_map U pd s p b" "managed U p" "length p = 4"
  shows "can_map U pd s1 p b"
proof -
  note g = pg_growD [OF assms(1)]
  have "b \<notin> mm_free (pg_mm s1)" "\<not> is_table U pd s1 b"
    using assms(2) g(3) is_table_grow [OF assms(1), of b] by (auto simp: can_map_def)
  then show ?thesis
    using assms(2) g(2,5) assms(3,4) by (simp add: can_map_def)
qed

lemma map_page_run:
  assumes ok: "pg_ok U pd s" and path: "managed U [PML4E v, PDPTE v, PDE v, PTE v]"
    and k: "k + 3 \<le> card (mm_free (pg_mm s))"
    and cm: "can_map U pd s [PML4E v, PDPTE v, PDE v, PTE v] (unat (PTE_GET_ADDR phys))" and fl: "flags AND PTE_ADDR_MASK = 0"
  shows "\<exists>s'. map_page pd v phys flags s = Inr ((), s') \<and> mapped U pd s [PML4E v, PDPTE v, PDE v, PTE v] (unat (PTE_GET_ADDR phys)) s' \<and>
    k \<le> card (mm_free (pg_mm s'))"
proof -
  have path1: "managed U ([] @ [PML4E v])" and path2: "managed U ([PML4E v] @ [PDPTE v])"
    and path3: "managed U ([PML4E v, PDPTE v] @ [PDE v])" and path4: "managed U ([PML4E v, PDPTE v, PDE v] @ [PTE v])"
    using path by (auto simp: managed_def)
  have "node (page_mem s) pd [] = Some pd" "k + 2 < card (mm_free (pg_mm s))"
    using k by simp_all
  with ensure_table_run [OF ok _ path1] obtain s1 t1 where s1: "ensure_table pd (PML4E v) s = Inr (t1, s1)" "pg_grow U pd s s1"
      "node (page_mem s1) pd [PML4E v] = Some t1" "k + 2 \<le> card (mm_free (pg_mm s1))"
    by fastforce
  have "k + 1 < card (mm_free (pg_mm s1))"
    using s1(4) by simp
  with ensure_table_run [OF pg_growD(1) [OF s1(2)] s1(3) path2] obtain s2 t2 where
      s2: "ensure_table t1 (PDPTE v) s1 = Inr (t2, s2)" "pg_grow U pd s1 s2"
      "node (page_mem s2) pd [PML4E v, PDPTE v] = Some t2" "k + 1 \<le> card (mm_free (pg_mm s2))"
    by fastforce
  have "k < card (mm_free (pg_mm s2))"
    using s2(4) by simp
  with ensure_table_run [OF pg_growD(1) [OF s2(2)] s2(3) path3] obtain s3 t3 where
      s3: "ensure_table t2 (PDE v) s2 = Inr (t3, s3)" "pg_grow U pd s2 s3"
      "node (page_mem s3) pd [PML4E v, PDPTE v, PDE v] = Some t3" "k \<le> card (mm_free (pg_mm s3))"
    by fastforce
  have grow: "pg_grow U pd s s3"
    using pg_grow_trans [OF pg_grow_trans [OF s1(2) s2(2)] s3(2)] .
  have "can_map U pd s3 ([PML4E v, PDPTE v, PDE v] @ [PTE v]) (unat (PTE_GET_ADDR phys))"
    using can_map_grow [OF grow cm path] by simp
  from leaf_step [OF pg_growD(1) [OF s3(2)] s3(3) path4 _ this fl]
  obtain s' where s': "bnd (rdw t3 (PTE v)) (\<lambda>e.
      andthen (if e AND PF_PRESENT \<noteq> 0 then in_mm (physical_free (unat (PTE_GET_ADDR e)) 1) else ret ())
        (wrw t3 (PTE v) (P_PHYS_ADDR phys OR PF_PRESENT OR flags))) s3 = Inr ((), s')"
      "mapped U pd s3 [PML4E v, PDPTE v, PDE v, PTE v] (unat (PTE_GET_ADDR phys)) s'" "card (mm_free (pg_mm s3)) \<le> card (mm_free (pg_mm s'))"
    by auto
  have "map_page pd v phys flags s = Inr ((), s')"
    unfolding map_page_def using s1(1) s2(1) s3(1) s'(1) by (simp add: bnd_step)
  then show ?thesis
    using mapped_grow [OF grow s'(2) path] s'(3) s3(4) by auto
qed

end
