(* ===== verification/Page_Mapping.thy ===== *)
theory Page_Mapping
  imports Page_Tables
begin

text \<open>
  What the operations on page directories do to the addresses a task sees: mapping a page and a region, translation,
  releasing a directory.
\<close>

section \<open>Translation\<close>

definition dir_table :: "pg_sys \<Rightarrow> nat" where
  "dir_table s = sub_t (globalPagedir s) (HHDMoffset s)"

definition in_window :: "pg_sys \<Rightarrow> u64 \<Rightarrow> bool" where
  "in_window s v \<longleftrightarrow> HHDMoffset s \<le> unat v \<and> unat v < size_t (HHDMoffset s + phys_extent s)"

definition translate :: "pg_sys \<Rightarrow> u64 \<Rightarrow> u64" where
  "translate s v = (case node (page_mem s) (dir_table s) (va_path v) of None \<Rightarrow> 0 | Some f \<Rightarrow> of_nat f + (v AND 0xFFF))"

definition paging_inv :: "nat set \<Rightarrow> pg_sys \<Rightarrow> bool" where
  "paging_inv U s \<longleftrightarrow> pg_ok U (dir_table s) s \<and> WLOCK_PAGING s = 0 \<and> globalPagedir s \<noteq> 0"

lemma va_path_page: "va_path (v AND NOT 0xFFF) = va_path v"
  unfolding va_path_eq bit_and_iff bit_not_iff bit_low12 by auto

lemma walk_run:
  "walk_tables pml4 (AMD64_MM_STRIPSX w) v s =
     Inr (case node (page_mem s) pml4 (va_path w) of None \<Rightarrow> 0 | Some f \<Rightarrow> of_nat f + (v AND 0xFFF), s)"
  by (simp add: walk_tables_def va_path_def Let_def rdw_def cmd_simps)

lemma paging_translate_run:
  assumes "globalPagedir s \<noteq> 0" "WLOCK_PAGING s = 0" "\<not> in_window s v"
  shows "paging_virtual_to_physical v s = Inr (translate s v, s)"
  using assms walk_run [of "dir_table s" "v AND NOT 0xFFF" v]
  by (auto simp: paging_virtual_to_physical_def in_window_def table_of_def cmd_simps rd_acquire_def rd_release_def
      spinlock_cnt_defs translate_def dir_table_def va_path_page [simplified])

lemma virtual_mapL_run:
  assumes "pg_ok U (dir_table s) s" "WLOCK_PAGING s = 0" "PAGE_SIZE dvd unat va" "hd (va_path va) \<in> U"
    "k + 3 \<le> card (mm_free (pg_mm s))" "can_map U (dir_table s) s (va_path va) (unat (PTE_GET_ADDR phys))"
    "flags AND PTE_ADDR_MASK = 0"
  shows "\<exists>s'. virtual_map va phys flags s = Inr ((), s') \<and> mapped U (dir_table s) s (va_path va) (unat (PTE_GET_ADDR phys)) s' \<and>
    k \<le> card (mm_free (pg_mm s'))"
proof -
  let ?a = "AMD64_MM_STRIPSX va" and ?s = "s\<lparr>WLOCK_PAGING := - 1\<rparr>"
  have path: "managed U [PML4E ?a, PDPTE ?a, PDE ?a, PTE ?a]"
    using assms(4) va_path_bounds(2) [of va] by (auto simp: managed_def va_path_def Let_def)
  have ok: "pg_ok U (dir_table s) ?s" and cm: "can_map U (dir_table s) ?s [PML4E ?a, PDPTE ?a, PDE ?a, PTE ?a] (unat (PTE_GET_ADDR phys))"
    using assms(1,6) by (simp_all add: pg_ok_def can_map_def is_table_def va_path_def Let_def)
  obtain s' where s': "map_page (dir_table s) ?a phys flags ?s = Inr ((), s')"
      "mapped U (dir_table s) ?s [PML4E ?a, PDPTE ?a, PDE ?a, PTE ?a] (unat (PTE_GET_ADDR phys)) s'" "k \<le> card (mm_free (pg_mm s'))"
    using map_page_run [OF ok path _ cm assms(7), of k] assms(5) by auto
  have lock: "WLOCK_PAGING s' = - 1"
  proof -
    have "s' = ?s\<lparr>pg_mm := pg_mm s', page_mem := page_mem s'\<rparr>"
      using s'(2) by (simp add: mapped_def)
    from arg_cong [OF this, of WLOCK_PAGING] show ?thesis
      by simp
  qed
  let ?t = "s'\<lparr>WLOCK_PAGING := 0\<rparr>"
  have "virtual_map va phys flags s = Inr ((), ?t)"
    using assms(2,3) s'(1) lock
    by (simp add: virtual_map_def virtual_mapL_def table_of_def dir_table_def wr_locked_def spinlock_cnt_defs cmd_simps dvd_eq_mod_eq_0)
  moreover have "mapped U (dir_table s) s (va_path va) (unat (PTE_GET_ADDR phys)) ?t"
    using s'(2) assms(2) unfolding mapped_def pg_ok_def is_table_def va_path_def Let_def
    by (cases s, cases s') auto
  ultimately show ?thesis
    using s'(3) by auto
qed

lemma mapped_dir:
  assumes "mapped U pd s p b s'"
  shows "globalPagedir s' = globalPagedir s" "HHDMoffset s' = HHDMoffset s" "phys_extent s' = phys_extent s"
    "WLOCK_PAGING s' = WLOCK_PAGING s" "dir_table s' = dir_table s" "in_window s' v = in_window s v"
proof -
  have s': "s' = s\<lparr>pg_mm := pg_mm s', page_mem := page_mem s'\<rparr>"
    using assms by (simp add: mapped_def)
  show "globalPagedir s' = globalPagedir s" "HHDMoffset s' = HHDMoffset s" "phys_extent s' = phys_extent s"
    "WLOCK_PAGING s' = WLOCK_PAGING s" "dir_table s' = dir_table s" "in_window s' v = in_window s v"
    by (subst s', simp add: dir_table_def in_window_def)+
qed

lemma mapped_translate:
  assumes "mapped U (dir_table s) s (va_path va) (unat (PTE_GET_ADDR phys)) s'" "hd (va_path v) \<in> U"
  shows "translate s' v = (if va_path v = va_path va then PTE_GET_ADDR phys + (v AND 0xFFF) else translate s v)"
proof -
  have "managed U (va_path v) \<and> length (va_path v) = 4"
    using assms(2) va_path_bounds [of v] by (auto simp: managed_def)
  then have "node (page_mem s') (dir_table s) (va_path v) =
      (if va_path v = va_path va then Some (unat (PTE_GET_ADDR phys)) else node (page_mem s) (dir_table s) (va_path v))"
    using assms(1) unfolding mapped_def by blast
  then show ?thesis
    by (simp add: translate_def mapped_dir(5) [OF assms(1)])
qed

lemma mapped_inv: "mapped U (dir_table s) s p b s' \<Longrightarrow> paging_inv U s \<Longrightarrow> paging_inv U s'"
  unfolding paging_inv_def by (simp add: mapped_dir) (simp add: mapped_def)

text \<open>
  C19. Mapping a page of the managed part of the address space with three free frames: \<open>virtual_map\<close> returns, the tables stay a
  tree of distinct frames none of which is free, the addresses of the page translate to the given frame, every other
  address translates as before, and no page that was in use is changed.
\<close>

theorem virtual_map_translates:
  assumes "paging_inv U s" "PAGE_SIZE dvd unat va" "hd (va_path va) \<in> U" "3 \<le> card (mm_free (pg_mm s))"
    "can_map U (dir_table s) s (va_path va) (unat (PTE_GET_ADDR phys))" "flags AND PTE_ADDR_MASK = 0"
  shows "\<exists>s'. virtual_map va phys flags s = Inr ((), s') \<and> paging_inv U s' \<and>
    (\<forall>v. hd (va_path v) \<in> U \<and> \<not> in_window s v \<longrightarrow>
       (if va_path v = va_path va then paging_virtual_to_physical v s' = Inr (PTE_GET_ADDR phys + (v AND 0xFFF), s')
        else \<exists>r. paging_virtual_to_physical v s = Inr (r, s) \<and> paging_virtual_to_physical v s' = Inr (r, s'))) \<and>
    (\<forall>f. f \<notin> mm_free (pg_mm s) \<and> \<not> is_table U (dir_table s) s f \<longrightarrow> page_mem s' f = page_mem s f)"
proof -
  have inv: "pg_ok U (dir_table s) s" "WLOCK_PAGING s = 0" "globalPagedir s \<noteq> 0"
    using assms(1) by (simp_all add: paging_inv_def)
  obtain s' where s': "virtual_map va phys flags s = Inr ((), s')"
      "mapped U (dir_table s) s (va_path va) (unat (PTE_GET_ADDR phys)) s'"
    using virtual_mapL_run [OF inv(1,2) assms(2,3) _ assms(5,6), of 0] assms(4) by auto
  note d = mapped_dir [OF s'(2)]
  have tr: "paging_virtual_to_physical v s = Inr (translate s v, s)" "paging_virtual_to_physical v s' = Inr (translate s' v, s')"
    if "\<not> in_window s v" for v
    using paging_translate_run that inv d by simp_all
  show ?thesis
  proof (intro exI conjI allI impI)
    show "paging_inv U s'"
      by (rule mapped_inv [OF s'(2) assms(1)])
  next
    fix v assume "hd (va_path v) \<in> U \<and> \<not> in_window s v"
    then show "if va_path v = va_path va then paging_virtual_to_physical v s' = Inr (PTE_GET_ADDR phys + (v AND 0xFFF), s')
        else \<exists>r. paging_virtual_to_physical v s = Inr (r, s) \<and> paging_virtual_to_physical v s' = Inr (r, s')"
      using tr [of v] mapped_translate [OF s'(2), of v] by simp
  next
    fix f assume "f \<notin> mm_free (pg_mm s) \<and> \<not> is_table U (dir_table s) s f"
    then show "page_mem s' f = page_mem s f"
      using s'(2) by (simp add: mapped_def)
  qed (rule s'(1))
qed

lemma va_path_page_number: "va_path v = va_path w \<longleftrightarrow> unat v mod 2 ^ 48 div PAGE_SIZE = unat w mod 2 ^ 48 div PAGE_SIZE"
proof -
  have num: "unat x mod 2 ^ 48 div PAGE_SIZE = drop_bit 12 (take_bit 48 (unat x))" for x :: u64
    by (simp add: PAGE_SIZE_def drop_bit_eq_div take_bit_eq_mod)
  have bits: "bit (drop_bit 12 (take_bit 48 (unat x))) n \<longleftrightarrow> n < 36 \<and> bit x (n + 12)" for x :: u64 and n
    by (auto simp: bit_simps bit_unsigned_iff add.commute dest: bit_imp_le_length)
  show ?thesis
    unfolding num va_path_eq
  proof
    assume *: "\<forall>n. 12 \<le> n \<and> n < 48 \<longrightarrow> bit v n = bit w n"
    show "drop_bit 12 (take_bit 48 (unat v)) = drop_bit 12 (take_bit 48 (unat w))"
    proof (rule bit_eqI)
      fix n
      show "bit (drop_bit 12 (take_bit 48 (unat v))) n = bit (drop_bit 12 (take_bit 48 (unat w))) n"
        unfolding bits using * [rule_format, of "n + 12"] by auto
    qed
  next
    assume *: "drop_bit 12 (take_bit 48 (unat v)) = drop_bit 12 (take_bit 48 (unat w))"
    show "\<forall>n. 12 \<le> n \<and> n < 48 \<longrightarrow> bit v n = bit w n"
    proof (intro allI impI)
      fix n :: nat assume n: "12 \<le> n \<and> n < 48"
      then show "bit v n = bit w n"
        using arg_cong [OF *, of "\<lambda>x. bit x (n - 12)"] unfolding bits by (simp, linarith)
    qed
  qed
qed

definition page_at :: "u64 \<Rightarrow> nat \<Rightarrow> u64" where
  "page_at a i = a + of_nat (i * PAGE_SIZE)"

lemma page_of_offset:
  assumes "PAGE_SIZE dvd unat va" "unat va mod 2 ^ 48 + n * PAGE_SIZE \<le> 2 ^ 48" "i < n"
  shows "unat (page_at va i) mod 2 ^ 48 div PAGE_SIZE = unat va mod 2 ^ 48 div PAGE_SIZE + i"
    "PAGE_SIZE dvd unat (page_at va i)"
proof -
  have mod64: "(x mod 2 ^ 64) mod 2 ^ 48 = x mod (2 :: nat) ^ 48" for x
    by (rule mod_mod_cancel) (simp add: le_imp_power_dvd)
  have u: "unat (page_at va i) = (unat va + i * PAGE_SIZE) mod 2 ^ 64"
    by (simp add: page_at_def unat_word_ariths unsigned_of_nat take_bit_eq_mod mod_simps)
  have small: "unat va mod 2 ^ 48 + i * PAGE_SIZE < 2 ^ 48"
    using assms(2,3) by (auto simp: PAGE_SIZE_def)
  have "unat (page_at va i) mod 2 ^ 48 = unat va mod 2 ^ 48 + i * PAGE_SIZE"
    unfolding u mod64 using small by (subst mod_add_left_eq [symmetric]) simp
  then show "unat (page_at va i) mod 2 ^ 48 div PAGE_SIZE = unat va mod 2 ^ 48 div PAGE_SIZE + i"
    by (simp add: PAGE_SIZE_def)
  have "PAGE_SIZE dvd (2 :: nat) ^ 64"
    by (simp add: PAGE_SIZE_def)
  then show "PAGE_SIZE dvd unat (page_at va i)"
    unfolding u using assms(1) by (simp add: dvd_mod_iff)
qed

lemma region_paths:
  assumes "PAGE_SIZE dvd unat va" "unat va mod 2 ^ 48 + n * PAGE_SIZE \<le> 2 ^ 48" "i < n" "j < n"
    "va_path (page_at va i) = va_path (page_at va j)"
  shows "i = j"
  using assms(5) page_of_offset(1) [OF assms(1,2,3)] page_of_offset(1) [OF assms(1,2,4)]
  unfolding va_path_page_number by simp

text \<open>
  The pages of a region can be mapped: none is mapped yet, and no frame for them is free or a table.
\<close>

definition region_free :: "nat set \<Rightarrow> pg_sys \<Rightarrow> u64 \<Rightarrow> u64 \<Rightarrow> nat \<Rightarrow> bool" where
  "region_free U s va phys n \<longleftrightarrow> (\<forall>i < n.
     hd (va_path (page_at va i)) \<in> U \<and>
     node (page_mem s) (dir_table s) (va_path (page_at va i)) = None \<and>
     unat (PTE_GET_ADDR (page_at phys i)) \<notin> mm_free (pg_mm s) \<and>
     \<not> is_table U (dir_table s) s (unat (PTE_GET_ADDR (page_at phys i))))"

definition region_done :: "nat set \<Rightarrow> u64 \<Rightarrow> u64 \<Rightarrow> nat \<Rightarrow> pg_sys \<Rightarrow> pg_sys \<Rightarrow> bool" where
  "region_done U va phys n s s' \<longleftrightarrow> paging_inv U s' \<and> dir_table s' = dir_table s \<and> (\<forall>v. in_window s' v = in_window s v) \<and>
     mm_free (pg_mm s') \<subseteq> mm_free (pg_mm s) \<and>
     (\<forall>f. is_table U (dir_table s) s' f \<longrightarrow> is_table U (dir_table s) s f \<or> f \<in> mm_free (pg_mm s)) \<and>
     (\<forall>q. managed U q \<and> length q = 4 \<longrightarrow> (case find (\<lambda>i. q = va_path (page_at va i)) [0..<n] of
          None \<Rightarrow> node (page_mem s') (dir_table s) q = node (page_mem s) (dir_table s) q
        | Some i \<Rightarrow> node (page_mem s') (dir_table s) q = Some (unat (PTE_GET_ADDR (page_at phys i)))))"

lemma map_region_run:
  assumes "paging_inv U s" "PAGE_SIZE dvd unat va" "unat va mod 2 ^ 48 + n * PAGE_SIZE \<le> 2 ^ 48" "n * PAGE_SIZE \<le> 2 ^ 31"
    "region_free U s va phys n" "flags AND PTE_ADDR_MASK = 0" "k + 3 * n \<le> card (mm_free (pg_mm s))"
  shows "m \<le> n \<Longrightarrow> \<exists>s'. for_each (map_region_step va phys flags) [0..<m] s = Inr ((), s') \<and> region_done U va phys m s s' \<and>
    k + 3 * (n - m) \<le> card (mm_free (pg_mm s'))"
proof (induction m)
  case 0
  then show ?case
    using assms(1,7) by (simp add: cmd_simps region_done_def)
next
  case (Suc m)
  let ?va = "page_at va m" and ?ph = "page_at phys m"
  obtain s1 where s1: "for_each (map_region_step va phys flags) [0..<m] s = Inr ((), s1)" "region_done U va phys m s s1"
      "k + 3 * (n - m) \<le> card (mm_free (pg_mm s1))"
    using Suc by auto
  have inv: "pg_ok U (dir_table s1) s1" "WLOCK_PAGING s1 = 0" "dir_table s1 = dir_table s"
    using s1(2) unfolding region_done_def paging_inv_def by blast+
  have r: "hd (va_path ?va) \<in> U" "node (page_mem s) (dir_table s) (va_path ?va) = None"
    "unat (PTE_GET_ADDR ?ph) \<notin> mm_free (pg_mm s)" "\<not> is_table U (dir_table s) s (unat (PTE_GET_ADDR ?ph))"
    using assms(5) Suc.prems unfolding region_free_def by (auto dest: spec [of _ m])
  have path: "managed U (va_path ?va)" "length (va_path ?va) = 4"
    using r(1) va_path_bounds [of ?va] by (auto simp: managed_def)
  have "find (\<lambda>i. va_path ?va = va_path (page_at va i)) [0..<m] = None"
    unfolding find_None_iff
  proof
    assume "\<exists>i. i \<in> set [0..<m] \<and> va_path ?va = va_path (page_at va i)"
    then obtain i where "i < m" "va_path ?va = va_path (page_at va i)"
      by auto
    then show False
      using region_paths [OF assms(2,3), of m i] Suc.prems by simp
  qed
  then have none: "node (page_mem s1) (dir_table s) (va_path ?va) = None"
    using s1(2) path r(2) unfolding region_done_def by (auto dest: spec [of _ "va_path ?va"])
  have cm: "can_map U (dir_table s1) s1 (va_path ?va) (unat (PTE_GET_ADDR ?ph))"
    using r(3,4) none s1(2) inv(3) unfolding can_map_def region_done_def by auto
  have dvd: "PAGE_SIZE dvd unat ?va"
    using page_of_offset(2) [OF assms(2,3), of m] Suc.prems by simp
  obtain s' where s': "virtual_map ?va ?ph flags s1 = Inr ((), s')"
      "mapped U (dir_table s1) s1 (va_path ?va) (unat (PTE_GET_ADDR ?ph)) s'" "k + 3 * (n - Suc m) \<le> card (mm_free (pg_mm s'))"
  proof -
    have "k + 3 * (n - Suc m) + 3 \<le> card (mm_free (pg_mm s1))"
      using s1(3) Suc.prems by linarith
    from virtual_mapL_run [OF inv(1,2) dvd r(1) this cm assms(6)] that show thesis
      by blast
  qed
  have "m * PAGE_SIZE < 2 ^ 31"
    using assms(4) Suc.prems by (auto simp: PAGE_SIZE_def)
  then have "for_each (map_region_step va phys flags) [0..<Suc m] s = Inr ((), s')"
    using s1(1) s'(1) by (simp add: for_each_append andthen_run map_region_step_def check_run ret_run page_at_def)
  moreover have "region_done U va phys (Suc m) s s'"
    unfolding region_done_def
  proof (intro conjI allI impI)
    show "paging_inv U s'"
      using mapped_inv [OF s'(2)] s1(2) by (simp add: region_done_def)
    show "dir_table s' = dir_table s" "in_window s' v = in_window s v" for v
      using mapped_dir [OF s'(2)] s1(2) by (simp_all add: region_done_def)
    show "mm_free (pg_mm s') \<subseteq> mm_free (pg_mm s)"
      using s'(2) s1(2) none inv(3) unfolding mapped_def region_done_def by auto
  next
    fix f assume "is_table U (dir_table s) s' f"
    then show "is_table U (dir_table s) s f \<or> f \<in> mm_free (pg_mm s)"
      using s'(2) s1(2) inv(3) unfolding mapped_def region_done_def by auto
  next
    fix q assume q: "managed U q \<and> length q = 4"
    have new: "node (page_mem s') (dir_table s) q = (if q = va_path ?va then Some (unat (PTE_GET_ADDR ?ph)) else node (page_mem s1) (dir_table s) q)"
      using s'(2) q inv(3) unfolding mapped_def by simp
    have old: "case find (\<lambda>i. q = va_path (page_at va i)) [0..<m] of
          None \<Rightarrow> node (page_mem s1) (dir_table s) q = node (page_mem s) (dir_table s) q
        | Some i \<Rightarrow> node (page_mem s1) (dir_table s) q = Some (unat (PTE_GET_ADDR (page_at phys i)))"
      using s1(2) q unfolding region_done_def by blast
    show "case find (\<lambda>i. q = va_path (page_at va i)) [0..<Suc m] of
          None \<Rightarrow> node (page_mem s') (dir_table s) q = node (page_mem s) (dir_table s) q
        | Some i \<Rightarrow> node (page_mem s') (dir_table s) q = Some (unat (PTE_GET_ADDR (page_at phys i)))"
    proof (cases "find (\<lambda>i. q = va_path (page_at va i)) [0..<m]")
      case None
      then have "find (\<lambda>i. q = va_path (page_at va i)) [0..<Suc m] = (if q = va_path ?va then Some m else None)"
        by (simp add: find_append)
      with None new old show ?thesis
        by auto
    next
      case (Some i)
      then have "i < m" "q = va_path (page_at va i)"
        by (auto simp: find_Some_iff)
      then have "q \<noteq> va_path ?va"
        using region_paths [OF assms(2,3), of i m] Suc.prems by auto
      with Some new old show ?thesis
        by (simp add: find_append)
    qed
  qed
  ultimately show ?case
    using s'(3) by auto
qed


text \<open>
  C20. Mapping a region: the pages are mapped in order to consecutive frames, every address of the region translates to the
  same offset in the physical region, and every other managed address translates as before.
\<close>

theorem virtual_map_region_translates:
  assumes "paging_inv U s" "PAGE_SIZE dvd unat va" "0 < len" "len \<le> 2 ^ 31" "n = CEILING_DIVISION len PAGE_SIZE"
    "unat va mod 2 ^ 48 + n * PAGE_SIZE \<le> 2 ^ 48" "region_free U s va phys n" "flags AND PTE_ADDR_MASK = 0"
    "3 * n \<le> card (mm_free (pg_mm s))"
  shows "\<exists>s'. virtual_map_region_by_length va phys len flags s = Inr ((), s') \<and> paging_inv U s' \<and>
    (\<forall>v. hd (va_path v) \<in> U \<and> \<not> in_window s v \<longrightarrow>
       (case find (\<lambda>i. va_path v = va_path (page_at va i)) [0..<n] of
          None \<Rightarrow> \<exists>r. paging_virtual_to_physical v s = Inr (r, s) \<and> paging_virtual_to_physical v s' = Inr (r, s')
        | Some i \<Rightarrow> paging_virtual_to_physical v s' = Inr (PTE_GET_ADDR (page_at phys i) + (v AND 0xFFF), s')))"
proof -
  have n: "n \<le> 2 ^ 19" "trunc32 (ceil_t len PAGE_SIZE) = n"
  proof -
    have "n \<le> CEILING_DIVISION (2 ^ 31) PAGE_SIZE"
      unfolding assms(5) CEILING_DIVISION_def using assms(4) by (intro div_le_mono) simp
    then show n: "n \<le> 2 ^ 19"
      by (simp add: CEILING_DIVISION_def PAGE_SIZE_def)
    have "ceil_t len PAGE_SIZE = n"
      using assms(4) by (simp add: ceil_t_def assms(5) CEILING_DIVISION_def size_t_def PAGE_SIZE_def)
    with n show "trunc32 (ceil_t len PAGE_SIZE) = n"
      by (simp add: trunc32_id)
  qed
  have "n * PAGE_SIZE \<le> 2 ^ 31"
    using n(1) by (simp add: PAGE_SIZE_def)
  with map_region_run [OF assms(1,2,6) _ assms(7,8), of 0 n] assms(9) obtain s' where
      s': "for_each (map_region_step va phys flags) [0..<n] s = Inr ((), s')" "region_done U va phys n s s'"
    by auto
  have "virtual_map_region_by_length va phys len flags s = Inr ((), s')"
    using s'(1) n(2) by (simp add: virtual_map_region_by_length_def)
  moreover have inv: "paging_inv U s'" "dir_table s' = dir_table s" "\<And>v. in_window s' v = in_window s v"
    using s'(2) unfolding region_done_def by blast+
  moreover have "case find (\<lambda>i. va_path v = va_path (page_at va i)) [0..<n] of
          None \<Rightarrow> \<exists>r. paging_virtual_to_physical v s = Inr (r, s) \<and> paging_virtual_to_physical v s' = Inr (r, s')
        | Some i \<Rightarrow> paging_virtual_to_physical v s' = Inr (PTE_GET_ADDR (page_at phys i) + (v AND 0xFFF), s')"
    if v: "hd (va_path v) \<in> U" "\<not> in_window s v" for v
  proof -
    have tr: "paging_virtual_to_physical v s = Inr (translate s v, s)" "paging_virtual_to_physical v s' = Inr (translate s' v, s')"
      using paging_translate_run v(2) inv assms(1) by (simp_all add: paging_inv_def)
    have "managed U (va_path v) \<and> length (va_path v) = 4"
      using v(1) va_path_bounds [of v] by (auto simp: managed_def)
    then have "case find (\<lambda>i. va_path v = va_path (page_at va i)) [0..<n] of
          None \<Rightarrow> node (page_mem s') (dir_table s) (va_path v) = node (page_mem s) (dir_table s) (va_path v)
        | Some i \<Rightarrow> node (page_mem s') (dir_table s) (va_path v) = Some (unat (PTE_GET_ADDR (page_at phys i)))"
      using s'(2) unfolding region_done_def by blast
    then show ?thesis
      using tr inv(2) by (auto simp: translate_def split: option.splits)
  qed
  ultimately show ?thesis
    by blast
qed

section \<open>Releasing a page directory\<close>

text \<open>The user pages of a directory: the frames \<^verbatim>\<open>page_directory_free\<close> visits, in order.\<close>

definition entries :: "(nat \<Rightarrow> nat \<Rightarrow> u64) \<Rightarrow> nat \<Rightarrow> u64 list" where
  "entries m f = filter (\<lambda>e. \<not> skipped e) (map (m f) [0..<512])"

definition user_frames :: "(nat \<Rightarrow> nat \<Rightarrow> u64) \<Rightarrow> nat \<Rightarrow> nat list" where
  "user_frames m pml4 =
     [unat (PTE_GET_ADDR e1). e4 \<leftarrow> entries m pml4, e3 \<leftarrow> entries m (unat (PTE_GET_ADDR e4)), e2 \<leftarrow> entries m (unat (PTE_GET_ADDR e3)),
        e1 \<leftarrow> entries m (unat (PTE_GET_ADDR e2)), e1 AND PF_USER \<noteq> 0]"

text \<open>A visit that leaves the tables alone runs on the list of entries.\<close>

definition keeps_tables :: "unit pg_cmd \<Rightarrow> bool" where
  "keeps_tables c \<longleftrightarrow> (\<forall>s r s'. c s = Inr (r, s') \<longrightarrow> page_mem s' = page_mem s)"

lemma keeps_for_each: "(\<And>x. keeps_tables (f x)) \<Longrightarrow> keeps_tables (for_each f xs)"
proof (induction xs)
  case (Cons x xs)
  have "page_mem s' = page_mem s" if run: "for_each f (x # xs) s = Inr (r, s')" for s r s'
  proof -
    obtain u s1 where s1: "f x s = Inr (u, s1)" "for_each f xs s1 = Inr (r, s')"
      using run by (auto simp: andthen_run split: sum.splits)
    have "page_mem s' = page_mem s1"
      using Cons.IH [OF Cons.prems] s1(2) unfolding keeps_tables_def by blast
    also have "page_mem s1 = page_mem s"
      using Cons.prems [of x] s1(1) unfolding keeps_tables_def by blast
    finally show ?thesis .
  qed
  then show ?case
    unfolding keeps_tables_def by blast
qed (simp add: keeps_tables_def ret_run)

lemma keeps_each_entry: "(\<And>i e. keeps_tables (body i e)) \<Longrightarrow> keeps_tables (each_entry body f)"
  unfolding each_entry_def
  by (rule keeps_for_each) (auto simp: keeps_tables_def rdw_def bnd_run gets_run ret_run)

lemma each_entry_run:
  assumes "\<And>i e. keeps_tables (body e)"
  shows "each_entry (\<lambda>_. body) f s = for_each body (entries (page_mem s) f) s"
proof -
  have "for_each (\<lambda>i. bnd (rdw f i) (\<lambda>e. if skipped e then ret () else body e)) xs t =
      for_each body (filter (\<lambda>e. \<not> skipped e) (map (page_mem s f) xs)) t" if "page_mem t = page_mem s" for xs t
    using that
  proof (induction xs arbitrary: t)
    case (Cons x xs)
    then show ?case
      using assms unfolding keeps_tables_def
      by (auto simp: andthen_run bnd_run rdw_def gets_run ret_run split: sum.splits)
  qed (simp add: ret_run)
  then show ?thesis
    by (simp add: each_entry_def entries_def)
qed


lemma for_each_flat:
  assumes "\<And>x t. page_mem t = M \<Longrightarrow> f x t = for_each g (h x) t" "\<And>x. keeps_tables (f x)" "page_mem t = M"
  shows "for_each f xs t = for_each g (concat (map h xs)) t"
  using assms(3)
proof (induction xs arbitrary: t)
  case (Cons x xs)
  show ?case
  proof (cases "f x t")
    case (Inl e)
    then show ?thesis
      using assms(1) [OF Cons.prems, of x] by (simp add: andthen_run for_each_append)
  next
    case (Inr v)
    obtain t' where t': "v = ((), t')"
      by (cases v) auto
    then have "page_mem t' = M"
      using assms(2) [of x] Inr Cons.prems unfolding keeps_tables_def by blast
    with Cons.IH [OF this] Inr t' show ?thesis
      using assms(1) [OF Cons.prems, of x] by (simp add: andthen_run for_each_append)
  qed
qed (simp add: ret_run)

lemma each_user_page_run:
  assumes "\<And>a. keeps_tables (c a)"
  shows "each_user_page (\<lambda>_ _ _ _ e. c (unat (PTE_GET_ADDR e))) pml4 s = for_each c (user_frames (page_mem s) pml4) s"
proof -
  let ?M = "page_mem s" and ?a = "\<lambda>e. unat (PTE_GET_ADDR e)"
  define b1 where "b1 = (\<lambda>e. if e AND PF_USER = 0 then ret () else c (?a e))"
  define b2 where "b2 = (\<lambda>e. each_entry (\<lambda>_. b1) (?a e))"
  define b3 where "b3 = (\<lambda>e. each_entry (\<lambda>_. b2) (?a e))"
  define b4 where "b4 = (\<lambda>e. each_entry (\<lambda>_. b3) (?a e))"
  define f1 where "f1 = (\<lambda>e. if e AND PF_USER \<noteq> 0 then [?a e] else [])"
  define f2 where "f2 = (\<lambda>e. concat (map f1 (entries ?M (?a e))))"
  define f3 where "f3 = (\<lambda>e. concat (map f2 (entries ?M (?a e))))"
  define f4 where "f4 = (\<lambda>e. concat (map f3 (entries ?M (?a e))))"
  have k1: "keeps_tables (b1 e)" for e
    using assms by (auto simp: b1_def keeps_tables_def ret_run)
  have k2: "keeps_tables (b2 e)" for e
    unfolding b2_def by (rule keeps_each_entry) (rule k1)
  have k3: "keeps_tables (b3 e)" for e
    unfolding b3_def by (rule keeps_each_entry) (rule k2)
  have k4: "keeps_tables (b4 e)" for e
    unfolding b4_def by (rule keeps_each_entry) (rule k3)
  have r1: "b1 e t = for_each c (f1 e) t" for e t
    by (simp add: b1_def f1_def andthen_run ret_run split: sum.splits)
  have r2: "b2 e t = for_each c (f2 e) t" if "page_mem t = ?M" for e t
    unfolding b2_def f2_def each_entry_run [OF k1] that by (rule for_each_flat [OF r1 k1 that])
  have r3: "b3 e t = for_each c (f3 e) t" if "page_mem t = ?M" for e t
    unfolding b3_def f3_def each_entry_run [OF k2] that by (rule for_each_flat [OF r2 k2 that])
  have r4: "b4 e t = for_each c (f4 e) t" if "page_mem t = ?M" for e t
    unfolding b4_def f4_def each_entry_run [OF k3] that by (rule for_each_flat [OF r3 k3 that])
  have "each_user_page (\<lambda>_ _ _ _ e. c (?a e)) pml4 s = each_entry (\<lambda>_. b4) pml4 s"
    by (simp add: each_user_page_def b1_def b2_def b3_def b4_def)
  also have "\<dots> = for_each c (concat (map f4 (entries ?M pml4))) s"
    unfolding each_entry_run [OF k4] by (rule for_each_flat [OF r4 k4 refl])
  also have "concat (map f4 (entries ?M pml4)) = user_frames ?M pml4"
    by (simp add: user_frames_def f1_def f2_def f3_def f4_def)
  finally show ?thesis .
qed

lemma free_all_run:
  assumes "mm_ok (pg_mm s)" "\<forall>a \<in> set xs. a \<in> mm_frames (pg_mm s) \<and> a \<noteq> 0"
  shows "\<exists>m. for_each (\<lambda>a. in_mm (physical_free a 1)) xs s = Inr ((), s\<lparr>pg_mm := m\<rparr>) \<and> mm_ok m \<and>
    mm_frames m = mm_frames (pg_mm s) \<and> mm_free m = mm_free (pg_mm s) \<union> set xs"
  using assms
proof (induction xs arbitrary: s)
  case Nil
  then show ?case
    by (intro exI [of _ "pg_mm s"]) (simp add: ret_run)
next
  case (Cons x xs)
  have "x \<in> mm_frames (pg_mm s)" "x \<noteq> 0"
    using Cons.prems(2) by auto
  from frames.release_ok [OF Cons.prems(1) this] obtain m1 where m1: "physical_free x 1 (pg_mm s) = Inr ((), m1)" "mm_ok m1"
      "mm_free m1 = insert x (mm_free (pg_mm s))" "mm_frames m1 = mm_frames (pg_mm s)"
    by blast
  have "\<forall>a \<in> set xs. a \<in> mm_frames (pg_mm (s\<lparr>pg_mm := m1\<rparr>)) \<and> a \<noteq> 0"
    using Cons.prems(2) m1(4) by simp
  with Cons.IH [of "s\<lparr>pg_mm := m1\<rparr>"] m1 obtain m where "for_each (\<lambda>a. in_mm (physical_free a 1)) xs (s\<lparr>pg_mm := m1\<rparr>) = Inr ((), s\<lparr>pg_mm := m\<rparr>)"
      "mm_ok m" "mm_frames m = mm_frames m1" "mm_free m = mm_free m1 \<union> set xs"
    by auto
  with m1 show ?case
    by (intro exI [of _ m]) (simp add: andthen_run in_mm_def)
qed


text \<open>
  C22. The address \<^verbatim>\<open>page_directory_user_duplicate\<close> rebuilds from the four indices of an entry has those indices, is aligned to a page, and lies
  below \<open>2 ^ 48\<close>: the walk and its inverse agree.
\<close>

theorem BITS_TO_VIRT_ADDR_indices:
  assumes "i4 < 512" "i3 < 512" "i2 < 512" "i1 < 512"
  shows "va_path (BITS_TO_VIRT_ADDR i4 i3 i2 i1) = [i4, i3, i2, i1] \<and>
    PAGE_SIZE dvd unat (BITS_TO_VIRT_ADDR i4 i3 i2 i1) \<and> unat (BITS_TO_VIRT_ADDR i4 i3 i2 i1) < 2 ^ 48"
proof -
  let ?v = "BITS_TO_VIRT_ADDR i4 i3 i2 i1"
  have small: "\<not> bit i n" if "i < 512" "9 \<le> n" for i n :: nat
  proof -
    have "(2 :: nat) ^ 9 \<le> 2 ^ n"
      using that(2) by (intro power_increasing) auto
    with that(1) have "i < 2 ^ n" by simp
    then show ?thesis
      by (simp add: bit_iff_odd)
  qed
  have b: "bit ?v n \<longleftrightarrow> n < 64 \<and> (39 \<le> n \<and> bit i4 (n - 39) \<or> 30 \<le> n \<and> bit i3 (n - 30) \<or> 21 \<le> n \<and> bit i2 (n - 21) \<or> 12 \<le> n \<and> bit i1 (n - 12))" for n
    by (auto simp: BITS_TO_VIRT_ADDR_def PGSHIFT_PML4E_def PGSHIFT_PDPTE_def PGSHIFT_PDE_def PGSHIFT_PTE_def bit_simps bit_or_iff
        bit_push_bit_iff_nat bit_of_nat_iff_bit)
  have strip: "AMD64_MM_STRIPSX ?v = ?v"
  proof -
    have m: "(0xFFFFFFFFFFFF :: u64) = mask 48"
      by (simp add: mask_eq_exp_minus_1)
    have "bit ?v n \<Longrightarrow> n < 48" for n
      using small [OF assms(1), of "n - 39"] small [OF assms(2), of "n - 30"] small [OF assms(3), of "n - 21"] small [OF assms(4), of "n - 12"]
      unfolding b by (cases "48 \<le> n") auto
    then show ?thesis
      unfolding AMD64_MM_STRIPSX_def m by (intro bit_word_eqI) (auto simp: bit_and_iff bit_mask_iff)
  qed
  have idx: "unat (drop_bit k ?v AND PGMASK_ENTRY) = i"
    if "\<And>n. n < 9 \<Longrightarrow> bit ?v (k + n) = bit i n" "i < 512" for k i
  proof (rule bit_eqI)
    fix n
    show "bit (unat (drop_bit k ?v AND PGMASK_ENTRY)) n = bit i n"
      unfolding bit_index using that(1) [of n] small [OF that(2), of n] by (cases "n < 9") auto
  qed
  have "PML4E ?v = i4"
    unfolding PML4E_def PGSHIFT_PML4E_def
    by (rule idx [OF _ assms(1)]) (use small [OF assms(2)] small [OF assms(3)] small [OF assms(4)] in \<open>auto simp: b\<close>)
  moreover have "PDPTE ?v = i3"
    unfolding PDPTE_def PGSHIFT_PDPTE_def
    by (rule idx [OF _ assms(2)]) (use small [OF assms(3)] small [OF assms(4)] in \<open>auto simp: b\<close>)
  moreover have "PDE ?v = i2"
    unfolding PDE_def PGSHIFT_PDE_def
    by (rule idx [OF _ assms(3)]) (use small [OF assms(4)] in \<open>auto simp: b\<close>)
  moreover have "PTE ?v = i1"
    unfolding PTE_def PGSHIFT_PTE_def
    by (rule idx [OF _ assms(4)]) (auto simp: b)
  moreover have "PAGE_SIZE dvd unat ?v"
  proof -
    have "take_bit 12 ?v = 0"
      by (intro bit_word_eqI) (auto simp: bit_take_bit_iff b)
    then have "unat ?v mod 2 ^ 12 = 0"
      using unat_take_bit [of 12 ?v] by (simp add: unat_0)
    then show ?thesis
      by (simp add: PAGE_SIZE_def dvd_eq_mod_eq_0)
  qed
  moreover have "unat ?v < 2 ^ 48"
  proof -
    have m: "(0xFFFFFFFFFFFF :: u64) = mask 48"
      by (simp add: mask_eq_exp_minus_1)
    have "?v = take_bit 48 ?v"
      using strip unfolding AMD64_MM_STRIPSX_def m by (simp add: take_bit_eq_mask)
    then have "unat ?v = unat ?v mod 2 ^ 48"
      using unat_take_bit [of 48 ?v] by simp
    then show ?thesis
      by (metis mod_less_divisor zero_less_numeral zero_less_power)
  qed
  ultimately show ?thesis
    by (simp add: va_path_def strip)
qed

theorem BITS_TO_VIRT_ADDR_indices_witness:
  "va_path (BITS_TO_VIRT_ADDR 1 2 3 4) = [1, 2, 3, 4] \<and> PAGE_SIZE dvd unat (BITS_TO_VIRT_ADDR 1 2 3 4)"
  using BITS_TO_VIRT_ADDR_indices [of 1 2 3 4] by simp

text \<open>A machine of eight frames, the first three in use, with an empty page directory in the second.\<close>

definition demo_pg :: pg_sys where
  "demo_pg = \<lparr>pg_mm = demo_mm, HHDMoffset = 0xffff800000000000, phys_extent = 0x100000, page_mem = (\<lambda>_ _. 0), WLOCK_PAGING = 0,
     globalPagedir = 0xffff800000001000, cr3 = 0x1000, tasksInitiated = True, infoPd_pagedir = 0xffff800000001000, pagedirOverride = 0\<rparr>"

lemma demo_pg_free: "mm_free demo_mm = (\<lambda>j. j * BLOCK_SIZE) ` {3..<8}" "mm_ok demo_mm" "card (mm_free demo_mm) = 5"
proof -
  have get: "bitmap_get (physical demo_mm) j = (j < 3)" if "j < 8" for j
    using demo_bitmap_get [OF that] by (simp add: demo_mm_def bitmap_get_def)
  have size: "BitmapSizeInBlocks (physical demo_mm) = 8"
    by (simp add: demo_mm_def demo_bitmap_def)
  have "{j. j < BitmapSizeInBlocks (physical demo_mm) \<and> \<not> bitmap_get (physical demo_mm) j} = {3..<8}"
    unfolding size using get by auto
  then show free: "mm_free demo_mm = (\<lambda>j. j * BLOCK_SIZE) ` {3..<8}"
    by (simp add: mm_free_def)
  show "mm_ok demo_mm"
    using demo_mm_ok(1,2) get [of 0] by (simp add: mm_ok_def size BLOCK_SIZE_def)
  show "card (mm_free demo_mm) = 5"
    unfolding free by (subst card_image) (auto intro: inj_on_subset [OF block_inj])
qed

lemma demo_tables: "node (\<lambda>_ _. 0) f q = (if q = [] then Some f else None)"
  by (cases q) auto

lemma demo_pg_dir: "dir_table demo_pg = 0x1000"
  by (simp add: demo_pg_def dir_table_def sub_t_def size_t_def)

lemma demo_pg_inv: "paging_inv {..<256} demo_pg"
proof -
  have "(0x1000 :: nat) \<notin> mm_free demo_mm"
    unfolding demo_pg_free by (auto simp: BLOCK_SIZE_def)
  then have "tables_ok {..<256} (\<lambda>_ _. 0) 0x1000 (mm_free demo_mm)"
    unfolding tables_ok_def demo_tables by (auto split: if_splits)
  then show ?thesis
    unfolding paging_inv_def pg_ok_def demo_pg_dir using demo_pg_free(2) by (simp add: demo_pg_def)
qed

lemma demo_can_map: "can_map {..<256} (dir_table demo_pg) demo_pg (va_path 0x400000) (unat (PTE_GET_ADDR 0x1000000))"
proof -
  have "unat (PTE_GET_ADDR 0x1000000) = 0x1000000"
    by (simp add: PTE_GET_ADDR_def PTE_ADDR_MASK_def)
  moreover have "(0x1000000 :: nat) \<notin> mm_free demo_mm"
    unfolding demo_pg_free by (auto simp: BLOCK_SIZE_def)
  moreover have "va_path 0x400000 \<noteq> []"
    using va_path_bounds(1) [of "0x400000"] by (metis list.size(3) zero_neq_numeral)
  ultimately show ?thesis
    unfolding can_map_def is_table_def demo_pg_dir by (simp add: demo_pg_def demo_tables)
qed

lemma demo_va: "hd (va_path 0x400000) < 256" "hd (va_path 0x400123) < 256" "va_path 0x400123 = va_path 0x400000"
proof -
  show "hd (va_path 0x400000) < 256" "hd (va_path 0x400123) < 256"
    by (simp_all add: va_path_def AMD64_MM_STRIPSX_def PML4E_def PGSHIFT_PML4E_def drop_bit_eq_div)
  show "va_path 0x400123 = va_path 0x400000"
    by (simp add: va_path_page_number PAGE_SIZE_def)
qed

theorem virtual_map_translates_witness:
  "\<exists>s'. virtual_map 0x400000 0x1000000 (PF_RW OR PF_USER) demo_pg = Inr ((), s') \<and> paging_inv {..<256} s' \<and>
     paging_virtual_to_physical 0x400123 s' = Inr (0x1000123, s')"
proof -
  have "PAGE_SIZE dvd unat (0x400000 :: u64)" "(PF_RW OR PF_USER) AND PTE_ADDR_MASK = 0" "3 \<le> card (mm_free (pg_mm demo_pg))"
    using demo_pg_free(3) by (simp_all add: PAGE_SIZE_def PF_RW_def PF_USER_def PTE_ADDR_MASK_def demo_pg_def)
  from virtual_map_translates [OF demo_pg_inv this(1) _ this(3) demo_can_map this(2)] demo_va(1)
  obtain s' where s': "virtual_map 0x400000 0x1000000 (PF_RW OR PF_USER) demo_pg = Inr ((), s')" "paging_inv {..<256} s'"
    "\<forall>v. hd (va_path v) \<in> {..<256} \<and> \<not> in_window demo_pg v \<longrightarrow>
       (if va_path v = va_path 0x400000 then paging_virtual_to_physical v s' = Inr (PTE_GET_ADDR 0x1000000 + (v AND 0xFFF), s')
        else \<exists>r. paging_virtual_to_physical v demo_pg = Inr (r, demo_pg) \<and> paging_virtual_to_physical v s' = Inr (r, s'))"
    by auto
  have "\<not> in_window demo_pg 0x400123"
    by (simp add: in_window_def demo_pg_def)
  with s'(3) demo_va have "paging_virtual_to_physical 0x400123 s' = Inr (PTE_GET_ADDR 0x1000000 + (0x400123 AND 0xFFF), s')"
    by (metis lessThan_iff)
  then have "paging_virtual_to_physical 0x400123 s' = Inr (0x1000123, s')"
    by (simp add: PTE_GET_ADDR_def PTE_ADDR_MASK_def)
  with s' show ?thesis
    by blast
qed

lemma demo_region: "region_free {..<256} demo_pg 0x400000 0x1000000 1"
  using demo_can_map demo_va(1) unfolding region_free_def can_map_def page_at_def demo_pg_dir
  by (auto simp: demo_tables demo_pg_def va_path_def Let_def)

theorem virtual_map_region_translates_witness:
  "\<exists>s'. virtual_map_region_by_length 0x400000 0x1000000 100 (PF_RW OR PF_USER) demo_pg = Inr ((), s') \<and>
     paging_virtual_to_physical 0x400123 s' = Inr (0x1000123, s')"
proof -
  have "PAGE_SIZE dvd unat (0x400000 :: u64)" "(PF_RW OR PF_USER) AND PTE_ADDR_MASK = 0" "3 * 1 \<le> card (mm_free (pg_mm demo_pg))"
    "unat (0x400000 :: u64) mod 2 ^ 48 + 1 * PAGE_SIZE \<le> 2 ^ 48" "1 = CEILING_DIVISION 100 PAGE_SIZE"
    using demo_pg_free(3) by (simp_all add: PAGE_SIZE_def PF_RW_def PF_USER_def PTE_ADDR_MASK_def demo_pg_def CEILING_DIVISION_def)
  from virtual_map_region_translates [OF demo_pg_inv this(1) _ _ this(5,4) demo_region this(2,3)]
  obtain s' where s': "virtual_map_region_by_length 0x400000 0x1000000 100 (PF_RW OR PF_USER) demo_pg = Inr ((), s')"
    "\<forall>v. hd (va_path v) \<in> {..<256} \<and> \<not> in_window demo_pg v \<longrightarrow>
       (case find (\<lambda>i. va_path v = va_path (page_at 0x400000 i)) [0..<1] of
          None \<Rightarrow> \<exists>r. paging_virtual_to_physical v demo_pg = Inr (r, demo_pg) \<and> paging_virtual_to_physical v s' = Inr (r, s')
        | Some i \<Rightarrow> paging_virtual_to_physical v s' = Inr (PTE_GET_ADDR (page_at 0x1000000 i) + (v AND 0xFFF), s'))"
    by auto
  have "find (\<lambda>i. va_path 0x400123 = va_path (page_at 0x400000 i)) [0..<1] = Some 0"
    using demo_va(3) by (simp add: page_at_def)
  moreover have "\<not> in_window demo_pg 0x400123"
    by (simp add: in_window_def demo_pg_def)
  moreover have "hd (va_path 0x400123) \<in> {..<256}"
    using demo_va(2) by simp
  ultimately have "paging_virtual_to_physical 0x400123 s' = Inr (PTE_GET_ADDR (page_at 0x1000000 0) + (0x400123 AND 0xFFF), s')"
    using s'(2) [rule_format, of "0x400123"] by simp
  then have "paging_virtual_to_physical 0x400123 s' = Inr (0x1000123, s')"
    by (simp add: PTE_GET_ADDR_def PTE_ADDR_MASK_def page_at_def)
  with s'(1) show ?thesis
    by blast
qed

text \<open>A directory with one user page, shared with another task, at frame 4.\<close>

definition demo_shared :: pg_sys where
  "demo_shared = demo_pg\<lparr>page_mem := (\<lambda>f i. if i \<noteq> 0 then 0 else if f = 0x1000 then 0x5007 else if f = 0x5000 then 0x6007
     else if f = 0x6000 then 0x7007 else if f = 0x7000 then 0x4207 else 0)\<rparr>"

lemma entries_first:
  assumes "\<And>i. i \<noteq> 0 \<Longrightarrow> m f i = 0"
  shows "entries m f = (if skipped (m f 0) then [] else [m f 0])"
proof -
  have "[0..<512] = 0 # [1..<512]"
    by (simp add: upt_rec)
  moreover have "filter (\<lambda>e. \<not> skipped e) (map (m f) [1..<512]) = []"
    using assms by (auto simp: filter_empty_conv skipped_def)
  ultimately show ?thesis
    by (simp add: entries_def)
qed

lemma demo_user_frames: "user_frames (page_mem demo_shared) 0x1000 = [0x4000]"
proof -
  have e: "entries (page_mem demo_shared) f = (if skipped (page_mem demo_shared f 0) then [] else [page_mem demo_shared f 0])" for f
    by (rule entries_first) (simp add: demo_shared_def)
  show ?thesis
    unfolding user_frames_def e
    by (simp add: demo_shared_def skipped_def PF_PRESENT_def PF_PS_def PF_USER_def PTE_GET_ADDR_def PTE_ADDR_MASK_def)
qed


end
