(* ===== verification/Fat32.thy ===== *)
theory Fat32
  imports Disk Errno
begin

text \<open>
  The FAT32 driver, its data and its helpers (\<^verbatim>\<open>fat32.h\<close>, \<^verbatim>\<open>fat32_util.cpp\<close>, \<^verbatim>\<open>fat32_fat.cpp\<close>): boot sector and
  directory entries as they lie on disk, cluster addresses, the file allocation table with its
  cache of 32 sectors, names and times. The driver only reads. The device is part of the state;
  \<open>fuel\<close> bounds how many clusters of a chain are followed.
\<close>

section \<open>Data on disk\<close>

record FAT32DirectoryEntry =
  de_name :: "byte list"
  de_ext :: "byte list"
  de_attrib :: byte
  de_userattrib :: byte
  de_undelete :: byte
  de_createtime :: u16
  de_createdate :: u16
  de_accessdate :: u16
  de_clusterhigh :: u16
  de_modifiedtime :: u16
  de_modifieddate :: u16
  de_clusterlow :: u16
  de_filesize :: u32

definition ENTRY_BYTES :: nat where "ENTRY_BYTES = 32"

definition dec_entry :: "byte list \<Rightarrow> FAT32DirectoryEntry" where
  "dec_entry b =
     \<lparr>de_name = seg b 0 8, de_ext = seg b 8 3, de_attrib = b ! 11, de_userattrib = b ! 12, de_undelete = b ! 13,
      de_createtime = dec16 b 14, de_createdate = dec16 b 16, de_accessdate = dec16 b 18, de_clusterhigh = dec16 b 20,
      de_modifiedtime = dec16 b 22, de_modifieddate = dec16 b 24, de_clusterlow = dec16 b 26, de_filesize = dec32 b 28\<rparr>"

record FAT32LFN =
  lfn_order :: byte
  lfn_first_five :: "byte list"
  lfn_attributes :: byte
  lfn_type :: byte
  lfn_checksum :: byte
  lfn_next_six :: "byte list"
  lfn_zero :: u16
  lfn_last_two :: "byte list"

definition dec_lfn :: "byte list \<Rightarrow> FAT32LFN" where
  "dec_lfn b =
     \<lparr>lfn_order = b ! 0, lfn_first_five = seg b 1 10, lfn_attributes = b ! 11, lfn_type = b ! 12, lfn_checksum = b ! 13,
      lfn_next_six = seg b 14 12, lfn_zero = dec16 b 26, lfn_last_two = seg b 28 4\<rparr>"

record FAT32ExtendedSector =
  table_size_32 :: u32
  extended_flags :: u16
  fat_version :: u16
  root_cluster :: u32
  fat_info :: u16
  backup_BS_sector :: u16
  reserved_0 :: "byte list"
  drive_number :: byte
  reserved_1 :: byte
  boot_signature :: byte
  volume_id :: u32
  volume_label :: "byte list"
  fat_type_label :: "byte list"

record FAT32BootSector =
  bootjmp :: "byte list"
  oem_name :: "byte list"
  bytes_per_sector :: u16
  sectors_per_cluster :: byte
  reserved_sector_count :: u16
  table_count :: byte
  root_entry_count :: u16
  total_sectors_16 :: u16
  media_type :: byte
  table_size_16 :: u16
  sectors_per_track :: u16
  head_side_count :: u16
  hidden_sector_count :: u32
  total_sectors_32 :: u32
  extended_section :: FAT32ExtendedSector

definition dec_extended :: "byte list \<Rightarrow> FAT32ExtendedSector" where
  "dec_extended b =
     \<lparr>table_size_32 = dec32 b 0, extended_flags = dec16 b 4, fat_version = dec16 b 6, root_cluster = dec32 b 8,
      fat_info = dec16 b 12, backup_BS_sector = dec16 b 14, reserved_0 = seg b 16 12, drive_number = b ! 28,
      reserved_1 = b ! 29, boot_signature = b ! 30, volume_id = dec32 b 31, volume_label = seg b 35 11,
      fat_type_label = seg b 46 8\<rparr>"

definition dec_bootsec :: "byte list \<Rightarrow> FAT32BootSector" where
  "dec_bootsec b =
     \<lparr>bootjmp = seg b 0 3, oem_name = seg b 3 8, bytes_per_sector = dec16 b 11, sectors_per_cluster = b ! 13,
      reserved_sector_count = dec16 b 14, table_count = b ! 16, root_entry_count = dec16 b 17,
      total_sectors_16 = dec16 b 19, media_type = b ! 21, table_size_16 = dec16 b 22, sectors_per_track = dec16 b 24,
      head_side_count = dec16 b 26, hidden_sector_count = dec32 b 28, total_sectors_32 = dec32 b 32,
      extended_section = dec_extended (drop 36 b)\<rparr>"

definition LFN_MAX :: nat where "LFN_MAX = 20"
definition LFN_MAX_TOTAL_CHARS :: nat where "LFN_MAX_TOTAL_CHARS = 256"
definition LFN_ORDER_FINAL :: byte where "LFN_ORDER_FINAL = 0x40"
definition FAT_ATTRIB_DIRECTORY :: byte where "FAT_ATTRIB_DIRECTORY = 0x10"
definition FAT_ATTRIB_ARCHIVE :: byte where "FAT_ATTRIB_ARCHIVE = 0x20"
definition FAT_ATTRIB_LFN :: byte where "FAT_ATTRIB_LFN = 0x0F"

definition FAT_COMB_HIGH_LOW :: "u16 \<Rightarrow> u16 \<Rightarrow> u32" where
  "FAT_COMB_HIGH_LOW clusterhigh clusterlow = push_bit 16 (ucast clusterhigh) OR ucast clusterlow"

definition FAT_INODE_GEN :: "u32 \<Rightarrow> u32 \<Rightarrow> u32" where
  "FAT_INODE_GEN directory index = directory * 100 + index"

definition FAT32_CACHE_BAD :: u32 where "FAT32_CACHE_BAD = 0xFFFFFFFF"
definition FAT32_CACHE_MAX :: nat where "FAT32_CACHE_MAX = 32"

section \<open>State\<close>

record FAT32 =
  fat_dev :: blkdev
  offsetBase :: nat
  offsetFats :: nat
  offsetClusters :: nat
  bootsec :: FAT32BootSector
  cache :: "byte list list"
  cacheBase :: "u32 list"
  cacheCurr :: nat

type_synonym 'a fat_cmd = "(FAT32, 'a) cmd"

record FAT32OpenFd =
  ff_ptr :: nat
  ff_index :: byte
  ff_directoryStarting :: u32
  ff_directoryCurr :: u32
  ff_dirEnt :: FAT32DirectoryEntry

record FAT32TraverseResult =
  tr_directory :: u32
  tr_index :: byte
  tr_dirEntry :: FAT32DirectoryEntry

definition bytesPerCluster :: "FAT32 \<Rightarrow> nat" where
  "bytesPerCluster fat = unat (sectors_per_cluster (bootsec fat)) * SECTOR_SIZE"

definition get_sectors32 :: "nat \<Rightarrow> nat \<Rightarrow> byte list fat_cmd" where
  "get_sectors32 LBA n = bnd (gets fat_dev) (\<lambda>d. lift (get_disk_bytes d (replicate (n * SECTOR_SIZE) 0) LBA n))"

section \<open>Mounting\<close>

definition fat32_mount :: "blkdev \<Rightarrow> u32 \<Rightarrow> FAT32 res" where
  "fat32_mount d lba_first =
     bindR (get_disk_bytes d (replicate SECTOR_SIZE 0) (unat lba_first) 1) (\<lambda>firstSec.
     let bs = dec_bootsec firstSec in
     if unat (bytes_per_sector bs) \<noteq> SECTOR_SIZE then Inl Halted
     else
       let base = unat lba_first; fats = base + unat (reserved_sector_count bs);
           clusters = fats + unat (ucast (table_count bs) * table_size_32 (extended_section bs))
       in Inr \<lparr>fat_dev = d, offsetBase = base, offsetFats = fats, offsetClusters = clusters, bootsec = bs,
               cache = replicate FAT32_CACHE_MAX (replicate (unat (sectors_per_cluster bs) * SECTOR_SIZE) 0),
               cacheBase = replicate FAT32_CACHE_MAX FAT32_CACHE_BAD, cacheCurr = 0\<rparr>)"

section \<open>The file allocation table\<close>

definition fat32_FAT_cache_lookup :: "u32 \<Rightarrow> u32 fat_cmd" where
  "fat32_FAT_cache_lookup offset =
     gets (\<lambda>fat. case find (\<lambda>i. cacheBase fat ! i = offset) [0..<FAT32_CACHE_MAX] of
       None \<Rightarrow> FAT32_CACHE_BAD | Some i \<Rightarrow> of_nat i)"

definition fat32_FAT_cache_add :: "u32 \<Rightarrow> byte list \<Rightarrow> unit fat_cmd" where
  "fat32_FAT_cache_add offset bytes =
     andthen (modify (\<lambda>fat. if FAT32_CACHE_MAX \<le> cacheCurr fat then fat\<lparr>cacheCurr := 0\<rparr> else fat))
     (bnd (gets cacheCurr) (\<lambda>c.
      andthen (modify (\<lambda>fat. fat\<lparr>cacheBase := (cacheBase fat)[c := offset]\<rparr>))
      (bnd (gets (\<lambda>fat. cache fat ! c)) (\<lambda>old. bnd (lift (wr old 0 bytes)) (\<lambda>new.
       modify (\<lambda>fat. fat\<lparr>cache := (cache fat)[c := new], cacheCurr := c + 1\<rparr>))))))"

definition fat32_FAT_fetch :: "u32 \<Rightarrow> byte list fat_cmd" where
  "fat32_FAT_fetch offsetSector =
     bnd (fat32_FAT_cache_lookup offsetSector) (\<lambda>cacheRes.
     if cacheRes \<noteq> FAT32_CACHE_BAD
     then bnd (gets (\<lambda>fat. cache fat ! unat cacheRes)) (\<lambda>c. lift (rdseg c 0 SECTOR_SIZE))
     else bnd (get_sectors32 (unat offsetSector) 1) (\<lambda>bytes.
       andthen (fat32_FAT_cache_add offsetSector bytes) (ret bytes)))"

definition fat32_FAT_traverse :: "u32 \<Rightarrow> u32 fat_cmd" where
  "fat32_FAT_traverse offset =
     (let offsetFAT = offset * 4; offsetEntry = unat offsetFAT mod SECTOR_SIZE in
      bnd (gets offsetFats) (\<lambda>fats.
      bnd (fat32_FAT_fetch (of_nat (fats + unat offsetFAT div SECTOR_SIZE))) (\<lambda>bytes.
      bnd (lift (rd32 bytes offsetEntry)) (\<lambda>w.
      let r = w AND 0x0FFFFFFF in
      if 0x0FFFFFF8 \<le> r then ret 0
      else if r = 0x0FFFFFF7 then ret 0
      else ret r))))"

fun chain_loop :: "nat \<Rightarrow> u32 \<Rightarrow> u32 list fat_cmd" where
  "chain_loop 0 prev = ret []"
| "chain_loop (Suc k) prev =
     bnd (fat32_FAT_traverse prev) (\<lambda>c. bnd (chain_loop k c) (\<lambda>cs. ret (c # cs)))"

definition fat32_FAT_chain :: "u32 \<Rightarrow> nat \<Rightarrow> u32 list fat_cmd" where
  "fat32_FAT_chain offsetStart amount = bnd (chain_loop amount offsetStart) (\<lambda>cs. ret (offsetStart # cs))"

section \<open>Names\<close>

definition fat32_cluster_to_LBA :: "FAT32 \<Rightarrow> u32 \<Rightarrow> nat" where
  "fat32_cluster_to_LBA fat cluster =
     offsetClusters fat + unat ((cluster - 2) * ucast (sectors_per_cluster (bootsec fat)))"

definition IS_UPPERCASE :: "byte \<Rightarrow> bool" where
  "IS_UPPERCASE c \<longleftrightarrow> (65 \<le> c \<and> c \<le> 90) \<or> (48 \<le> c \<and> c \<le> 57)"

fun short_loop :: "byte list \<Rightarrow> nat \<Rightarrow> nat \<Rightarrow> nat option" where
  "short_loop [] i dotat = Some dotat"
| "short_loop (c # cs) i dotat =
     (if c = 46 then short_loop cs (i + 1) i
      else if \<not> IS_UPPERCASE c \<and> c \<noteq> 0x20 then None
      else short_loop cs (i + 1) dotat)"

definition fat32_is_short_filename_possible :: "byte list \<Rightarrow> nat option" where
  "fat32_is_short_filename_possible filename =
     (let len = length filename in
      if len > 8 + 1 + 3 then None
      else case short_loop filename 0 0 of
        None \<Rightarrow> None
      | Some dotat \<Rightarrow>
          if dotat \<noteq> 0 \<and> (of_nat dotat :: u64) < of_nat len - 1 - 3 then None else Some dotat)"

definition fat32_LFNmem_cpy :: "byte list \<Rightarrow> FAT32LFN \<Rightarrow> int \<Rightarrow> byte list res" where
  "fat32_LFNmem_cpy lfnName lfn index =
     (if index < 0 then Inl Out_of_bounds
      else wr lfnName (nat index * 13)
        ([lfn_first_five lfn ! 0, lfn_first_five lfn ! 2, lfn_first_five lfn ! 4, lfn_first_five lfn ! 6, lfn_first_five lfn ! 8] @
         [lfn_next_six lfn ! 0, lfn_next_six lfn ! 2, lfn_next_six lfn ! 4, lfn_next_six lfn ! 6, lfn_next_six lfn ! 8, lfn_next_six lfn ! 10] @
         [lfn_last_two lfn ! 0, lfn_last_two lfn ! 2]))"

definition fat32_SFN_to_normal :: "FAT32DirectoryEntry \<Rightarrow> byte list" where
  "fat32_SFN_to_normal dirent =
     (let nm = takeWhile (\<lambda>c. c \<noteq> 32) (de_name dirent) in
      if de_ext dirent ! 0 \<noteq> 32 \<and> de_ext dirent ! 0 \<noteq> 0
      then nm @ [46] @ takeWhile (\<lambda>c. c \<noteq> 32) (de_ext dirent) @ [0]
      else nm @ [0])"

section \<open>Times\<close>

definition is_leap_year :: "int \<Rightarrow> bool" where
  "is_leap_year year \<longleftrightarrow> (year mod 4 = 0 \<and> year mod 100 \<noteq> 0) \<or> year mod 400 = 0"

definition days_per_month :: "int list" where
  "days_per_month = [31, 28, 31, 30, 31, 30, 31, 31, 30, 31, 30, 31]"

definition days_in_month :: "int \<Rightarrow> int \<Rightarrow> int res" where
  "days_in_month year month =
     (if month = 2 \<and> is_leap_year year then Inr 29
      else if 1 \<le> month \<and> month \<le> 12 then Inr (days_per_month ! nat (month - 1))
      else Inl Out_of_bounds)"

fun sum_months :: "int \<Rightarrow> nat list \<Rightarrow> int res" where
  "sum_months year [] = Inr 0"
| "sum_months year (m # ms) =
     bindR (days_in_month year (int m)) (\<lambda>d. bindR (sum_months year ms) (\<lambda>r. Inr (d + r)))"

definition days_since_1980 :: "int \<Rightarrow> int \<Rightarrow> int \<Rightarrow> int res" where
  "days_since_1980 year month day =
     (let ys = sum_list (map (\<lambda>y. if is_leap_year (int y) then 366 else 365) [1980..<nat year]) in
      bindR (sum_months year [1..<nat month]) (\<lambda>ms. Inr (ys + ms + (day - 1))))"

text \<open>The seconds are summed as an \<^verbatim>\<open>int\<close> before they are widened.\<close>

definition fat32_unix_time :: "u16 \<Rightarrow> u16 \<Rightarrow> nat res" where
  "fat32_unix_time fat_date fat_time =
     (let year = uint (drop_bit 9 fat_date AND 0x7F) + 1980; month = uint (drop_bit 5 fat_date AND 0x0F);
          day = uint (fat_date AND 0x1F);
          hour = uint (drop_bit 11 fat_time AND 0x1F); minute = uint (drop_bit 5 fat_time AND 0x3F);
          second = uint (fat_time AND 0x1F) * 2
      in bindR (days_since_1980 year month day) (\<lambda>d.
         let days = d + (365 * 10 + 2); total = days * 86400 + hour * 3600 + minute * 60 + second
         in if total < 2 ^ 31 then Inr (nat (total mod 2 ^ 64)) else Inl Undefined))"

end
