(* ===== verification/Fat32_Files.thy ===== *)
theory Fat32_Files
  imports Fat32 Vfs_Types
begin

text \<open>
  The operations of the FAT32 driver (\<^verbatim>\<open>fat32_traverse.cpp\<close>, \<^verbatim>\<open>fat32_controller.cpp\<close>, \<^verbatim>\<open>fat32_dirs.cpp\<close>,
  \<^verbatim>\<open>fat32_stat.cpp\<close>): looking a name up in a directory, opening, reading, seeking, listing, status.
  An open file is a \<open>FAT32OpenFd\<close>, given back changed.
\<close>

section \<open>Looking a name up\<close>

text \<open>The long name collected so far and the index of its last part, \<open>-1\<close> when there is none.\<close>

type_synonym lfn_state = "byte list \<times> int"

definition lfn_none :: lfn_state where
  "lfn_none = (replicate LFN_MAX_TOTAL_CHARS 0, - 1)"

definition lfn_step :: "byte list \<Rightarrow> lfn_state \<Rightarrow> lfn_state res" where
  "lfn_step e = (\<lambda>(lfnName, lfnLast).
     let lfn = dec_lfn e in
     if de_attrib (dec_entry e) = FAT_ATTRIB_LFN \<and> lfn_type lfn = 0 then
       let index = int (unat (lfn_order lfn AND NOT LFN_ORDER_FINAL)) - 1 in
       if int LFN_MAX \<le> index then Inl Halted
       else bindR (fat32_LFNmem_cpy lfnName lfn index) (\<lambda>lfnName'.
         Inr (lfnName', if lfn_order lfn AND LFN_ORDER_FINAL \<noteq> 0 then index else lfnLast))
     else Inr (lfnName, lfnLast))"

definition lfn_length :: "byte list \<Rightarrow> nat res" where
  "lfn_length lfnName =
     (case find (\<lambda>i. lfnName ! i = 0) [0..<length lfnName] of None \<Rightarrow> Inl Out_of_bounds | Some n \<Rightarrow> Inr n)"

definition is_named :: "FAT32DirectoryEntry \<Rightarrow> bool" where
  "is_named d \<longleftrightarrow> de_attrib d = FAT_ATTRIB_DIRECTORY \<or> de_attrib d = FAT_ATTRIB_ARCHIVE"

definition entry_found :: "byte list \<Rightarrow> byte list \<Rightarrow> lfn_state \<Rightarrow> bool res" where
  "entry_found search e = (\<lambda>(lfnName, lfnLast).
     if 0 \<le> lfnLast then bindR (lfn_length lfnName) (\<lambda>n. Inr (n = length search \<and> take n lfnName = search))
     else case fat32_is_short_filename_possible search of
       None \<Rightarrow> Inr False
     | Some shortDot \<Rightarrow>
         let n = (if shortDot \<noteq> 0 then shortDot else length search) in
         Inr (take n e = take n search \<and>
              (shortDot = 0 \<or> take (length search - shortDot - 1) (drop 8 e) = drop (shortDot + 1) search)))"

fun scan_entries :: "byte list \<Rightarrow> byte list list \<Rightarrow> nat \<Rightarrow> lfn_state \<Rightarrow> ((nat \<times> byte list) option \<times> lfn_state) res" where
  "scan_entries search [] i st = Inr (None, st)"
| "scan_entries search (e # es) i st =
     bindR (lfn_step e st) (\<lambda>st'.
     if is_named (dec_entry e) then
       bindR (entry_found search e st') (\<lambda>found.
       if found then Inr (Some (i, e), lfn_none) else scan_entries search es (i + ENTRY_BYTES) lfn_none)
     else scan_entries search es (i + ENTRY_BYTES) st')"

text \<open>The 32-byte entries of a cluster, in order.\<close>

definition cluster_entries :: "byte list \<Rightarrow> byte list list" where
  "cluster_entries bytes = map (\<lambda>k. seg bytes (k * ENTRY_BYTES) ENTRY_BYTES) [0..<length bytes div ENTRY_BYTES]"

definition read_clusters :: "u32 \<Rightarrow> nat \<Rightarrow> byte list fat_cmd" where
  "read_clusters cluster n = (\<lambda>fat.
     get_sectors32 (fat32_cluster_to_LBA fat cluster) (n * unat (sectors_per_cluster (bootsec fat))) fat)"

definition no_entry :: FAT32DirectoryEntry where
  "no_entry = dec_entry (replicate ENTRY_BYTES 0)"

fun traverse_clusters :: "nat \<Rightarrow> byte list \<Rightarrow> u32 \<Rightarrow> lfn_state \<Rightarrow> FAT32TraverseResult fat_cmd" where
  "traverse_clusters 0 search directory st = fail Diverges"
| "traverse_clusters (Suc k) search directory st =
     bnd (read_clusters directory 1) (\<lambda>bytes.
     bnd (lift (scan_entries search (cluster_entries bytes) 0 st)) (\<lambda>(hit, st').
     case hit of
       Some (i, e) \<Rightarrow> ret \<lparr>tr_directory = directory, tr_index = of_nat i, tr_dirEntry = dec_entry e\<rparr>
     | None \<Rightarrow>
         bnd (fat32_FAT_traverse directory) (\<lambda>directory'.
         if directory' = 0 then ret \<lparr>tr_directory = 0, tr_index = 0, tr_dirEntry = no_entry\<rparr>
         else traverse_clusters k search directory' st')))"

definition fat32_traverse :: "nat \<Rightarrow> u32 \<Rightarrow> byte list \<Rightarrow> FAT32TraverseResult fat_cmd" where
  "fat32_traverse fuel initDirectory search = traverse_clusters fuel search initDirectory lfn_none"

function path_clusters :: "nat \<Rightarrow> byte list \<Rightarrow> nat \<Rightarrow> nat \<Rightarrow> u32 \<Rightarrow> FAT32TraverseResult fat_cmd" where
  "path_clusters fuel path i lastslash directory =
     (if i < length path then
        let last = (i = length path - 1) in
        if path ! i = slash \<or> last then
          let len = i - lastslash - 1 + (if last then 1 else 0) in
          bnd (fat32_traverse fuel directory (seg path (lastslash + 1) len)) (\<lambda>res.
          if tr_directory res = 0 \<or> last then ret res
          else path_clusters fuel path (i + 1) i
                 (FAT_COMB_HIGH_LOW (de_clusterhigh (tr_dirEntry res)) (de_clusterlow (tr_dirEntry res))))
        else path_clusters fuel path (i + 1) lastslash directory
      else ret \<lparr>tr_directory = 0, tr_index = 0, tr_dirEntry = no_entry\<rparr>)"
  by pat_completeness auto
termination
  by (relation "measure (\<lambda>(fuel, path, i, l, d). length path - i)") auto

declare path_clusters.simps [simp del]

definition root_entry :: "u32 \<Rightarrow> FAT32DirectoryEntry" where
  "root_entry root = no_entry\<lparr>de_attrib := FAT_ATTRIB_DIRECTORY, de_clusterhigh := ucast (drop_bit 16 root),
     de_clusterlow := ucast (root AND 0xFFFF)\<rparr>"

definition fat32_traverse_path :: "nat \<Rightarrow> byte list \<Rightarrow> u32 \<Rightarrow> FAT32TraverseResult fat_cmd" where
  "fat32_traverse_path fuel path directoryStarting =
     (if length path = 1
      then bnd (gets (\<lambda>fat. root_cluster (extended_section (bootsec fat)))) (\<lambda>root.
        ret \<lparr>tr_directory = - 1, tr_index = - 1, tr_dirEntry = root_entry root\<rparr>)
      else path_clusters fuel path 1 0 directoryStarting)"

section \<open>Open files\<close>

definition entry_cluster :: "FAT32DirectoryEntry \<Rightarrow> u32" where
  "entry_cluster e = FAT_COMB_HIGH_LOW (de_clusterhigh e) (de_clusterlow e)"

definition is_directory :: "FAT32DirectoryEntry \<Rightarrow> bool" where
  "is_directory e \<longleftrightarrow> de_attrib e AND FAT_ATTRIB_DIRECTORY \<noteq> 0"

definition fat32_open ::
  "nat \<Rightarrow> byte list \<Rightarrow> u32 \<Rightarrow> (int \<times> (FAT32OpenFd \<times> byte list option) option) fat_cmd" where
  "fat32_open fuel filename flags =
     (if has_flag flags O_CREAT \<or> has_flag flags O_WRONLY \<or> has_flag flags O_RDWR then ret (- int EROFS, None)
      else bnd (gets (\<lambda>fat. root_cluster (extended_section (bootsec fat)))) (\<lambda>root.
        bnd (fat32_traverse_path fuel filename root) (\<lambda>res.
        if tr_directory res = 0 then ret (- int ENOENT, None)
        else ret (0, Some
          (\<lparr>ff_ptr = 0, ff_index = tr_index res, ff_directoryStarting = tr_directory res,
            ff_directoryCurr = entry_cluster (tr_dirEntry res), ff_dirEnt = tr_dirEntry res\<rparr>,
           if is_directory (tr_dirEntry res) then Some filename else None)))))"

fun copy_loop :: "byte list \<Rightarrow> nat \<Rightarrow> nat \<Rightarrow> nat \<Rightarrow> byte list \<Rightarrow> (bool \<times> nat \<times> byte list) res" where
  "copy_loop [] limit filesize ptr out = Inr (False, ptr, out)"
| "copy_loop (b # bs) limit filesize ptr out =
     (if limit \<le> length out \<or> filesize \<le> ptr then Inr (True, ptr, out)
      else if 2 ^ 31 \<le> length out + 1 then Inl Undefined
      else copy_loop bs limit filesize (ptr + 1) (out @ [b]))"

text \<open>
  The loop of \<^verbatim>\<open>fat32_read\<close> over the clusters looked up. \<open>run\<close> is \<^verbatim>\<open>consecStart\<close>; \<open>beyond\<close> is what
  the memory after \<^verbatim>\<open>fatLookup\<close> holds, which the test for a run of consecutive clusters reads
  when it looks past the last one.
\<close>

function fat_read_loop ::
  "u32 \<Rightarrow> nat \<Rightarrow> nat \<Rightarrow> u32 list \<Rightarrow> nat \<Rightarrow> nat option \<Rightarrow> FAT32OpenFd \<Rightarrow> byte list \<Rightarrow>
   (FAT32OpenFd \<times> byte list) fat_cmd" where
  "fat_read_loop beyond needed limit lookup i run dir out =
     (if i < needed + 1 then
        (if length lookup \<le> i then fail Out_of_bounds
         else if lookup ! i = 0 then ret (dir, out)
         else
           let dir' = dir\<lparr>ff_directoryCurr := lookup ! i\<rparr>;
               last = (i + 1 = needed);
               nxt = (if i + 1 < length lookup then lookup ! (i + 1) else beyond);
               start = (case run of None \<Rightarrow> i | Some c \<Rightarrow> c);
               n = i - start + 1
           in if \<not> last \<and> nxt = lookup ! i + 1
              then fat_read_loop beyond needed limit lookup (i + 1) (Some start) dir' out
              else (\<lambda>fat.
                bnd (check Undefined (n * bytesPerCluster fat < 2 ^ 31)) (\<lambda>_.
                bnd (read_clusters (lookup ! start) n) (\<lambda>bytes.
                bnd (lift (copy_loop (drop (ff_ptr dir mod bytesPerCluster fat) bytes) limit
                       (unat (de_filesize (ff_dirEnt dir))) (ff_ptr dir) out)) (\<lambda>(done', ptr, out').
                if done' then ret (dir'\<lparr>ff_ptr := ptr\<rparr>, out')
                else fat_read_loop beyond needed limit lookup (i + 1) None (dir'\<lparr>ff_ptr := ptr\<rparr>) out'))) fat))
      else ret (dir, out))"
  by pat_completeness auto
termination
  by (relation "measure (\<lambda>(b, needed, l, f, i, r, d, out). needed + 1 - i)") auto

declare fat_read_loop.simps [simp del]

text \<open>The bytes read are the result; their number is what the function returns.\<close>

definition fat32_read :: "u32 \<Rightarrow> nat \<Rightarrow> FAT32OpenFd \<Rightarrow> (byte list \<times> FAT32OpenFd) fat_cmd" where
  "fat32_read beyond limit dir =
     (if is_directory (ff_dirEnt dir) then ret ([], dir)
      else bnd (gets bytesPerCluster) (\<lambda>bpc.
        bnd (check Undefined (bpc \<noteq> 0)) (\<lambda>_.
        let needed = CEILING_DIVISION limit bpc in
        bnd (check Undefined (needed + 1 < 2 ^ 31)) (\<lambda>_.
        bnd (fat32_FAT_chain (ff_directoryCurr dir) needed) (\<lambda>fatLookup.
        bnd (fat_read_loop beyond needed limit fatLookup 0 None dir []) (\<lambda>(dir', out).
        ret (out, dir')))))))"

fun seek_loop :: "nat \<Rightarrow> u32 \<Rightarrow> u32 fat_cmd" where
  "seek_loop 0 c = ret c"
| "seek_loop (Suc k) c = bnd (fat32_FAT_traverse c) (\<lambda>c'. if c' = 0 then ret 0 else seek_loop k c')"

definition fat32_seek :: "nat \<Rightarrow> nat \<Rightarrow> FAT32OpenFd \<Rightarrow> (u64 \<times> FAT32OpenFd) fat_cmd" where
  "fat32_seek target whence dir =
     (let target = (if whence = SEEK_CURR then (target + ff_ptr dir) mod 2 ^ 64 else target) in
      if is_directory (ff_dirEnt dir) then ret (ERR EINVAL, dir)
      else if unat (de_filesize (ff_dirEnt dir)) < target then ret (ERR EINVAL, dir)
      else bnd (gets bytesPerCluster) (\<lambda>bpc.
        let back = (target < ff_ptr dir \<or> 2 ^ 31 \<le> ff_ptr dir);
            old = (if back then 0 else ff_ptr dir);
            c = (if back then entry_cluster (ff_dirEnt dir) else ff_directoryCurr dir)
        in bnd (check Undefined (bpc \<noteq> 0)) (\<lambda>_.
           bnd (seek_loop (target div bpc - old div bpc) c) (\<lambda>c'.
           ret (of_nat target, dir\<lparr>ff_ptr := target, ff_directoryCurr := c'\<rparr>)))))"

definition fat32_get_filesize :: "FAT32OpenFd \<Rightarrow> nat" where
  "fat32_get_filesize dir = (if is_directory (ff_dirEnt dir) then 0 else unat (de_filesize (ff_dirEnt dir)))"

definition fat32_duplicate_node_unsafe ::
  "FAT32OpenFd \<times> byte list option \<Rightarrow> bool \<times> FAT32OpenFd \<times> byte list option" where
  "fat32_duplicate_node_unsafe original = (case original of (dir, dirname) \<Rightarrow> (True, dir, dirname))"

section \<open>Status\<close>

definition fat32_stat_internal :: "FAT32TraverseResult \<Rightarrow> stat res" where
  "fat32_stat_internal res =
     (let e = tr_dirEntry res; mode = S_IFREG OR S_IRWXU;
          sz = (if is_directory e then 0x1000 else int (unat (de_filesize e)));
          blk = 0x1000
      in bindR (fat32_unix_time (de_accessdate e) 0) (\<lambda>atime.
         bindR (fat32_unix_time (de_modifieddate e) (de_modifiedtime e)) (\<lambda>mtime.
         bindR (fat32_unix_time (de_createdate e) (de_createtime e)) (\<lambda>ctime.
         Inr \<lparr>st_dev = 69, st_ino = unat (FAT_INODE_GEN (tr_directory res) (ucast (tr_index res))),
              st_mode = (if is_directory e then (mode AND NOT S_IFREG) OR S_IFDIR else mode),
              st_nlink = 1, st_uid = 0, st_gid = 0, st_rdev = 0, st_blksize = blk, st_size = sz,
              st_blocks = ((sz + blk - 1) div blk * blk) div 512,
              st_atime = of_nat atime, st_mtime = of_nat mtime, st_ctime = of_nat ctime\<rparr>))))"

definition fat32_stat :: "nat \<Rightarrow> byte list \<Rightarrow> stat option fat_cmd" where
  "fat32_stat fuel filename =
     bnd (gets (\<lambda>fat. root_cluster (extended_section (bootsec fat)))) (\<lambda>root.
     bnd (fat32_traverse_path fuel filename root) (\<lambda>res.
     if tr_directory res = 0 then ret None
     else bnd (lift (fat32_stat_internal res)) (\<lambda>st. ret (Some st))))"

definition fat32_stat_fd :: "FAT32OpenFd \<Rightarrow> (int \<times> stat) res" where
  "fat32_stat_fd dir =
     bindR (fat32_stat_internal
       \<lparr>tr_directory = ff_directoryStarting dir, tr_index = ff_index dir, tr_dirEntry = ff_dirEnt dir\<rparr>)
     (\<lambda>st. Inr (1, st))"

section \<open>Listing\<close>

definition dents_name :: "byte list \<Rightarrow> lfn_state \<Rightarrow> byte list res" where
  "dents_name e = (\<lambda>(lfnName, lfnLast).
     if 0 \<le> lfnLast then bindR (lfn_length lfnName) (\<lambda>n. Inr (take n lfnName))
     else Inr (fat32_SFN_to_normal (dec_entry e)))"

text \<open>
  The entries of one cluster from position \<open>i\<close> on. The result says whether the call is over,
  the value it returns, what was written, and how far the position of the directory moved.
\<close>

fun list_entries ::
  "(nat \<Rightarrow> u64) \<Rightarrow> u32 \<Rightarrow> u32 \<Rightarrow> byte list list \<Rightarrow> nat \<Rightarrow> lfn_state \<Rightarrow> nat \<Rightarrow> linux_dirent64 list \<Rightarrow> u32 \<Rightarrow>
   (bool \<times> lfn_state \<times> nat \<times> linux_dirent64 list \<times> u32) res" where
  "list_entries rand hardlimit directory [] i st ptr out alloc = Inr (False, st, ptr, out, alloc)"
| "list_entries rand hardlimit directory (e # es) i st ptr out alloc =
     bindR (lfn_step e st) (\<lambda>st'.
     if is_named (dec_entry e) then
       bindR (dents_name e st') (\<lambda>nm.
       case dents_add rand out alloc hardlimit nm (FAT_INODE_GEN directory (of_nat (i div 32)))
              (if is_directory (dec_entry e) then CDT_DIR else CDT_REG) of
         (DENTS_NO_SPACE, _, _) \<Rightarrow> Inr (True, st', ptr, out, - of_nat EINVAL)
       | (DENTS_RETURN, _, _) \<Rightarrow> Inr (True, st', ptr, out, alloc)
       | (DENTS_SUCCESS, out', alloc') \<Rightarrow>
           list_entries rand hardlimit directory es (i + ENTRY_BYTES) lfn_none
             (trunc32 (ptr + ENTRY_BYTES)) out' alloc')
     else list_entries rand hardlimit directory es (i + ENTRY_BYTES) st' (trunc32 (ptr + ENTRY_BYTES)) out alloc)"

fun list_clusters ::
  "nat \<Rightarrow> (nat \<Rightarrow> u64) \<Rightarrow> u32 \<Rightarrow> FAT32OpenFd \<Rightarrow> lfn_state \<Rightarrow> linux_dirent64 list \<Rightarrow> u32 \<Rightarrow>
   (u32 \<times> linux_dirent64 list \<times> FAT32OpenFd) fat_cmd" where
  "list_clusters 0 rand hardlimit dir st out alloc = fail Diverges"
| "list_clusters (Suc k) rand hardlimit dir st out alloc =
     (if ff_directoryCurr dir = 0 then ret (alloc, out, dir)
      else (\<lambda>fat.
        let offsetStarting = ff_ptr dir mod bytesPerCluster fat in
        bnd (check Undefined (bytesPerCluster fat \<noteq> 0)) (\<lambda>_.
        bnd (read_clusters (ff_directoryCurr dir) 1) (\<lambda>bytes.
        bnd (lift (list_entries rand hardlimit (ff_directoryCurr dir) (cluster_entries (drop offsetStarting bytes))
                     offsetStarting st (ff_ptr dir) out alloc)) (\<lambda>(stop, st', ptr, out', alloc').
        if stop then ret (alloc', out', dir\<lparr>ff_ptr := ptr\<rparr>)
        else bnd (fat32_FAT_traverse (ff_directoryCurr dir)) (\<lambda>c.
          list_clusters k rand hardlimit (dir\<lparr>ff_ptr := ptr, ff_directoryCurr := c\<rparr>) st' out' alloc')))) fat))"

definition fat32_get_dents64 ::
  "nat \<Rightarrow> (nat \<Rightarrow> u64) \<Rightarrow> u32 \<Rightarrow> FAT32OpenFd \<Rightarrow> (int \<times> linux_dirent64 list \<times> FAT32OpenFd) fat_cmd" where
  "fat32_get_dents64 fuel rand hardlimit dir =
     (if \<not> is_directory (ff_dirEnt dir) then ret (- int ENOTDIR, [], dir)
      else bnd (list_clusters fuel rand hardlimit dir lfn_none [] 0) (\<lambda>(r, out, dir'). ret (sint r, out, dir')))"

end
