(* ===== verification/Fat32_Table.thy ===== *)
theory Fat32_Table
  imports Fat32_Files
begin

text \<open>
  The file allocation table as the driver sees it: a lookup through the cache gives the entry on
  disk, a chain of clusters is a list, and the loops that follow it end.
\<close>

section \<open>Lookups\<close>

definition fat_next :: "FAT32 \<Rightarrow> u32 \<Rightarrow> u32" where
  "fat_next fat c =
     (let a = unat (c * 4);
          r = dec32 (dev_read (fat_dev fat) (offsetFats fat + a div SECTOR_SIZE) 1) (a mod SECTOR_SIZE) AND 0x0FFFFFFF
      in if 0x0FFFFFF7 \<le> r then 0 else r)"

definition slot_ok :: "FAT32 \<Rightarrow> nat \<Rightarrow> bool" where
  "slot_ok fat i \<longleftrightarrow> length (cache fat ! i) = bytesPerCluster fat \<and>
     (cacheBase fat ! i = FAT32_CACHE_BAD \<or>
      take SECTOR_SIZE (cache fat ! i) = dev_read (fat_dev fat) (unat (cacheBase fat ! i)) 1)"

definition fat_wf :: "FAT32 \<Rightarrow> bool" where
  "fat_wf fat \<longleftrightarrow> sata (fat_dev fat) \<and> sectors_per_cluster (bootsec fat) \<noteq> 0 \<and>
     length (cache fat) = FAT32_CACHE_MAX \<and> length (cacheBase fat) = FAT32_CACHE_MAX \<and> cacheCurr fat \<le> FAT32_CACHE_MAX \<and>
     offsetFats fat + 2 ^ 23 < 2 ^ 32 \<and> (\<forall>i < FAT32_CACHE_MAX. slot_ok fat i)"

text \<open>What lookups leave as it is: everything but the cache.\<close>

definition same_volume :: "FAT32 \<Rightarrow> FAT32 \<Rightarrow> bool" where
  "same_volume fat fat' \<longleftrightarrow> fat_dev fat' = fat_dev fat \<and> offsetBase fat' = offsetBase fat \<and>
     offsetFats fat' = offsetFats fat \<and> offsetClusters fat' = offsetClusters fat \<and> bootsec fat' = bootsec fat"

lemma same_volume_refl [simp]: "same_volume fat fat"
  by (simp add: same_volume_def)

lemma same_volume_trans: "same_volume a b \<Longrightarrow> same_volume b c \<Longrightarrow> same_volume a c"
  by (simp add: same_volume_def)

lemma same_volume_next: "same_volume fat fat' \<Longrightarrow> fat_next fat' = fat_next fat"
  by (simp add: same_volume_def fat_next_def fun_eq_iff)

lemma same_volume_bytes: "same_volume fat fat' \<Longrightarrow> bytesPerCluster fat' = bytesPerCluster fat"
  by (simp add: same_volume_def bytesPerCluster_def)

lemma bytesPerCluster_ge: "fat_wf fat \<Longrightarrow> SECTOR_SIZE \<le> bytesPerCluster fat"
  using unat_gt_0 [of "sectors_per_cluster (bootsec fat)"] by (simp add: fat_wf_def bytesPerCluster_def Suc_le_eq)

lemma bytesPerCluster_pos: "fat_wf fat \<Longrightarrow> 0 < bytesPerCluster fat"
  using bytesPerCluster_ge [of fat] by (simp add: SECTOR_SIZE_def)

lemma get_sectors32_run:
  assumes "sata (fat_dev fat)" "LBA + n \<le> 2 ^ 32" "0 < n"
  shows "get_sectors32 LBA n fat = Inr (dev_read (fat_dev fat) LBA n, fat)"
  using assms by (simp add: get_sectors32_def cmd_simps get_disk_bytes_flat)

lemma cache_lookup_run:
  "fat32_FAT_cache_lookup c fat =
     Inr (case find (\<lambda>i. cacheBase fat ! i = c) [0..<FAT32_CACHE_MAX] of None \<Rightarrow> FAT32_CACHE_BAD | Some i \<Rightarrow> of_nat i, fat)"
  by (simp add: fat32_FAT_cache_lookup_def cmd_simps)

lemma fat_cache_add_run:
  assumes wf: "fat_wf fat" and n: "bytes = dev_read (fat_dev fat) (unat offset) 1"
  shows "\<exists>fat'. fat32_FAT_cache_add offset bytes fat = Inr ((), fat') \<and> same_volume fat fat' \<and> fat_wf fat'"
proof -
  define c where "c = (if FAT32_CACHE_MAX \<le> cacheCurr fat then 0 else cacheCurr fat)"
  have c: "c < FAT32_CACHE_MAX" by (simp add: c_def FAT32_CACHE_MAX_def)
  have len: "length bytes = SECTOR_SIZE" by (simp add: n)
  have old: "length (cache fat ! c) = bytesPerCluster fat" using wf c by (simp add: fat_wf_def slot_ok_def)
  have w: "wr (cache fat ! c) 0 bytes = Inr (blit (cache fat ! c) 0 bytes)"
    using bytesPerCluster_ge [OF wf] len old by (simp add: wr_def)
  define fat' where "fat' = fat\<lparr>cacheBase := (cacheBase fat)[c := offset],
    cache := (cache fat)[c := blit (cache fat ! c) 0 bytes], cacheCurr := c + 1\<rparr>"
  have "fat32_FAT_cache_add offset bytes fat = Inr ((), fat')"
    using w unfolding fat'_def c_def
    by (cases "FAT32_CACHE_MAX \<le> cacheCurr fat") (simp_all add: fat32_FAT_cache_add_def cmd_simps)
  moreover have "same_volume fat fat'" by (simp add: fat'_def same_volume_def)
  moreover have "slot_ok fat' i" if "i < FAT32_CACHE_MAX" for i
    using that wf c len old bytesPerCluster_ge [OF wf] n
    by (cases "i = c") (auto simp: slot_ok_def fat'_def fat_wf_def bytesPerCluster_def blit_def)
  then have "fat_wf fat'" using wf c by (simp add: fat'_def fat_wf_def)
  ultimately show ?thesis by blast
qed

lemma cache_fetch_run:
  assumes wf: "fat_wf fat" and s: "unat offset < 2 ^ 32 - 1"
  shows "\<exists>fat'. fat32_FAT_fetch offset fat = Inr (dev_read (fat_dev fat) (unat offset) 1, fat') \<and>
    same_volume fat fat' \<and> fat_wf fat'"
proof (cases "find (\<lambda>i. cacheBase fat ! i = offset) [0..<FAT32_CACHE_MAX]")
  case None
  have g: "get_sectors32 (unat offset) 1 fat = Inr (dev_read (fat_dev fat) (unat offset) 1, fat)"
    using wf s by (intro get_sectors32_run) (auto simp: fat_wf_def)
  from fat_cache_add_run [OF wf refl, of offset] show ?thesis
    using None g by (auto simp: fat32_FAT_fetch_def cmd_simps cache_lookup_run)
next
  case (Some i)
  then have i: "i < FAT32_CACHE_MAX" "cacheBase fat ! i = offset"
    by (auto simp: find_Some_iff)
  have "offset \<noteq> FAT32_CACHE_BAD" using s by (auto simp: FAT32_CACHE_BAD_def)
  then have t: "take SECTOR_SIZE (cache fat ! i) = dev_read (fat_dev fat) (unat offset) 1"
    and l: "length (cache fat ! i) = bytesPerCluster fat"
    using wf i by (auto simp: fat_wf_def slot_ok_def)
  have "unat (of_nat i :: u32) = i" using i(1) by (simp add: unat_of_nat_id FAT32_CACHE_MAX_def)
  moreover then have "(of_nat i :: u32) \<noteq> FAT32_CACHE_BAD"
    using i(1) by (auto simp: FAT32_CACHE_MAX_def FAT32_CACHE_BAD_def)
  ultimately show ?thesis
    using Some t l wf bytesPerCluster_ge [OF wf]
    by (simp add: fat32_FAT_fetch_def cmd_simps cache_lookup_run rdseg_def seg_def)
qed

lemma FAT_traverse_run:
  assumes wf: "fat_wf fat"
  shows "\<exists>fat'. fat32_FAT_traverse c fat = Inr (fat_next fat c, fat') \<and> same_volume fat fat' \<and> fat_wf fat'"
proof -
  define a where "a = unat (c * 4)"
  have "a < 2 ^ 32" unfolding a_def by (rule unat_less_u32)
  then have k: "a div SECTOR_SIZE < 2 ^ 23" by (simp add: SECTOR_SIZE_def)
  then have u: "unat (of_nat (offsetFats fat + a div SECTOR_SIZE) :: u32) = offsetFats fat + a div SECTOR_SIZE"
    using wf by (intro unat_of_nat_id) (simp add: fat_wf_def)
  have "offsetFats fat + a div SECTOR_SIZE < 2 ^ 32 - 1" using wf k by (simp add: fat_wf_def)
  with u have lt: "unat (of_nat (offsetFats fat + a div SECTOR_SIZE) :: u32) < 2 ^ 32 - 1" by simp
  have "a = unat c * 4 mod 2 ^ 32" by (simp add: a_def unat_word_ariths)
  then have "4 dvd a mod SECTOR_SIZE" by (simp add: dvd_mod SECTOR_SIZE_def)
  moreover have "a mod SECTOR_SIZE < SECTOR_SIZE" by (simp add: SECTOR_SIZE_def)
  ultimately have m: "a mod SECTOR_SIZE + 4 \<le> SECTOR_SIZE"
    by (elim dvdE) (simp add: SECTOR_SIZE_def)
  from cache_fetch_run [OF wf lt] u obtain fat' where
    f: "fat32_FAT_fetch (of_nat (offsetFats fat + a div SECTOR_SIZE)) fat =
        Inr (dev_read (fat_dev fat) (offsetFats fat + a div SECTOR_SIZE) 1, fat')" "same_volume fat fat'" "fat_wf fat'"
    by auto
  have hi: "(0x0FFFFFF7 \<le> r) = (0x0FFFFFF8 \<le> r \<or> r = 0x0FFFFFF7)" for r :: u32
    by uint_arith
  show ?thesis
    using f m hi
    by (intro exI [of _ fat'])
      (simp add: fat32_FAT_traverse_def fat_next_def Let_def cmd_simps rd32_def a_def [symmetric])
qed

section \<open>A volume just mounted\<close>

lemma fat32_mount_run:
  assumes d: "sata d" and bs: "bs = dec_bootsec (dev_read d (unat lba) 1)"
    and b: "unat (bytes_per_sector bs) = SECTOR_SIZE" "sectors_per_cluster bs \<noteq> 0"
    and f: "unat lba + unat (reserved_sector_count bs) + 2 ^ 23 < 2 ^ 32"
  obtains fat where "fat32_mount d lba = Inr fat" "fat_wf fat" "fat_dev fat = d" "bootsec fat = bs"
    "offsetFats fat = unat lba + unat (reserved_sector_count bs)"
    "offsetClusters fat = offsetFats fat + unat (ucast (table_count bs) * table_size_32 (extended_section bs))"
proof -
  have g: "get_disk_bytes d (replicate SECTOR_SIZE 0) (unat lba) 1 = Inr (dev_read d (unat lba) 1)"
    using d unat_less_u32 [of lba] by (intro get_disk_bytes_flat) auto
  define fat where "fat = \<lparr>fat_dev = d, offsetBase = unat lba, offsetFats = unat lba + unat (reserved_sector_count bs),
    offsetClusters = unat lba + unat (reserved_sector_count bs) + unat (ucast (table_count bs) * table_size_32 (extended_section bs)),
    bootsec = bs, cache = replicate FAT32_CACHE_MAX (replicate (unat (sectors_per_cluster bs) * SECTOR_SIZE) 0),
    cacheBase = replicate FAT32_CACHE_MAX FAT32_CACHE_BAD, cacheCurr = 0\<rparr>"
  have "fat32_mount d lba = Inr fat"
    using g b(1) by (simp add: fat32_mount_def fat_def Let_def bs)
  moreover have "fat_wf fat"
    using d b(2) f by (simp add: fat_wf_def fat_def slot_ok_def bytesPerCluster_def)
  ultimately show ?thesis
    using that by (simp add: fat_def)
qed

section \<open>Chains\<close>

definition cluster_ok :: "FAT32 \<Rightarrow> u32 \<Rightarrow> bool" where
  "cluster_ok fat c \<longleftrightarrow> 2 \<le> unat c \<and> unat c < 0x0FFFFFF7 \<and>
     offsetClusters fat + (unat c - 1) * unat (sectors_per_cluster (bootsec fat)) \<le> 2 ^ 32"

definition is_chain :: "FAT32 \<Rightarrow> u32 list \<Rightarrow> bool" where
  "is_chain fat cs \<longleftrightarrow>
     list_all (\<lambda>i. cluster_ok fat (cs ! i) \<and> fat_next fat (cs ! i) = (if i + 1 < length cs then cs ! (i + 1) else 0))
       [0..<length cs] \<and> fat_next fat 0 = 0"

text \<open>The cluster at a position of a chain, 0 past its end.\<close>

definition chain_at :: "u32 list \<Rightarrow> nat \<Rightarrow> u32" where
  "chain_at cs k = (if k < length cs then cs ! k else 0)"

lemma is_chain_nth: "is_chain fat cs \<Longrightarrow> i < length cs \<Longrightarrow> cluster_ok fat (cs ! i)"
  by (simp add: is_chain_def list_all_iff)

lemma chain_next: "is_chain fat cs \<Longrightarrow> fat_next fat (chain_at cs k) = chain_at cs (k + 1)"
  by (auto simp: is_chain_def list_all_iff chain_at_def)

lemma fat_chain_nz: "is_chain fat cs \<Longrightarrow> (chain_at cs k = 0) = (length cs \<le> k)"
  using is_chain_nth [of fat cs k] by (auto simp: chain_at_def cluster_ok_def)

lemma chain_at_set: "chain_at cs k \<in> insert 0 (set cs)"
  by (simp add: chain_at_def)

lemma same_volume_chain: "same_volume fat fat' \<Longrightarrow> is_chain fat' = is_chain fat"
  by (simp add: is_chain_def cluster_ok_def same_volume_next fun_eq_iff) (simp add: same_volume_def)

lemma fat_chain_loop_run:
  assumes "fat_wf fat" "is_chain fat cs"
  shows "\<exists>fat'. chain_loop n (chain_at cs k) fat = Inr (map (chain_at cs) [k + 1..<k + 1 + n], fat') \<and>
    same_volume fat fat' \<and> fat_wf fat'"
  using assms
proof (induction n arbitrary: k fat)
  case (Suc n)
  from FAT_traverse_run [OF Suc.prems(1), of "chain_at cs k"] obtain f1 where
    f1: "fat32_FAT_traverse (chain_at cs k) fat = Inr (chain_at cs (k + 1), f1)" "same_volume fat f1" "fat_wf f1"
    using chain_next [OF Suc.prems(2)] by auto
  from Suc.IH [OF f1(3), of "k + 1"] f1(2) Suc.prems(2) obtain f2 where
    f2: "chain_loop n (chain_at cs (k + 1)) f1 = Inr (map (chain_at cs) [k + 2..<k + 2 + n], f2)"
    "same_volume f1 f2" "fat_wf f2"
    by (auto simp: same_volume_chain)
  have "[k + 1..<k + 1 + Suc n] = (k + 1) # [k + 2..<k + 2 + n]" by (simp add: upt_rec)
  with f1 f2 show ?case
    by (auto simp: cmd_simps intro: same_volume_trans simp del: upt_Suc)
qed (auto simp: cmd_simps)

lemma FAT_chain_run:
  assumes "fat_wf fat" "is_chain fat cs"
  shows "\<exists>fat'. fat32_FAT_chain (chain_at cs k) n fat = Inr (map (\<lambda>j. chain_at cs (k + j)) [0..<n + 1], fat') \<and>
    same_volume fat fat' \<and> fat_wf fat'"
proof -
  have "chain_at cs k # map (chain_at cs) [k + 1..<k + 1 + n] = map (chain_at cs) [k..<k + (n + 1)]"
    by (simp add: upt_conv_Cons del: upt_Suc)
  also have "\<dots> = map (\<lambda>j. chain_at cs (k + j)) [0..<n + 1]"
    by (rule nth_equalityI) (simp_all del: upt_Suc)
  finally show ?thesis
    using fat_chain_loop_run [OF assms, of n k] by (auto simp: fat32_FAT_chain_def cmd_simps simp del: upt_Suc)
qed

lemma seek_loop_run:
  assumes "fat_wf fat" "is_chain fat cs" "k \<le> length cs"
  shows "\<exists>fat'. seek_loop n (chain_at cs k) fat = Inr (chain_at cs (k + n), fat') \<and> same_volume fat fat' \<and> fat_wf fat'"
  using assms
proof (induction n arbitrary: k fat)
  case (Suc n)
  from FAT_traverse_run [OF Suc.prems(1), of "chain_at cs k"] obtain f1 where
    f1: "fat32_FAT_traverse (chain_at cs k) fat = Inr (chain_at cs (k + 1), f1)" "same_volume fat f1" "fat_wf f1"
    using chain_next [OF Suc.prems(2)] by auto
  show ?case
  proof (cases "chain_at cs (k + 1) = 0")
    case True
    then have "chain_at cs (k + Suc n) = 0" using fat_chain_nz [OF Suc.prems(2)] by simp
    with True f1 show ?thesis by (auto simp: cmd_simps)
  next
    case False
    then have "k + 1 \<le> length cs" using fat_chain_nz [OF Suc.prems(2)] by simp
    from Suc.IH [OF f1(3) _ this] f1(2) Suc.prems(2) obtain f2 where
      "seek_loop n (chain_at cs (k + 1)) f1 = Inr (chain_at cs (k + 1 + n), f2)" "same_volume f1 f2" "fat_wf f2"
      by (auto simp: same_volume_chain)
    with False f1 show ?thesis by (auto simp: cmd_simps intro: same_volume_trans)
  qed
qed (auto simp: cmd_simps)

section \<open>Cluster contents\<close>

definition cluster_bytes :: "FAT32 \<Rightarrow> u32 \<Rightarrow> byte list" where
  "cluster_bytes fat c =
     dev_read (fat_dev fat) (offsetClusters fat + (unat c - 2) * unat (sectors_per_cluster (bootsec fat)))
       (unat (sectors_per_cluster (bootsec fat)))"

definition contents32 :: "FAT32 \<Rightarrow> u32 list \<Rightarrow> byte list" where
  "contents32 fat cs = concat (map (cluster_bytes fat) cs)"

lemma length_cluster_bytes [simp]: "length (cluster_bytes fat c) = bytesPerCluster fat"
  by (simp add: cluster_bytes_def bytesPerCluster_def)

lemma length_contents32 [simp]: "length (contents32 fat cs) = length cs * bytesPerCluster fat"
  by (induction cs) (auto simp: contents32_def)

lemma same_volume_contents: "same_volume fat fat' \<Longrightarrow> contents32 fat' = contents32 fat"
  by (simp add: contents32_def cluster_bytes_def [abs_def] same_volume_def fun_eq_iff)

lemma contents32_append: "contents32 fat (xs @ ys) = contents32 fat xs @ contents32 fat ys"
  by (simp add: contents32_def)

lemma contents32_sub:
  assumes "j + n \<le> length cs"
  shows "seg (contents32 fat cs) (j * bytesPerCluster fat) (n * bytesPerCluster fat) = contents32 fat (take n (drop j cs))"
proof -
  have "cs = take j cs @ take n (drop j cs) @ drop (j + n) cs"
    by (metis append_take_drop_id drop_drop add.commute)
  then have "contents32 fat cs = contents32 fat (take j cs) @ contents32 fat (take n (drop j cs)) @ contents32 fat (drop (j + n) cs)"
    by (metis contents32_append)
  then show ?thesis using assms by (simp add: seg_def)
qed

lemma cluster_LBA:
  assumes "cluster_ok fat c"
  shows "fat32_cluster_to_LBA fat c = offsetClusters fat + (unat c - 2) * unat (sectors_per_cluster (bootsec fat))"
proof -
  let ?p = "sectors_per_cluster (bootsec fat)"
  have c: "unat (c - 2) = unat c - 2"
    using assms by (simp add: cluster_ok_def unat_sub word_le_nat_alt)
  have p: "unat (ucast ?p :: u32) = unat ?p" using unat_less_byte [of ?p] by (simp add: unsigned_ucast_eq take_bit_nat_eq_self)
  have "(unat c - 2) * unat ?p < 2 ^ 32"
  proof (cases "unat ?p = 0")
    case False
    then have "(unat c - 2) * unat ?p < (unat c - 1) * unat ?p"
      using assms by (intro mult_strict_right_mono) (auto simp: cluster_ok_def)
    also have "\<dots> \<le> 2 ^ 32" using assms unfolding cluster_ok_def by linarith
    finally show ?thesis .
  qed simp
  then show ?thesis
    using c p by (simp add: fat32_cluster_to_LBA_def unat_word_ariths)
qed

lemma run_bytes:
  assumes "cluster_ok fat c" "\<And>m. m < n \<Longrightarrow> unat (cs ! m) = unat c + m" "length cs = n"
  shows "dev_read (fat_dev fat) (fat32_cluster_to_LBA fat c) (n * unat (sectors_per_cluster (bootsec fat))) = contents32 fat cs"
  using assms(2,3)
proof (induction n arbitrary: cs)
  case 0
  then show ?case by (simp add: contents32_def dev_read_def)
next
  case (Suc n)
  let ?p = "unat (sectors_per_cluster (bootsec fat))" and ?d = "fat_dev fat"
  obtain xs x where cs: "cs = xs @ [x]" "length xs = n"
    using Suc.prems(2) by (metis length_Suc_conv_rev)
  have "unat x = unat c + n" using Suc.prems(1) [of n] cs by (simp add: nth_append)
  then have "unat x - 2 = unat c - 2 + n" using assms(1) by (simp add: cluster_ok_def)
  then have x: "offsetClusters fat + (unat x - 2) * ?p = fat32_cluster_to_LBA fat c + n * ?p"
    using assms(1) by (simp add: cluster_LBA add_mult_distrib)
  have "unat (xs ! m) = unat c + m" if "m < n" for m
    using Suc.prems(1) [of m] that cs by (simp add: nth_append)
  then have "dev_read ?d (fat32_cluster_to_LBA fat c) (n * ?p) = contents32 fat xs"
    using cs(2) by (intro Suc.IH)
  moreover have "dev_read ?d (fat32_cluster_to_LBA fat c) (Suc n * ?p) =
      dev_read ?d (fat32_cluster_to_LBA fat c) (n * ?p) @ dev_read ?d (fat32_cluster_to_LBA fat c + n * ?p) ?p"
    using disk.rd_split [of ?d "fat32_cluster_to_LBA fat c" "n * ?p" ?p] by (simp add: add.commute)
  ultimately show ?case
    by (simp add: cs contents32_append) (simp add: contents32_def cluster_bytes_def x)
qed

lemma read_clusters_run:
  assumes wf: "fat_wf fat" and ch: "is_chain fat cs" and n: "j + n \<le> length cs" "0 < n"
    and run: "\<And>m. m < n \<Longrightarrow> unat (cs ! (j + m)) = unat (cs ! j) + m"
  shows "read_clusters (cs ! j) n fat =
    Inr (seg (contents32 fat cs) (j * bytesPerCluster fat) (n * bytesPerCluster fat), fat)"
proof -
  let ?p = "unat (sectors_per_cluster (bootsec fat))"
  have ok: "cluster_ok fat (cs ! j)" "cluster_ok fat (cs ! (j + (n - 1)))"
    using ch n by (auto intro: is_chain_nth)
  have "unat (cs ! (j + (n - 1))) = unat (cs ! j) + (n - 1)" using n by (intro run) simp
  then have e: "unat (cs ! (j + (n - 1))) - 1 = unat (cs ! j) - 2 + n"
    using ok n(2) by (simp add: cluster_ok_def)
  have "fat32_cluster_to_LBA fat (cs ! j) + n * ?p = offsetClusters fat + (unat (cs ! j) - 2 + n) * ?p"
    using ok by (simp add: cluster_LBA add_mult_distrib)
  also have "\<dots> \<le> 2 ^ 32" using ok(2) e by (simp add: cluster_ok_def)
  finally have b: "fat32_cluster_to_LBA fat (cs ! j) + n * ?p \<le> 2 ^ 32" .
  have "dev_read (fat_dev fat) (fat32_cluster_to_LBA fat (cs ! j)) (n * ?p) = contents32 fat (take n (drop j cs))"
    using n run by (intro run_bytes [OF ok(1)]) auto
  moreover have "sata (fat_dev fat)" "0 < n * ?p" using wf n by (auto simp: fat_wf_def unat_gt_0)
  ultimately show ?thesis
    using get_sectors32_run [OF _ b] n by (simp add: read_clusters_def contents32_sub)
qed

end
