(* ===== verification/Fat32_Lookup.thy ===== *)
theory Fat32_Lookup
  imports Fat32_Table
begin

text \<open>
  Looking a name up in a FAT32 directory: the loops over clusters and entries are a search through
  the files of the directory, whose long names are spread over several entries.
\<close>

section \<open>Directories as lists of slots\<close>

text \<open>A slot is an entry with the cluster and the offset it lies at.\<close>

type_synonym slot = "u32 \<times> nat \<times> byte list"

definition cluster_slots :: "FAT32 \<Rightarrow> u32 \<Rightarrow> slot list" where
  "cluster_slots fat c =
     map (\<lambda>k. (c, k * ENTRY_BYTES, seg (cluster_bytes fat c) (k * ENTRY_BYTES) ENTRY_BYTES))
       [0..<bytesPerCluster fat div ENTRY_BYTES]"

definition dir_slots :: "FAT32 \<Rightarrow> u32 list \<Rightarrow> slot list" where
  "dir_slots fat cs = concat (map (cluster_slots fat) cs)"

lemma same_volume_slots: "same_volume fat fat' \<Longrightarrow> dir_slots fat' = dir_slots fat"
  by (simp add: dir_slots_def cluster_slots_def [abs_def] cluster_bytes_def same_volume_def bytesPerCluster_def fun_eq_iff)

fun scan_slots :: "byte list \<Rightarrow> slot list \<Rightarrow> lfn_state \<Rightarrow> slot option res" where
  "scan_slots search [] st = Inr None"
| "scan_slots search ((c, i, e) # r) st =
     bindR (lfn_step e st) (\<lambda>st'.
     if is_named (dec_entry e) then
       bindR (entry_found search e st') (\<lambda>found. if found then Inr (Some (c, i, e)) else scan_slots search r lfn_none)
     else scan_slots search r st')"

lemma scan_entries_slots:
  "scan_slots search (map (\<lambda>k. (c, i + k * ENTRY_BYTES, es ! k)) [0..<length es] @ r) st =
     bindR (scan_entries search es i st) (\<lambda>(hit, st').
       case hit of Some (j, e) \<Rightarrow> Inr (Some (c, j, e)) | None \<Rightarrow> scan_slots search r st')"
proof (induction es arbitrary: i st)
  case (Cons e es)
  have "map (\<lambda>k. (c, i + k * ENTRY_BYTES, (e # es) ! k)) [0..<length (e # es)] =
      (c, i, e) # map (\<lambda>k. (c, (i + ENTRY_BYTES) + k * ENTRY_BYTES, es ! k)) [0..<length es]"
    by (simp add: upt_conv_Cons map_Suc_upt [symmetric] comp_def add.assoc del: upt_Suc)
  then show ?case
    using Cons.IH [of "i + ENTRY_BYTES"]
    by (cases "lfn_step e st"; cases "entry_found search e (projr (lfn_step e st))") auto
qed simp

lemma scan_cluster:
  "scan_slots search (cluster_slots fat c @ r) st =
     bindR (scan_entries search (cluster_entries (cluster_bytes fat c)) 0 st) (\<lambda>(hit, st').
       case hit of Some (j, e) \<Rightarrow> Inr (Some (c, j, e)) | None \<Rightarrow> scan_slots search r st')"
proof -
  have "cluster_slots fat c =
      map (\<lambda>k. (c, 0 + k * ENTRY_BYTES, cluster_entries (cluster_bytes fat c) ! k)) [0..<length (cluster_entries (cluster_bytes fat c))]"
    by (simp add: cluster_slots_def cluster_entries_def)
  then show ?thesis by (simp only: scan_entries_slots)
qed

definition traverse_result :: "slot option \<Rightarrow> FAT32TraverseResult" where
  "traverse_result r = (case r of
     None \<Rightarrow> \<lparr>tr_directory = 0, tr_index = 0, tr_dirEntry = no_entry\<rparr>
   | Some (c, i, e) \<Rightarrow> \<lparr>tr_directory = c, tr_index = of_nat i, tr_dirEntry = dec_entry e\<rparr>)"

lemma read_one_cluster:
  assumes "fat_wf fat" "cluster_ok fat c"
  shows "read_clusters c 1 fat = Inr (cluster_bytes fat c, fat)"
proof -
  let ?p = "unat (sectors_per_cluster (bootsec fat))"
  have "unat c - 1 = unat c - 2 + 1" using assms(2) by (auto simp: cluster_ok_def)
  then have "offsetClusters fat + (unat c - 2) * ?p + 1 * ?p \<le> 2 ^ 32"
    using assms(2) unfolding cluster_ok_def by (simp only: add_mult_distrib add.assoc)
  moreover have "sata (fat_dev fat)" "0 < 1 * ?p" using assms(1) by (auto simp: fat_wf_def unat_gt_0)
  ultimately show ?thesis
    using get_sectors32_run [of fat "offsetClusters fat + (unat c - 2) * ?p" "1 * ?p"]
    by (simp add: read_clusters_def cluster_LBA [OF assms(2)] cluster_bytes_def)
qed

lemma traverse_step:
  assumes "fat_wf fat" "is_chain fat cs" "k < length cs"
  obtains f1 where "same_volume fat f1" "fat_wf f1"
    "\<And>fuel st. traverse_clusters (Suc fuel) search (cs ! k) st fat =
       (case scan_entries search (cluster_entries (cluster_bytes fat (cs ! k))) 0 st of
          Inl x \<Rightarrow> Inl x
        | Inr (Some (i, e), st') \<Rightarrow> Inr (traverse_result (Some (cs ! k, i, e)), fat)
        | Inr (None, st') \<Rightarrow> if k + 1 < length cs then traverse_clusters fuel search (cs ! (k + 1)) st' f1
                             else Inr (traverse_result None, f1))"
proof -
  from FAT_traverse_run [OF assms(1), of "cs ! k"] obtain f1 where
    f1: "fat32_FAT_traverse (cs ! k) fat = Inr (chain_at cs (k + 1), f1)" "same_volume fat f1" "fat_wf f1"
    using chain_next [OF assms(2), of k] assms(3) by (auto simp: chain_at_def [of cs k])
  have "(chain_at cs (k + 1) = 0) = (\<not> k + 1 < length cs)"
    using fat_chain_nz [OF assms(2), of "k + 1"] by (simp only: not_less)
  then have "traverse_clusters (Suc fuel) search (cs ! k) st fat =
       (case scan_entries search (cluster_entries (cluster_bytes fat (cs ! k))) 0 st of
          Inl x \<Rightarrow> Inl x
        | Inr (Some (i, e), st') \<Rightarrow> Inr (traverse_result (Some (cs ! k, i, e)), fat)
        | Inr (None, st') \<Rightarrow> if k + 1 < length cs then traverse_clusters fuel search (cs ! (k + 1)) st' f1
                             else Inr (traverse_result None, f1))" for fuel st
    using read_one_cluster [OF assms(1) is_chain_nth [OF assms(2,3)]] f1(1)
    by (auto simp: cmd_simps traverse_result_def chain_at_def lift_def split: sum.splits option.splits prod.splits)
  with f1 that show ?thesis by blast
qed

text \<open>
  Following the chain with fuel for its clusters is the search through all slots; the loop of
  the source ends on every chain that does.
\<close>

lemma traverse_clusters_run:
  assumes "fat_wf fat" "is_chain fat cs" "k < length cs" "length cs - k \<le> fuel"
  shows "case scan_slots search (dir_slots fat (drop k cs)) st of
      Inl x \<Rightarrow> traverse_clusters fuel search (cs ! k) st fat = Inl x
    | Inr r \<Rightarrow> \<exists>fat'. traverse_clusters fuel search (cs ! k) st fat = Inr (traverse_result r, fat') \<and>
        same_volume fat fat' \<and> fat_wf fat'"
  using assms
proof (induction fuel arbitrary: k st fat)
  case (Suc fuel)
  note wf = Suc.prems(1) and ch = Suc.prems(2) and k = Suc.prems(3)
  have "dir_slots fat (drop k cs) = cluster_slots fat (cs ! k) @ dir_slots fat (drop (k + 1) cs)"
    using k by (simp add: dir_slots_def Cons_nth_drop_Suc [symmetric])
  then have sc: "scan_slots search (dir_slots fat (drop k cs)) st =
      bindR (scan_entries search (cluster_entries (cluster_bytes fat (cs ! k))) 0 st) (\<lambda>(hit, st').
       case hit of Some (j, e) \<Rightarrow> Inr (Some (cs ! k, j, e)) | None \<Rightarrow> scan_slots search (dir_slots fat (drop (k + 1) cs)) st')"
    by (simp only: scan_cluster)
  obtain f1 where f1: "same_volume fat f1" "fat_wf f1" and step:
    "\<And>fuel st. traverse_clusters (Suc fuel) search (cs ! k) st fat =
       (case scan_entries search (cluster_entries (cluster_bytes fat (cs ! k))) 0 st of
          Inl x \<Rightarrow> Inl x
        | Inr (Some (i, e), st') \<Rightarrow> Inr (traverse_result (Some (cs ! k, i, e)), fat)
        | Inr (None, st') \<Rightarrow> if k + 1 < length cs then traverse_clusters fuel search (cs ! (k + 1)) st' f1
                             else Inr (traverse_result None, f1))"
    by (rule traverse_step [OF wf ch k, where search = search]) (rule that)
  have rest: "case scan_slots search (dir_slots fat (drop (k + 1) cs)) st' of
      Inl x \<Rightarrow> traverse_clusters fuel search (cs ! (k + 1)) st' f1 = Inl x
    | Inr r \<Rightarrow> \<exists>fat'. traverse_clusters fuel search (cs ! (k + 1)) st' f1 = Inr (traverse_result r, fat') \<and>
        same_volume fat fat' \<and> fat_wf fat'" if "k + 1 < length cs" for st'
  proof -
    have "length cs - (k + 1) \<le> fuel" "is_chain f1 cs" using Suc.prems(4) f1 ch by (auto simp: same_volume_chain)
    from Suc.IH [OF f1(2) this(2) that this(1), of st'] f1(1) show ?thesis
      by (cases "scan_slots search (dir_slots fat (drop (k + 1) cs)) st'")
        (simp_all add: same_volume_slots, blast intro: same_volume_trans)
  qed
  show ?case
  proof (cases "scan_entries search (cluster_entries (cluster_bytes fat (cs ! k))) 0 st")
    case (Inl x)
    then show ?thesis unfolding step sc by simp
  next
    case (Inr p)
    obtain hit st' where p: "p = (hit, st')" by (cases p)
    show ?thesis
    proof (cases hit)
      case (Some q)
      then show ?thesis unfolding step sc Inr p using wf by (cases q) simp
    next
      case None
      show ?thesis
      proof (cases "k + 1 < length cs")
        case True
        then show ?thesis
          unfolding step sc Inr p None sum.case prod.case option.case bindR_simps if_P [OF True] by (rule rest)
      next
        case False
        then show ?thesis
          unfolding step sc Inr p None using f1 by (simp add: dir_slots_def)
      qed
    qed
  qed
qed simp

section \<open>The files of a directory\<close>

text \<open>
  The characters of one part of a long name, in the order they are copied; the part of a name
  of number \<open>k\<close> holds thirteen characters, the terminator and filler.
\<close>

definition part_chars :: "byte list \<Rightarrow> byte list" where
  "part_chars e = map ((!) e) [1, 3, 5, 7, 9, 14, 16, 18, 20, 22, 24, 28, 30]"

definition name_char :: "byte list \<Rightarrow> nat \<Rightarrow> byte" where
  "name_char nm p = (if p < length nm then nm ! p else if p = length nm then 0 else 0xFF)"

definition is_part :: "byte list \<Rightarrow> nat \<Rightarrow> bool \<Rightarrow> byte list \<Rightarrow> bool" where
  "is_part nm k fin e \<longleftrightarrow> length e = ENTRY_BYTES \<and> e ! 0 = (if fin then of_nat (k + 1) OR LFN_ORDER_FINAL else of_nat (k + 1)) \<and>
     e ! 11 = FAT_ATTRIB_LFN \<and> e ! 12 = 0 \<and> part_chars e = map (name_char nm) [k * 13..<k * 13 + 13]"

text \<open>A file has a long name with its parts, the last one first, or only a short name.\<close>

datatype dir_item =
    Other "byte list" | Short "byte list" | Long "byte list" "byte list list" "byte list"

fun item_ok :: "dir_item \<Rightarrow> bool" where
  "item_ok (Other e) \<longleftrightarrow> length e = ENTRY_BYTES \<and> \<not> is_named (dec_entry e) \<and> \<not> (e ! 11 = FAT_ATTRIB_LFN \<and> e ! 12 = 0)"
| "item_ok (Short e) \<longleftrightarrow> length e = ENTRY_BYTES \<and> is_named (dec_entry e)"
| "item_ok (Long nm ps e) \<longleftrightarrow> length e = ENTRY_BYTES \<and> is_named (dec_entry e) \<and> 0 \<notin> set nm \<and>
     0 < length ps \<and> length ps \<le> 19 \<and> length ps = CEILING_DIVISION (length nm) 13 \<and>
     list_all (\<lambda>j. is_part nm (length ps - 1 - j) (j = 0) (ps ! j)) [0..<length ps]"

fun item_slots :: "dir_item \<Rightarrow> byte list list" where
  "item_slots (Other e) = [e]"
| "item_slots (Short e) = [e]"
| "item_slots (Long nm ps e) = ps @ [e]"

fun item_entry :: "dir_item \<Rightarrow> byte list" where
  "item_entry (Other e) = e"
| "item_entry (Short e) = e"
| "item_entry (Long nm ps e) = e"

definition short_is :: "byte list \<Rightarrow> byte list \<Rightarrow> bool" where
  "short_is search e \<longleftrightarrow> entry_found search e lfn_none = Inr True"

fun item_is :: "byte list \<Rightarrow> dir_item \<Rightarrow> bool" where
  "item_is search (Other e) \<longleftrightarrow> False"
| "item_is search (Short e) \<longleftrightarrow> short_is search e"
| "item_is search (Long nm ps e) \<longleftrightarrow> nm = search"

lemma named_not_lfn: "is_named (dec_entry e) \<Longrightarrow> lfn_step e st = Inr st"
  by (cases st) (auto simp: is_named_def lfn_step_def dec_entry_def FAT_ATTRIB_DIRECTORY_def FAT_ATTRIB_ARCHIVE_def
    FAT_ATTRIB_LFN_def Let_def)

lemma short_step:
  assumes "is_named (dec_entry e)"
  shows "scan_slots search ((c, i, e) # r) lfn_none =
    (if short_is search e then Inr (Some (c, i, e)) else scan_slots search r lfn_none)"
proof -
  have "\<exists>f. entry_found search e lfn_none = Inr f"
    by (auto simp: entry_found_def lfn_none_def Let_def split: option.splits)
  then show ?thesis
    using named_not_lfn [OF assms] assms by (auto simp: short_is_def)
qed

text \<open>The buffer after the parts from the last down to number \<open>k\<close>.\<close>

definition partial_name :: "byte list \<Rightarrow> nat \<Rightarrow> nat \<Rightarrow> byte list" where
  "partial_name nm n k = map (\<lambda>p. if k * 13 \<le> p \<and> p < n * 13 then name_char nm p else 0) [0..<LFN_MAX_TOTAL_CHARS]"

lemma part_copy:
  assumes "length e = ENTRY_BYTES"
  shows "fat32_LFNmem_cpy buf (dec_lfn e) (int k) = wr buf (k * 13) (part_chars e)"
  using assms by (simp add: fat32_LFNmem_cpy_def dec_lfn_def part_chars_def ENTRY_BYTES_def eval_nat_numeral)

lemma part_blit:
  assumes "k < n" "n \<le> 19"
  shows "blit (partial_name nm n (k + 1)) (k * 13) (map (name_char nm) [k * 13..<k * 13 + 13]) = partial_name nm n k"
  using assms by (intro nth_equalityI) (auto simp: partial_name_def nth_blit LFN_MAX_TOTAL_CHARS_def)

lemma lfn_orders:
  "list_all (\<lambda>k. unat ((of_nat (k + 1) OR LFN_ORDER_FINAL) AND NOT LFN_ORDER_FINAL) = k + 1 \<and>
     unat (of_nat (k + 1) AND NOT LFN_ORDER_FINAL) = k + 1 \<and>
     (of_nat (k + 1) OR LFN_ORDER_FINAL) AND LFN_ORDER_FINAL \<noteq> 0 \<and> of_nat (k + 1) AND LFN_ORDER_FINAL = 0) [0..<19]"
  by code_simp

lemma lfn_part_step:
  assumes p: "is_part nm k fin e" and k: "k < n" "n \<le> 19"
  shows "lfn_step e (partial_name nm n (k + 1), l) = Inr (partial_name nm n k, if fin then int k else l)"
proof -
  have o: "e ! 0 = (if fin then of_nat (k + 1) OR LFN_ORDER_FINAL else of_nat (k + 1))" and l: "length e = ENTRY_BYTES"
    and a: "de_attrib (dec_entry e) = FAT_ATTRIB_LFN" "lfn_type (dec_lfn e) = 0"
    using p by (auto simp: is_part_def dec_entry_def dec_lfn_def)
  have m: "unat (e ! 0 AND NOT LFN_ORDER_FINAL) = k + 1" "(e ! 0 AND LFN_ORDER_FINAL \<noteq> 0) = fin"
    using lfn_orders [unfolded list_all_iff, rule_format, of k] k by (auto simp: o simp del: of_nat_add of_nat_Suc)
  have "fat32_LFNmem_cpy (partial_name nm n (k + 1)) (dec_lfn e) (int k) = Inr (partial_name nm n k)"
    using part_copy [OF l] part_blit [OF k] p k
    by (simp add: is_part_def wr_def) (simp add: partial_name_def LFN_MAX_TOTAL_CHARS_def)
  moreover have "int (unat (lfn_order (dec_lfn e) AND NOT LFN_ORDER_FINAL)) - 1 = int k"
    "(lfn_order (dec_lfn e) AND LFN_ORDER_FINAL \<noteq> 0) = fin"
    using m by (simp_all add: dec_lfn_def)
  ultimately show ?thesis
    using a k by (simp only: lfn_step_def Let_def prod.case simp_thms if_True bindR_simps LFN_MAX_def) auto
qed

lemma scan_parts:
  assumes "list_all (\<lambda>j. is_part nm (length ps - 1 - j) (fin \<and> j = 0) (ps ! j)) [0..<length ps]"
    "length ps \<le> n" "n \<le> 19" "map (snd \<circ> snd) sl = ps"
  shows "scan_slots search (sl @ r) (partial_name nm n (length ps), l) =
    scan_slots search r (partial_name nm n 0, if fin \<and> ps \<noteq> [] then int (length ps) - 1 else l)"
  using assms
proof (induction ps arbitrary: sl l fin)
  case (Cons e ps)
  obtain c i sl' where sl: "sl = (c, i, e) # sl'" "map (snd \<circ> snd) sl' = ps"
    using Cons.prems(4) by (cases sl) auto
  have all: "is_part nm (length ps - j) (fin \<and> j = 0) ((e # ps) ! j)" if "j < Suc (length ps)" for j
    using Cons.prems(1) that by (simp add: list_all_iff del: upt_Suc)
  have e: "is_part nm (length ps) fin e" using all [of 0] by simp
  have "is_part nm (length ps - 1 - j) False (ps ! j)" if "j < length ps" for j
    using all [of "Suc j"] that by simp
  then have "list_all (\<lambda>j. is_part nm (length ps - 1 - j) (False \<and> j = 0) (ps ! j)) [0..<length ps]"
    by (simp add: list_all_iff)
  from Cons.IH [OF this _ Cons.prems(3) sl(2)] Cons.prems(2) lfn_part_step [OF e _ Cons.prems(3), of l]
  show ?case
    using e by (simp add: sl is_part_def is_named_def dec_entry_def FAT_ATTRIB_LFN_def FAT_ATTRIB_DIRECTORY_def
      FAT_ATTRIB_ARCHIVE_def)
qed simp

lemma whole_name:
  assumes "length nm \<le> n * 13" "n * 13 < 256" "0 \<notin> set nm"
  shows "lfn_length (partial_name nm n 0) = Inr (length nm)" "take (length nm) (partial_name nm n 0) = nm"
proof -
  have "find (\<lambda>i. partial_name nm n 0 ! i = 0) [0..<LFN_MAX_TOTAL_CHARS] = Some (length nm)"
    using assms
    by (intro find_upt_Some) (auto simp: in_set_conv_nth partial_name_def name_char_def LFN_MAX_TOTAL_CHARS_def)
  then show "lfn_length (partial_name nm n 0) = Inr (length nm)"
    by (simp add: lfn_length_def) (simp add: partial_name_def)
  show "take (length nm) (partial_name nm n 0) = nm"
    using assms by (intro nth_equalityI) (auto simp: partial_name_def name_char_def LFN_MAX_TOTAL_CHARS_def)
qed

lemma partial_none: "partial_name nm n n = replicate LFN_MAX_TOTAL_CHARS 0"
  by (intro nth_equalityI) (auto simp: partial_name_def)

lemma long_step:
  assumes ok: "item_ok (Long nm ps e)" and sl: "map (snd \<circ> snd) sl = ps"
  shows "scan_slots search (sl @ (c, i, e) # r) lfn_none =
    (if nm = search then Inr (Some (c, i, e)) else scan_slots search r lfn_none)"
proof -
  let ?n = "length ps"
  have n: "0 < ?n" "?n \<le> 19" "length nm \<le> ?n * 13" and nz: "0 \<notin> set nm" and e: "is_named (dec_entry e)"
    using ok CEILING_DIVISION_ge [of 13 "length nm"] by (auto simp del: length_greater_0_conv)
  have parts: "list_all (\<lambda>j. is_part nm (?n - 1 - j) (True \<and> j = 0) (ps ! j)) [0..<?n]"
    using ok unfolding item_ok.simps simp_thms by blast
  have "scan_slots search (sl @ (c, i, e) # r) lfn_none =
      scan_slots search ((c, i, e) # r) (partial_name nm ?n 0, int ?n - 1)"
    using scan_parts [OF parts order_refl n(2) sl, of search "(c, i, e) # r" "- 1"] n(1)
    by (auto simp: lfn_none_def partial_none)
  moreover have "entry_found search e (partial_name nm ?n 0, int ?n - 1) = Inr (nm = search)"
    using whole_name [OF n(3) _ nz] n(1,2) by (auto simp: entry_found_def)
  ultimately show ?thesis
    using e by (simp add: named_not_lfn)
qed

lemma scan_items:
  assumes "list_all item_ok items" "map (snd \<circ> snd) sl = concat (map item_slots items)"
  shows "(case find (item_is search) items of
      None \<Rightarrow> scan_slots search (sl @ r) lfn_none = scan_slots search r lfn_none
    | Some it \<Rightarrow> \<exists>c i. scan_slots search (sl @ r) lfn_none = Inr (Some (c, i, item_entry it)) \<and> (c, i, item_entry it) \<in> set sl)"
  using assms
proof (induction items arbitrary: sl)
  case (Cons it items)
  obtain s1 s2 where sl: "sl = s1 @ s2" "map (snd \<circ> snd) s1 = item_slots it" "map (snd \<circ> snd) s2 = concat (map item_slots items)"
    using Cons.prems(2) by (auto simp: map_eq_append_conv)
  have "list_all item_ok items" using Cons.prems(1) by (simp del: item_ok.simps)
  note IH = Cons.IH [OF this sl(3)]
  have "\<exists>s0 c i. s1 = s0 @ [(c, i, item_entry it)] \<and>
      scan_slots search (sl @ r) lfn_none =
        (if item_is search it then Inr (Some (c, i, item_entry it)) else scan_slots search (s2 @ r) lfn_none)"
  proof (cases it)
    case (Other e)
    then obtain c i where s1: "s1 = [(c, i, e)]" using sl(2) by auto
    have "\<not> (de_attrib (dec_entry e) = FAT_ATTRIB_LFN \<and> lfn_type (dec_lfn e) = 0)"
      using Cons.prems(1) Other by (simp add: dec_entry_def dec_lfn_def)
    then have "lfn_step e lfn_none = Inr lfn_none"
      by (simp only: lfn_step_def lfn_none_def Let_def prod.case if_False)
    then show ?thesis
      using Cons.prems(1) by (simp add: sl(1) s1 Other)
  next
    case (Short e)
    then obtain c i where "s1 = [(c, i, e)]" using sl(2) by auto
    then show ?thesis
      using Cons.prems(1) short_step by (simp add: sl(1) Short)
  next
    case (Long nm ps e)
    then obtain s0 c i where s1: "s1 = s0 @ [(c, i, e)]" "map (snd \<circ> snd) s0 = ps"
      using sl(2) by (auto simp: map_eq_append_conv)
    have "item_ok (Long nm ps e)" using Cons.prems(1) Long by (simp del: item_ok.simps)
    from long_step [OF this s1(2), of search c i "s2 @ r"] show ?thesis
      using s1(1) by (simp add: sl(1) Long)
  qed
  then show ?case
    using IH by (auto simp: sl(1) split: option.splits)
qed simp

section \<open>Properties\<close>

definition dir_has :: "FAT32 \<Rightarrow> u32 list \<Rightarrow> dir_item list \<Rightarrow> bool" where
  "dir_has fat cs items \<longleftrightarrow> cs \<noteq> [] \<and> is_chain fat cs \<and> list_all item_ok items \<and>
     map (snd \<circ> snd) (dir_slots fat cs) = concat (map item_slots items)"

lemma slot_cluster: "(c, i, e) \<in> set (dir_slots fat cs) \<Longrightarrow> c \<in> set cs"
  by (auto simp: dir_slots_def cluster_slots_def)

lemma traverse_has:
  assumes "fat_wf fat" "dir_has fat cs items" "length cs \<le> fuel"
  shows "\<exists>res fat'. fat32_traverse fuel (hd cs) search fat = Inr (res, fat') \<and> same_volume fat fat' \<and> fat_wf fat' \<and>
    (case find (item_is search) items of
       None \<Rightarrow> tr_directory res = 0
     | Some it \<Rightarrow> tr_directory res \<in> set cs \<and> tr_dirEntry res = dec_entry (item_entry it))"
proof -
  have d: "cs \<noteq> []" "is_chain fat cs" "list_all item_ok items"
    "map (snd \<circ> snd) (dir_slots fat cs) = concat (map item_slots items)"
    using assms(2) by (auto simp: dir_has_def)
  have hd: "hd cs = cs ! 0" "0 < length cs" using d(1) by (simp_all add: hd_conv_nth)
  note run = traverse_clusters_run [OF assms(1) d(2) hd(2), of fuel search lfn_none]
  show ?thesis
    using scan_items [OF d(3,4), of search "[]"] run assms(3) slot_cluster [of _ _ _ fat cs]
    by (auto simp: fat32_traverse_def hd(1) traverse_result_def split: option.splits)
qed

text \<open>
  C0. Looking a name up in a directory returns the entry of the first file with that name: a
  file with a long name is compared with the name its parts spell, in whatever clusters they lie,
  a file without one by the short-name rule. With fuel for the clusters of the directory the
  search returns; it changes nothing but the cache.
\<close>

theorem fat32_traverse_finds:
  assumes "fat_wf fat" "dir_has fat cs items" "length cs \<le> fuel"
  shows "\<exists>res fat'. fat32_traverse fuel (hd cs) search fat = Inr (res, fat') \<and> same_volume fat fat' \<and> fat_wf fat' \<and>
    (case find (item_is search) items of
       None \<Rightarrow> tr_directory res = 0
     | Some it \<Rightarrow> tr_directory res \<in> set cs \<and> tr_dirEntry res = dec_entry (item_entry it))"
  using assms by (rule traverse_has)

lemma bad_part:
  assumes "e ! 11 = FAT_ATTRIB_LFN" "e ! 12 = 0" "k = unat (e ! 0 AND NOT LFN_ORDER_FINAL)" "k = 0 \<or> 20 \<le> k"
  shows "lfn_step e lfn_none = Inl (if k \<le> 20 then Out_of_bounds else Halted)"
proof -
  have a: "de_attrib (dec_entry e) = FAT_ATTRIB_LFN" "lfn_type (dec_lfn e) = 0"
    "int (unat (lfn_order (dec_lfn e) AND NOT LFN_ORDER_FINAL)) - 1 = int k - 1"
    using assms by (simp_all add: dec_entry_def dec_lfn_def)
  consider "k = 0" | "k = 20" | "20 < k" using assms(4) by linarith
  then show ?thesis
    unfolding lfn_step_def lfn_none_def Let_def a prod.case
    by cases (simp_all add: fat32_LFNmem_cpy_def wr_def LFN_MAX_def LFN_MAX_TOTAL_CHARS_def)
qed

text \<open>
  C0. A part of a long name whose number is out of range stops the search wherever it stands behind
  files with other names: the number of a deleted part (first byte \<open>0xE5\<close>) halts the kernel,
  and the twentieth part, which names of 248 to 255 characters have, or a part numbered 0, is
  written outside the buffer of 256 bytes.
\<close>

theorem fat32_traverse_bad_part:
  assumes "fat_wf fat" "is_chain fat cs" "cs \<noteq> []" "length cs \<le> fuel"
    "map (snd \<circ> snd) (dir_slots fat cs) = concat (map item_slots items) @ e # rest"
    "list_all item_ok items" "find (item_is search) items = None"
    "e ! 11 = FAT_ATTRIB_LFN" "e ! 12 = 0" "k = unat (e ! 0 AND NOT LFN_ORDER_FINAL)" "k = 0 \<or> 20 \<le> k"
  shows "fat32_traverse fuel (hd cs) search fat = Inl (if k \<le> 20 then Out_of_bounds else Halted)"
proof -
  obtain s1 s2 c i where sl: "dir_slots fat cs = s1 @ (c, i, e) # s2" "map (snd \<circ> snd) s1 = concat (map item_slots items)"
    using assms(5) by (auto simp: map_eq_append_conv map_eq_Cons_conv)
  have "scan_slots search (dir_slots fat cs) lfn_none = Inl (if k \<le> 20 then Out_of_bounds else Halted)"
    using scan_items [OF assms(6) sl(2), of search "(c, i, e) # s2"] assms(7) bad_part [OF assms(8-11)] by (simp add: sl(1))
  with traverse_clusters_run [OF assms(1,2), of 0 fuel search lfn_none] assms(3,4) show ?thesis
    by (simp add: fat32_traverse_def hd_conv_nth)
qed

definition blank :: "byte list \<Rightarrow> bool" where
  "blank e \<longleftrightarrow> \<not> is_named (dec_entry e) \<and> \<not> (de_attrib (dec_entry e) = FAT_ATTRIB_LFN \<and> lfn_type (dec_lfn e) = 0)"

lemma scan_blank: "list_all blank es \<Longrightarrow> scan_entries search es i st = Inr (None, st)"
proof (induction es arbitrary: i)
  case (Cons e es)
  then have e: "\<not> is_named (dec_entry e)" "\<not> (de_attrib (dec_entry e) = FAT_ATTRIB_LFN \<and> lfn_type (dec_lfn e) = 0)"
    by (auto simp: blank_def)
  then have "lfn_step e st = Inr st"
    by (cases st) (simp only: lfn_step_def Let_def prod.case if_False)
  then show ?case using Cons e by simp
qed simp

definition closed_clusters :: "FAT32 \<Rightarrow> u32 list \<Rightarrow> bool" where
  "closed_clusters fat cs \<longleftrightarrow> list_all (\<lambda>c. cluster_ok fat c \<and> fat_next fat c \<in> set cs \<and>
     list_all blank (cluster_entries (cluster_bytes fat c))) cs"

lemma same_volume_closed: "same_volume fat fat' \<Longrightarrow> closed_clusters fat' cs = closed_clusters fat cs"
  by (simp add: closed_clusters_def same_volume_next cluster_ok_def cluster_bytes_def) (simp add: same_volume_def)

text \<open>
  C0. On a damaged table, where the chain of a directory leads back into itself and none of its
  clusters holds a file, the search never ends: no amount of fuel gives a result.
\<close>

theorem fat32_traverse_cycle:
  assumes "fat_wf fat" "closed_clusters fat cs" "c \<in> set cs"
  shows "fat32_traverse fuel c search fat = Inl Diverges"
proof -
  have "traverse_clusters fuel search c lfn_none fat = Inl Diverges"
    using assms
  proof (induction fuel arbitrary: c fat)
    case (Suc fuel)
    have c: "cluster_ok fat c" "fat_next fat c \<in> set cs" "list_all blank (cluster_entries (cluster_bytes fat c))"
      using Suc.prems(2,3) by (auto simp: closed_clusters_def list_all_iff)
    obtain f1 where f1: "fat32_FAT_traverse c fat = Inr (fat_next fat c, f1)" "same_volume fat f1" "fat_wf f1"
      using FAT_traverse_run [OF Suc.prems(1)] by blast
    have "cluster_ok fat (fat_next fat c)" using Suc.prems(2) c(2) by (auto simp: closed_clusters_def list_all_iff)
    then have "fat_next fat c \<noteq> 0" by (auto simp: cluster_ok_def)
    moreover have "traverse_clusters fuel search (fat_next fat c) lfn_none f1 = Inl Diverges"
      using Suc.IH [OF f1(3) _ c(2)] Suc.prems(2) f1(2) by (simp add: same_volume_closed)
    ultimately show ?case
      using read_one_cluster [OF Suc.prems(1) c(1)] scan_blank [OF c(3)] f1(1) by (simp add: cmd_simps)
  qed (simp add: cmd_simps)
  then show ?thesis by (simp add: fat32_traverse_def)
qed

end
