(* ===== verification/Fat32_Read.thy ===== *)
theory Fat32_Read
  imports Fat32_Table
begin

text \<open>
  Reading and seeking in a file of a FAT32 volume: whatever the clusters of the file are and
  however many of them lie side by side, a read gives the bytes at the position of the file.
\<close>

section \<open>Copying\<close>

lemma copy_loop_run:
  assumes "limit < 2 ^ 31" "m = min (limit - length out) (filesize - ptr)"
  shows "copy_loop bs limit filesize ptr out = Inr (m < length bs, ptr + min m (length bs), out @ take m bs)"
  using assms
proof (induction bs arbitrary: ptr out m)
  case (Cons b bs)
  show ?case
  proof (cases "limit \<le> length out \<or> filesize \<le> ptr")
    case True
    then have "m = 0" using Cons.prems(2) by auto
    with True show ?thesis by auto
  next
    case False
    then have m: "m = Suc (min (limit - length (out @ [b])) (filesize - (ptr + 1)))"
      using Cons.prems(2) by auto
    have l: "\<not> 2 ^ 31 \<le> length out + 1" using Cons.prems(1) False by linarith
    show ?thesis
      using False l Cons.IH [OF Cons.prems(1) refl, of "ptr + 1" "out @ [b]"] by (simp add: m)
  qed
qed simp

lemma seg_split: "seg b off (m + n) = seg b off m @ seg b (off + m) n"
  by (simp add: seg_def take_add add.commute)

lemma take_seg: "m \<le> n \<Longrightarrow> take m (seg b off n) = seg b off m"
  by (simp add: seg_def min_def)

lemma drop_seg: "drop m (seg b off n) = seg b (off + m) (n - m)"
  by (simp add: seg_def drop_take add.commute)

lemma div_eqI:
  fixes k :: nat
  assumes "k * b \<le> p" "p < (k + 1) * b"
  shows "p div b = k"
  using assms by (metis div_nat_eqI mult.commute Suc_eq_plus1)

lemma div_bounds:
  fixes k :: nat
  assumes "0 < b" "p div b = k"
  shows "k * b \<le> p" "p < (k + 1) * b"
  using assms by (metis div_times_less_eq_dividend, metis dividend_less_div_times add.commute mult_Suc Suc_eq_plus1)

section \<open>The position of an open file\<close>

definition file_size :: "FAT32OpenFd \<Rightarrow> nat" where
  "file_size dir = unat (de_filesize (ff_dirEnt dir))"

text \<open>
  \<open>cs\<close> are the clusters of the file. Inside the file the current cluster is the one of the
  position; at the end of the file it may be any of them, or none.
\<close>

definition pos_ok :: "FAT32 \<Rightarrow> u32 list \<Rightarrow> FAT32OpenFd \<Rightarrow> bool" where
  "pos_ok fat cs dir \<longleftrightarrow> ff_ptr dir \<le> file_size dir \<and>
     (if ff_ptr dir < file_size dir then ff_directoryCurr dir = chain_at cs (ff_ptr dir div bytesPerCluster fat)
      else ff_directoryCurr dir \<in> insert 0 (set cs))"

definition open_ok :: "FAT32 \<Rightarrow> u32 list \<Rightarrow> FAT32OpenFd \<Rightarrow> bool" where
  "open_ok fat cs dir \<longleftrightarrow> is_chain fat cs \<and> \<not> is_directory (ff_dirEnt dir) \<and>
     entry_cluster (ff_dirEnt dir) = chain_at cs 0 \<and> file_size dir \<le> length cs * bytesPerCluster fat \<and> pos_ok fat cs dir"

lemma pos_cluster:
  assumes "open_ok fat cs dir" "0 < bytesPerCluster fat"
  obtains K where "ff_directoryCurr dir = chain_at cs K"
    "ff_ptr dir < file_size dir \<Longrightarrow> ff_ptr dir div bytesPerCluster fat = K"
proof (cases "ff_ptr dir < file_size dir")
  case True
  then show ?thesis using assms(1) that by (auto simp: open_ok_def pos_ok_def)
next
  case False
  then have "ff_directoryCurr dir \<in> insert 0 (set cs)" using assms(1) by (auto simp: open_ok_def pos_ok_def)
  then consider "ff_directoryCurr dir = 0" | i where "i < length cs" "cs ! i = ff_directoryCurr dir"
    by (auto simp: in_set_conv_nth)
  then show ?thesis
  proof cases
    case 1
    then show ?thesis using False that [of "length cs"] by (simp add: chain_at_def)
  next
    case 2
    then show ?thesis using False that [of i] by (simp add: chain_at_def)
  qed
qed

section \<open>The loop over the clusters\<close>

definition consecutive :: "u32 list \<Rightarrow> nat \<Rightarrow> nat \<Rightarrow> bool" where
  "consecutive cs j n \<longleftrightarrow> j + n < length cs \<and> (\<forall>m \<le> n. unat (cs ! (j + m)) = unat (cs ! j) + m)"

lemma consecutive_0: "j < length cs \<Longrightarrow> consecutive cs j 0"
  by (simp add: consecutive_def)

lemma consecutive_Suc:
  assumes ch: "is_chain fat cs" and c: "consecutive cs j n" and nxt: "chain_at cs (j + n + 1) = cs ! (j + n) + 1"
  shows "consecutive cs j (n + 1)"
proof -
  have "cluster_ok fat (cs ! (j + n))" using ch c by (auto simp: consecutive_def intro: is_chain_nth)
  then have u: "unat (cs ! (j + n) + 1) = unat (cs ! (j + n)) + 1"
    by (simp add: cluster_ok_def unat_word_ariths)
  then have "chain_at cs (j + n + 1) \<noteq> 0" using nxt by (metis Suc_eq_plus1 nat.distinct(1) unat_0)
  then have l: "j + n + 1 < length cs" using fat_chain_nz [OF ch] by simp
  moreover from this nxt u have "unat (cs ! (j + (n + 1))) = unat (cs ! (j + n)) + 1"
    by (simp add: chain_at_def add.assoc)
  ultimately show ?thesis
    using c by (auto simp: consecutive_def le_Suc_eq)
qed

lemma fat_read_run:
  assumes "fat_wf fat" "is_chain fat cs" "consecutive cs j n"
  shows "read_clusters (cs ! j) (n + 1) fat =
    Inr (seg (contents32 fat cs) (j * bytesPerCluster fat) ((n + 1) * bytesPerCluster fat), fat)"
  using assms by (intro read_clusters_run) (auto simp: consecutive_def)

lemma read_loop_step:
  assumes i: "i < needed + 1" "length lookup = needed + 1" "lookup ! i \<noteq> 0"
    and nxt: "nxt = (if i < needed then lookup ! (i + 1) else beyond)"
    and start: "start = (case run of None \<Rightarrow> i | Some c \<Rightarrow> c)"
  shows "fat_read_loop beyond needed limit lookup i run dir out fat =
    (if i + 1 \<noteq> needed \<and> nxt = lookup ! i + 1
     then fat_read_loop beyond needed limit lookup (i + 1) (Some start) (dir\<lparr>ff_directoryCurr := lookup ! i\<rparr>) out fat
     else bnd (check Undefined ((i - start + 1) * bytesPerCluster fat < 2 ^ 31)) (\<lambda>_.
          bnd (read_clusters (lookup ! start) (i - start + 1)) (\<lambda>bytes.
          bnd (lift (copy_loop (drop (ff_ptr dir mod bytesPerCluster fat) bytes) limit (file_size dir) (ff_ptr dir) out))
            (\<lambda>(done', ptr, out').
             if done' then ret (dir\<lparr>ff_directoryCurr := lookup ! i, ff_ptr := ptr\<rparr>, out')
             else fat_read_loop beyond needed limit lookup (i + 1) None
                    (dir\<lparr>ff_directoryCurr := lookup ! i, ff_ptr := ptr\<rparr>) out'))) fat)"
  using i by (subst fat_read_loop.simps) (simp add: nxt start Let_def file_size_def)

text \<open>
  What holds at the head of the loop: \<open>c\<close> is the first cluster not copied yet, everything before it
  is in \<open>out\<close>, and the clusters from \<open>c\<close> to \<open>i\<close> lie side by side.
\<close>

definition loop_inv ::
  "FAT32 \<Rightarrow> u32 list \<Rightarrow> nat \<Rightarrow> nat \<Rightarrow> nat \<Rightarrow> nat \<Rightarrow> nat \<Rightarrow> nat \<Rightarrow> nat option \<Rightarrow> FAT32OpenFd \<Rightarrow> byte list \<Rightarrow> bool" where
  "loop_inv fat cs K needed limit P0 c i run dir out \<longleftrightarrow>
     c = (case run of None \<Rightarrow> i | Some x \<Rightarrow> x) \<and> c \<le> i \<and> i \<le> needed + 1 \<and>
     (run \<noteq> None \<longrightarrow> i < needed \<and> consecutive cs (K + c) (i - c)) \<and>
     P0 \<le> ff_ptr dir \<and> ff_ptr dir \<le> file_size dir \<and> ff_ptr dir - P0 \<le> limit \<and>
     (ff_ptr dir < file_size dir \<longrightarrow> ff_ptr dir div bytesPerCluster fat = K + c \<and> P0 div bytesPerCluster fat = K) \<and>
     out = seg (contents32 fat cs) P0 (ff_ptr dir - P0) \<and> ff_directoryCurr dir \<in> insert 0 (set cs)"

definition read_done :: "FAT32 \<Rightarrow> u32 list \<Rightarrow> nat \<Rightarrow> nat \<Rightarrow> FAT32OpenFd \<Rightarrow> FAT32OpenFd \<times> byte list \<Rightarrow> bool" where
  "read_done fat cs limit P0 dir = (\<lambda>(dir', out).
     let m = min limit (file_size dir - P0) in
     dir' = dir\<lparr>ff_ptr := P0 + m, ff_directoryCurr := ff_directoryCurr dir'\<rparr> \<and>
     out = seg (contents32 fat cs) P0 m \<and> pos_ok fat cs dir')"

lemma read_doneI:
  assumes "P = P0 + min limit (file_size dir - P0)" "P \<le> file_size dir" "out = seg (contents32 fat cs) P0 (P - P0)"
    "if P < file_size dir then c = chain_at cs (P div bytesPerCluster fat) else c \<in> insert 0 (set cs)"
  shows "read_done fat cs limit P0 dir (dir\<lparr>ff_directoryCurr := c, ff_ptr := P\<rparr>, out)"
proof -
  have "P - P0 = min limit (file_size dir - P0)" using assms(1) by simp
  then show ?thesis
    using assms(2,3,4) unfolding read_done_def pos_ok_def file_size_def
    by (auto simp: Let_def assms(1) file_size_def split: if_splits)
qed

lemma read_done_upd:
  "read_done fat cs limit P0 (dir\<lparr>ff_directoryCurr := c\<rparr>) r = read_done fat cs limit P0 dir r"
  "read_done fat cs limit P0 (dir\<lparr>ff_directoryCurr := c, ff_ptr := p\<rparr>) r = read_done fat cs limit P0 dir r"
  by (cases r; simp add: read_done_def file_size_def)+

text \<open>The loop leaves without copying when the clusters are at an end.\<close>

lemma read_loop_leave:
  assumes inv: "loop_inv fat cs K needed limit P0 c i run dir out"
    and F: "file_size dir = ff_ptr dir"
  shows "read_done fat cs limit P0 dir (dir, out)"
proof -
  have "read_done fat cs limit P0 dir (dir\<lparr>ff_directoryCurr := ff_directoryCurr dir, ff_ptr := ff_ptr dir\<rparr>, out)"
    using inv F by (intro read_doneI) (auto simp: loop_inv_def)
  then show ?thesis by simp
qed

text \<open>One transfer: the clusters from \<open>c\<close> to \<open>i\<close> are read and copied.\<close>

lemma read_loop_copy:
  assumes wf: "fat_wf fat" and ch: "is_chain fat cs" and small: "limit < 2 ^ 31"
    and inv: "loop_inv fat cs K needed limit P0 c i run dir out"
    and run: "consecutive cs (K + c) (i - c)" and F: "file_size dir \<le> length cs * bytesPerCluster fat"
    and b: "b = bytesPerCluster fat" and L: "L = (i - c + 1) * b - ff_ptr dir mod b"
    and m: "m = min (limit - (ff_ptr dir - P0)) (file_size dir - ff_ptr dir)"
  shows "\<exists>bytes. read_clusters (cs ! (K + c)) (i - c + 1) fat = Inr (bytes, fat) \<and>
      copy_loop (drop (ff_ptr dir mod b) bytes) limit (file_size dir) (ff_ptr dir) out =
        Inr (m < L, ff_ptr dir + min m L, seg (contents32 fat cs) P0 (ff_ptr dir - P0 + min m L))"
proof -
  let ?p = "ff_ptr dir" and ?C = "contents32 fat cs"
  have b0: "0 < b" using bytesPerCluster_pos [OF wf] b by simp
  have l: "length out = ?p - P0"
    using inv F by (auto simp: loop_inv_def min_def)
  define bs where "bs = drop (?p mod b) (seg ?C ((K + c) * b) ((i - c + 1) * b))"
  have "(K + c + (i - c + 1)) * b \<le> length cs * b"
    using run by (intro mult_le_mono1) (simp add: consecutive_def)
  then have fits: "(K + c) * b + (i - c + 1) * b \<le> length ?C" by (simp add: b add_mult_distrib)
  then have len: "length bs = L" by (simp add: bs_def L b)
  have out: "out @ take m bs = seg ?C P0 (?p - P0 + min m L)"
  proof (cases "?p < file_size dir")
    case True
    then have "?p div b = K + c" using inv b by (simp add: loop_inv_def)
    then have "(K + c) * b + ?p mod b = ?p" by (metis div_mult_mod_eq)
    then have "bs = seg ?C ?p L" by (simp add: bs_def drop_seg L)
    then have "take m bs = seg ?C ?p (min m L)"
      by (cases "m \<le> L") (simp_all add: take_seg min_def)
    moreover have "seg ?C P0 (?p - P0 + min m L) = seg ?C P0 (?p - P0) @ seg ?C ?p (min m L)"
      using inv by (simp only: seg_split) (simp add: loop_inv_def)
    ultimately show ?thesis
      using inv by (simp add: loop_inv_def)
  next
    case False
    then have "m = 0" using m by simp
    then show ?thesis using inv by (simp add: loop_inv_def)
  qed
  have "copy_loop bs limit (file_size dir) ?p out = Inr (m < L, ?p + min m L, seg ?C P0 (?p - P0 + min m L))"
    using copy_loop_run [OF small, of m out "file_size dir" ?p bs] m l len out by simp
  then show ?thesis
    using fat_read_run [OF wf ch run] by (auto simp: bs_def b)
qed

text \<open>Where the transfer stops because \<open>limit\<close> bytes are there, the last cluster looked at is the current one.\<close>

lemma stop_position:
  fixes b :: nat
  assumes b: "0 < b" and needed: "needed * b < limit + b" and i: "i < needed \<or> c = i"
    and P: "P0 div b = K" "p div b = K + c" "p + m = P0 + limit" "p + m < (K + i + 1) * b"
  shows "(p + m) div b = K + i"
proof (rule div_eqI [OF _ P(4)])
  from i show "(K + i) * b \<le> p + m"
  proof
    assume "i < needed"
    then have "(i + 1) * b \<le> needed * b" by (intro mult_le_mono1) simp
    then show ?thesis using needed div_bounds(1) [OF b P(1)] P(3) by (simp add: add_mult_distrib)
  next
    assume "c = i"
    then show ?thesis using div_bounds(1) [OF b P(2)] by simp
  qed
qed

lemma loop_inv_next:
  assumes "i \<le> needed" "P0 \<le> q" "q \<le> file_size dir" "q - P0 \<le> limit" "q = (K + i + 1) * b" "P0 div b = K"
    "0 < b" "b = bytesPerCluster fat" "x \<in> set cs"
  shows "loop_inv fat cs K needed limit P0 (i + 1) (i + 1) None (dir\<lparr>ff_directoryCurr := x, ff_ptr := q\<rparr>)
    (seg (contents32 fat cs) P0 (q - P0))"
proof -
  have "q div b = K + (i + 1)" using assms(5,7) by simp
  then show ?thesis using assms by (simp add: loop_inv_def file_size_def)
qed

lemma loop_exhausted:
  assumes inv: "loop_inv fat cs K needed limit P0 c i run dir out" and ch: "is_chain fat cs"
    and b: "0 < b" "b = bytesPerCluster fat" and F: "file_size dir \<le> length cs * b"
    and nb: "limit \<le> needed * b" and stop: "needed < i \<or> chain_at cs (K + i) = 0"
  shows "file_size dir = ff_ptr dir"
proof (rule ccontr)
  assume "file_size dir \<noteq> ff_ptr dir"
  then have lt: "ff_ptr dir < file_size dir" using inv by (auto simp: loop_inv_def)
  have "c = i"
    using inv stop fat_chain_nz [OF ch, of "K + i"] by (cases run) (auto simp: loop_inv_def consecutive_def)
  then have d: "ff_ptr dir div b = K + i" "P0 div b = K"
    using inv lt by (auto simp: loop_inv_def b(2))
  note p = div_bounds(1) [OF b(1) d(1)] and P0 = div_bounds(2) [OF b(1) d(2)]
  from stop show False
  proof
    assume "needed < i"
    then have "(K + needed + 1) * b \<le> (K + i) * b" by (intro mult_le_mono1) simp
    moreover have "ff_ptr dir - P0 \<le> limit" using inv by (simp add: loop_inv_def)
    ultimately show False using p P0 nb by (simp add: add_mult_distrib)
  next
    assume "chain_at cs (K + i) = 0"
    then have "length cs * b \<le> (K + i) * b" using fat_chain_nz [OF ch] by (intro mult_le_mono1) simp
    with p lt F show False by linarith
  qed
qed

text \<open>The run goes on: the next cluster of the chain is the next one on disk.\<close>

lemma loop_more:
  assumes inv: "loop_inv fat cs K needed limit P0 c i run dir out" and ch: "is_chain fat cs"
    and run: "consecutive cs (K + c) (i - c)" and c: "c \<le> i" and i: "i \<le> needed" "i + 1 \<noteq> needed"
    and beyond: "beyond - 1 \<notin> set cs"
    and nxt: "(if i < needed then chain_at cs (K + i + 1) else beyond) = cs ! (K + i) + 1"
  shows "loop_inv fat cs K needed limit P0 c (i + 1) (Some c) (dir\<lparr>ff_directoryCurr := cs ! (K + i)\<rparr>) out"
proof -
  have Ki: "cs ! (K + i) \<in> set cs" using run c by (simp add: consecutive_def)
  have lt: "i < needed"
  proof (rule ccontr)
    assume "\<not> i < needed"
    then have "beyond - 1 = cs ! (K + i)" using nxt by simp
    then show False using beyond Ki by simp
  qed
  then have "consecutive cs (K + c) (i - c + 1)"
    using nxt c by (intro consecutive_Suc [OF ch run]) simp
  then show ?thesis
    using inv Ki lt i c by (auto simp: loop_inv_def file_size_def Suc_diff_le)
qed

lemma fat_read_loop_run:
  assumes wf: "fat_wf fat" and ch: "is_chain fat cs" and F: "file_size dir \<le> length cs * b"
    and b: "b = bytesPerCluster fat" and small: "limit + b < 2 ^ 31"
    and needed: "needed = CEILING_DIVISION limit b" and beyond: "beyond - 1 \<notin> set cs"
    and lookup: "lookup = map (\<lambda>j. chain_at cs (K + j)) [0..<needed + 1]"
    and inv: "loop_inv fat cs K needed limit P0 c i run dir out"
  shows "\<exists>r. fat_read_loop beyond needed limit lookup i run dir out fat = Inr (r, fat) \<and> read_done fat cs limit P0 dir r"
  using inv F
proof (induction "needed + 1 - i" arbitrary: c i run dir out rule: less_induct)
  case less
  note IH = less.hyps and inv = less.prems(1) and F = less.prems(2)
  let ?p = "ff_ptr dir"
  have b0: "0 < b" using bytesPerCluster_pos [OF wf] b by simp
  have nb: "limit \<le> needed * b" "needed * b < limit + b"
    using b0 by (auto simp: needed CEILING_DIVISION_ge CEILING_DIVISION_le)
  have at: "lookup ! j = chain_at cs (K + j)" if "j \<le> needed" for j
    using that by (simp add: lookup del: upt_Suc)
  have len: "length lookup = needed + 1" by (simp add: lookup)
  have c: "c = (case run of None \<Rightarrow> i | Some x \<Rightarrow> x)" "c \<le> i" "i \<le> needed + 1" "?p - P0 \<le> limit" "P0 \<le> ?p"
    "?p \<le> file_size dir"
    using inv by (auto simp: loop_inv_def)
  have inside: "?p div b = K + c" "P0 div b = K" if "?p < file_size dir"
    using inv that b by (auto simp: loop_inv_def)
  show ?case
  proof (cases "needed < i \<or> chain_at cs (K + i) = 0")
    case stop: True
    from loop_exhausted [OF inv ch b0 b F nb(1) stop] read_loop_leave [OF inv] stop at [of i] len c(3) show ?thesis
      by (subst fat_read_loop.simps) (auto simp: cmd_simps)
  next
    case False
    then have cluster: "i \<le> needed" "chain_at cs (K + i) \<noteq> 0" by auto
    then have Ki: "K + i < length cs" using fat_chain_nz [OF ch] by simp
    have run: "consecutive cs (K + c) (i - c)"
      using inv Ki by (cases run) (auto simp: loop_inv_def consecutive_0)
    define nxt where "nxt = (if i < needed then lookup ! (i + 1) else beyond)"
    have nz: "lookup ! i \<noteq> 0" and li: "lookup ! i = cs ! (K + i)" and lc: "lookup ! c = cs ! (K + c)"
      using cluster at [of i] at [of c] c(2) Ki by (auto simp: chain_at_def)
    have "i < needed + 1" using cluster(1) by simp
    note step = read_loop_step [OF this len nz nxt_def c(1), of limit dir out fat]
    show ?thesis
    proof (cases "i + 1 \<noteq> needed \<and> nxt = lookup ! i + 1")
      case more: True
      have "loop_inv fat cs K needed limit P0 c (i + 1) (Some c) (dir\<lparr>ff_directoryCurr := cs ! (K + i)\<rparr>) out"
        using more at [of "i + 1"] li
        by (intro loop_more [OF inv ch run c(2) cluster(1) _ beyond]) (cases "i < needed"; simp add: nxt_def)+
      then have inv': "loop_inv fat cs K needed limit P0 c (i + 1) (Some c) (dir\<lparr>ff_directoryCurr := lookup ! i\<rparr>) out"
        by (simp add: li)
      show ?thesis
        using IH [OF _ inv'] cluster(1) F more step by (simp add: read_done_upd file_size_def)
    next
      case stop: False
      define L where "L = (i - c + 1) * b - ?p mod b"
      define m where "m = min (limit - (?p - P0)) (file_size dir - ?p)"
      define out' where "out' = seg (contents32 fat cs) P0 (?p - P0 + min m L)"
      have pm: "?p mod b < b" using b0 by simp
      then have L0: "0 < L" by (simp add: L_def)
      have small': "(i - c + 1) * b < 2 ^ 31"
      proof (cases "i < needed")
        case True
        then have "(i - c + 1) * b \<le> needed * b" by (intro mult_le_mono1) simp
        with nb(2) small show ?thesis by linarith
      next
        case False
        then have "c = i" using inv by (auto simp: loop_inv_def split: option.splits)
        with small show ?thesis by simp
      qed
      obtain bytes where bytes: "read_clusters (lookup ! c) (i - c + 1) fat = Inr (bytes, fat)"
        "copy_loop (drop (?p mod b) bytes) limit (file_size dir) ?p out = Inr (m < L, ?p + min m L, out')"
        using read_loop_copy [OF wf ch _ inv run _ b L_def m_def] small F lc by (auto simp: b out'_def)
      have copy: "fat_read_loop beyond needed limit lookup i run dir out fat =
          (if m < L then Inr ((dir\<lparr>ff_directoryCurr := lookup ! i, ff_ptr := ?p + min m L\<rparr>, out'), fat)
           else fat_read_loop beyond needed limit lookup (i + 1) None
                  (dir\<lparr>ff_directoryCurr := lookup ! i, ff_ptr := ?p + min m L\<rparr>) out' fat)"
        unfolding step if_not_P [OF stop]
        using small' bytes by (simp add: cmd_simps b)
      have hi: "?p + L = (K + i + 1) * b" if "?p < file_size dir"
      proof -
        have "?p = (K + c) * b + ?p mod b" using inside(1) [OF that] by (metis div_mult_mod_eq)
        moreover have "(K + c) * b + (i - c + 1) * b = (K + i + 1) * b" using c(2) by (simp flip: add_mult_distrib)
        ultimately show ?thesis using pm by (simp add: L_def)
      qed
      show ?thesis
      proof (cases "m < L")
        case True
        have "(?p + m) div b = K + i" if "?p + m < file_size dir"
        proof (rule stop_position [OF b0 nb(2)])
          show "i < needed \<or> c = i" using inv by (auto simp: loop_inv_def split: option.splits)
          show "?p + m = P0 + limit" using that c(4,5) by (simp add: m_def)
        qed (use that hi True inside in auto)
        then have "read_done fat cs limit P0 dir (dir\<lparr>ff_directoryCurr := lookup ! i, ff_ptr := ?p + m\<rparr>, out')"
          using True c(4-6) Ki li at [of i] cluster(1) b
          by (intro read_doneI) (auto simp: m_def out'_def)
        with copy True show ?thesis by simp
      next
        case False
        then have p: "?p < file_size dir" and L: "?p + L \<le> file_size dir" "?p + L - P0 \<le> limit"
          using L0 c(4,5) by (auto simp: m_def)
        have "loop_inv fat cs K needed limit P0 (i + 1) (i + 1) None
            (dir\<lparr>ff_directoryCurr := lookup ! i, ff_ptr := ?p + L\<rparr>) (seg (contents32 fat cs) P0 (?p + L - P0))"
          using c(5) Ki li by (intro loop_inv_next [OF cluster(1) _ L hi [OF p] inside(2) [OF p] b0 b]) auto
        from IH [OF _ this] cluster(1) F copy False c(5) show ?thesis
          by (simp add: read_done_upd file_size_def out'_def)
      qed
    qed
  qed
qed

section \<open>Reading\<close>

lemma same_volume_open: "same_volume fat fat' \<Longrightarrow> open_ok fat' cs dir = open_ok fat cs dir"
  by (simp add: open_ok_def pos_ok_def same_volume_chain same_volume_bytes)

lemma read_done_open:
  assumes "read_done fat cs limit (ff_ptr dir) dir (dir', out)" "open_ok fat cs dir"
  shows "open_ok fat cs dir'" "ff_ptr dir' = ff_ptr dir + length out"
    "out = seg (contents32 fat cs) (ff_ptr dir) (min limit (file_size dir - ff_ptr dir))"
proof -
  obtain c where d: "dir' = dir\<lparr>ff_ptr := ff_ptr dir + min limit (file_size dir - ff_ptr dir), ff_directoryCurr := c\<rparr>"
    and "pos_ok fat cs dir'"
    and out: "out = seg (contents32 fat cs) (ff_ptr dir) (min limit (file_size dir - ff_ptr dir))"
    using assms(1) by (auto simp: read_done_def Let_def)
  then show "open_ok fat cs dir'"
    using assms(2) by (simp add: open_ok_def file_size_def)
  show "out = seg (contents32 fat cs) (ff_ptr dir) (min limit (file_size dir - ff_ptr dir))" by (rule out)
  have "length out = min limit (file_size dir - ff_ptr dir)"
    using assms(2) by (auto simp: out open_ok_def)
  then show "ff_ptr dir' = ff_ptr dir + length out" by (simp add: d)
qed

lemma fat32_read_run:
  assumes wf: "fat_wf fat" and op: "open_ok fat cs dir" and small: "limit + bytesPerCluster fat < 2 ^ 31"
    and beyond: "beyond - 1 \<notin> set cs"
  obtains dir' fat' where "fat32_read beyond limit dir fat =
      Inr ((seg (contents32 fat cs) (ff_ptr dir) (min limit (file_size dir - ff_ptr dir)), dir'), fat')"
    "ff_ptr dir' = ff_ptr dir + min limit (file_size dir - ff_ptr dir)"
    "same_volume fat fat'" "fat_wf fat'" "open_ok fat' cs dir'"
proof -
  define b where "b = bytesPerCluster fat"
  have b0: "0 < b" using bytesPerCluster_pos [OF wf] b_def by simp
  define needed where "needed = CEILING_DIVISION limit b"
  have ch: "is_chain fat cs" and F: "file_size dir \<le> length cs * b"
    using op by (auto simp: open_ok_def b_def)
  obtain K where K: "ff_directoryCurr dir = chain_at cs K" "ff_ptr dir < file_size dir \<Longrightarrow> ff_ptr dir div b = K"
    using pos_cluster [OF op] b0 by (auto simp: b_def)
  define lookup where "lookup = map (\<lambda>j. chain_at cs (K + j)) [0..<needed + 1]"
  obtain f1 where f1: "fat32_FAT_chain (chain_at cs K) needed fat = Inr (lookup, f1)" "same_volume fat f1" "fat_wf f1"
    using FAT_chain_run [OF wf ch] unfolding lookup_def by blast
  have b1: "bytesPerCluster f1 = b" using f1(2) by (simp add: same_volume_bytes b_def)
  have "loop_inv f1 cs K needed limit (ff_ptr dir) 0 0 None dir []"
    using K op b1 chain_at_set [of cs K] by (auto simp: loop_inv_def open_ok_def pos_ok_def)
  moreover have "is_chain f1 cs" "limit + b < 2 ^ 31" using ch f1(2) small by (auto simp: same_volume_chain b_def)
  ultimately obtain dir' out where r: "fat_read_loop beyond needed limit lookup 0 None dir [] f1 = Inr ((dir', out), f1)"
      "read_done f1 cs limit (ff_ptr dir) dir (dir', out)"
    using fat_read_loop_run [OF f1(3) _ F b1 [symmetric] _ needed_def beyond lookup_def] by (metis surj_pair)
  have op1: "open_ok f1 cs dir" using op f1(2) by (simp add: same_volume_open)
  note rd = read_done_open [OF r(2) op1]
  have "needed * b < limit + b" using b0 by (simp add: needed_def CEILING_DIVISION_le)
  moreover have "needed * 1 \<le> needed * b" using b0 by (intro mult_le_mono2) simp
  ultimately have "needed + 1 < 2 ^ 31" using small unfolding b_def [symmetric] by linarith
  then have "fat32_read beyond limit dir fat = Inr ((out, dir'), f1)"
    using f1(1) r(1) K(1) b0 op by (simp add: fat32_read_def cmd_simps open_ok_def b_def needed_def Let_def)
  moreover have "length out = min limit (file_size dir - ff_ptr dir)"
    using rd(3) op1 by (auto simp: open_ok_def)
  ultimately show ?thesis
    using that [of dir' f1] rd f1 by (simp add: same_volume_contents)
qed

section \<open>Seeking\<close>

lemma fat32_seek_run:
  assumes wf: "fat_wf fat" and op: "open_ok fat cs dir"
    and t: "t = (if whence = SEEK_CURR then (target + ff_ptr dir) mod 2 ^ 64 else target)" "t \<le> file_size dir"
  obtains fat' dir' where "fat32_seek target whence dir fat = Inr ((of_nat t, dir'), fat')" "ff_ptr dir' = t"
    "ff_dirEnt dir' = ff_dirEnt dir" "same_volume fat fat'" "fat_wf fat'" "open_ok fat' cs dir'"
proof -
  define b where "b = bytesPerCluster fat"
  have b0: "0 < b" using bytesPerCluster_pos [OF wf] b_def by simp
  have ch: "is_chain fat cs" using op by (simp add: open_ok_def)
  define rew where "rew = (t < ff_ptr dir \<or> 2 ^ 31 \<le> ff_ptr dir)"
  define old where "old = (if rew then 0 else ff_ptr dir)"
  define c where "c = (if rew then entry_cluster (ff_dirEnt dir) else ff_directoryCurr dir)"
  have step: "fat32_seek target whence dir fat =
      bnd (seek_loop (t div b - old div b) c) (\<lambda>c'. ret (of_nat t, dir\<lparr>ff_ptr := t, ff_directoryCurr := c'\<rparr>)) fat"
    using op t b0 by (simp add: fat32_seek_def cmd_simps Let_def rew_def old_def c_def b_def open_ok_def file_size_def)
  have good: "open_ok fat' cs (dir\<lparr>ff_ptr := t, ff_directoryCurr := x\<rparr>)"
    if "same_volume fat fat'" "if t < file_size dir then x = chain_at cs (t div b) else x \<in> insert 0 (set cs)" for fat' x
    using that op t(2) by (auto simp: same_volume_open open_ok_def pos_ok_def file_size_def b_def same_volume_chain same_volume_bytes)
  show ?thesis
  proof (cases "rew \<or> ff_ptr dir < file_size dir")
    case True
    define K where "K = old div b"
    have "c = chain_at cs K" and K: "K \<le> length cs" "K \<le> t div b"
    proof -
      have "ff_ptr dir div b < length cs" if "ff_ptr dir < file_size dir"
        using that op by (intro less_mult_imp_div_less) (simp add: open_ok_def b_def)
      then show "c = chain_at cs K" "K \<le> length cs" "K \<le> t div b"
        using True op unfolding K_def old_def c_def
        by (cases rew; auto simp: open_ok_def pos_ok_def b_def rew_def intro: div_le_mono)+
    qed
    with seek_loop_run [OF wf ch K(1), of "t div b - K"] obtain fat' where
      "seek_loop (t div b - K) c fat = Inr (chain_at cs (t div b), fat')" "same_volume fat fat'" "fat_wf fat'"
      by auto
    with step that [of "dir\<lparr>ff_ptr := t, ff_directoryCurr := chain_at cs (t div b)\<rparr>" fat'] good [of fat'] chain_at_set [of cs]
    show ?thesis by (simp add: cmd_simps K_def)
  next
    case False
    then have "t = ff_ptr dir" "\<not> t < file_size dir" using t(2) by (auto simp: rew_def)
    moreover have "ff_directoryCurr dir \<in> insert 0 (set cs)"
      using op False by (simp add: open_ok_def pos_ok_def)
    ultimately show ?thesis
      using step False that [of "dir\<lparr>ff_ptr := t, ff_directoryCurr := ff_directoryCurr dir\<rparr>" fat]
        good [of fat "ff_directoryCurr dir"] wf by (simp add: cmd_simps old_def c_def)
  qed
qed

section \<open>Properties\<close>

text \<open>
  C0. A lookup in the file allocation table gives the entry that is on disk, with the end and bad
  marks as 0, whether the sector comes from the cache or not; the cache stays coherent and
  nothing else of the volume changes.
\<close>

theorem fat32_FAT_traverse_disk:
  assumes "fat_wf fat"
  shows "\<exists>fat'. fat32_FAT_traverse c fat = Inr (fat_next fat c, fat') \<and> same_volume fat fat' \<and> fat_wf fat'"
  using assms by (rule FAT_traverse_run)

text \<open>
  C0. Reading gives the bytes of the file from its position on, as many as asked for and as
  there are before its end, whatever runs of clusters they lie in. The position moves by that
  amount and the next read goes on there. (The memory after the list of clusters is not the
  successor of a cluster of the file: the loop compares with it.)
\<close>

theorem fat32_read_contents:
  assumes "fat_wf fat" "open_ok fat cs dir" "limit + bytesPerCluster fat < 2 ^ 31" "beyond - 1 \<notin> set cs"
  shows "\<exists>dir' fat'. fat32_read beyond limit dir fat =
      Inr ((seg (contents32 fat cs) (ff_ptr dir) (min limit (file_size dir - ff_ptr dir)), dir'), fat') \<and>
    ff_ptr dir' = ff_ptr dir + min limit (file_size dir - ff_ptr dir) \<and>
    same_volume fat fat' \<and> fat_wf fat' \<and> open_ok fat' cs dir'"
  by (rule fat32_read_run [OF assms]) blast

text \<open>
  C0. A seek inside the file, forwards or backwards, moves the position there, and the read that
  follows gives the bytes at that position.
\<close>

theorem fat32_seek_then_read:
  assumes "fat_wf fat" "open_ok fat cs dir" "limit + bytesPerCluster fat < 2 ^ 31" "beyond - 1 \<notin> set cs"
    "whence \<noteq> SEEK_CURR" "target \<le> file_size dir"
  shows "\<exists>dir' fat'. bnd (fat32_seek target whence dir) (\<lambda>(r, dir'). bnd (fat32_read beyond limit dir') (\<lambda>(bytes, dir'').
      ret (r, bytes, dir''))) fat =
    Inr ((of_nat target, seg (contents32 fat cs) target (min limit (file_size dir - target)), dir'), fat') \<and>
    ff_ptr dir' = target + min limit (file_size dir - target) \<and> fat_wf fat' \<and> open_ok fat' cs dir'"
proof -
  have "target = (if whence = SEEK_CURR then (target + ff_ptr dir) mod 2 ^ 64 else target)" using assms(5) by simp
  note seek = fat32_seek_run [OF assms(1,2) this assms(6)]
  obtain f1 d1 where s: "fat32_seek target whence dir fat = Inr ((of_nat target, d1), f1)" "ff_ptr d1 = target"
      "ff_dirEnt d1 = ff_dirEnt dir" "same_volume fat f1" "fat_wf f1" "open_ok f1 cs d1"
    by (rule seek)
  have "limit + bytesPerCluster f1 < 2 ^ 31" using assms(3) s(4) by (simp add: same_volume_bytes)
  note read = fat32_read_run [OF s(5,6) this assms(4)]
  have sz: "file_size d1 = file_size dir" using s(3) by (simp add: file_size_def)
  obtain d2 f2 where
    r: "fat32_read beyond limit d1 f1 = Inr ((seg (contents32 f1 cs) target (min limit (file_size dir - target)), d2), f2)"
      "ff_ptr d2 = target + min limit (file_size dir - target)" "fat_wf f2" "open_ok f2 cs d2"
    by (rule read) (simp add: s(2) sz)
  then show ?thesis
    using s(1,4) by (simp add: cmd_simps same_volume_contents)
qed

end
