(* ===== verification/Fat32_Open.thy ===== *)
theory Fat32_Open
  imports Fat32_Lookup Fat32_Read
begin

text \<open>
  Paths on a FAT32 volume: resolving a path is a walk through the directories, and opening a file
  and reading it gives its contents.
\<close>

section \<open>Scanning a path\<close>

lemma path_go:
  assumes "i + 1 < length path" "path ! i \<noteq> slash"
  shows "path_clusters fuel path i l d = path_clusters fuel path (i + 1) l d"
proof -
  have "i < length path" "i \<noteq> length path - 1" using assms(1) by auto
  with assms(2) show ?thesis by (subst path_clusters.simps) (simp add: Let_def)
qed

lemma path_stop:
  assumes "i < length path" "path ! i = slash \<or> i + 1 = length path"
  shows "path_clusters fuel path i l d =
    bnd (fat32_traverse fuel d (seg path (l + 1) (i - l - 1 + (if i + 1 = length path then 1 else 0)))) (\<lambda>res.
      if tr_directory res = 0 \<or> i + 1 = length path then ret res
      else path_clusters fuel path (i + 1) i (entry_cluster (tr_dirEntry res)))"
proof -
  have "(i = length path - 1) = (i + 1 = length path)" using assms(1) by auto
  with assms show ?thesis unfolding entry_cluster_def by (subst path_clusters.simps) (simp add: Let_def)
qed

lemma path_skip:
  assumes "\<And>j. i \<le> j \<Longrightarrow> j < i + m \<Longrightarrow> path ! j \<noteq> slash" "i + m < length path"
  shows "path_clusters fuel path i l d = path_clusters fuel path (i + m) l d"
  using assms
proof (induction m)
  case (Suc m)
  have "path_clusters fuel path (i + m) l d = path_clusters fuel path (i + m + 1) l d"
    using Suc.prems by (intro path_go) auto
  then show ?case using Suc by simp
qed simp

definition path_of :: "byte list list \<Rightarrow> byte list" where
  "path_of comps = concat (map (\<lambda>c. slash # c) comps)"

definition comp_ok :: "byte list \<Rightarrow> bool" where
  "comp_ok c \<longleftrightarrow> c \<noteq> [] \<and> slash \<notin> set c"

text \<open>One component: the characters up to the next slash or the end of the path.\<close>

lemma path_component:
  assumes c: "comp_ok c" and path: "path = pre @ slash # c @ post" and l: "l = length pre"
    and post: "post = [] \<or> (\<exists>r. post = slash # r \<and> r \<noteq> [])"
  shows "path_clusters fuel path (l + 1) l d =
    bnd (fat32_traverse fuel d c) (\<lambda>res.
      if tr_directory res = 0 \<or> post = [] then ret res
      else path_clusters fuel path (l + 1 + length c + 1) (l + 1 + length c) (entry_cluster (tr_dirEntry res)))"
proof -
  let ?n = "length c"
  have n: "0 < ?n" "length path = l + 1 + ?n + length post" "seg path (l + 1) ?n = c"
    using c by (auto simp: path l comp_ok_def seg_def)
  have free: "path ! j \<noteq> slash" if "l + 1 \<le> j" "j < l + 1 + ?n" for j
  proof -
    have "path ! j = c ! (j - (l + 1))" "j - (l + 1) < ?n" using that by (auto simp: path l nth_append nth_Cons')
    then show ?thesis using c by (metis comp_ok_def nth_mem)
  qed
  show ?thesis
  proof (cases "post = []")
    case True
    have "path_clusters fuel path (l + 1) l d = path_clusters fuel path (l + 1 + (?n - 1)) l d"
      using n(1,2) True by (intro path_skip free) simp_all
    moreover have "l + ?n < length path" "l + ?n + 1 = length path" using n(2) True by simp_all
    moreover have "l + 1 + (?n - 1) = l + ?n" "l + ?n - l - 1 + 1 = ?n" using n(1) by simp_all
    ultimately show ?thesis
      using path_stop [of "l + ?n" path fuel l d] n(3) True by (simp only: simp_thms if_True)
  next
    case False
    have "path_clusters fuel path (l + 1) l d = path_clusters fuel path (l + 1 + ?n) l d"
      using n(2) False by (intro path_skip free) simp_all
    moreover obtain r where r: "post = slash # r" "r \<noteq> []" using False post by blast
    moreover have "path ! (l + 1 + ?n) = slash" by (simp add: path l r(1) nth_append)
    moreover have "l + 1 + ?n < length path" "l + 1 + ?n + 1 \<noteq> length path" by (simp_all add: n(2) r)
    ultimately show ?thesis
      using path_stop [of "l + 1 + ?n" path fuel l d] n(3) False by simp
  qed
qed

section \<open>Walking\<close>

text \<open>
  \<open>chain d\<close> and \<open>dirs d\<close> are the clusters and the files of the directory that starts at cluster \<open>d\<close>.
\<close>

fun walk32 :: "(u32 \<Rightarrow> dir_item list) \<Rightarrow> u32 \<Rightarrow> byte list list \<Rightarrow> dir_item option" where
  "walk32 dirs d [] = None"
| "walk32 dirs d (c # cs) = (case find (item_is c) (dirs d) of
     None \<Rightarrow> None
   | Some it \<Rightarrow> if cs = [] then Some it else walk32 dirs (entry_cluster (dec_entry (item_entry it))) cs)"

fun walkable :: "FAT32 \<Rightarrow> nat \<Rightarrow> (u32 \<Rightarrow> u32 list) \<Rightarrow> (u32 \<Rightarrow> dir_item list) \<Rightarrow> u32 \<Rightarrow> byte list list \<Rightarrow> bool" where
  "walkable fat fuel chain dirs d [] \<longleftrightarrow> True"
| "walkable fat fuel chain dirs d (c # cs) \<longleftrightarrow>
     dir_has fat (chain d) (dirs d) \<and> hd (chain d) = d \<and> length (chain d) \<le> fuel \<and>
     (case find (item_is c) (dirs d) of None \<Rightarrow> True
      | Some it \<Rightarrow> walkable fat fuel chain dirs (entry_cluster (dec_entry (item_entry it))) cs)"

lemma same_volume_walkable: "same_volume fat fat' \<Longrightarrow> walkable fat' fuel chain dirs d cs = walkable fat fuel chain dirs d cs"
  by (induction cs arbitrary: d) (auto simp: dir_has_def same_volume_chain same_volume_slots split: option.splits)

definition walk_result :: "dir_item option \<Rightarrow> FAT32TraverseResult \<Rightarrow> bool" where
  "walk_result r res \<longleftrightarrow> (case r of None \<Rightarrow> tr_directory res = 0
     | Some it \<Rightarrow> tr_directory res \<noteq> 0 \<and> tr_dirEntry res = dec_entry (item_entry it))"

lemma traverse_walk:
  assumes "fat_wf fat" "dir_has fat cs items" "length cs \<le> fuel"
  shows "\<exists>res fat'. fat32_traverse fuel (hd cs) search fat = Inr (res, fat') \<and> same_volume fat fat' \<and> fat_wf fat' \<and>
    walk_result (find (item_is search) items) res"
proof -
  have "c \<noteq> 0" if c: "c \<in> set cs" for c
  proof -
    obtain i where "i < length cs" "c = cs ! i" using c by (auto simp: in_set_conv_nth)
    then show ?thesis using assms(2) is_chain_nth [of fat cs i] by (auto simp: dir_has_def cluster_ok_def)
  qed
  then show ?thesis
    using traverse_has [OF assms, of search] by (auto simp: walk_result_def split: option.splits)
qed

lemma path_of_shape: "list_all comp_ok cs \<Longrightarrow> path_of cs = [] \<or> (\<exists>r. path_of cs = slash # r \<and> r \<noteq> [])"
  by (cases cs) (auto simp: path_of_def comp_ok_def)

lemma path_clusters_run:
  assumes "fat_wf fat" "walkable fat fuel chain dirs d comps" "comps \<noteq> []" "list_all comp_ok comps"
    "path = pre @ path_of comps" "l = length pre"
  shows "\<exists>res fat'. path_clusters fuel path (l + 1) l d fat = Inr (res, fat') \<and> same_volume fat fat' \<and> fat_wf fat' \<and>
    walk_result (walk32 dirs d comps) res"
  using assms
proof (induction comps arbitrary: d fat pre l)
  case (Cons c cs)
  have w: "comp_ok c" "dir_has fat (chain d) (dirs d)" "hd (chain d) = d" "length (chain d) \<le> fuel"
    using Cons.prems(2,4) by auto
  obtain res f1 where t: "fat32_traverse fuel d c fat = Inr (res, f1)" "same_volume fat f1" "fat_wf f1"
      "walk_result (find (item_is c) (dirs d)) res"
    using traverse_walk [OF Cons.prems(1) w(2,4), of c] by (auto simp: w(3))
  have step: "path_clusters fuel path (l + 1) l d =
    bnd (fat32_traverse fuel d c) (\<lambda>res.
      if tr_directory res = 0 \<or> path_of cs = [] then ret res
      else path_clusters fuel path (l + 1 + length c + 1) (l + 1 + length c) (entry_cluster (tr_dirEntry res)))"
  proof (rule path_component [OF w(1) _ Cons.prems(6)])
    show "path = pre @ slash # c @ path_of cs" using Cons.prems(5) by (simp add: path_of_def)
    show "path_of cs = [] \<or> (\<exists>r. path_of cs = slash # r \<and> r \<noteq> [])"
      using Cons.prems(4) by (intro path_of_shape) simp
  qed
  show ?case
  proof (cases "find (item_is c) (dirs d)")
    case None
    then show ?thesis using t step by (auto simp: cmd_simps walk_result_def)
  next
    case (Some it)
    have e: "tr_directory res \<noteq> 0" "tr_dirEntry res = dec_entry (item_entry it)" using t(4) Some by (auto simp: walk_result_def)
    show ?thesis
    proof (cases "cs = []")
      case True
      then show ?thesis using t step e Some by (auto simp: cmd_simps walk_result_def path_of_def)
    next
      case False
      have "walkable f1 fuel chain dirs (entry_cluster (dec_entry (item_entry it))) cs"
        using Cons.prems(2) Some t(2) by (simp add: same_volume_walkable)
      from Cons.IH [OF t(3) this False, of "pre @ slash # c" "l + 1 + length c"] Cons.prems(4-6) obtain res' f2 where
        "path_clusters fuel path (l + 1 + length c + 1) (l + 1 + length c) (entry_cluster (dec_entry (item_entry it))) f1 =
          Inr (res', f2)" "same_volume f1 f2" "fat_wf f2"
        "walk_result (walk32 dirs (entry_cluster (dec_entry (item_entry it))) cs) res'"
        by (auto simp: path_of_def)
      moreover have "path_of cs \<noteq> []" using False by (cases cs) (auto simp: path_of_def)
      ultimately show ?thesis
        using t step e Some False by (auto simp: cmd_simps intro: same_volume_trans)
    qed
  qed
qed simp

section \<open>Opening\<close>

lemma path_of_length: "comps \<noteq> [] \<Longrightarrow> list_all comp_ok comps \<Longrightarrow> length (path_of comps) \<noteq> 1"
  by (cases comps) (auto simp: path_of_def comp_ok_def)

abbreviation root32 :: "FAT32 \<Rightarrow> u32" where
  "root32 fat \<equiv> root_cluster (extended_section (bootsec fat))"

lemma traverse_path_run:
  assumes "fat_wf fat" "walkable fat fuel chain dirs d comps" "comps \<noteq> []" "list_all comp_ok comps"
  shows "\<exists>res fat'. fat32_traverse_path fuel (path_of comps) d fat = Inr (res, fat') \<and> same_volume fat fat' \<and>
    fat_wf fat' \<and> walk_result (walk32 dirs d comps) res"
  using path_clusters_run [OF assms, of "path_of comps" "[]" 0] path_of_length [OF assms(3,4)]
  by (simp add: fat32_traverse_path_def)

text \<open>The clusters and the size of a regular file fit together.\<close>

definition file_ok :: "FAT32 \<Rightarrow> FAT32DirectoryEntry \<Rightarrow> u32 list \<Rightarrow> bool" where
  "file_ok fat e cs \<longleftrightarrow> \<not> is_directory e \<and> is_chain fat cs \<and> entry_cluster e = chain_at cs 0 \<and>
     unat (de_filesize e) \<le> length cs * bytesPerCluster fat"

lemma open_run:
  assumes wf: "fat_wf fat" and walk: "walkable fat fuel chain dirs (root32 fat) comps" "comps \<noteq> []" "list_all comp_ok comps"
    and flags: "\<not> has_flag flags O_CREAT" "\<not> has_flag flags O_WRONLY" "\<not> has_flag flags O_RDWR"
    and it: "walk32 dirs (root32 fat) comps = Some it" "file_ok fat (dec_entry (item_entry it)) cs"
  obtains dir fat' where "fat32_open fuel (path_of comps) flags fat = Inr ((0, Some (dir, None)), fat')"
    "same_volume fat fat'" "fat_wf fat'" "open_ok fat' cs dir" "ff_ptr dir = 0" "ff_dirEnt dir = dec_entry (item_entry it)"
proof -
  obtain res f1 where r: "fat32_traverse_path fuel (path_of comps) (root32 fat) fat = Inr (res, f1)"
      "same_volume fat f1" "fat_wf f1" "tr_directory res \<noteq> 0" "tr_dirEntry res = dec_entry (item_entry it)"
    using traverse_path_run [OF wf walk] it(1) by (auto simp: walk_result_def)
  define dir where "dir = \<lparr>ff_ptr = 0, ff_index = tr_index res, ff_directoryStarting = tr_directory res,
    ff_directoryCurr = entry_cluster (tr_dirEntry res), ff_dirEnt = tr_dirEntry res\<rparr>"
  have "fat32_open fuel (path_of comps) flags fat = Inr ((0, Some (dir, None)), f1)"
    using flags r it(2) by (simp add: fat32_open_def cmd_simps dir_def file_ok_def)
  moreover have "open_ok f1 cs dir"
    using it(2) r(2,5) chain_at_set [of cs 0]
    by (auto simp: same_volume_chain same_volume_bytes open_ok_def pos_ok_def file_ok_def dir_def file_size_def)
  ultimately show ?thesis
    using that [of dir f1] r by (simp add: dir_def)
qed

text \<open>
  C0. Opening a file by its path and reading it gives its contents from the start: the path is
  walked through the directories of the volume, the file is the one the walk ends at, and the
  bytes are those of its clusters, cut at its size.
\<close>

theorem fat32_open_then_read:
  assumes "fat_wf fat" "walkable fat fuel chain dirs (root32 fat) comps" "comps \<noteq> []" "list_all comp_ok comps"
    "\<not> has_flag flags O_CREAT" "\<not> has_flag flags O_WRONLY" "\<not> has_flag flags O_RDWR"
    "walk32 dirs (root32 fat) comps = Some it" "file_ok fat (dec_entry (item_entry it)) cs"
    "limit + bytesPerCluster fat < 2 ^ 31" "beyond - 1 \<notin> set cs"
  shows "\<exists>dir dir' f1 f2. fat32_open fuel (path_of comps) flags fat = Inr ((0, Some (dir, None)), f1) \<and>
    fat32_read beyond limit dir f1 =
      Inr ((take (min limit (unat (de_filesize (dec_entry (item_entry it))))) (contents32 fat cs), dir'), f2) \<and>
    fat_wf f2 \<and> open_ok f2 cs dir'"
proof -
  obtain dir f1 where o: "fat32_open fuel (path_of comps) flags fat = Inr ((0, Some (dir, None)), f1)"
    "same_volume fat f1" "fat_wf f1" "open_ok f1 cs dir" "ff_ptr dir = 0" "ff_dirEnt dir = dec_entry (item_entry it)"
    by (rule open_run [OF assms(1-9)]) (rule that)
  have "limit + bytesPerCluster f1 < 2 ^ 31" using assms(10) o(2) by (simp add: same_volume_bytes)
  note rd = fat32_read_run [OF o(3,4) this assms(11)]
  obtain dir' f2 where "fat32_read beyond limit dir f1 =
      Inr ((seg (contents32 f1 cs) 0 (min limit (unat (de_filesize (dec_entry (item_entry it))))), dir'), f2)"
    "fat_wf f2" "open_ok f2 cs dir'"
    by (rule rd) (simp add: o(5,6) file_size_def)
  then show ?thesis
    using o(1,2) by (auto simp: seg_def same_volume_contents)
qed

text \<open>
  C0. The driver is read-only: opening for writing or creation is refused before the volume is
  looked at, and a path that leads nowhere gives ENOENT.
\<close>

theorem fat32_open_errors:
  assumes "fat_wf fat" "walkable fat fuel chain dirs (root32 fat) comps" "comps \<noteq> []" "list_all comp_ok comps"
    "walk32 dirs (root32 fat) comps = None"
  shows "\<exists>fat'. fat32_open fuel (path_of comps) flags fat =
      Inr ((if has_flag flags O_CREAT \<or> has_flag flags O_WRONLY \<or> has_flag flags O_RDWR then - int EROFS else - int ENOENT,
            None), fat') \<and> same_volume fat fat' \<and> fat_wf fat'"
  using traverse_path_run [OF assms(1-4)] assms(1,5)
  by (auto simp: fat32_open_def cmd_simps walk_result_def)

end
