(* ===== verification/Fat32_Demo.thy ===== *)
theory Fat32_Demo
  imports Fat32_Open
begin

text \<open>
  A small FAT32 volume for the witnesses: one sector per cluster, the root directory in cluster 2 with
  the file \<^verbatim>\<open>notes.txt\<close> of 1000 bytes in the clusters 3, 4 and 6, a cluster 7 that
  leads to itself, and a directory in cluster 8 from which a file with a long name was deleted.
\<close>

definition demo_words :: "u32 list" where
  "demo_words = [0x0FFFFFF8, 0x0FFFFFFF, 0x0FFFFFF8, 4, 6, 0, 0x0FFFFFF8, 7, 0x0FFFFFF8]"

definition demo_part :: "byte list" where
  "demo_part = [0x41] @ [110, 0, 111, 0, 116, 0, 101, 0, 115, 0] @ [0x0F, 0, 0] @
     [46, 0, 116, 0, 120, 0, 116, 0, 0, 0, 0xFF, 0xFF] @ [0, 0] @ [0xFF, 0xFF, 0xFF, 0xFF]"

definition demo_deleted :: "byte list" where
  "demo_deleted = 0xE5 # tl demo_part"

definition demo_file_entry :: "byte list" where
  "demo_file_entry = [78, 79, 84, 69, 83, 32, 32, 32] @ [84, 88, 84] @ [0x20, 0, 0] @ replicate 6 0 @ [0, 0] @
     replicate 4 0 @ [3, 0] @ [0xE8, 3, 0, 0]"

definition demo_boot :: "byte list" where
  "demo_boot = replicate 11 0 @ [0, 2, 1, 1, 0, 1] @ replicate 19 0 @ [1, 0, 0, 0] @ replicate 4 0 @ [2, 0, 0, 0] @ replicate 464 0"

definition demo_fat_dev :: blkdev where
  "demo_fat_dev = \<lparr>sata = True, dev_bytes = (\<lambda>p.
     if p < 512 then demo_boot ! p
     else if p < 1024 then (bytes_of_words demo_words @ replicate 476 0) ! (p - 512)
     else if p < 1536 then (demo_part @ demo_file_entry @ replicate 448 0) ! (p - 1024)
     else if p < 3584 then of_nat (p mod 251)
     else if p < 4096 then 0
     else if p < 4608 then (demo_deleted @ replicate 480 0) ! (p - 4096)
     else 0)\<rparr>"

definition demo_fat :: FAT32 where
  "demo_fat = projr (fat32_mount demo_fat_dev 0)"

lemma demo_boot_sector: "dev_read demo_fat_dev 0 1 = demo_boot"
  by (rule nth_equalityI) (auto simp: demo_fat_dev_def nth_dev_read SECTOR_SIZE_def demo_boot_def)

lemma demo_bootsec:
  "unat (bytes_per_sector (dec_bootsec demo_boot)) = 512" "sectors_per_cluster (dec_bootsec demo_boot) = 1"
  "reserved_sector_count (dec_bootsec demo_boot) = 1" "table_count (dec_bootsec demo_boot) = 1"
  "table_size_32 (extended_section (dec_bootsec demo_boot)) = 1" "root_cluster (extended_section (dec_bootsec demo_boot)) = 2"
  by code_simp+

lemma demo_fat_wf: "fat_wf demo_fat" "fat_dev demo_fat = demo_fat_dev" "bootsec demo_fat = dec_bootsec demo_boot"
    "offsetFats demo_fat = 1" "offsetClusters demo_fat = 2"
proof -
  have d: "sata demo_fat_dev" by (simp add: demo_fat_dev_def)
  have bs: "dec_bootsec demo_boot = dec_bootsec (dev_read demo_fat_dev (unat (0 :: u32)) 1)"
    by (simp only: unat_0 demo_boot_sector)
  obtain fat where "fat32_mount demo_fat_dev 0 = Inr fat" "fat_wf fat"
    "fat_dev fat = demo_fat_dev" "bootsec fat = dec_bootsec demo_boot" "offsetFats fat = 1" "offsetClusters fat = 2"
    by (rule fat32_mount_run [OF d bs]) (simp_all add: demo_bootsec SECTOR_SIZE_def)
  then show "fat_wf demo_fat" "fat_dev demo_fat = demo_fat_dev" "bootsec demo_fat = dec_bootsec demo_boot"
    "offsetFats demo_fat = 1" "offsetClusters demo_fat = 2"
    by (simp_all add: demo_fat_def)
qed

lemma demo_bpc: "bytesPerCluster demo_fat = 512"
  by (simp add: bytesPerCluster_def demo_fat_wf demo_bootsec SECTOR_SIZE_def)

lemma demo_table: "dev_read demo_fat_dev 1 1 = bytes_of_words demo_words @ replicate 476 0"
  by (rule nth_equalityI) (auto simp: demo_fat_dev_def nth_dev_read SECTOR_SIZE_def demo_words_def)

lemma demo_fat_next:
  assumes "unat (c * 4) = a" "a < 512"
  shows "fat_next demo_fat c =
    (let r = dec32 (bytes_of_words demo_words @ replicate 476 0) a AND 0x0FFFFFFF in if 0x0FFFFFF7 \<le> r then 0 else r)"
proof -
  have "a div SECTOR_SIZE = 0" "a mod SECTOR_SIZE = a" using assms(2) by (auto simp: SECTOR_SIZE_def)
  then show ?thesis unfolding fat_next_def assms(1) demo_fat_wf by (simp only: Let_def add_0_right demo_table)
qed

lemma demo_next:
  "fat_next demo_fat 0 = 0" "fat_next demo_fat 2 = 0" "fat_next demo_fat 3 = 4" "fat_next demo_fat 4 = 6"
  "fat_next demo_fat 6 = 0" "fat_next demo_fat 7 = 7" "fat_next demo_fat 8 = 0"
  by (simp_all only: demo_fat_next [of 0 0, simplified] demo_fat_next [of 2 8, simplified] demo_fat_next [of 3 12, simplified]
    demo_fat_next [of 4 16, simplified] demo_fat_next [of 6 24, simplified] demo_fat_next [of 7 28, simplified]
    demo_fat_next [of 8 32, simplified]) code_simp+

lemma demo_chains: "is_chain demo_fat [2]" "is_chain demo_fat [3, 4, 6]" "is_chain demo_fat [8]"
  by (simp_all add: is_chain_def demo_next cluster_ok_def demo_fat_wf demo_bootsec upt_rec)

section \<open>The root directory\<close>

definition demo_file_name :: "byte list" where
  "demo_file_name = [110, 111, 116, 101, 115, 46, 116, 120, 116]"

definition demo_items :: "dir_item list" where
  "demo_items = Long demo_file_name [demo_part] demo_file_entry # replicate 14 (Other (replicate 32 0))"

lemma demo_root_bytes: "cluster_bytes demo_fat 2 = demo_part @ demo_file_entry @ replicate 448 0"
proof -
  have "cluster_bytes demo_fat 2 = dev_read demo_fat_dev 2 1"
    by (simp add: cluster_bytes_def demo_fat_wf demo_bootsec)
  also have "\<dots> = demo_part @ demo_file_entry @ replicate 448 0"
    by (rule nth_equalityI) (auto simp: demo_fat_dev_def nth_dev_read SECTOR_SIZE_def demo_part_def demo_file_entry_def)
  finally show ?thesis .
qed

lemma demo_slots: "map (snd \<circ> snd) (dir_slots demo_fat [2]) = concat (map item_slots demo_items)"
proof -
  have "map (snd \<circ> snd) (dir_slots demo_fat [2]) =
      map (\<lambda>k. seg (demo_part @ demo_file_entry @ replicate 448 0) (k * ENTRY_BYTES) ENTRY_BYTES) [0..<16]"
    by (simp add: dir_slots_def cluster_slots_def demo_root_bytes demo_bpc ENTRY_BYTES_def)
  also have "\<dots> = concat (map item_slots demo_items)"
    by code_simp
  finally show ?thesis .
qed

lemma demo_items_ok: "list_all item_ok demo_items"
  by code_simp

lemma demo_root: "dir_has demo_fat [2] demo_items"
  by (simp add: dir_has_def demo_chains demo_slots demo_items_ok)

lemma demo_file: "file_ok demo_fat (dec_entry demo_file_entry) [3, 4, 6]"
proof -
  have "\<not> is_directory (dec_entry demo_file_entry)" "entry_cluster (dec_entry demo_file_entry) = 3"
    "unat (de_filesize (dec_entry demo_file_entry)) = 1000"
    by code_simp+
  then show ?thesis by (simp add: file_ok_def demo_chains chain_at_def demo_bpc)
qed

definition demo_fd32 :: FAT32OpenFd where
  "demo_fd32 = \<lparr>ff_ptr = 0, ff_index = 32, ff_directoryStarting = 2, ff_directoryCurr = 3, ff_dirEnt = dec_entry demo_file_entry\<rparr>"

lemma demo_fd32_size: "file_size demo_fd32 = 1000"
  unfolding file_size_def by code_simp

lemma demo_fd32_ok: "open_ok demo_fat [3, 4, 6] demo_fd32"
  using demo_file demo_fd32_size
  by (simp add: file_ok_def open_ok_def pos_ok_def chain_at_def demo_bpc) (simp add: demo_fd32_def)

section \<open>Witnesses\<close>

theorem fat32_FAT_traverse_disk_witness:
  "\<exists>fat'. fat32_FAT_traverse 3 demo_fat = Inr (4, fat') \<and> same_volume demo_fat fat' \<and> fat_wf fat'"
  using fat32_FAT_traverse_disk [OF demo_fat_wf(1), of 3] by (simp add: demo_next)

theorem fat32_read_contents_witness:
  "\<exists>dir' fat'. fat32_read 0 700 demo_fd32 demo_fat = Inr ((seg (contents32 demo_fat [3, 4, 6]) 0 700, dir'), fat') \<and>
    ff_ptr dir' = 700 \<and> same_volume demo_fat fat' \<and> fat_wf fat' \<and> open_ok fat' [3, 4, 6] dir'"
proof -
  have "ff_ptr demo_fd32 = 0" by (simp add: demo_fd32_def)
  then show ?thesis
    using fat32_read_contents [OF demo_fat_wf(1) demo_fd32_ok, of 700 0] by (simp add: demo_bpc demo_fd32_size)
qed

theorem fat32_seek_then_read_witness:
  "\<exists>dir' fat'. bnd (fat32_seek 900 0 demo_fd32) (\<lambda>(r, dir'). bnd (fat32_read 0 600 dir') (\<lambda>(bytes, dir'').
      ret (r, bytes, dir''))) demo_fat =
    Inr ((900, seg (contents32 demo_fat [3, 4, 6]) 900 100, dir'), fat') \<and>
    ff_ptr dir' = 1000 \<and> fat_wf fat' \<and> open_ok fat' [3, 4, 6] dir'"
  using fat32_seek_then_read [OF demo_fat_wf(1) demo_fd32_ok, of 600 0 0 900] by (simp add: demo_bpc demo_fd32_size SEEK_CURR_def)

theorem fat32_traverse_finds_witness:
  "\<exists>res fat'. fat32_traverse 1 2 demo_file_name demo_fat = Inr (res, fat') \<and> same_volume demo_fat fat' \<and> fat_wf fat' \<and>
    tr_directory res = 2 \<and> tr_dirEntry res = dec_entry demo_file_entry"
proof -
  have "find (item_is demo_file_name) demo_items = Some (Long demo_file_name [demo_part] demo_file_entry)"
    by (simp add: demo_items_def)
  then show ?thesis
    using fat32_traverse_finds [OF demo_fat_wf(1) demo_root, of 1 demo_file_name] by simp
qed

lemma demo_empty: "cluster_bytes demo_fat 7 = replicate 512 0"
proof -
  have "cluster_bytes demo_fat 7 = dev_read demo_fat_dev 7 1"
    by (simp add: cluster_bytes_def demo_fat_wf demo_bootsec)
  also have "\<dots> = replicate 512 0"
    by (rule nth_equalityI) (auto simp: demo_fat_dev_def nth_dev_read SECTOR_SIZE_def)
  finally show ?thesis .
qed

theorem fat32_traverse_cycle_witness: "fat32_traverse 5 7 demo_file_name demo_fat = Inl Diverges"
proof -
  have "list_all blank (cluster_entries (replicate 512 0))" by code_simp
  then have "closed_clusters demo_fat [7]"
    by (simp add: closed_clusters_def demo_next demo_empty cluster_ok_def demo_fat_wf demo_bootsec)
  from fat32_traverse_cycle [OF demo_fat_wf(1) this, of 7 5 demo_file_name] show ?thesis by simp
qed

lemma demo_deleted_slots: "map (snd \<circ> snd) (dir_slots demo_fat [8]) = demo_deleted # replicate 15 (replicate 32 0)"
proof -
  have "cluster_bytes demo_fat 8 = dev_read demo_fat_dev 8 1"
    by (simp add: cluster_bytes_def demo_fat_wf demo_bootsec)
  also have "\<dots> = demo_deleted @ replicate 480 0"
    by (rule nth_equalityI) (auto simp: demo_fat_dev_def nth_dev_read SECTOR_SIZE_def demo_deleted_def demo_part_def)
  finally have "map (snd \<circ> snd) (dir_slots demo_fat [8]) =
      map (\<lambda>k. seg (demo_deleted @ replicate 480 0) (k * ENTRY_BYTES) ENTRY_BYTES) [0..<16]"
    by (simp add: dir_slots_def cluster_slots_def demo_bpc ENTRY_BYTES_def)
  also have "\<dots> = demo_deleted # replicate 15 (replicate 32 0)"
    by code_simp
  finally show ?thesis .
qed

theorem fat32_traverse_bad_part_witness: "fat32_traverse 1 8 demo_file_name demo_fat = Inl Halted"
proof -
  have "demo_deleted ! 11 = FAT_ATTRIB_LFN" "demo_deleted ! 12 = 0" "165 = unat (demo_deleted ! 0 AND NOT LFN_ORDER_FINAL)"
    by code_simp+
  from fat32_traverse_bad_part [OF demo_fat_wf(1) demo_chains(3) _ _ _ _ _ this, of 1 "[]"] demo_deleted_slots
  show ?thesis by simp
qed

lemma demo_walkable:
  "walkable demo_fat 1 (\<lambda>d. [2]) (\<lambda>d. demo_items) (root32 demo_fat) [nm]"
  by (simp add: demo_root demo_fat_wf demo_bootsec split: option.splits)

theorem fat32_open_then_read_witness:
  "\<exists>dir dir' f1 f2. fat32_open 1 (path_of [demo_file_name]) 0 demo_fat = Inr ((0, Some (dir, None)), f1) \<and>
    fat32_read 0 5000 dir f1 = Inr ((take 1000 (contents32 demo_fat [3, 4, 6]), dir'), f2) \<and>
    fat_wf f2 \<and> open_ok f2 [3, 4, 6] dir'"
proof -
  have "list_all comp_ok [demo_file_name]" "unat (de_filesize (dec_entry demo_file_entry)) = 1000" by code_simp+
  moreover have "walk32 (\<lambda>d. demo_items) (root32 demo_fat) [demo_file_name] = Some (Long demo_file_name [demo_part] demo_file_entry)"
    by (simp add: demo_items_def)
  ultimately show ?thesis
    using fat32_open_then_read [OF demo_fat_wf(1) demo_walkable, of demo_file_name 0 _ "[3, 4, 6]" 5000 0] demo_file
    by (simp add: demo_bpc flag_defs del: walk32.simps)
qed

theorem fat32_open_errors_witness:
  "\<exists>fat'. fat32_open 1 (path_of [[120]]) 0 demo_fat = Inr ((- int ENOENT, None), fat') \<and> same_volume demo_fat fat' \<and> fat_wf fat'"
proof -
  have "list_all comp_ok [[120]]" by code_simp
  moreover have "find (item_is [120]) demo_items = None"
    by (simp add: demo_items_def demo_file_name_def find_None_iff)
  then have "walk32 (\<lambda>d. demo_items) (root32 demo_fat) [[120]] = None" by simp
  ultimately show ?thesis
    using fat32_open_errors [OF demo_fat_wf(1) demo_walkable, of "[120]" 0] by (simp add: flag_defs del: walk32.simps)
qed

end
