(* ===== verification/Fat32_Time.thy ===== *)
theory Fat32_Time
  imports Fat32_Files
begin

text \<open>
  FAT dates: the loops over years and months count the days of the Gregorian calendar, here given
  by the closed formula for the day number, and the seconds they make overflow an \<^verbatim>\<open>int\<close> from 2038 on.
\<close>

section \<open>The calendar\<close>

text \<open>Days before January 1 of a year, counted from January 1 of the year 1.\<close>

definition days_before_year :: "int \<Rightarrow> int" where
  "days_before_year y = 365 * (y - 1) + (y - 1) div 4 - (y - 1) div 100 + (y - 1) div 400"

definition days_before_month :: "int \<Rightarrow> int \<Rightarrow> int" where
  "days_before_month y m =
     [0, 31, 59, 90, 120, 151, 181, 212, 243, 273, 304, 334] ! nat (m - 1) + (if is_leap_year y \<and> 2 < m then 1 else 0)"

definition unix_days :: "int \<Rightarrow> int \<Rightarrow> int \<Rightarrow> int" where
  "unix_days y m d = days_before_year y + days_before_month y m + (d - 1) - days_before_year 1970"

lemma div_pred:
  fixes y k :: int
  assumes k: "0 < k"
  shows "y div k = (y - 1) div k + (if k dvd y then 1 else 0)"
proof -
  let ?q = "y div k" and ?r = "y mod k"
  have y: "y = k * ?q + ?r" "0 \<le> ?r" "?r < k" using k by simp_all
  show ?thesis
  proof (cases "?r = 0")
    case True
    then have "y - 1 = k * (?q - 1) + (k - 1)" using y(1) by (simp add: right_diff_distrib)
    then have "(y - 1) div k = ?q - 1" using k by (intro int_div_pos_eq [of _ _ _ "k - 1"]) simp_all
    then show ?thesis using True by (simp add: dvd_eq_mod_eq_0)
  next
    case False
    then have "(y - 1) div k = ?q" using y by (intro int_div_pos_eq [of _ _ _ "?r - 1"]) linarith+
    then show ?thesis using False by (simp add: dvd_eq_mod_eq_0)
  qed
qed

lemma year_step: "days_before_year (y + 1) = days_before_year y + (if is_leap_year y then 366 else 365)"
proof -
  have "100 dvd y \<Longrightarrow> 4 dvd y" "400 dvd y \<Longrightarrow> 100 dvd y" by (rule dvd_trans; simp)+
  moreover have "days_before_year (y + 1) = 365 * y + y div 4 - y div 100 + y div 400"
    by (simp add: days_before_year_def)
  moreover have "is_leap_year y = (4 dvd y \<and> \<not> 100 dvd y \<or> 400 dvd y)"
    by (simp add: is_leap_year_def dvd_eq_mod_eq_0)
  ultimately show ?thesis
    unfolding days_before_year_def div_pred [of 4 y, simplified] div_pred [of 100 y, simplified] div_pred [of 400 y, simplified]
    by (simp split: if_splits)
qed

lemma years_sum:
  "sum_list (map (\<lambda>y. if is_leap_year (int y) then 366 else 365) [1980..<1980 + n]) =
     days_before_year (1980 + int n) - days_before_year 1980"
proof (induction n)
  case (Suc n)
  have "[1980..<1980 + Suc n] = [1980..<1980 + n] @ [1980 + n]" by (simp only: add_Suc_right upt_Suc) simp
  then show ?case using Suc year_step [of "1980 + int n"] by (simp del: upt_Suc add: add.assoc)
qed simp

lemma months_sum:
  assumes "1 \<le> m" "m \<le> 12"
  shows "sum_months y [1..<nat m] = Inr (days_before_month y m)" "0 \<le> days_before_month y m"
proof -
  have "m \<in> {1, 2, 3, 4, 5, 6, 7, 8, 9, 10, 11, 12}" using assms by (simp only: insert_iff empty_iff simp_thms) presburger
  then show "sum_months y [1..<nat m] = Inr (days_before_month y m)" "0 \<le> days_before_month y m"
    by (elim insertE; simp add: days_in_month_def days_per_month_def days_before_month_def upt_rec)+
qed

lemma unix_time_run:
  assumes "y = uint (drop_bit 9 fat_date AND 0x7F) + 1980" "m = uint (drop_bit 5 fat_date AND 0x0F)"
    "d = uint (fat_date AND 0x1F)" "h = uint (drop_bit 11 fat_time AND 0x1F)" "mi = uint (drop_bit 5 fat_time AND 0x3F)"
    "s = uint (fat_time AND 0x1F) * 2" "1 \<le> m" "m \<le> 12"
    "t = unix_days y m d * 86400 + h * 3600 + mi * 60 + s"
  shows "fat32_unix_time fat_date fat_time = (if t < 2 ^ 31 then Inr (nat t) else Inl Undefined)"
proof -
  have "1980 \<le> y" using assms(1) by simp
  then have "nat y = 1980 + nat (y - 1980)" "1980 + int (nat (y - 1980)) = y" by simp_all
  then have ys: "sum_list (map (\<lambda>y. if is_leap_year (int y) then 366 else 365) [1980..<nat y]) =
      days_before_year y - days_before_year 1980"
    by (metis years_sum)
  have "days_since_1980 y m d = Inr (days_before_year y - days_before_year 1980 + days_before_month y m + (d - 1))"
    using months_sum(1) [OF assms(7,8)] by (simp add: days_since_1980_def ys)
  moreover have "days_before_year 1980 = days_before_year 1970 + (365 * 10 + 2)" by (simp add: days_before_year_def)
  ultimately have dy: "days_since_1980 y m d = Inr (unix_days y m d - (365 * 10 + 2))"
    by (simp add: unix_days_def)
  have "0 \<le> days_before_year y - days_before_year 1980"
    unfolding ys [symmetric] by (intro sum_list_nonneg) auto
  moreover have "0 \<le> d" "0 \<le> h" "0 \<le> mi" "0 \<le> s" by (simp_all add: assms(3-6))
  ultimately have "0 \<le> t"
    using months_sum(2) [OF assms(7,8), of y] by (simp add: assms(9) unix_days_def days_before_year_def [of 1980] days_before_year_def [of 1970])
  then show ?thesis
    unfolding fat32_unix_time_def Let_def assms(1-6) [symmetric]
    by (simp add: dy assms(9))
qed

text \<open>
  C0. The time of a FAT date is the number of seconds since 1970 in the Gregorian calendar, for every
  month that exists; from January 19, 2038 on the sum overflows an \<^verbatim>\<open>int\<close>.
\<close>

theorem fat32_unix_time_gregorian:
  assumes "y = uint (drop_bit 9 fat_date AND 0x7F) + 1980" "m = uint (drop_bit 5 fat_date AND 0x0F)"
    "d = uint (fat_date AND 0x1F)" "h = uint (drop_bit 11 fat_time AND 0x1F)" "mi = uint (drop_bit 5 fat_time AND 0x3F)"
    "s = uint (fat_time AND 0x1F) * 2" "1 \<le> m" "m \<le> 12"
    "t = unix_days y m d * 86400 + h * 3600 + mi * 60 + s"
  shows "fat32_unix_time fat_date fat_time = (if t < 2 ^ 31 then Inr (nat t) else Inl Undefined)"
  using assms by (rule unix_time_run)

text \<open>June 15, 2020, 12:30:10 is 1592224210.\<close>

theorem fat32_unix_time_gregorian_witness: "fat32_unix_time 0x50CF 0x63C5 = Inr 1592224210"
proof -
  have "uint (drop_bit 9 (0x50CF :: u16) AND 0x7F) = 40" "uint (drop_bit 5 (0x50CF :: u16) AND 0x0F) = 6"
    "uint ((0x50CF :: u16) AND 0x1F) = 15" "uint (drop_bit 11 (0x63C5 :: u16) AND 0x1F) = 12"
    "uint (drop_bit 5 (0x63C5 :: u16) AND 0x3F) = 30" "uint ((0x63C5 :: u16) AND 0x1F) = 5"
    by code_simp+
  moreover have "unix_days 2020 6 15 = 18428" by code_simp
  ultimately show ?thesis
    using fat32_unix_time_gregorian [OF refl refl refl refl refl refl _ _ refl, of "0x50CF" "0x63C5"] by simp
qed

section \<open>Status\<close>

text \<open>
  C0. The status of an open file of a FAT32 volume is filled in, and reported as failed: the
  handler returns \<^verbatim>\<open>true\<close> where 0 means success.
\<close>

theorem fat32_fsStat_fails:
  assumes "fat32_stat_internal
    \<lparr>tr_directory = ff_directoryStarting dir, tr_index = ff_index dir, tr_dirEntry = ff_dirEnt dir\<rparr> = Inr st"
  shows "fsStat (Some fat32_stat_fd) dir = Inr (False, Some st)"
  using assms by (simp add: fsStat_def fat32_stat_fd_def)

definition demo_stat_fd :: FAT32OpenFd where
  "demo_stat_fd = \<lparr>ff_ptr = 0, ff_index = 32, ff_directoryStarting = 2, ff_directoryCurr = 3,
     ff_dirEnt = no_entry\<lparr>de_attrib := FAT_ATTRIB_ARCHIVE, de_accessdate := 0x50CF, de_modifieddate := 0x50CF,
       de_createdate := 0x50CF\<rparr>\<rparr>"

lemma demo_unix_time: "\<exists>t. fat32_unix_time 0x50CF 0 = Inr t"
proof -
  have "uint (drop_bit 9 (0x50CF :: u16) AND 0x7F) = 40" "uint (drop_bit 5 (0x50CF :: u16) AND 0x0F) = 6"
    "uint ((0x50CF :: u16) AND 0x1F) = 15"
    by code_simp+
  moreover have "unix_days 2020 6 15 = 18428" by code_simp
  ultimately show ?thesis
    using unix_time_run [OF refl refl refl refl refl refl _ _ refl, of "0x50CF" 0] by simp
qed

theorem fat32_fsStat_fails_witness:
  "\<exists>st. fsStat (Some fat32_stat_fd) demo_stat_fd = Inr (False, Some st)"
proof -
  have "de_createtime no_entry = 0" "de_modifiedtime no_entry = 0" by code_simp+
  then obtain st where "fat32_stat_internal \<lparr>tr_directory = ff_directoryStarting demo_stat_fd, tr_index = ff_index demo_stat_fd,
      tr_dirEntry = ff_dirEnt demo_stat_fd\<rparr> = Inr st"
    using demo_unix_time by (auto simp: fat32_stat_internal_def demo_stat_fd_def Let_def)
  from fat32_fsStat_fails [OF this] show ?thesis by blast
qed

end
