(* ===== verification/Ext2_Demo.thy ===== *)
theory Ext2_Demo
  imports Ext2_Traverse
begin

text \<open>
  A small concrete volume used to exhibit the ext2 theorems on a real image: one group of 64
  blocks of 1 KiB at sector 2048, 16 inodes of 128 bytes. Block 1 holds the superblock, block
  2 the descriptors, block 3 the block bitmap, block 4 the inode bitmap, blocks 5 and 6 the
  inode table and block 7 the root directory with the entries \<^verbatim>\<open>.\<close>, \<^verbatim>\<open>..\<close> and \<^verbatim>\<open>hello\<close>.
\<close>

definition zero_superblock :: Ext2Superblock where
  "zero_superblock = dec_superblock (replicate 1024 0)"

definition demo_superblock :: Ext2Superblock where
  "demo_superblock = zero_superblock
     \<lparr>total_inodes := 16, total_blocks := 64, s_free_blocks := 55, s_free_inodes := 4,
      superblock_idx := 1, log2block_size := 0, blocks_per_group := 64, inodes_per_group := 16,
      ext2_magic := 0xEF53, fs_state := 1, major := 1,
      extended := (extended zero_superblock)
        \<lparr>first_inode := 11, inode_size := 128, required_feature := 2\<rparr>\<rparr>"

definition zero_group :: Ext2BlockGroup where
  "zero_group = dec_group (replicate 32 0)"

definition demo_group :: Ext2BlockGroup where
  "demo_group = zero_group
     \<lparr>block_bitmap := 3, inode_bitmap := 4, inode_table := 5, bg_free_blocks := 55,
      bg_free_inodes := 4, num_dirs := 1\<rparr>"

definition zero_inode :: Ext2Inode where
  "zero_inode = dec_inode (replicate 128 0)"

definition root_inode :: Ext2Inode where
  "root_inode = zero_inode
     \<lparr>i_permission := 0x41ED, i_size := 1024, i_hard_links := 2, i_num_sectors := 2,
      i_blocks := 7 # replicate 14 0\<rparr>"

definition file_inode :: Ext2Inode where
  "file_inode = zero_inode
     \<lparr>i_permission := 0x81A4, i_size := 5, i_hard_links := 1, i_num_sectors := 2,
      i_blocks := 8 # replicate 14 0\<rparr>"

definition root_entries :: "byte list" where
  "root_entries =
     [2,0,0,0, 12,0, 1, 2, 46, 0,0,0,
      2,0,0,0, 12,0, 2, 2, 46,46, 0,0,
      12,0,0,0, 232,3, 5, 1, 104,101,108,108,111]"

definition demo_base :: nat where "demo_base = 2048 * 512"

definition demo_dev :: blkdev where
  "demo_dev =
     dev_patch (dev_patch (dev_patch (dev_patch (dev_patch (dev_patch zero_disk
       (demo_base + 3 * 1024) ([255, 1] @ replicate 6 0 @ replicate 1016 255))
       (demo_base + 4 * 1024) [255, 15])
       (demo_base + 5 * 1024 + 1 * 128) (enc_inode root_inode))
       (demo_base + 5 * 1024 + 11 * 128) (enc_inode file_inode))
       (demo_base + 7 * 1024) root_entries)
       (demo_base + 8 * 1024) [119, 111, 114, 108, 100]"

definition demo_fs :: ext2_sys where
  "demo_fs =
     \<lparr>offsetBase = 2048, offsetSuperblock = 2050, offsetBGDT = 2052, blockSize = 1024,
      inodeSize = 128, inodeSizeRounded = 512, blockGroups = 1,
      bgdts = demo_group # replicate 31 zero_group, superblock = demo_superblock,
      LOCK_OBJECT = False, firstObject = 0, WLOCK_GLOBAL_NOFD = 0,
      WLOCKS_BLOCK_BITMAP = [0], WLOCKS_INODE = [0], LOCK_BGDT_WRITE = False,
      LOCK_SUPERBLOCK_WRITE = False, LOCK_DIRALLOC = False,
      dev = demo_dev, foundObjs = \<lambda>_. None, cacheObjs = \<lambda>_. None, next_ptr = 1,
      blocksCached = 0, unix_time = 1000\<rparr>"

lemma demo_fields [simp]:
  "offsetBase demo_fs = 2048" "offsetSuperblock demo_fs = 2050" "offsetBGDT demo_fs = 2052"
  "blockSize demo_fs = 1024" "inodeSize demo_fs = 128" "blockGroups demo_fs = 1"
  "bgdts demo_fs = demo_group # replicate 31 zero_group" "superblock demo_fs = demo_superblock"
  "WLOCKS_BLOCK_BITMAP demo_fs = [0]" "WLOCKS_INODE demo_fs = [0]" "dev demo_fs = demo_dev"
  "WLOCK_GLOBAL_NOFD demo_fs = 0"
  "\<not> LOCK_BGDT_WRITE demo_fs" "\<not> LOCK_SUPERBLOCK_WRITE demo_fs" "\<not> LOCK_DIRALLOC demo_fs"
  "\<not> LOCK_OBJECT demo_fs"
  by (simp_all add: demo_fs_def)

lemma demo_superblock_ok [simp]: "superblock_ok demo_superblock"
proof -
  have "superblock_ok zero_superblock"
    unfolding zero_superblock_def by (rule superblock_ok_dec) simp
  then show ?thesis
    by (simp add: demo_superblock_def superblock_ok_def Let_def)
qed

lemma demo_group_ok [simp]: "group_ok zero_group" "group_ok demo_group"
proof -
  show "group_ok zero_group"
    unfolding zero_group_def by (rule group_ok_dec) simp
  then show "group_ok demo_group"
    by (simp add: demo_group_def group_ok_def)
qed

lemma demo_inode_ok [simp]: "inode_ok zero_inode" "inode_ok root_inode" "inode_ok file_inode"
proof -
  show z: "inode_ok zero_inode"
    unfolding zero_inode_def by (rule inode_ok_dec) (simp add: INODE_BYTES_def)
  show "inode_ok root_inode" "inode_ok file_inode"
    using z by (simp_all add: root_inode_def file_inode_def inode_ok_def EXT2_DIRECT_BLOCKS_def)
qed

lemma demo_geometry [simp]:
  "bpg demo_fs = 64" "ipg demo_fs = 16" "nblocks demo_fs = 64" "spb demo_fs = 2"
  "BLOCK_TO_LBA demo_fs 0 b = 2048 + 2 * b" "block_pos demo_fs b = demo_base + b * 1024"
  "sata demo_dev" "inode_table demo_group = 5" "block_bitmap demo_group = 3" "inode_bitmap demo_group = 4"
  by (simp_all add: bpg_def ipg_def nblocks_def spb_def demo_superblock_def SECTOR_SIZE_def
      BLOCK_TO_LBA_def block_pos_def demo_base_def demo_dev_def zero_disk_def demo_group_def)

lemma demo_wf [simp]: "ext2_wf demo_fs" "ext2_geom demo_fs" "locks_free demo_fs"
proof -
  show "ext2_geom demo_fs"
    by (auto simp: ext2_geom_def block_size_ok_def SECTOR_SIZE_def group_geom_def CEILING_DIVISION_def
        nth_Cons split: nat.splits)
  moreover show "locks_free demo_fs"
    by (simp add: locks_free_def)
  ultimately show "ext2_wf demo_fs"
    by (simp add: ext2_wf_def)
qed

lemma demo_inodes [simp]:
  "inode_group demo_fs n = (n - 1) div 16" "inode_index demo_fs n = (n - 1) mod 16"
  "inode_num_ok demo_fs n = (0 < n \<and> n \<le> 16)" "tables_disjoint demo_fs"
  by (auto simp: inode_group_def inode_index_def inode_num_ok_def tables_disjoint_def)

theorem ext2InodeModifyM_fetch_witness:
  "\<exists>s' old. ext2InodeModifyM 12 root_inode demo_fs = Inr ((), s') \<and>
    ext2InodeFetch 2 s' = Inr (old, s') \<and> ext2InodeFetch 2 demo_fs = Inr (old, demo_fs)"
  using ext2InodeModifyM_fetch [of demo_fs 12 root_inode 2] by simp blast

lemma demo_spots [simp]:
  "bgdt_spots demo_fs = [demo_base + 2048]" "superblock_spots demo_fs = [demo_base + 1024]"
  by (simp_all add: bgdt_spots_def superblock_spots_def demo_base_def SECTOR_SIZE_def)

lemma demo_meta_free: "3 \<le> b \<Longrightarrow> meta_free demo_fs (demo_base + b * 1024) 1024"
  by (simp add: meta_free_def clear_of_def)

lemma demo_inode_map:
  "i < 1024 \<Longrightarrow> inode_map demo_fs 0 ! i = (if i = 0 then 255 else if i = 1 then 15 else 0)"
  by (auto simp: inode_map_def block_bytes_def demo_dev_def dev_bytes_patch demo_base_def zero_disk_def
      INODE_BYTES_def nth_Cons split: nat.splits)

lemma demo_inode_bits: "j \<le> 12 \<Longrightarrow> bitmapGenericGet (inode_map demo_fs 0) j = (j < 12)"
proof -
  assume "j \<le> 12"
  then consider "j < 8" | "j = 8" | "j = 9" | "j = 10" | "j = 11" | "j = 12"
    by linarith
  then show ?thesis
    using full_byte [of "inode_map demo_fs 0" 0 j]
    by cases (simp_all add: bitmapGenericGet_def demo_inode_map mask1_def)
qed

lemma demo_first_index [simp]: "first_index demo_fs 0 = 11"
  by (simp add: first_index_def demo_superblock_def)

lemma demo_find_ready:
  "bg_free_inodes (bgdts demo_fs ! 0) \<noteq> 0"
  "meta_free demo_fs (block_pos demo_fs (unat (inode_bitmap (bgdts demo_fs ! 0)))) (blockSize demo_fs)"
  "\<not> bitmapGenericGet (inode_map demo_fs 0) 12"
  "\<forall>j. first_index demo_fs 0 \<le> j \<and> j < 12 \<longrightarrow> bitmapGenericGet (inode_map demo_fs 0) j"
  using demo_meta_free [of 4] by (simp_all add: demo_group_def demo_inode_bits)

theorem ext2InodeFindL_first_free_witness:
  "\<exists>n s'. ext2InodeFindL 0 demo_fs = Inr (n, s') \<and> ext2_wf s' \<and> inode_index demo_fs n = 12"
  using ext2InodeFindL_first_free [of demo_fs 0 12, OF _ _ demo_find_ready(1,2) _ _ _ _ demo_find_ready(3,4)]
  by auto

theorem ext2Inode_find_delete_witness:
  "\<exists>n s1 s2. ext2InodeFindL 0 demo_fs = Inr (n, s1) \<and> ext2InodeDelete n s1 = Inr ((), s2) \<and>
    inode_map s2 0 = inode_map demo_fs 0 \<and> ext2InodeDelete n s2 = Inl Assert_failed"
  using ext2Inode_find_delete [of demo_fs 0 12, OF _ _ demo_find_ready(1,2) _ _ _ _ demo_find_ready(3,4)]
  by auto

section \<open>Blocks and directories of the volume\<close>

lemma demo_block_map:
  "i < 1024 \<Longrightarrow> block_map demo_fs 0 ! i = (if i = 0 then 255 else if i = 1 then 1 else if i < 8 then 0 else 255)"
  by (auto simp: block_map_def block_bytes_def demo_dev_def dev_bytes_patch demo_base_def zero_disk_def
      INODE_BYTES_def nth_append nth_Cons split: nat.splits)

lemma demo_block_bits:
  "j < 8192 \<Longrightarrow> bitmapGenericGet (block_map demo_fs 0) j = (j < 9 \<or> 64 \<le> j)"
proof -
  assume j: "j < 8192"
  have i: "j div 8 < 1024"
    using j by simp
  have full: "bit (255 :: byte) (j mod 8)"
    using bit_mask_iff [where 'a = byte, of 8 "j mod 8"] by (simp add: mask_eq_exp_minus_1)
  have one: "bit (1 :: byte) (j mod 8) = (j mod 8 = 0)"
    by (simp add: bit_1_iff)
  consider "j div 8 = 0" | "j div 8 = 1" | "2 \<le> j div 8" "j div 8 < 8" | "8 \<le> j div 8"
    by linarith
  then show ?thesis
    unfolding bitmapGenericGet_bit
  proof cases
    case 2
    then have "j mod 8 = j - 8" "8 \<le> j" "j < 16"
      by presburger+
    with 2 show "bit (block_map demo_fs 0 ! (j div 8)) (j mod 8) = (j < 9 \<or> 64 \<le> j)"
      using one by (auto simp: demo_block_map)
  qed (use full in \<open>auto simp: demo_block_map i\<close>)
qed

lemma demo_first_fit:
  "free_at (bitmapGenericGet (block_map demo_fs 0)) 8192 9 2"
  "\<forall>q < 9. \<not> free_at (bitmapGenericGet (block_map demo_fs 0)) 8192 q 2"
  by (auto simp: free_at_def demo_block_bits)

lemma demo_padded: "padded demo_fs" "bitmaps_apart demo_fs"
  using demo_meta_free [of 3] by (auto simp: padded_def bitmaps_apart_def group_size_def demo_block_bits)

lemma demo_block_zero: "9 \<le> b \<Longrightarrow> block_bytes demo_fs b = replicate 1024 0"
  by (rule nth_equalityI) (auto simp: block_bytes_def demo_dev_def dev_bytes_patch demo_base_def zero_disk_def
      INODE_BYTES_def root_entries_def)

lemma length_root_entries [simp]: "length root_entries = 37"
  by (simp add: root_entries_def)

lemma demo_root_block: "block_bytes demo_fs 7 = root_entries @ replicate 987 0"
  by (rule nth_equalityI) (auto simp: block_bytes_def demo_dev_def dev_bytes_patch demo_base_def zero_disk_def
      INODE_BYTES_def nth_append)

lemma demo_inode_at: "inode_at demo_fs 2 = root_inode" "inode_at demo_fs 12 = file_inode"
proof -
  have "dev_seg demo_dev (5248 + demo_base) 128 = enc_inode root_inode"
    "dev_seg demo_dev (6528 + demo_base) 128 = enc_inode file_inode"
    by (rule nth_equalityI; auto simp: demo_dev_def dev_bytes_patch demo_base_def zero_disk_def INODE_BYTES_def)+
  then show "inode_at demo_fs 2 = root_inode" "inode_at demo_fs 12 = file_inode"
    by (simp_all add: inode_at_def inode_pos_def INODE_BYTES_def)
qed

definition demo_entries :: "entry list" where
  "demo_entries =
     [(\<lparr>d_inode = 2, d_size = 12, d_filenameLength = 1, d_type = 2\<rparr>, [46]),
      (\<lparr>d_inode = 2, d_size = 12, d_filenameLength = 2, d_type = 2\<rparr>, [46, 46]),
      (\<lparr>d_inode = 12, d_size = 1000, d_filenameLength = 5, d_type = 1\<rparr>, [104, 101, 108, 108, 111])]"

lemma demo_dir: "dir_block (block_bytes demo_fs 7) demo_entries"
  unfolding demo_root_block
  by (simp add: dir_block_def demo_entries_def entry_at_def DIR_BYTES_def enc_dir_def bytes32_def bytes16_def
      seg_def root_entries_def)

lemma demo_ptrs [simp]: "ptrs_ok demo_fs root_inode" "ptrs_ok demo_fs file_inode"
  using demo_inode_ok by (simp_all add: ptrs_ok_def root_inode_def file_inode_def)

lemma demo_dir_has: "dir_has demo_fs root_inode [demo_entries]"
  using demo_dir by (simp add: dir_has_def CEILING_DIVISION_def block_of_def root_inode_def file_blocks_max_def)

theorem ext2BlockFetch_correct_witness:
  "\<exists>c'. ext2BlockFetch file_inode 12 (ext2BlockFetchInit demo_fs control0) 0 demo_fs = Inr ((8, c'), demo_fs)"
proof -
  have "block_of demo_fs file_inode 0 = 8"
    by (simp add: block_of_def file_inode_def)
  then show ?thesis
    using ext2BlockFetch_correct [of demo_fs 12 file_inode "ext2BlockFetchInit demo_fs control0" 0]
    by (auto simp: file_blocks_max_def)
qed

theorem ext2BlockFetch_overrun_witness:
  "ext2BlockFetch (file_inode\<lparr>i_blocks := (i_blocks file_inode)[13 := 20]\<rparr>) 12
     (ext2BlockFetchInit demo_fs control0) 65804 demo_fs = Inl Out_of_bounds"
proof -
  let ?i = "file_inode\<lparr>i_blocks := (i_blocks file_inode)[13 := 20]\<rparr>"
  have b: "i_blocks ?i ! 13 = 20" "i_blocks ?i ! 12 = 0"
    by (simp_all add: file_inode_def)
  have "inode_ok ?i"
    using demo_inode_ok(3) by (simp add: inode_ok_def)
  moreover have "unat q < 64" if "q \<in> set (ind_words demo_fs 20)" for q
    using that by (auto simp: ind_words_def demo_block_zero in_set_conv_nth words_of_nth dec32_def le32_def)
  ultimately have "ptrs_ok demo_fs ?i"
    using b by (auto simp: ptrs_ok_def)
  then show ?thesis
    using b by (intro ext2BlockFetch_overrun) (simp_all add: file_blocks_max_def)
qed

theorem ext2BlockFindL_first_fit_witness:
  "\<exists>s'. ext2BlockFindL 0 2 demo_fs = Inr (9, s') \<and> ext2_wf s'"
  using ext2BlockFindL_first_fit [of demo_fs 0 2 9] demo_first_fit demo_meta_free [of 3]
  by (auto simp: demo_group_def demo_superblock_def)



theorem ext2BlockSizeCalculate_overhead_witness:
  "ext2BlockSizeCalculate demo_fs (12 * 1024) = Inr (13 * 1024)"
  using ext2BlockSizeCalculate_overhead [of demo_fs "12 * 1024" 12]
  by (simp add: CEILING_DIVISION_def file_blocks_max_def pointer_blocks_def)

theorem ext2Traverse_lookup_witness:
  "ext2Traverse 2 [104, 101, 108, 108, 111] demo_fs = Inr (12, demo_fs)"
  using ext2Traverse_lookup [of demo_fs 2 "[demo_entries]"] demo_dir_has
  by (simp add: demo_inode_at demo_entries_def)

lemma demo_modes [simp]:
  "dir_bit root_inode" "\<not> dir_bit file_inode" "\<not> is_link root_inode" "\<not> is_link file_inode"
  by (simp_all add: dir_bit_def S_IFDIR_def root_inode_def is_link_def EXT2_S_IFLNK_def file_inode_def)

lemma demo_tree: "tree_ok demo_fs {2, 12} (\<lambda>n. [demo_entries])"
  using demo_dir_has by (auto simp: tree_ok_def demo_inode_at demo_entries_def)

theorem ext2TraversePath_walk_witness:
  "ext2TraversePath [47, 104, 101, 108, 108, 111] EXT2_ROOT_INODE True True demo_fs = Inr ((12, None), demo_fs)"
  using ext2TraversePath_walk [OF demo_wf(1) demo_tree, of "[[104, 101, 108, 108, 111]]" True]
  by (simp add: demo_inode_at component_def slash_def found_inode_def demo_entries_def find_entry_def live_def
      path_result_def)

end
