(* ===== verification/Ext2_Dirs.thy ===== *)
theory Ext2_Dirs
  imports Ext2_Traverse
begin

text \<open>
  \<^verbatim>\<open>ext2_dirs.c\<close> with \<^verbatim>\<open>dents.cpp\<close>: adding an entry to a directory, removing one and listing the
  entries. A file name is the list of its bytes; the callers pass the length as \<^verbatim>\<open>uint8_t\<close>,
  so it has at most 255 of them. The parent inode is passed by pointer and updated when the
  directory grows: \<open>ext2DirAllocate\<close> returns it.
\<close>

section \<open>Adding an entry\<close>

fun alloc_blocks ::
  "nat \<Rightarrow> Ext2Inode \<Rightarrow> nat \<Rightarrow> Ext2LookupControl \<Rightarrow> nat \<Rightarrow> byte list \<Rightarrow> byte \<Rightarrow> u32 \<Rightarrow>
   (bool option \<times> Ext2LookupControl \<times> nat) ext2_cmd" where
  "alloc_blocks 0 ino num control blockNum filename ty inode = ret (None, control, blockNum)"
| "alloc_blocks (Suc k) ino num control blockNum filename ty inode =
     bnd (ext2BlockFetch ino num control blockNum) (\<lambda>(block, control).
       if block = 0 then ret (None, control, blockNum)
       else (\<lambda>s.
         let lba = BLOCK_TO_LBA s 0 (unat block); n = blockSize s div SECTOR_SIZE in
         bnd (get_sectors lba n) (\<lambda>names.
         bnd (lift (insert_scan names 0 filename ty inode)) (\<lambda>r.
           case r of
             Name_exists \<Rightarrow> ret (Some False, control, blockNum + 1)
           | Inserted names' \<Rightarrow> andthen (set_sectors names' lba n) (ret (Some True, control, blockNum + 1))
           | No_room \<Rightarrow> alloc_blocks k ino num control (blockNum + 1) filename ty inode)) s))"

text \<open>The part of \<^verbatim>\<open>ext2DirAllocate\<close> after the loop: one more block, holding the new entry only.\<close>

definition grow_directory ::
  "nat \<Rightarrow> Ext2Inode \<Rightarrow> Ext2LookupControl \<Rightarrow> nat \<Rightarrow> byte list \<Rightarrow> byte \<Rightarrow> u32 \<Rightarrow> Ext2Inode ext2_cmd" where
  "grow_directory inodeNum ino control blockNum filename ty inode = (\<lambda>s.
     bnd (ext2BlockFind (INODE_TO_BLOCK_GROUP 32 s inodeNum) 1) (\<lambda>block.
     let lba = BLOCK_TO_LBA s 0 block; n = blockSize s div SECTOR_SIZE in
     bnd (get_sectors lba n) (\<lambda>buff.
     bnd (lift (wr buff 0 (enc_dir \<lparr>d_inode = inode, d_size = of_nat (blockSize s),
                d_filenameLength = of_nat (length filename), d_type = ty\<rparr> @ filename))) (\<lambda>buff.
     andthen (set_sectors buff lba n)
     (bnd (ext2BlockAssign ino inodeNum control blockNum (of_nat block)) (\<lambda>(ino, control).
      let ino' = ino\<lparr>i_num_sectors := i_num_sectors ino + of_nat n, i_size := i_size ino + of_nat (blockSize s)\<rparr>
      in andthen (ext2InodeModifyM inodeNum ino') (ret ino')))))) s)"

definition ext2DirAllocate ::
  "nat \<Rightarrow> Ext2Inode \<Rightarrow> byte list \<Rightarrow> byte \<Rightarrow> u32 \<Rightarrow> (bool \<times> Ext2Inode) ext2_cmd" where
  "ext2DirAllocate inodeNum ino filename ty inode = (\<lambda>s.
     andthen (spin_diralloc spinlock_acquire)
     (bnd (alloc_blocks (CEILING_DIVISION (unat (i_size ino)) (blockSize s)) ino inodeNum
             (ext2BlockFetchInit s control0) 0 filename ty inode) (\<lambda>(r, control, blockNum).
      bnd (case r of
             Some found \<Rightarrow> ret (found, ino)
           | None \<Rightarrow> bnd (grow_directory inodeNum ino control blockNum filename ty inode) (\<lambda>ino'. ret (True, ino')))
        (\<lambda>res. andthen (spin_diralloc release) (ret res)))) s)"

section \<open>Removing an entry\<close>

text \<open>
  The inner loop does not stop at a match: it goes on with \<^verbatim>\<open>before\<close> set to the entry just
  unlinked. The buffer is written to the block at every match.
\<close>

function remove_scan ::
  "nat \<Rightarrow> nat \<Rightarrow> byte list \<Rightarrow> nat \<Rightarrow> nat option \<Rightarrow> bool \<Rightarrow> byte list \<Rightarrow> bool ext2_cmd" where
  "remove_scan bsize lba names off before found filename =
     (if off < bsize then
        bnd (lift (dir_at names off)) (\<lambda>d.
        bnd (lift (entry_matches names off d filename)) (\<lambda>hit.
        bnd (if hit then
               bnd (lift (unlink_entry names off before d)) (\<lambda>names'.
               andthen (set_sectors names' lba (bsize div SECTOR_SIZE)) (ret names'))
             else ret names) (\<lambda>names'.
        bnd (lift (dir_at names' off)) (\<lambda>d'.
        if d_size d' = 0 then fail Diverges
        else remove_scan bsize lba names' (off + unat (d_size d')) (Some off) (found \<or> hit) filename))))
      else ret found)"
  by pat_completeness auto
termination
  by (relation "measure (\<lambda>(bsize, lba, names, off, b, r, f). bsize - off)") (auto simp flip: unat_gt_0)

declare remove_scan.simps [simp del]

fun remove_blocks ::
  "nat \<Rightarrow> Ext2Inode \<Rightarrow> nat \<Rightarrow> Ext2LookupControl \<Rightarrow> nat \<Rightarrow> bool \<Rightarrow> byte list \<Rightarrow> bool ext2_cmd" where
  "remove_blocks 0 ino num control blockNum found filename = ret found"
| "remove_blocks (Suc k) ino num control blockNum found filename =
     bnd (ext2BlockFetch ino num control blockNum) (\<lambda>(block, control).
       if block = 0 then ret found
       else (\<lambda>s.
         let lba = BLOCK_TO_LBA s 0 (unat block) in
         bnd (get_sectors lba (blockSize s div SECTOR_SIZE)) (\<lambda>names.
         bnd (remove_scan (blockSize s) lba names 0 None found filename) (\<lambda>found.
         remove_blocks k ino num control (blockNum + 1) found filename)) s))"

definition ext2DirRemove :: "Ext2Inode \<Rightarrow> nat \<Rightarrow> byte list \<Rightarrow> bool ext2_cmd" where
  "ext2DirRemove ino num filename = (\<lambda>s.
     andthen (spin_diralloc spinlock_acquire)
     (bnd (remove_blocks (CEILING_DIVISION (unat (i_size ino)) (blockSize s)) ino num
             (ext2BlockFetchInit s control0) 0 False filename) (\<lambda>r.
      andthen (spin_diralloc release) (ret r))) s)"

section \<open>Listing a directory\<close>

definition dents_type :: "byte \<Rightarrow> byte" where
  "dents_type t = (if t = 2 then CDT_DIR else if t = 7 then CDT_LNK else CDT_REG)"

text \<open>
  The inner loop of \<^verbatim>\<open>ext2Getdents64\<close> over one block. The result is \<^verbatim>\<open>stop\<close> with the value
  returned if it is set, the position and what was written. Entries with inode 0 do not
  advance the position.
\<close>

function dents_scan ::
  "(nat \<Rightarrow> u64) \<Rightarrow> u32 \<Rightarrow> byte list \<Rightarrow> nat \<Rightarrow> nat \<Rightarrow> linux_dirent64 list \<Rightarrow> u32 \<Rightarrow>
   (u64 option \<times> nat \<times> linux_dirent64 list \<times> u32) res" where
  "dents_scan rand hardlimit names off ptr out alloc =
     (if off < length names then
        bindR (dir_at names off) (\<lambda>d.
        if d_inode d \<noteq> 0 then
          bindR (rdseg names (off + DIR_BYTES) (unat (d_filenameLength d))) (\<lambda>nm.
          case dents_add rand out alloc hardlimit nm (d_inode d) (dents_type (d_type d)) of
            (DENTS_NO_SPACE, _, _) \<Rightarrow> Inr (Some (ERR EINVAL), ptr, out, alloc)
          | (DENTS_RETURN, _, _) \<Rightarrow> Inr (Some (ucast alloc), ptr, out, alloc)
          | (DENTS_SUCCESS, out', alloc') \<Rightarrow>
              if d_size d = 0 then Inl Diverges
              else dents_scan rand hardlimit names (off + unat (d_size d)) (ptr + unat (d_size d)) out' alloc')
        else if d_size d = 0 then Inl Diverges
        else dents_scan rand hardlimit names (off + unat (d_size d)) ptr out alloc)
      else Inr (None, ptr, out, alloc))"
  by pat_completeness auto
termination
  by (relation "measure (\<lambda>(r, h, names, off, p, ds, a). length names - off)") (auto simp flip: unat_gt_0)

declare dents_scan.simps [simp del]

fun dents_blocks ::
  "(nat \<Rightarrow> u64) \<Rightarrow> u32 \<Rightarrow> nat \<Rightarrow> Ext2OpenFd \<Rightarrow> linux_dirent64 list \<Rightarrow> u32 \<Rightarrow>
   (u64 \<times> linux_dirent64 list \<times> Ext2OpenFd) ext2_cmd" where
  "dents_blocks rand hardlimit 0 edir out alloc = ret (ucast alloc, out, edir)"
| "dents_blocks rand hardlimit (Suc k) edir out alloc = (\<lambda>s.
     bnd (ext2BlockFetch (fd_inode edir) (fd_inodeNum edir) (fd_lookup edir) (fd_ptr edir div blockSize s))
       (\<lambda>(block, control).
        let edir = edir\<lparr>fd_lookup := control\<rparr> in
        if block = 0 then ret (ucast alloc, out, edir)
        else
          bnd (get_sectors (BLOCK_TO_LBA s 0 (unat block)) (blockSize s div SECTOR_SIZE)) (\<lambda>names.
          bnd (lift (dents_scan rand hardlimit names (fd_ptr edir mod blockSize s) (fd_ptr edir) out alloc))
            (\<lambda>(stop, ptr, out, alloc).
             case stop of
               Some r \<Rightarrow> ret (r, out, edir\<lparr>fd_ptr := ptr\<rparr>)
             | None \<Rightarrow>
                 let rem = ptr mod blockSize s;
                     ptr' = (if rem \<noteq> 0 then ptr + (blockSize s - rem) else ptr)
                 in dents_blocks rand hardlimit k (edir\<lparr>fd_ptr := ptr'\<rparr>) out alloc))) s)"

definition ext2Getdents64 ::
  "(nat \<Rightarrow> u64) \<Rightarrow> Ext2OpenFd \<Rightarrow> u32 \<Rightarrow> (u64 \<times> linux_dirent64 list \<times> Ext2OpenFd) ext2_cmd" where
  "ext2Getdents64 rand edir hardlimit = (\<lambda>s.
     if i_permission (fd_inode edir) AND 0xF000 \<noteq> EXT2_S_IFDIR then Inr ((ERR ENOTDIR, [], edir), s)
     else dents_blocks rand hardlimit (CEILING_DIVISION (unat (i_size (fd_inode edir))) (blockSize s)) edir [] 0 s)"

end
