(* ===== verification/Ext2_Create.thy ===== *)
theory Ext2_Create
  imports Ext2_Dirs
begin

text \<open>
  \<^verbatim>\<open>ext2_create.c\<close>: creating a directory and a regular file. Both return the error code of the
  system call and the path left in \<^verbatim>\<open>symlinkResolve\<close> when resolving the parent stopped at a
  symbolic link.
\<close>

section \<open>Splitting a path\<close>

definition last_slash :: "byte list \<Rightarrow> nat" where
  "last_slash path = foldl (\<lambda>l i. if path ! i = slash then i else l) 0 [0..<length path]"

definition base_name :: "byte list \<Rightarrow> byte list res" where
  "base_name path =
     (if last_slash path + 1 \<le> length path then Inr (drop (last_slash path + 1) path) else Inl Out_of_bounds)"

definition parent_inode :: "byte list \<Rightarrow> (nat \<times> byte list option) ext2_cmd" where
  "parent_inode path =
     (if 0 < last_slash path
      then ext2TraversePath (take (last_slash path) path) EXT2_ROOT_INODE True True
      else ret (2, None))"

section \<open>Creating\<close>

text \<open>The inode both functions prepare; \<open>time\<close> is stored in 32 bits.\<close>

definition new_inode :: "u16 \<Rightarrow> u32 \<Rightarrow> nat \<Rightarrow> u16 \<Rightarrow> Ext2Inode" where
  "new_inode ty mode time links =
     \<lparr>i_permission = ty OR ucast mode, i_userid = 0, i_size = 0, i_atime = of_nat time, i_ctime = of_nat time,
      i_mtime = of_nat time, i_dtime = 0, i_gid = 0, i_hard_links = links, i_num_sectors = 0, i_flags = 0,
      i_os_specific1 = 0, i_blocks = replicate (EXT2_DIRECT_BLOCKS + 3) 0, i_generation = 0, i_file_acl = 0,
      i_size_high = 0, i_f_block_addr = 0, i_os_specific2 = replicate 12 0\<rparr>"

text \<open>The checks before anything is written; \<open>on_root\<close> is the error for the path \<^verbatim>\<open>/\<close>.\<close>

definition create_checks ::
  "nat \<Rightarrow> byte list \<Rightarrow> (u64 \<times> byte list option + nat \<times> Ext2Inode \<times> byte list \<times> byte list option) ext2_cmd" where
  "create_checks on_root path =
     bnd (parent_inode path) (\<lambda>(inode, link).
     if inode = 0 then ret (Inl (ERR ENOENT, link))
     else bnd (lift (base_name path)) (\<lambda>name.
     if name = [] then ret (Inl (ERR on_root, link))
     else bnd (ext2InodeFetch inode) (\<lambda>inodeContents.
     if \<not> dir_bit inodeContents then ret (Inl (ERR ENOTDIR, link))
     else bnd (ext2Traverse inode name) (\<lambda>found.
     if found \<noteq> 0 then ret (Inl (ERR EEXIST, link))
     else ret (Inr (inode, inodeContents, name, link))))))"

definition entry_name :: "byte list \<Rightarrow> byte list" where
  "entry_name name = take (length name mod 256) name"

definition dot :: byte where "dot = 46"

definition ext2Mkdir :: "byte list \<Rightarrow> u32 \<Rightarrow> (u64 \<times> byte list option) ext2_cmd" where
  "ext2Mkdir dirname mode =
     bnd (create_checks EEXIST dirname) (\<lambda>r. case r of
       Inl e \<Rightarrow> ret e
     | Inr (inode, inodeContents, name, link) \<Rightarrow> (\<lambda>s.
         bnd (ext2InodeFind (INODE_TO_BLOCK_GROUP 32 s inode)) (\<lambda>newInodeNum.
         let newInode = new_inode S_IFDIR mode (unix_time s) 2 in
         andthen (ext2InodeModifyM newInodeNum newInode)
         (bnd (ext2DirAllocate newInodeNum newInode [dot] 2 (of_nat newInodeNum)) (\<lambda>(_, newInode).
          bnd (ext2DirAllocate newInodeNum newInode [dot, dot] 2 (of_nat inode)) (\<lambda>(_, newInode).
          bnd (ext2DirAllocate inode inodeContents (entry_name name) 2 (of_nat newInodeNum)) (\<lambda>(_, inodeContents).
          andthen (ext2InodeModifyM inode (inodeContents\<lparr>i_hard_links := i_hard_links inodeContents + 1\<rparr>))
          (ret (0, link))))))) s))"

definition ext2Touch :: "byte list \<Rightarrow> u32 \<Rightarrow> (u64 \<times> byte list option) ext2_cmd" where
  "ext2Touch filename mode =
     bnd (create_checks EISDIR filename) (\<lambda>r. case r of
       Inl e \<Rightarrow> ret e
     | Inr (inode, inodeContents, name, link) \<Rightarrow> (\<lambda>s.
         bnd (ext2InodeFind (INODE_TO_BLOCK_GROUP 32 s inode)) (\<lambda>newInodeNum.
         andthen (ext2InodeModifyM newInodeNum (new_inode S_IFREG mode (unix_time s) 1))
         (bnd (ext2DirAllocate inode inodeContents (entry_name name) 1 (of_nat newInodeNum)) (\<lambda>_.
          ret (0, link)))) s))"

end
