(* ===== verification/Dll.thy ===== *)
theory Dll
  imports Prelude
begin

text \<open>
  Doubly linked lists in a store, shared by the two lists of the ext2 caching layer. A store
  is seen through its links: \<open>L x\<close> is the pair of the previous and the next pointer of node
  \<open>x\<close>, if it is allocated; 0 is the null pointer. \<open>dll L a p xs e\<close> says that from \<open>p\<close>,
  reached from \<open>a\<close>, the nodes \<open>xs\<close> follow each other and the last one points to \<open>e\<close>.
\<close>

type_synonym links = "nat \<Rightarrow> (nat \<times> nat) option"

fun dll :: "links \<Rightarrow> nat \<Rightarrow> nat \<Rightarrow> nat list \<Rightarrow> nat \<Rightarrow> bool" where
  "dll L a p [] e = (p = e)"
| "dll L a p (x # xs) e = (p = x \<and> x \<noteq> 0 \<and> (\<exists>n. L x = Some (a, n) \<and> dll L x n xs e))"

definition dlist :: "links \<Rightarrow> nat \<Rightarrow> nat list \<Rightarrow> bool" where
  "dlist L p xs \<longleftrightarrow> dll L 0 p xs 0 \<and> distinct xs"

text \<open>\<open>couple a b\<close> makes \<open>b\<close> follow \<open>a\<close>; at a null pointer that side is left out.\<close>

definition couple :: "nat \<Rightarrow> nat \<Rightarrow> links \<Rightarrow> links" where
  "couple a b L = (\<lambda>x. map_option (\<lambda>(p, n). (if x = b then a else p, if x = a then b else n)) (L x))"

lemma dll_append:
  "dll L a p (xs @ ys) e \<longleftrightarrow> (\<exists>q. dll L a p xs q \<and> dll L (last (a # xs)) q ys e)"
  by (induction xs arbitrary: a p) auto

lemma dll_frame:
  "\<forall>x \<in> set xs. L x = L' x \<Longrightarrow> dll L a p xs e = dll L' a p xs e"
  by (induction xs arbitrary: a p) auto

lemma dll_nonzero: "dll L a p xs e \<Longrightarrow> x \<in> set xs \<Longrightarrow> x \<noteq> 0 \<and> L x \<noteq> None"
  by (induction xs arbitrary: a p) auto

lemma dll_zero: "dll L a p xs e \<Longrightarrow> 0 \<notin> set xs"
  using dll_nonzero by blast

lemma dll_hd: "dll L a p xs e \<Longrightarrow> p = hd (xs @ [e])"
  by (cases xs) auto

lemma dll_next: "dll L a p xs e \<Longrightarrow> q \<in> set xs \<Longrightarrow> L q = Some (u, v) \<Longrightarrow> v = e \<or> v \<in> set xs"
proof -
  assume a: "dll L a p xs e" "q \<in> set xs" "L q = Some (u, v)"
  then obtain ys zs where xs: "xs = ys @ q # zs" by (meson split_list)
  with a have "dll L q v zs e" by (auto simp: dll_append)
  then have "v = hd (zs @ [e])" by (rule dll_hd)
  with xs show ?thesis by (cases zs) auto
qed

lemma dll_first_in: "dll L a p xs 0 \<Longrightarrow> p \<noteq> 0 \<Longrightarrow> p \<in> set xs"
  by (cases xs) auto

lemma ends_apart:
  assumes "distinct (ys @ zs)" "(0 :: nat) \<notin> set ys" "0 \<notin> set zs"
  shows "hd (zs @ [0]) \<notin> set ys" "last (0 # ys) \<notin> set zs"
proof -
  have "hd (zs @ [0]) = 0 \<or> hd (zs @ [0]) \<in> set zs" "last (0 # ys) = 0 \<or> last (0 # ys) \<in> set ys"
    by (cases zs; simp) (cases "ys = []"; simp)
  then show "hd (zs @ [0]) \<notin> set ys" "last (0 # ys) \<notin> set zs"
    using assms by auto
qed

lemma last_null: "0 \<notin> set ys \<Longrightarrow> (last (0 # ys) = (0 :: nat)) = (ys = [])"
  by (metis last.simps last_in_set)

lemma link_other: "x \<noteq> a \<Longrightarrow> x \<noteq> b \<Longrightarrow> couple a b L x = L x"
  by (cases "L x") (auto simp: couple_def)

text \<open>After \<open>couple\<close>, the segment before ends at \<open>b\<close> and the segment behind starts from \<open>a\<close>.\<close>

lemma dll_link_before:
  "dll L c p ys u \<Longrightarrow> distinct ys \<Longrightarrow> ys \<noteq> [] \<Longrightarrow> b \<notin> set ys \<Longrightarrow> dll (couple (last ys) b L) c p ys b"
proof (induction ys arbitrary: c p)
  case Nil
  then show ?case by simp
next
  case (Cons y ys)
  show ?case
  proof (cases "ys = []")
    case True
    then show ?thesis using Cons.prems by (auto simp: couple_def)
  next
    case False
    then have "y \<noteq> last ys" "y \<noteq> b"
      using Cons.prems last_in_set [OF False] by auto
    then have "couple (last ys) b L y = L y"
      by (rule link_other)
    then show ?thesis
      using Cons False by auto
  qed
qed

lemma dll_link_behind:
  assumes "dll L v q zs e" "distinct zs" "zs \<noteq> []" "a \<notin> set zs"
  shows "dll (couple a (hd zs) L) a q zs e"
proof -
  obtain z zs' where zs: "zs = z # zs'"
    using assms(3) by (cases zs) auto
  obtain n where n: "q = z" "z \<noteq> 0" "L z = Some (v, n)" "dll L z n zs' e"
    using assms(1) zs by auto
  have "dll (couple a z L) z n zs' e"
    using n(4) assms(2,4) zs by (subst dll_frame [of _ _ L]) (auto intro!: link_other)
  then show ?thesis
    using n assms(4) zs by (simp add: couple_def)
qed

lemma dll_join:
  assumes "dll L 0 p ys u" "dll L v q zs 0" "distinct (ys @ zs)"
  shows "dll (couple (last (0 # ys)) q L) 0 (if ys = [] then q else p) (ys @ zs) 0"
proof -
  let ?a = "last (0 # ys)" and ?L = "couple (last (0 # ys)) q L"
  have q: "q = hd (zs @ [0])"
    using assms(2) by (rule dll_hd)
  have notin: "q \<notin> set ys" "?a \<notin> set zs"
    using ends_apart [OF assms(3) dll_zero [OF assms(1)] dll_zero [OF assms(2)]] q by simp_all
  have behind: "dll ?L ?a q zs 0"
  proof (cases "zs = []")
    case True
    then show ?thesis using assms(2) by simp
  next
    case False
    then show ?thesis
      using dll_link_behind [OF assms(2) _ False notin(2)] assms(3) q by simp
  qed
  show ?thesis
  proof (cases "ys = []")
    case True
    then show ?thesis using behind by simp
  next
    case False
    have "dll ?L 0 p ys q"
      using dll_link_before [OF assms(1) _ False notin(1)] assms(3) False by simp
    then show ?thesis
      using behind False by (auto simp: dll_append)
  qed
qed

section \<open>Removing and inserting a node\<close>

lemma dlist_remove:
  assumes "dlist L p (ys @ x # zs)" "L x = Some (a, n)"
    "\<And>y. y \<noteq> x \<Longrightarrow> L' y = couple a n L y"
  shows "a = last (0 # ys)" "n = hd (zs @ [0])" "dlist L' (if a = 0 then n else p) (ys @ zs)"
proof -
  have d: "dll L 0 p (ys @ x # zs) 0" "distinct (ys @ x # zs)"
    using assms(1) by (simp_all add: dlist_def)
  then obtain u where u: "dll L 0 p ys u" "dll L (last (0 # ys)) u (x # zs) 0"
    unfolding dll_append by blast
  then have x: "u = x" "x \<noteq> 0" "dll L x n zs 0" "a = last (0 # ys)"
    using assms(2) by auto
  show "a = last (0 # ys)" "n = hd (zs @ [0])"
    using x(4) dll_hd [OF x(3)] by simp_all
  have "dll (couple a n L) 0 (if ys = [] then n else p) (ys @ zs) 0"
    using dll_join [OF u(1) x(3)] d(2) x(4) by simp
  moreover have "(a = 0) = (ys = [])"
    unfolding x(4) by (rule last_null [OF dll_zero [OF u(1)]])
  moreover have "\<forall>y \<in> set (ys @ zs). couple a n L y = L' y"
    using d(2) assms(3) by (metis distinct.simps(2) distinct_append disjoint_insert(2) list.simps(15) set_append Un_iff)
  ultimately show "dlist L' (if a = 0 then n else p) (ys @ zs)"
    using d(2) dll_frame [of "ys @ zs" "couple a n L" L'] by (simp add: dlist_def)
qed

lemma dlist_insert:
  assumes "dlist L p (ys @ zs)" "t \<notin> set (ys @ zs)" "t \<noteq> 0"
    "L' t = Some (last (0 # ys), hd (zs @ [0]))"
    "\<And>y. y \<noteq> t \<Longrightarrow> L' y = couple (last (0 # ys)) t (couple t (hd (zs @ [0])) L) y"
  shows "dlist L' (if ys = [] then t else p) (ys @ t # zs)"
proof -
  let ?a = "last (0 # ys)" and ?b = "hd (zs @ [0])"
  have d: "dll L 0 p (ys @ zs) 0" "distinct (ys @ zs)"
    using assms(1) by (simp_all add: dlist_def)
  then obtain q where q: "dll L 0 p ys q" "dll L ?a q zs 0"
    unfolding dll_append by blast
  have qb: "q = ?b"
    using q(2) by (rule dll_hd)
  let ?M = "couple ?a t (couple t ?b L)"
  have notin: "t \<notin> set ys" "t \<notin> set zs" "?a \<notin> set zs" "?b \<notin> set ys"
    using assms(2) ends_apart [OF d(2) dll_zero [OF q(1)] dll_zero [OF q(2)]] by simp_all
  have "dll (couple t ?b L) t q zs 0"
    using dll_link_behind [OF q(2) _ _ notin(2)] d(2) q(2) by (cases "zs = []") auto
  then have zs: "dll ?M t q zs 0"
    using notin dll_frame [of zs ?M "couple t ?b L"] by (metis link_other)
  have ys: "dll ?M 0 (if ys = [] then t else p) ys t"
  proof (cases "ys = []")
    case False
    have "dll (couple t ?b L) 0 p ys q"
      using q(1) notin by (subst dll_frame [of _ _ L]) (auto intro!: link_other)
    then show ?thesis
      using dll_link_before [OF _ _ False notin(1)] d(2) False by simp
  qed simp
  have "\<forall>y \<in> set ys. ?M y = L' y" "\<forall>y \<in> set zs. ?M y = L' y"
    using notin(1,2) assms(5) by metis+
  then have "dll L' 0 (if ys = [] then t else p) ys t" "dll L' t q zs 0"
    using ys zs dll_frame by blast+
  then have "dll L' 0 (if ys = [] then t else p) (ys @ t # zs) 0"
    using assms(3,4) qb unfolding dll_append by auto
  then show ?thesis
    using d(2) notin by (auto simp: dlist_def)
qed

lemma dll_last_next:
  assumes "dlist L p (ys @ zs)" "ys \<noteq> []"
  shows "\<exists>a. L (last ys) = Some (a, hd (zs @ [0]))"
proof -
  obtain ys' y where y: "ys = ys' @ [y]"
    using assms(2) by (metis append_butlast_last_id)
  have "dll L 0 p (ys' @ y # zs) 0"
    using assms(1) y by (simp add: dlist_def)
  then obtain n where "L y = Some (last (0 # ys'), n)" "dll L y n zs 0"
    by (auto simp: dll_append)
  then show ?thesis
    using dll_hd [of L y n zs 0] y by simp
qed

lemma dlist_nodes: "dlist L p xs \<Longrightarrow> x \<in> set xs \<Longrightarrow> x \<noteq> 0 \<and> L x \<noteq> None"
  by (auto simp: dlist_def dest: dll_nonzero)

end
