(* ===== verification/Ext2_Caching.thy ===== *)
theory Ext2_Caching
  imports Ext2_Meta Dll
begin

text \<open>
  \<^verbatim>\<open>ext2_caching.c\<close>: the list of cached block ranges of an open file, kept sorted by the index
  of the first block, and the list of all files in use, most recently used first. Both are
  doubly linked lists in a store; a null or freed pointer that is followed is \<open>Undefined\<close>.
  A loop that visits more nodes than were ever allocated is on a cycle and is \<open>Diverges\<close>:
  \<open>next_ptr\<close> bounds the number of nodes.
\<close>

section \<open>Access to the nodes\<close>

definition get_found :: "ptr \<Rightarrow> Ext2FoundObject ext2_cmd" where
  "get_found p = (\<lambda>s. case foundObjs s p of None \<Rightarrow> Inl Undefined | Some x \<Rightarrow> Inr (x, s))"

definition upd_found :: "ptr \<Rightarrow> (Ext2FoundObject \<Rightarrow> Ext2FoundObject) \<Rightarrow> unit ext2_cmd" where
  "upd_found p f = (\<lambda>s. case foundObjs s p of None \<Rightarrow> Inl Undefined
     | Some x \<Rightarrow> Inr ((), s\<lparr>foundObjs := (foundObjs s)(p \<mapsto> f x)\<rparr>))"

definition get_cache :: "ptr \<Rightarrow> Ext2CacheObject ext2_cmd" where
  "get_cache p = (\<lambda>s. case cacheObjs s p of None \<Rightarrow> Inl Undefined | Some x \<Rightarrow> Inr (x, s))"

definition upd_cache :: "ptr \<Rightarrow> (Ext2CacheObject \<Rightarrow> Ext2CacheObject) \<Rightarrow> unit ext2_cmd" where
  "upd_cache p f = (\<lambda>s. case cacheObjs s p of None \<Rightarrow> Inl Undefined
     | Some x \<Rightarrow> Inr ((), s\<lparr>cacheObjs := (cacheObjs s)(p \<mapsto> f x)\<rparr>))"

definition free_cache :: "ptr \<Rightarrow> unit ext2_cmd" where
  "free_cache p = (\<lambda>s. if cacheObjs s p = None then Inl Undefined
     else Inr ((), s\<lparr>cacheObjs := (cacheObjs s)(p := None)\<rparr>))"

definition new_cache :: "Ext2CacheObject \<Rightarrow> ptr ext2_cmd" where
  "new_cache x = (\<lambda>s. Inr (next_ptr s,
     s\<lparr>cacheObjs := (cacheObjs s)(next_ptr s \<mapsto> x), next_ptr := next_ptr s + 1\<rparr>))"

definition cond :: "bool \<Rightarrow> unit ext2_cmd \<Rightarrow> unit ext2_cmd" where
  "cond b c = (if b then c else ret ())"

definition lock_found ::
  "(Ext2FoundObject \<Rightarrow> 'l) \<Rightarrow> (('l \<Rightarrow> 'l) \<Rightarrow> Ext2FoundObject \<Rightarrow> Ext2FoundObject) \<Rightarrow>
   ('l \<Rightarrow> 'l res) \<Rightarrow> ptr \<Rightarrow> unit ext2_cmd" where
  "lock_found sel upd op p =
     bnd (get_found p) (\<lambda>x. bnd (lift (op (sel x))) (\<lambda>l. upd_found p (upd (\<lambda>_. l))))"

definition cache_lock :: "(SpinlockCnt \<Rightarrow> SpinlockCnt res) \<Rightarrow> ptr \<Rightarrow> unit ext2_cmd" where
  "cache_lock = lock_found WLOCK_CACHE WLOCK_CACHE_update"

definition file_lock :: "(SpinlockCnt \<Rightarrow> SpinlockCnt res) \<Rightarrow> ptr \<Rightarrow> unit ext2_cmd" where
  "file_lock = lock_found WLOCK_FILE WLOCK_FILE_update"

definition prop_lock :: "(Spinlock \<Rightarrow> Spinlock res) \<Rightarrow> ptr \<Rightarrow> unit ext2_cmd" where
  "prop_lock = lock_found LOCK_PROP LOCK_PROP_update"

section \<open>Cached block ranges\<close>

definition in_window :: "nat \<Rightarrow> nat \<Rightarrow> nat \<Rightarrow> bool" where
  "in_window blockIndex0 blocks i \<longleftrightarrow> blockIndex0 \<le> i \<and> i < blockIndex0 + blocks"

text \<open>The first loop: the first object that starts in the window, and the last one before it.\<close>

fun find_cached :: "nat \<Rightarrow> nat \<Rightarrow> nat \<Rightarrow> ptr \<Rightarrow> ptr \<Rightarrow> (ptr \<times> ptr) ext2_cmd" where
  "find_cached 0 bi blocks obj lastCaught = fail Diverges"
| "find_cached (Suc fuel) bi blocks obj lastCaught =
     (if obj = 0 then ret (obj, lastCaught)
      else bnd (get_cache obj) (\<lambda>x.
        if in_window bi blocks (blockIndex x) then ret (obj, lastCaught)
        else find_cached fuel bi blocks (c_next x) obj))"

text \<open>The second loop: the object to insert after, with \<^verbatim>\<open>allAreSmaller\<close>.\<close>

fun find_spot :: "nat \<Rightarrow> nat \<Rightarrow> ptr \<Rightarrow> bool \<Rightarrow> (ptr \<times> bool) ext2_cmd" where
  "find_spot 0 bi browse allAreSmaller = fail Diverges"
| "find_spot (Suc fuel) bi browse allAreSmaller =
     (if browse = 0 then ret (0, allAreSmaller)
      else bnd (get_cache browse) (\<lambda>x.
        if blockIndex x < bi then find_spot fuel bi (c_next x) True
        else if blockIndex x = bi then fail Assert_failed
        else ret (c_prev x, allAreSmaller)))"

text \<open>The new node, placed after \<open>browse\<close>, behind \<open>lastCaught\<close> or in front.\<close>

definition cache_place :: "ptr \<Rightarrow> ptr \<Rightarrow> ptr \<Rightarrow> ptr \<Rightarrow> bool \<Rightarrow> ptr \<Rightarrow> unit ext2_cmd" where
  "cache_place global first lastCaught browse allAreSmaller target =
     (if first = 0 then upd_found global (firstCacheObj_update (\<lambda>_. target))
      else if browse \<noteq> 0 then
        bnd (get_cache browse) (\<lambda>x. let nxt = c_next x in
        andthen (upd_cache browse (c_next_update (\<lambda>_. target)))
        (andthen (upd_cache target (c_prev_update (\<lambda>_. browse)))
        (andthen (upd_cache target (c_next_update (\<lambda>_. nxt)))
        (cond (nxt \<noteq> 0) (upd_cache nxt (c_prev_update (\<lambda>_. target)))))))
      else if allAreSmaller \<and> lastCaught \<noteq> 0 then
        andthen (upd_cache lastCaught (c_next_update (\<lambda>_. target)))
        (upd_cache target (c_prev_update (\<lambda>_. lastCaught)))
      else if \<not> allAreSmaller then
        andthen (upd_cache target (c_next_update (\<lambda>_. first)))
        (andthen (upd_found global (firstCacheObj_update (\<lambda>_. target)))
        (cond (first \<noteq> 0) (upd_cache first (c_prev_update (\<lambda>_. target)))))
      else fail Assert_failed)"

definition cache_insert :: "ptr \<Rightarrow> byte list \<Rightarrow> nat \<Rightarrow> nat \<Rightarrow> ptr \<Rightarrow> unit ext2_cmd" where
  "cache_insert global buff bi blocks lastCaught =
     bnd (get_found global) (\<lambda>g s.
     bnd (find_spot (next_ptr s + 1) bi (firstCacheObj g) False) (\<lambda>(browse, allAreSmaller).
     bnd (new_cache \<lparr>c_next = 0, c_prev = 0, blockIndex = trunc32 bi, c_buff = buff, c_blocks = trunc32 blocks\<rparr>)
       (\<lambda>target.
     andthen (modify (\<lambda>s. s\<lparr>blocksCached := (blocksCached s + blocks) mod 2 ^ 64\<rparr>))
     (cache_place global (firstCacheObj g) lastCaught browse allAreSmaller target))) s)"

text \<open>
  The removal loop: from the first object in the window on, as long as they are in it. The
  pages of the buffer go back to the page allocator, which is outside this state.
\<close>

definition cache_unlink :: "ptr \<Rightarrow> ptr \<Rightarrow> Ext2CacheObject \<Rightarrow> unit ext2_cmd" where
  "cache_unlink global browse x =
     andthen (modify (\<lambda>s. s\<lparr>blocksCached := (blocksCached s + (2 ^ 64 - c_blocks x)) mod 2 ^ 64\<rparr>))
     (andthen
       (if c_prev x = 0 then
          andthen (upd_found global (firstCacheObj_update (\<lambda>_. c_next x)))
          (cond (c_next x \<noteq> 0) (upd_cache (c_next x) (c_prev_update (\<lambda>_. 0))))
        else
          andthen (upd_cache (c_prev x) (c_next_update (\<lambda>_. c_next x)))
          (cond (c_next x \<noteq> 0) (upd_cache (c_next x) (c_prev_update (\<lambda>_. c_prev x)))))
       (free_cache browse))"

fun cache_evict :: "nat \<Rightarrow> ptr \<Rightarrow> nat \<Rightarrow> nat \<Rightarrow> ptr \<Rightarrow> unit ext2_cmd" where
  "cache_evict 0 global bi blocks browse = fail Diverges"
| "cache_evict (Suc fuel) global bi blocks browse =
     (if browse = 0 then ret ()
      else bnd (get_cache browse) (\<lambda>x.
        if \<not> in_window bi blocks (blockIndex x) then ret ()
        else andthen (cache_unlink global browse x)
             (cache_evict fuel global bi blocks (c_next x))))"

text \<open>
  \<^verbatim>\<open>ext2CacheAddSecurely\<close> calls itself after an eviction. Every eviction frees a node, so at
  most \<open>next_ptr\<close> of them can follow each other.
\<close>

fun cache_add_loop :: "nat \<Rightarrow> ptr \<Rightarrow> byte list \<Rightarrow> nat \<Rightarrow> nat \<Rightarrow> unit ext2_cmd" where
  "cache_add_loop 0 global buff bi blocks = fail Diverges"
| "cache_add_loop (Suc fuel) global buff bi blocks =
     andthen (cache_lock spinlock_cnt_write_acquire global)
     (bnd (get_found global) (\<lambda>g s.
      bnd (find_cached (next_ptr s + 1) bi blocks (firstCacheObj g) (firstCacheObj g)) (\<lambda>(obj, lastCaught).
      if obj = 0 then
        andthen (cache_insert global buff bi blocks lastCaught)
        (cache_lock spinlock_cnt_write_release global)
      else
        andthen (cache_evict (next_ptr s + 1) global bi blocks obj)
        (andthen (cache_lock spinlock_cnt_write_release global)
        (cache_add_loop fuel global buff bi blocks))) s))"

definition ext2CacheAddSecurely :: "ptr \<Rightarrow> byte list \<Rightarrow> nat \<Rightarrow> nat \<Rightarrow> unit ext2_cmd" where
  "ext2CacheAddSecurely global buff bi blocks = (\<lambda>s. cache_add_loop (next_ptr s + 1) global buff bi blocks s)"

section \<open>Files in use\<close>

definition ext2CachePush :: "Ext2OpenFd \<Rightarrow> unit ext2_cmd" where
  "ext2CachePush fd = (\<lambda>s.
     if firstObject s = globalObject fd then Inr ((), s)
     else andthen (spin_object spinlock_acquire)
       (bnd (get_found (globalObject fd)) (\<lambda>g.
        let beforeFd = f_prev g; afterFd = f_next g in
        andthen (\<lambda>s. upd_found (globalObject fd) (f_next_update (\<lambda>_. firstObject s)) s)
        (andthen (upd_found (globalObject fd) (f_prev_update (\<lambda>_. 0)))
        (andthen (cond (beforeFd \<noteq> 0) (upd_found beforeFd (f_next_update (\<lambda>_. afterFd))))
        (andthen (cond (afterFd \<noteq> 0) (upd_found afterFd (f_prev_update (\<lambda>_. beforeFd))))
        (andthen (modify (firstObject_update (\<lambda>_. globalObject fd)))
        (andthen (bnd (get_found (globalObject fd)) (\<lambda>g'.
                  cond (f_next g' \<noteq> 0) (upd_found (f_next g') (f_prev_update (\<lambda>_. globalObject fd)))))
        (spin_object release)))))))) s)"

section \<open>The lists behind the pointers\<close>

definition flinks :: "(ptr \<Rightarrow> Ext2FoundObject option) \<Rightarrow> links" where
  "flinks F = (\<lambda>x. map_option (\<lambda>y. (f_prev y, f_next y)) (F x))"

definition clinks :: "(ptr \<Rightarrow> Ext2CacheObject option) \<Rightarrow> links" where
  "clinks C = (\<lambda>x. map_option (\<lambda>y. (c_prev y, c_next y)) (C x))"

lemma get_found_run: "foundObjs s p = Some x \<Longrightarrow> get_found p s = Inr (x, s)"
  by (simp add: get_found_def)

lemma upd_found_run:
  "foundObjs s p = Some x \<Longrightarrow> upd_found p f s = Inr ((), s\<lparr>foundObjs := (foundObjs s)(p \<mapsto> f x)\<rparr>)"
  by (simp add: upd_found_def)

lemma get_cache_run: "cacheObjs s p = Some x \<Longrightarrow> get_cache p s = Inr (x, s)"
  by (simp add: get_cache_def)

lemma upd_cache_run:
  "cacheObjs s p = Some x \<Longrightarrow> upd_cache p f s = Inr ((), s\<lparr>cacheObjs := (cacheObjs s)(p \<mapsto> f x)\<rparr>)"
  by (simp add: upd_cache_def)

lemmas node_runs = get_found_run upd_found_run get_cache_run upd_cache_run

text \<open>A node with its links removed: what the list operations leave alone.\<close>

definition fdata :: "Ext2FoundObject \<Rightarrow> Ext2FoundObject" where
  "fdata x = x\<lparr>f_next := 0, f_prev := 0\<rparr>"

lemma fdata_links [simp]: "fdata (f_next_update g x) = fdata x" "fdata (f_prev_update g x) = fdata x"
  by (simp_all add: fdata_def)

text \<open>The stores \<open>ext2CachePush\<close> goes through when the object is not the first one already.\<close>

definition pushed :: "(ptr \<Rightarrow> Ext2FoundObject option) \<Rightarrow> ptr \<Rightarrow> ptr \<Rightarrow> ptr \<Rightarrow> Ext2FoundObject option" where
  "pushed F first p = (\<lambda>x. map_option (\<lambda>y.
     let a = (case F p of None \<Rightarrow> 0 | Some g \<Rightarrow> f_prev g); n = (case F p of None \<Rightarrow> 0 | Some g \<Rightarrow> f_next g) in
     if x = p then y\<lparr>f_next := first, f_prev := 0\<rparr>
     else y\<lparr>f_next := (if x = a then n else f_next y),
            f_prev := (if x = first then p else if x = n then a else f_prev y)\<rparr>) (F x))"

lemma ext2CachePush_run:
  assumes "\<not> LOCK_OBJECT s" "firstObject s \<noteq> globalObject fd" "foundObjs s (globalObject fd) = Some g"
    "f_prev g \<noteq> 0" "foundObjs s (f_prev g) = Some a" "f_prev g \<noteq> globalObject fd"
    "f_next g \<noteq> 0 \<longrightarrow> (\<exists>n. foundObjs s (f_next g) = Some n) \<and> f_next g \<noteq> globalObject fd \<and> f_next g \<noteq> f_prev g \<and>
       f_next g \<noteq> firstObject s"
    "firstObject s \<noteq> 0" "foundObjs s (firstObject s) = Some b" "foundObjs s 0 = None"
  shows "ext2CachePush fd s = Inr ((), s\<lparr>foundObjs := pushed (foundObjs s) (firstObject s) (globalObject fd),
    firstObject := globalObject fd\<rparr>)"
proof -
  let ?p = "globalObject fd" and ?f = "firstObject s" and ?n = "f_next g" and ?a = "f_prev g"
  have lock: "s\<lparr>LOCK_OBJECT := False\<rparr> = s"
    using assms(1) by simp
  note run = ext2CachePush_def cmd_simps spin_object_def lock1_def spinlock_acquire_def spinlock_release_def
    get_found_def upd_found_def Let_def cond_def
  obtain F where F: "ext2CachePush fd s = Inr ((), s\<lparr>foundObjs := F, firstObject := ?p\<rparr>)"
    "F = pushed (foundObjs s) ?f ?p"
  proof (cases "?n = 0")
    case True
    let ?F = "(foundObjs s)(?p \<mapsto> g\<lparr>f_next := ?f, f_prev := 0\<rparr>, ?a \<mapsto> a\<lparr>f_next := 0\<rparr>)"
    let ?G = "?F(?f \<mapsto> (the (?F ?f))\<lparr>f_prev := ?p\<rparr>)"
    have "ext2CachePush fd s = Inr ((), s\<lparr>foundObjs := ?G, firstObject := ?p\<rparr>)"
      using assms True lock by (cases "?f = ?a") (auto simp: run)
    moreover have "?G x = pushed (foundObjs s) ?f ?p x" for x
      using assms True by (cases "foundObjs s x"; cases "?f = ?a") (auto simp: pushed_def)
    ultimately show ?thesis
      using that by blast
  next
    case False
    then obtain n where n: "foundObjs s ?n = Some n" "?n \<noteq> ?p" "?n \<noteq> ?a" "?n \<noteq> ?f"
      using assms(7) by blast
    let ?F = "(foundObjs s)(?p \<mapsto> g\<lparr>f_next := ?f, f_prev := 0\<rparr>, ?a \<mapsto> a\<lparr>f_next := ?n\<rparr>, ?n \<mapsto> n\<lparr>f_prev := ?a\<rparr>)"
    let ?G = "?F(?f \<mapsto> (the (?F ?f))\<lparr>f_prev := ?p\<rparr>)"
    have "ext2CachePush fd s = Inr ((), s\<lparr>foundObjs := ?G, firstObject := ?p\<rparr>)"
      using assms(1-6,8-) n False lock by (cases "?f = ?a") (auto simp: run)
    moreover have "?G x = pushed (foundObjs s) ?f ?p x" for x
      using assms(1-6,8-) n False by (cases "foundObjs s x"; cases "?f = ?a") (auto simp: pushed_def)
    ultimately show ?thesis
      using that by blast
  qed
  then show ?thesis by simp
qed

lemma pushed_links:
  assumes "F p = Some g" "F 0 = None" "y \<noteq> p" "f_next g \<noteq> first"
  shows "flinks (pushed F first p) y = couple 0 p (couple p first (couple (f_prev g) (f_next g) (flinks F))) y"
  using assms by (cases "F y") (auto simp: flinks_def pushed_def couple_def Let_def)

lemma cache_push_run:
  assumes "dlist (flinks (foundObjs s)) (firstObject s) xs" "globalObject fd \<in> set xs" "foundObjs s 0 = None"
    "\<not> LOCK_OBJECT s"
  shows "\<exists>F. ext2CachePush fd s = Inr ((), s\<lparr>foundObjs := F, firstObject := globalObject fd\<rparr>) \<and>
    dlist (flinks F) (globalObject fd) (globalObject fd # remove1 (globalObject fd) xs) \<and>
    (\<forall>x. map_option fdata (F x) = map_option fdata (foundObjs s x))"
proof -
  let ?p = "globalObject fd" and ?f = "firstObject s" and ?L = "flinks (foundObjs s)"
  obtain ys zs where xs: "xs = ys @ ?p # zs" "?p \<notin> set ys"
    using assms(2) by (meson split_list_first)
  have d: "dlist ?L ?f (ys @ ?p # zs)"
    using assms(1) xs by simp
  have nodes: "\<forall>x \<in> set xs. x \<noteq> 0 \<and> foundObjs s x \<noteq> None"
    using dlist_nodes [OF assms(1)] by (auto simp: flinks_def)
  obtain g where g: "foundObjs s ?p = Some g"
    using nodes assms(2) by blast
  have L: "?L ?p = Some (f_prev g, f_next g)"
    using g by (simp add: flinks_def)
  note ends = dlist_remove(1,2) [OF d L refl]
  have first: "?f = hd (ys @ [?p])"
    using d dll_hd [of ?L 0 ?f "ys @ ?p # zs" 0] by (cases ys) (simp_all add: dlist_def)
  show ?thesis
  proof (cases "ys = []")
    case True
    then have "s\<lparr>foundObjs := foundObjs s, firstObject := ?p\<rparr> = s" "?f = ?p"
      using first by simp_all
    then show ?thesis
      using assms(1) xs True by (intro exI [of _ "foundObjs s"]) (simp add: ext2CachePush_def)
  next
    case False
    have dist: "distinct (ys @ ?p # zs)"
      using d by (simp add: dlist_def)
    have a: "f_prev g \<in> set ys" "f_prev g = last ys" "?f \<in> set ys" "?f = hd ys"
      using ends(1) first False by (simp_all add: hd_append)
    have n: "f_next g \<noteq> 0 \<Longrightarrow> f_next g \<in> set zs"
      using ends(2) by (cases zs) simp_all
    have "f_prev g \<in> set xs" "?f \<in> set xs"
      using a(1,3) xs(1) by auto
    then obtain b c where bc: "foundObjs s (f_prev g) = Some b" "foundObjs s ?f = Some c" "f_prev g \<noteq> 0" "?f \<noteq> 0"
      using nodes by blast
    have apart: "?f \<noteq> ?p" "f_prev g \<noteq> ?p" "f_next g \<noteq> ?f"
      using a n dist bc(4) by auto
    let ?F = "pushed (foundObjs s) ?f ?p"
    have run: "ext2CachePush fd s = Inr ((), s\<lparr>foundObjs := ?F, firstObject := ?p\<rparr>)"
      using nodes n a dist xs apart(3)
      by (intro ext2CachePush_run [OF assms(4) apart(1) g bc(3,1) apart(2) _ bc(4,2) assms(3)]) auto
    let ?M = "couple (f_prev g) (f_next g) ?L"
    have "dlist ?M ?f (ys @ zs)"
      using dlist_remove(3) [OF d L refl] bc(3) by simp
    moreover have "?f = hd ((ys @ zs) @ [0])"
      using a(4) False by simp
    moreover have "flinks ?F ?p = Some (0, ?f)"
      using g by (simp add: flinks_def pushed_def)
    ultimately have "dlist (flinks ?F) ?p (?p # ys @ zs)"
      using dlist_insert [of ?M ?f "[]" "ys @ zs" ?p "flinks ?F"] pushed_links [OF g assms(3) _ apart(3)]
        dist nodes xs(1) by auto
    moreover have "map_option fdata (?F x) = map_option fdata (foundObjs s x)" for x
      by (cases "foundObjs s x") (auto simp: pushed_def Let_def)
    moreover have "remove1 ?p xs = ys @ zs"
      using xs by (simp add: remove1_append)
    ultimately show ?thesis
      using run by auto
  qed
qed

text \<open>
  \<open>ext2CachePush\<close> is move-to-front: on a well-formed list of files in use, the descriptor's
  object becomes the first one and the others keep their order; nothing but the links of
  the objects changes, and the list stays doubly linked.
\<close>

theorem ext2CachePush_front:
  assumes "dlist (flinks (foundObjs s)) (firstObject s) xs" "globalObject fd \<in> set xs" "foundObjs s 0 = None"
    "\<not> LOCK_OBJECT s"
  shows "\<exists>F. ext2CachePush fd s = Inr ((), s\<lparr>foundObjs := F, firstObject := globalObject fd\<rparr>) \<and>
    dlist (flinks F) (globalObject fd) (globalObject fd # remove1 (globalObject fd) xs) \<and>
    (\<forall>x. map_option fdata (F x) = map_option fdata (foundObjs s x))"
  by (rule cache_push_run [OF assms])

section \<open>The cached ranges of a file\<close>

text \<open>
  \<open>cache_ok s g ps\<close>: the cache list of object \<open>g\<close> is well linked and its nodes are \<open>ps\<close>.
  \<open>ranges C ps\<close> is what it caches: first block, number of blocks and buffer of each node.
  \<open>cache_frame\<close> is what a cache operation may change of the state.
\<close>

type_synonym range = "nat \<times> nat \<times> byte list"

definition cdata :: "Ext2CacheObject \<Rightarrow> range" where
  "cdata x = (blockIndex x, c_blocks x, c_buff x)"

definition ranges :: "(ptr \<Rightarrow> Ext2CacheObject option) \<Rightarrow> ptr list \<Rightarrow> range list" where
  "ranges C ps = map (\<lambda>p. cdata (the (C p))) ps"

definition cache_ok :: "ext2_sys \<Rightarrow> ptr \<Rightarrow> ptr list \<Rightarrow> bool" where
  "cache_ok s g ps \<longleftrightarrow> (\<exists>x. foundObjs s g = Some x \<and> dlist (clinks (cacheObjs s)) (firstCacheObj x) ps) \<and>
     cacheObjs s 0 = None \<and> 0 < next_ptr s \<and> (\<forall>p. cacheObjs s p \<noteq> None \<longrightarrow> p < next_ptr s)"

definition cache_frame :: "ptr \<Rightarrow> ext2_sys \<Rightarrow> ext2_sys \<Rightarrow> bool" where
  "cache_frame g s s' \<longleftrightarrow>
     (\<exists>F C n b. s' = s\<lparr>foundObjs := F, cacheObjs := C, next_ptr := n, blocksCached := b\<rparr>) \<and>
     (\<forall>x. x \<noteq> g \<longrightarrow> foundObjs s' x = foundObjs s x) \<and>
     map_option (firstCacheObj_update (\<lambda>_. 0)) (foundObjs s' g) =
       map_option (firstCacheObj_update (\<lambda>_. 0)) (foundObjs s g)"

lemma cache_frame_refl [simp]: "cache_frame g s s"
proof -
  have "s = s\<lparr>foundObjs := foundObjs s, cacheObjs := cacheObjs s, next_ptr := next_ptr s, blocksCached := blocksCached s\<rparr>"
    by simp
  then show ?thesis unfolding cache_frame_def by blast
qed

lemma cache_frame_trans: "cache_frame g s t \<Longrightarrow> cache_frame g t u \<Longrightarrow> cache_frame g s u"
proof -
  assume a: "cache_frame g s t" "cache_frame g t u"
  from a(1) obtain F C n b where t: "t = s\<lparr>foundObjs := F, cacheObjs := C, next_ptr := n, blocksCached := b\<rparr>"
    unfolding cache_frame_def by blast
  from a(2) obtain F' C' n' b' where "u = t\<lparr>foundObjs := F', cacheObjs := C', next_ptr := n', blocksCached := b'\<rparr>"
    unfolding cache_frame_def by blast
  then have "u = s\<lparr>foundObjs := F', cacheObjs := C', next_ptr := n', blocksCached := b'\<rparr>"
    unfolding t by simp
  then show ?thesis
    using a unfolding cache_frame_def by metis
qed

lemma cache_frameI:
  assumes "s' = s\<lparr>foundObjs := F, cacheObjs := C, next_ptr := n, blocksCached := b\<rparr>"
    "\<forall>x. x \<noteq> g \<longrightarrow> F x = foundObjs s x"
    "map_option (firstCacheObj_update (\<lambda>_. 0)) (F g) = map_option (firstCacheObj_update (\<lambda>_. 0)) (foundObjs s g)"
  shows "cache_frame g s s'"
  using assms unfolding cache_frame_def by auto

lemma cache_frame_upd:
  "cache_frame g s (s\<lparr>cacheObjs := C, blocksCached := b\<rparr>)"
  "cache_frame g s (s\<lparr>cacheObjs := C, next_ptr := n, blocksCached := b\<rparr>)"
  "foundObjs s g = Some x \<Longrightarrow>
     cache_frame g s (s\<lparr>foundObjs := (foundObjs s)(g \<mapsto> x\<lparr>firstCacheObj := p\<rparr>), cacheObjs := C, blocksCached := b\<rparr>)"
  "foundObjs s g = Some x \<Longrightarrow>
     cache_frame g s (s\<lparr>foundObjs := (foundObjs s)(g \<mapsto> x\<lparr>firstCacheObj := p\<rparr>), cacheObjs := C, next_ptr := n, blocksCached := b\<rparr>)"
proof -
  have eq: "s\<lparr>cacheObjs := C, blocksCached := b\<rparr> =
      s\<lparr>foundObjs := foundObjs s, cacheObjs := C, next_ptr := next_ptr s, blocksCached := b\<rparr>"
    "s\<lparr>cacheObjs := C, next_ptr := n, blocksCached := b\<rparr> =
      s\<lparr>foundObjs := foundObjs s, cacheObjs := C, next_ptr := n, blocksCached := b\<rparr>"
    "s\<lparr>foundObjs := F, cacheObjs := C, blocksCached := b\<rparr> =
      s\<lparr>foundObjs := F, cacheObjs := C, next_ptr := next_ptr s, blocksCached := b\<rparr>" for F
    by (cases s; simp)+
  show "cache_frame g s (s\<lparr>cacheObjs := C, blocksCached := b\<rparr>)"
    by (rule cache_frameI [OF eq(1)]) simp_all
  show "cache_frame g s (s\<lparr>cacheObjs := C, next_ptr := n, blocksCached := b\<rparr>)"
    by (rule cache_frameI [OF eq(2)]) simp_all
  show "foundObjs s g = Some x \<Longrightarrow>
     cache_frame g s (s\<lparr>foundObjs := (foundObjs s)(g \<mapsto> x\<lparr>firstCacheObj := p\<rparr>), cacheObjs := C, blocksCached := b\<rparr>)"
    by (rule cache_frameI [OF eq(3)]) simp_all
  show "foundObjs s g = Some x \<Longrightarrow>
     cache_frame g s (s\<lparr>foundObjs := (foundObjs s)(g \<mapsto> x\<lparr>firstCacheObj := p\<rparr>), cacheObjs := C, next_ptr := n, blocksCached := b\<rparr>)"
    by (rule cache_frameI [OF refl]) simp_all
qed

lemma cdata_links [simp]: "cdata (c_next_update f x) = cdata x" "cdata (c_prev_update f x) = cdata x"
  by (simp_all add: cdata_def)

lemma ranges_cong: "\<forall>p \<in> set ps. map_option cdata (C p) = map_option cdata (C' p) \<Longrightarrow> \<forall>p \<in> set ps. C p \<noteq> None \<Longrightarrow>
    ranges C ps = ranges C' ps"
proof -
  assume a: "\<forall>p \<in> set ps. map_option cdata (C p) = map_option cdata (C' p)" "\<forall>p \<in> set ps. C p \<noteq> None"
  have "cdata (the (C p)) = cdata (the (C' p))" if "p \<in> set ps" for p
    using bspec [OF a(1) that] bspec [OF a(2) that] by (cases "C p"; cases "C' p") auto
  then show ?thesis by (simp add: ranges_def)
qed

lemma cache_ok_nodes: "cache_ok s g ps \<Longrightarrow> p \<in> set ps \<Longrightarrow> p \<noteq> 0 \<and> cacheObjs s p \<noteq> None \<and> p < next_ptr s"
proof -
  assume a: "cache_ok s g ps" "p \<in> set ps"
  then obtain x :: Ext2FoundObject where "dlist (clinks (cacheObjs s)) (firstCacheObj x) ps"
    by (auto simp: cache_ok_def)
  from dlist_nodes [OF this a(2)] show ?thesis
    using a(1) by (auto simp: clinks_def cache_ok_def)
qed

lemma cache_ok_length: "cache_ok s g ps \<Longrightarrow> distinct ps" "cache_ok s g ps \<Longrightarrow> length ps < next_ptr s + 1"
proof -
  assume a: "cache_ok s g ps"
  then show d: "distinct ps"
    by (auto simp: cache_ok_def dlist_def)
  have "set ps \<subseteq> {..<next_ptr s}"
    using cache_ok_nodes [OF a] by auto
  then have "card (set ps) \<le> next_ptr s"
    using card_mono [of "{..<next_ptr s}" "set ps"] by simp
  then show "length ps < next_ptr s + 1"
    using distinct_card [OF d] by simp
qed

text \<open>Connecting two neighbours in the store.\<close>

definition relink :: "ptr \<Rightarrow> ptr \<Rightarrow> (ptr \<Rightarrow> Ext2CacheObject option) \<Rightarrow> ptr \<Rightarrow> Ext2CacheObject option" where
  "relink a n C = (\<lambda>y. map_option (\<lambda>c. c\<lparr>c_next := (if y = a then n else c_next c),
     c_prev := (if y = n then a else c_prev c)\<rparr>) (C y))"

lemma relink_facts:
  "map_option cdata (relink a n C y) = map_option cdata (C y)"
  "clinks (relink a n C) = couple a n (clinks C)"
  "(relink a n C y = None) = (C y = None)"
  by (auto simp: relink_def clinks_def couple_def cdata_def option.map_comp fun_eq_iff intro!: option.map_cong)

lemma clinks_upd_other: "y \<noteq> x \<Longrightarrow> clinks (C(x := v)) y = clinks C y"
  by (simp add: clinks_def)

lemma relink_other: "y \<noteq> a \<Longrightarrow> y \<noteq> n \<Longrightarrow> relink a n C y = C y"
  by (cases "C y") (simp_all add: relink_def)

lemma relink_upd:
  assumes "C a = Some ca" "n \<noteq> a"
  shows "C 0 = None \<Longrightarrow> n = 0 \<Longrightarrow> C(a \<mapsto> ca\<lparr>c_next := n\<rparr>) = relink a n C"
    "C n = Some cn \<Longrightarrow> C(a \<mapsto> ca\<lparr>c_next := n\<rparr>, n \<mapsto> cn\<lparr>c_prev := a\<rparr>) = relink a n C"
proof -
  have "C 0 = None \<Longrightarrow> n = 0 \<Longrightarrow> (C(a \<mapsto> ca\<lparr>c_next := n\<rparr>)) y = relink a n C y"
    "C n = Some cn \<Longrightarrow> (C(a \<mapsto> ca\<lparr>c_next := n\<rparr>, n \<mapsto> cn\<lparr>c_prev := a\<rparr>)) y = relink a n C y" for y
    using assms by (cases "C y"; auto simp: relink_def)+
  then show "C 0 = None \<Longrightarrow> n = 0 \<Longrightarrow> C(a \<mapsto> ca\<lparr>c_next := n\<rparr>) = relink a n C"
    "C n = Some cn \<Longrightarrow> C(a \<mapsto> ca\<lparr>c_next := n\<rparr>, n \<mapsto> cn\<lparr>c_prev := a\<rparr>) = relink a n C"
    by blast+
qed

lemma relink_upd_null:
  assumes "C 0 = None"
  shows "C n = Some cn \<Longrightarrow> C(n \<mapsto> cn\<lparr>c_prev := 0\<rparr>) = relink 0 n C" "relink 0 0 C = C"
proof -
  have "C n = Some cn \<Longrightarrow> (C(n \<mapsto> cn\<lparr>c_prev := 0\<rparr>)) y = relink 0 n C y" "relink 0 0 C y = C y" for y
    using assms by (cases "C y"; auto simp: relink_def)+
  then show "C n = Some cn \<Longrightarrow> C(n \<mapsto> cn\<lparr>c_prev := 0\<rparr>) = relink 0 n C" "relink 0 0 C = C"
    by blast+
qed

lemma cache_unlink_run:
  assumes "cache_ok s g (ys @ x # zs)" "cacheObjs s x = Some c"
  shows "\<exists>s'. cache_unlink g x c s = Inr ((), s') \<and> cache_ok s' g (ys @ zs) \<and> cache_frame g s s' \<and>
    next_ptr s' = next_ptr s \<and> c_next c = hd (zs @ [0]) \<and>
    (\<forall>y. y \<noteq> x \<longrightarrow> map_option cdata (cacheObjs s' y) = map_option cdata (cacheObjs s y)) \<and>
    (\<forall>y. y \<notin> set (ys @ x # zs) \<longrightarrow> cacheObjs s' y = cacheObjs s y)"
proof -
  let ?C = "cacheObjs s" and ?a = "c_prev c" and ?n = "c_next c"
  obtain go where go: "foundObjs s g = Some go" "dlist (clinks ?C) (firstCacheObj go) (ys @ x # zs)"
    and null: "?C 0 = None" and bound: "0 < next_ptr s" "\<forall>p. ?C p \<noteq> None \<longrightarrow> p < next_ptr s"
    using assms(1) by (auto simp: cache_ok_def)
  have L: "clinks ?C x = Some (?a, ?n)"
    using assms(2) by (simp add: clinks_def)
  note ends = dlist_remove(1,2) [OF go(2) L refl]
  have dist: "distinct (ys @ x # zs)"
    using go(2) by (simp add: dlist_def)
  have a: "?a \<noteq> 0 \<Longrightarrow> ?a \<in> set ys" and n: "?n \<noteq> 0 \<Longrightarrow> ?n \<in> set zs"
    using ends by (cases "ys = []"; cases zs; simp)+
  have na: "?a \<noteq> 0 \<Longrightarrow> ?C ?a \<noteq> None" "?n \<noteq> 0 \<Longrightarrow> ?C ?n \<noteq> None"
    using a n cache_ok_nodes [OF assms(1)] by auto
  have apart: "?a \<noteq> x" "?n \<noteq> x" "?a \<noteq> 0 \<Longrightarrow> ?n \<noteq> ?a"
    using a n dist cache_ok_nodes [OF assms(1), of x] by auto
  define C2 where "C2 = relink ?a ?n ?C"
  define s' where "s' = s\<lparr>foundObjs := (if ?a = 0 then (foundObjs s)(g \<mapsto> go\<lparr>firstCacheObj := ?n\<rparr>) else foundObjs s),
      cacheObjs := C2(x := None), blocksCached := (blocksCached s + (2 ^ 64 - c_blocks c)) mod 2 ^ 64\<rparr>"
  note run_simps = cache_unlink_def cmd_simps cond_def upd_found_def upd_cache_def free_cache_def s'_def C2_def
  have x2: "relink ?a ?n ?C x \<noteq> None"
    using assms(2) by (simp add: relink_facts)
  have run: "cache_unlink g x c s = Inr ((), s')"
  proof (cases "?a = 0")
    case True
    then show ?thesis
      using go(1) na(2) apart(2) assms(2) null x2 relink_upd_null [where C = ?C]
      by (cases "?n = 0") (auto simp: run_simps)
  next
    case False
    then obtain ca where ca: "?C ?a = Some ca"
      using na(1) by blast
    show ?thesis
      using False ca go(1) na(2) apart assms(2) null x2 relink_upd [where C = ?C and a = ?a, OF ca apart(3) [OF False]]
      by (cases "?n = 0") (auto simp: run_simps)
  qed
  have keep: "C2 y = ?C y" if "y \<notin> set (ys @ x # zs)" for y
  proof (cases "y = 0")
    case True
    then show ?thesis using null by (simp add: C2_def relink_facts)
  next
    case False
    then show ?thesis
      using a n that unfolding C2_def by (intro relink_other) auto
  qed
  have "dlist (clinks (C2(x := None))) (if ?a = 0 then ?n else firstCacheObj go) (ys @ zs)"
    by (rule dlist_remove(3) [OF go(2) L]) (simp add: C2_def clinks_upd_other relink_facts(2))
  moreover have "(C2(x := None)) p \<noteq> None \<Longrightarrow> p < next_ptr s" for p
    using bound by (simp add: C2_def relink_facts(3) del: not_None_eq split: if_splits)
  moreover have "(C2(x := None)) 0 = None"
    using null by (simp add: C2_def relink_facts(3))
  ultimately have ok: "cache_ok s' g (ys @ zs)"
    using go(1) bound(1) unfolding cache_ok_def s'_def
    by (cases "?a = 0") (simp_all del: not_None_eq fun_upd_apply add: fun_upd_same)
  have "cache_frame g s s'"
    using cache_frame_upd(1,3) go(1) by (cases "?a = 0") (simp_all add: s'_def)
  then show ?thesis
    using run ok ends(2) keep by (intro exI [of _ s']) (auto simp: s'_def C2_def relink_facts)
qed

abbreviation start_of :: "ext2_sys \<Rightarrow> ptr \<Rightarrow> nat" where
  "start_of s p \<equiv> blockIndex (the (cacheObjs s p))"

lemma dll_step:
  assumes "dll (clinks C) a obj (x # ps) 0"
  obtains c where "obj = x" "x \<noteq> 0" "C x = Some c" "c_prev c = a" "dll (clinks C) x (c_next c) ps 0"
  using assms by (auto simp: clinks_def)

lemma find_cached_run:
  fixes bi blocks :: nat
  assumes "dll (clinks (cacheObjs s)) a obj ps 0" "length ps < fuel"
  defines "out \<equiv> (\<lambda>p. \<not> in_window bi blocks (start_of s p))"
  shows "find_cached fuel bi blocks obj lc s =
    Inr ((hd (dropWhile out ps @ [0]), last (lc # takeWhile out ps)), s)"
  using assms(1,2)
proof (induction ps arbitrary: fuel a obj lc)
  case Nil
  then show ?case by (cases fuel) (simp_all add: cmd_simps)
next
  case (Cons x ps)
  obtain c where c: "obj = x" "x \<noteq> 0" "cacheObjs s x = Some c" "dll (clinks (cacheObjs s)) x (c_next c) ps 0"
    using Cons.prems(1) by (rule dll_step)
  obtain f where f: "fuel = Suc f" "length ps < f"
    using Cons.prems(2) by (cases fuel) auto
  show ?case
    using c f Cons.IH [OF c(4) f(2), of x] by (simp add: cmd_simps get_cache_def out_def)
qed

lemma find_spot_run:
  fixes bi :: nat
  assumes "dll (clinks (cacheObjs s)) a obj ps 0" "length ps < fuel" "bi \<notin> start_of s ` set ps"
  defines "low \<equiv> (\<lambda>p. start_of s p < bi)"
  shows "find_spot fuel bi obj smaller s =
    Inr ((if dropWhile low ps = [] then 0 else last (a # takeWhile low ps), smaller \<or> takeWhile low ps \<noteq> []), s)"
  using assms(1-3)
proof (induction ps arbitrary: fuel a obj smaller)
  case Nil
  then show ?case by (cases fuel) (simp_all add: cmd_simps)
next
  case (Cons x ps)
  obtain c where c: "obj = x" "x \<noteq> 0" "cacheObjs s x = Some c" "c_prev c = a"
    "dll (clinks (cacheObjs s)) x (c_next c) ps 0"
    using Cons.prems(1) by (rule dll_step)
  obtain f where f: "fuel = Suc f" "length ps < f"
    using Cons.prems(2) by (cases fuel) auto
  have ne: "blockIndex c \<noteq> bi"
    using Cons.prems(3) c(3) by auto
  show ?case
    using c f ne Cons.IH [OF c(5) f(2), of True] Cons.prems(3) by (simp add: cmd_simps get_cache_def low_def)
qed

text \<open>Eviction removes the nodes from the given one on that start in the window.\<close>

lemma cache_evict_run:
  fixes bi blocks :: nat
  assumes "cache_ok s g (ys @ zs)" "length zs < fuel"
  defines "inw \<equiv> (\<lambda>p. in_window bi blocks (start_of s p))"
  shows "\<exists>s'. cache_evict fuel g bi blocks (hd (zs @ [0])) s = Inr ((), s') \<and>
    cache_ok s' g (ys @ dropWhile inw zs) \<and> cache_frame g s s' \<and> next_ptr s' = next_ptr s \<and>
    (\<forall>y \<in> set (ys @ dropWhile inw zs). map_option cdata (cacheObjs s' y) = map_option cdata (cacheObjs s y)) \<and>
    (\<forall>y. y \<notin> set (ys @ zs) \<longrightarrow> cacheObjs s' y = cacheObjs s y)"
  using assms(1,2) unfolding inw_def
proof (induction zs arbitrary: fuel s)
  case Nil
  then show ?case by (cases fuel) (auto simp: cmd_simps)
next
  case (Cons z zs)
  obtain f where f: "fuel = Suc f" "length zs < f"
    using Cons.prems(2) by (cases fuel) auto
  have z: "z \<noteq> 0" "cacheObjs s z \<noteq> None"
    using cache_ok_nodes [OF Cons.prems(1), of z] by simp_all
  then obtain c where c: "cacheObjs s z = Some c"
    by blast
  show ?case
  proof (cases "in_window bi blocks (blockIndex c)")
    case False
    then show ?thesis
      using z c Cons.prems(1) by (intro exI [of _ s]) (simp add: f cmd_simps get_cache_def)
  next
    case True
    from cache_unlink_run [OF Cons.prems(1) c] obtain t where
      t: "cache_unlink g z c s = Inr ((), t)" "cache_ok t g (ys @ zs)" "cache_frame g s t" "next_ptr t = next_ptr s"
        "c_next c = hd (zs @ [0])"
        "\<forall>y. y \<noteq> z \<longrightarrow> map_option cdata (cacheObjs t y) = map_option cdata (cacheObjs s y)"
        "\<forall>y. y \<notin> set (ys @ z # zs) \<longrightarrow> cacheObjs t y = cacheObjs s y"
      by blast
    have dist: "z \<notin> set (ys @ zs)"
      using Cons.prems(1) by (auto simp: cache_ok_def dlist_def)
    have same: "start_of t p = start_of s p" if "p \<in> set (ys @ zs)" for p
    proof -
      have "map_option cdata (cacheObjs t p) = map_option cdata (cacheObjs s p)" "cacheObjs s p \<noteq> None"
        using t(6) that dist cache_ok_nodes [OF Cons.prems(1), of p] by auto
      then show ?thesis
        by (cases "cacheObjs s p"; cases "cacheObjs t p") (auto simp: cdata_def)
    qed
    have dw: "dropWhile (\<lambda>p. in_window bi blocks (start_of t p)) zs =
        dropWhile (\<lambda>p. in_window bi blocks (start_of s p)) zs"
      by (rule dropWhile_cong) (simp_all add: same)
    from Cons.IH [OF t(2) f(2)] obtain s' where
      s': "cache_evict f g bi blocks (hd (zs @ [0])) t = Inr ((), s')"
        "cache_ok s' g (ys @ dropWhile (\<lambda>p. in_window bi blocks (start_of s p)) zs)" "cache_frame g t s'"
        "next_ptr s' = next_ptr t"
        "\<forall>y \<in> set (ys @ dropWhile (\<lambda>p. in_window bi blocks (start_of s p)) zs).
           map_option cdata (cacheObjs s' y) = map_option cdata (cacheObjs t y)"
        "\<forall>y. y \<notin> set (ys @ zs) \<longrightarrow> cacheObjs s' y = cacheObjs t y"
      unfolding dw by blast
    have sub: "set (dropWhile (\<lambda>p. in_window bi blocks (start_of s p)) zs) \<subseteq> set zs"
      by (meson set_dropWhileD subsetI)
    have dz: "dropWhile (\<lambda>p. in_window bi blocks (start_of s p)) (z # zs) =
        dropWhile (\<lambda>p. in_window bi blocks (start_of s p)) zs"
      using c True by simp
    show ?thesis
      unfolding dz
    proof (intro exI [of _ s'] conjI ballI allI impI)
      show "cache_evict fuel g bi blocks (hd ((z # zs) @ [0])) s = Inr ((), s')"
        using z c True t(1,5) s'(1) by (simp add: f cmd_simps get_cache_def)
      show "map_option cdata (cacheObjs s' y) = map_option cdata (cacheObjs s y)"
        if "y \<in> set (ys @ dropWhile (\<lambda>p. in_window bi blocks (start_of s p)) zs)" for y
      proof -
        have "y \<in> set (ys @ zs)"
          using that sub by auto
        then have "y \<noteq> z"
          using dist by blast
        then show ?thesis
          using bspec [OF s'(5) that] t(6) by simp
      qed
      show "cacheObjs s' y = cacheObjs s y" if "y \<notin> set (ys @ z # zs)" for y
        using s'(6) t(7) that by simp
      show "next_ptr s' = next_ptr s"
        using s'(4) t(4) by simp
    qed (use s'(2) cache_frame_trans [OF t(3) s'(3)] in simp_all)
  qed
qed

text \<open>The store with a new node between two neighbours.\<close>

definition inserted ::
  "ptr \<Rightarrow> ptr \<Rightarrow> ptr \<Rightarrow> Ext2CacheObject \<Rightarrow> (ptr \<Rightarrow> Ext2CacheObject option) \<Rightarrow> ptr \<Rightarrow> Ext2CacheObject option" where
  "inserted a t b new C = (\<lambda>y. if y = t then Some (new\<lparr>c_prev := a, c_next := b\<rparr>)
     else map_option (\<lambda>c. c\<lparr>c_next := (if y = a then t else c_next c), c_prev := (if y = b then t else c_prev c)\<rparr>) (C y))"

lemma inserted_facts:
  "y \<noteq> t \<Longrightarrow> map_option cdata (inserted a t b new C y) = map_option cdata (C y)"
  "y \<noteq> t \<Longrightarrow> clinks (inserted a t b new C) y = couple a t (couple t b (clinks C)) y"
  "clinks (inserted a t b new C) t = Some (a, b)"
  "(inserted a t b new C y = None) = (y \<noteq> t \<and> C y = None)"
  "y \<noteq> t \<Longrightarrow> y \<noteq> a \<Longrightarrow> y \<noteq> b \<Longrightarrow> inserted a t b new C y = C y"
  by (cases "C y"; auto simp: inserted_def clinks_def couple_def cdata_def)+

lemma inserted_upds:
  assumes "C t = None" "C 0 = None" "t \<noteq> 0"
  shows "C(t \<mapsto> new\<lparr>c_prev := 0, c_next := 0\<rparr>) = inserted 0 t 0 new C"
    "C b = Some cb \<Longrightarrow> C(t \<mapsto> new\<lparr>c_prev := 0, c_next := b\<rparr>, b \<mapsto> cb\<lparr>c_prev := t\<rparr>) = inserted 0 t b new C"
    "C a = Some ca \<Longrightarrow> C(t \<mapsto> new, a \<mapsto> ca\<lparr>c_next := t\<rparr>, t \<mapsto> new\<lparr>c_prev := a, c_next := 0\<rparr>) = inserted a t 0 new C"
    "C a = Some ca \<Longrightarrow> C b = Some cb \<Longrightarrow> b \<noteq> a \<Longrightarrow>
      C(t \<mapsto> new, a \<mapsto> ca\<lparr>c_next := t\<rparr>, t \<mapsto> new\<lparr>c_prev := a, c_next := b\<rparr>, b \<mapsto> cb\<lparr>c_prev := t\<rparr>) = inserted a t b new C"
proof -
  have "(C(t \<mapsto> new\<lparr>c_prev := 0, c_next := 0\<rparr>)) y = inserted 0 t 0 new C y"
    "C b = Some cb \<Longrightarrow> (C(t \<mapsto> new\<lparr>c_prev := 0, c_next := b\<rparr>, b \<mapsto> cb\<lparr>c_prev := t\<rparr>)) y = inserted 0 t b new C y"
    "C a = Some ca \<Longrightarrow>
      (C(t \<mapsto> new, a \<mapsto> ca\<lparr>c_next := t\<rparr>, t \<mapsto> new\<lparr>c_prev := a, c_next := 0\<rparr>)) y = inserted a t 0 new C y"
    "C a = Some ca \<Longrightarrow> C b = Some cb \<Longrightarrow> b \<noteq> a \<Longrightarrow>
      (C(t \<mapsto> new, a \<mapsto> ca\<lparr>c_next := t\<rparr>, t \<mapsto> new\<lparr>c_prev := a, c_next := b\<rparr>, b \<mapsto> cb\<lparr>c_prev := t\<rparr>)) y =
        inserted a t b new C y" for y
    using assms by (cases "C y"; auto simp: inserted_def)+
  then show "C(t \<mapsto> new\<lparr>c_prev := 0, c_next := 0\<rparr>) = inserted 0 t 0 new C"
    "C b = Some cb \<Longrightarrow> C(t \<mapsto> new\<lparr>c_prev := 0, c_next := b\<rparr>, b \<mapsto> cb\<lparr>c_prev := t\<rparr>) = inserted 0 t b new C"
    "C a = Some ca \<Longrightarrow> C(t \<mapsto> new, a \<mapsto> ca\<lparr>c_next := t\<rparr>, t \<mapsto> new\<lparr>c_prev := a, c_next := 0\<rparr>) = inserted a t 0 new C"
    "C a = Some ca \<Longrightarrow> C b = Some cb \<Longrightarrow> b \<noteq> a \<Longrightarrow>
      C(t \<mapsto> new, a \<mapsto> ca\<lparr>c_next := t\<rparr>, t \<mapsto> new\<lparr>c_prev := a, c_next := b\<rparr>, b \<mapsto> cb\<lparr>c_prev := t\<rparr>) = inserted a t b new C"
    by blast+
qed

lemma cache_insert_run:
  fixes bi blocks :: nat and buff :: "byte list"
  assumes "cache_ok s g ps" "bi \<notin> start_of s ` set ps" "ps \<noteq> [] \<longrightarrow> lc = last ps"
  defines "ys \<equiv> takeWhile (\<lambda>p. start_of s p < bi) ps" and "zs \<equiv> dropWhile (\<lambda>p. start_of s p < bi) ps"
    and "t \<equiv> next_ptr s"
    and "new \<equiv> \<lparr>c_next = 0, c_prev = 0, blockIndex = trunc32 bi, c_buff = buff, c_blocks = trunc32 blocks\<rparr>"
  shows "cache_insert g buff bi blocks lc s = Inr ((), s
      \<lparr>foundObjs := (if ys = [] then (foundObjs s)(g \<mapsto> (the (foundObjs s g))\<lparr>firstCacheObj := t\<rparr>) else foundObjs s),
       cacheObjs := inserted (last (0 # ys)) t (hd (zs @ [0])) new (cacheObjs s),
       next_ptr := t + 1, blocksCached := (blocksCached s + blocks) mod 2 ^ 64\<rparr>)"
proof -
  let ?C = "cacheObjs s" and ?a = "last (0 # ys)" and ?b = "hd (zs @ [0])"
  obtain go where go: "foundObjs s g = Some go" "dlist (clinks ?C) (firstCacheObj go) ps"
    and null: "?C 0 = None" "0 < t" and bound: "\<forall>p. ?C p \<noteq> None \<longrightarrow> p < t"
    using assms(1) by (auto simp: cache_ok_def t_def)
  have ps: "ps = ys @ zs"
    by (simp add: ys_def zs_def)
  have dist: "distinct ps" and len: "length ps < t + 1"
    using cache_ok_length [OF assms(1)] by (simp_all add: t_def)
  have fresh: "?C t = None"
    using bound by blast
  have spot: "find_spot (t + 1) bi (firstCacheObj go) False s =
      Inr ((if zs = [] then 0 else ?a, ys \<noteq> []), s)"
    using find_spot_run [of s 0 "firstCacheObj go" ps "t + 1" bi False] go(2) len assms(2)
    by (simp add: dlist_def ys_def zs_def)
  have first: "firstCacheObj go = hd (ps @ [0])"
    using go(2) dll_hd by (auto simp: dlist_def)
  note run = cmd_simps upd_cache_def upd_found_def get_cache_def cond_def cache_place_def
  define u where "u = s\<lparr>cacheObjs := ?C(t \<mapsto> new), next_ptr := t + 1, blocksCached := (blocksCached s + blocks) mod 2 ^ 64\<rparr>"
  have step: "cache_insert g buff bi blocks lc s =
      cache_place g (hd (ps @ [0])) lc (if zs = [] then 0 else ?a) (ys \<noteq> []) t u"
    using go(1) spot first unfolding u_def t_def new_def
    by (simp add: cache_insert_def cmd_simps get_found_def new_cache_def del: find_spot.simps)
  have u: "foundObjs u = foundObjs s" "cacheObjs u = ?C(t \<mapsto> new)" "new\<lparr>c_prev := 0\<rparr> = new" "new\<lparr>c_next := 0\<rparr> = new"
    "\<And>p. new\<lparr>c_prev := p, c_next := 0\<rparr> = new\<lparr>c_prev := p\<rparr>"
    "\<And>F C. u\<lparr>foundObjs := F, cacheObjs := C\<rparr> = s\<lparr>foundObjs := F, cacheObjs := C, next_ptr := t + 1,
       blocksCached := (blocksCached s + blocks) mod 2 ^ 64\<rparr>"
    "\<And>C. u\<lparr>cacheObjs := C\<rparr> = s\<lparr>foundObjs := foundObjs s, cacheObjs := C, next_ptr := t + 1,
       blocksCached := (blocksCached s + blocks) mod 2 ^ 64\<rparr>"
    "\<And>F. u\<lparr>foundObjs := F\<rparr> = s\<lparr>foundObjs := F, cacheObjs := ?C(t \<mapsto> new), next_ptr := t + 1,
       blocksCached := (blocksCached s + blocks) mod 2 ^ 64\<rparr>"
    by (cases s; simp add: u_def new_def)+
  have a: "ys \<noteq> [] \<Longrightarrow> ?a \<in> set ys" and b: "zs \<noteq> [] \<Longrightarrow> ?b \<in> set zs"
    by (auto simp: hd_append)
  have nodes: "p \<in> set ps \<Longrightarrow> p \<noteq> 0 \<and> (\<exists>c. ?C p = Some c) \<and> p \<noteq> t" for p
    using cache_ok_nodes [OF assms(1), of p] by (auto simp: t_def)
  have hd0: "ps \<noteq> [] \<Longrightarrow> 0 < hd ps"
    using nodes [of "hd ps"] by simp
  let ?n = "(blocksCached s + blocks) mod 2 ^ 64"
  let ?post = "\<lambda>F C. Inr ((), s\<lparr>foundObjs := F, cacheObjs := C, next_ptr := t + 1, blocksCached := ?n\<rparr>)"
  let ?up = "(foundObjs s)(g \<mapsto> go\<lparr>firstCacheObj := t\<rparr>)"
  consider (empty) "ys = []" "zs = []" | (front) "ys = []" "zs \<noteq> []" | (mid) "ys \<noteq> []" "zs \<noteq> []"
    | (behind) "ys \<noteq> []" "zs = []"
    by blast
  then show ?thesis
  proof cases
    case empty
    have "cache_insert g buff bi blocks lc s = ?post ?up (?C(t \<mapsto> new\<lparr>c_prev := 0, c_next := 0\<rparr>))"
      using empty go(1) ps unfolding step by (simp add: run u)
    then show ?thesis
      using inserted_upds(1) [where C = ?C and t = t] fresh null empty go(1) by simp
  next
    case front
    obtain cb where cb: "?C ?b = Some cb" "?b \<noteq> 0" "?b \<noteq> t"
      using nodes [of ?b] b [OF front(2)] ps by auto
    have "cache_insert g buff bi blocks lc s =
        ?post ?up (?C(t \<mapsto> new\<lparr>c_prev := 0, c_next := ?b\<rparr>, ?b \<mapsto> cb\<lparr>c_prev := t\<rparr>))"
      using front go(1) ps cb hd0 unfolding step by (simp add: run u Let_def)
    then show ?thesis
      using inserted_upds(2) [where C = ?C and t = t and b = ?b] cb(1) fresh null front go(1) by simp
  next
    case mid
    obtain ca cb where c: "?C ?a = Some ca" "?C ?b = Some cb" "?a \<noteq> 0" "?b \<noteq> 0" "?a \<noteq> t" "?b \<noteq> t"
      using nodes [of ?a] nodes [of ?b] a [OF mid(1)] b [OF mid(2)] ps by auto
    have ab: "?b \<noteq> ?a"
      using a [OF mid(1)] b [OF mid(2)] dist ps by auto
    have nx: "c_next ca = ?b"
      using dll_last_next [OF go(2) [unfolded ps] mid(1)] c(1) mid(1) by (simp add: clinks_def)
    have "cache_insert g buff bi blocks lc s = ?post (foundObjs s)
        (?C(t \<mapsto> new, ?a \<mapsto> ca\<lparr>c_next := t\<rparr>, t \<mapsto> new\<lparr>c_prev := ?a, c_next := ?b\<rparr>, ?b \<mapsto> cb\<lparr>c_prev := t\<rparr>))"
      using mid go(1) ps c nx ab hd0 unfolding step by (simp add: run u Let_def)
    then show ?thesis
      using inserted_upds(4) [where C = ?C and t = t and a = ?a and b = ?b] c(1,2) ab fresh null mid by simp
  next
    case behind
    obtain ca where c: "?C ?a = Some ca" "?a \<noteq> 0" "?a \<noteq> t"
      using nodes [of ?a] a [OF behind(1)] ps by auto
    have lc: "lc = ?a"
      using assms(3) behind ps by simp
    have "cache_insert g buff bi blocks lc s = ?post (foundObjs s)
        (?C(t \<mapsto> new, ?a \<mapsto> ca\<lparr>c_next := t\<rparr>, t \<mapsto> new\<lparr>c_prev := ?a, c_next := 0\<rparr>))"
      using behind go(1) ps c lc hd0 unfolding step by (simp add: run u Let_def)
    then show ?thesis
      using inserted_upds(3) [where C = ?C and t = t and a = ?a] c(1) fresh null behind by simp
  qed
qed

lemma cache_insert_ok:
  fixes bi blocks :: nat and buff :: "byte list"
  assumes "cache_ok s g ps" "bi \<notin> start_of s ` set ps" "ps \<noteq> [] \<longrightarrow> lc = last ps" "bi < 2 ^ 32" "blocks < 2 ^ 32"
  defines "ys \<equiv> takeWhile (\<lambda>p. start_of s p < bi) ps" and "zs \<equiv> dropWhile (\<lambda>p. start_of s p < bi) ps"
  shows "\<exists>s'. cache_insert g buff bi blocks lc s = Inr ((), s') \<and> cache_ok s' g (ys @ next_ptr s # zs) \<and>
    cache_frame g s s' \<and> ranges (cacheObjs s') (ys @ next_ptr s # zs) =
      ranges (cacheObjs s) ys @ (bi, blocks, buff) # ranges (cacheObjs s) zs \<and>
    (\<forall>y. y \<notin> set ps \<and> y < next_ptr s \<longrightarrow> cacheObjs s' y = cacheObjs s y)"
proof -
  let ?C = "cacheObjs s" and ?t = "next_ptr s" and ?a = "last (0 # ys)" and ?b = "hd (zs @ [0])"
  let ?new = "\<lparr>c_next = 0, c_prev = 0, blockIndex = trunc32 bi, c_buff = buff, c_blocks = trunc32 blocks\<rparr>"
  let ?D = "inserted ?a ?t ?b ?new ?C"
  obtain go where go: "foundObjs s g = Some go" "dlist (clinks ?C) (firstCacheObj go) ps"
    and null: "?C 0 = None" "0 < ?t" and bound: "\<forall>p. ?C p \<noteq> None \<longrightarrow> p < ?t"
    using assms(1) by (auto simp: cache_ok_def)
  have ps: "ps = ys @ zs"
    by (simp add: ys_def zs_def)
  have t: "?t \<notin> set ps"
    using cache_ok_nodes [OF assms(1)] by blast
  define s' where "s' = s
      \<lparr>foundObjs := (if ys = [] then (foundObjs s)(g \<mapsto> go\<lparr>firstCacheObj := ?t\<rparr>) else foundObjs s),
       cacheObjs := ?D, next_ptr := ?t + 1, blocksCached := (blocksCached s + blocks) mod 2 ^ 64\<rparr>"
  have run: "cache_insert g buff bi blocks lc s = Inr ((), s')"
    using cache_insert_run [OF assms(1-3), of buff blocks] go(1) by (simp add: s'_def ys_def zs_def)
  have "dlist (clinks ?D) (if ys = [] then ?t else firstCacheObj go) (ys @ ?t # zs)"
    using go(2) t null(2) unfolding ps by (intro dlist_insert) (auto simp: inserted_facts)
  moreover have "?D p \<noteq> None \<Longrightarrow> p < ?t + 1" for p
    using bound by (cases "p = ?t") (auto simp: inserted_facts(4) less_Suc_eq simp del: not_None_eq)
  moreover have "?D 0 = None"
    using null by (simp add: inserted_facts(4))
  ultimately have ok: "cache_ok s' g (ys @ ?t # zs)"
    using go(1) unfolding cache_ok_def s'_def by (cases "ys = []") (simp_all del: not_None_eq fun_upd_apply add: fun_upd_same)
  have frame: "cache_frame g s s'"
    using cache_frame_upd(2,4) go(1) by (cases "ys = []") (simp_all add: s'_def)
  have "ranges ?D qs = ranges ?C qs" if "set qs \<subseteq> set ps" for qs
  proof (rule ranges_cong)
    have "p \<noteq> ?t \<and> ?C p \<noteq> None" if "p \<in> set qs" for p
      using that \<open>set qs \<subseteq> set ps\<close> t cache_ok_nodes [OF assms(1)] by blast
    then show "\<forall>p \<in> set qs. map_option cdata (?D p) = map_option cdata (?C p)" "\<forall>p \<in> set qs. ?D p \<noteq> None"
      unfolding inserted_facts(4) by (auto intro!: inserted_facts(1))
  qed
  then have "ranges ?D ys = ranges ?C ys" "ranges ?D zs = ranges ?C zs"
    using ps by auto
  moreover have "cdata (the (?D ?t)) = (bi, blocks, buff)"
    using assms(4,5) by (simp add: inserted_def cdata_def)
  ultimately have "ranges ?D (ys @ ?t # zs) = ranges ?C ys @ (bi, blocks, buff) # ranges ?C zs"
    by (simp add: ranges_def)
  moreover have "?D y = ?C y" if "y \<notin> set ps" "y < ?t" for y
  proof (cases "y = 0")
    case True
    then show ?thesis using null by (simp add: inserted_facts(4))
  next
    case False
    then have "y \<noteq> ?a" "y \<noteq> ?b"
      using that(1) ps by (cases "ys = []"; cases zs; auto)+
    then show ?thesis
      using that(2) by (intro inserted_facts(5)) simp_all
  qed
  ultimately show ?thesis
    using run ok frame by (intro exI [of _ s']) (simp add: s'_def)
qed

text \<open>Taking the write lock of the cache around an operation.\<close>

lemma cache_lock_run:
  "foundObjs s g = Some x \<Longrightarrow> op (WLOCK_CACHE x) = Inr l \<Longrightarrow>
   cache_lock op g s = Inr ((), s\<lparr>foundObjs := (foundObjs s)(g \<mapsto> x\<lparr>WLOCK_CACHE := l\<rparr>)\<rparr>)"
  by (simp add: cache_lock_def lock_found_def get_found_def upd_found_def cmd_simps)

abbreviation write_locked :: "ptr \<Rightarrow> Ext2FoundObject \<Rightarrow> ext2_sys \<Rightarrow> ext2_sys" where
  "write_locked g x s \<equiv> s\<lparr>foundObjs := (foundObjs s)(g \<mapsto> x\<lparr>WLOCK_CACHE := - 1\<rparr>)\<rparr>"

lemma cache_ok_locked:
  "foundObjs s g = Some x \<Longrightarrow> cache_ok (write_locked g x s) g ps = cache_ok s g ps"
  by (simp add: cache_ok_def)

lemma cache_section_end:
  assumes "foundObjs s g = Some x" "WLOCK_CACHE x = 0" "cache_frame g (write_locked g x s) u" "cache_ok u g ps"
  obtains y where "foundObjs u g = Some y" "cache_lock spinlock_cnt_write_release g u =
      Inr ((), u\<lparr>foundObjs := (foundObjs u)(g \<mapsto> y\<lparr>WLOCK_CACHE := 0\<rparr>)\<rparr>)"
    "cache_frame g s (u\<lparr>foundObjs := (foundObjs u)(g \<mapsto> y\<lparr>WLOCK_CACHE := 0\<rparr>)\<rparr>)"
    "cache_ok (u\<lparr>foundObjs := (foundObjs u)(g \<mapsto> y\<lparr>WLOCK_CACHE := 0\<rparr>)\<rparr>) g ps"
proof -
  from assms(3) obtain F C n b where u: "u = s\<lparr>foundObjs := F, cacheObjs := C, next_ptr := n, blocksCached := b\<rparr>"
    and F: "\<forall>z. z \<noteq> g \<longrightarrow> F z = foundObjs s z"
    and Fg: "map_option (firstCacheObj_update (\<lambda>_. 0)) (F g) = Some (x\<lparr>WLOCK_CACHE := - 1, firstCacheObj := 0\<rparr>)"
    unfolding cache_frame_def by auto
  then obtain y where y: "F g = Some y" "y\<lparr>firstCacheObj := 0\<rparr> = x\<lparr>WLOCK_CACHE := - 1, firstCacheObj := 0\<rparr>"
    by auto
  have lk: "WLOCK_CACHE y = - 1"
    using arg_cong [OF y(2), of WLOCK_CACHE] by simp
  have yx: "y\<lparr>WLOCK_CACHE := 0, firstCacheObj := 0\<rparr> = x\<lparr>firstCacheObj := 0\<rparr>"
  proof -
    have "y\<lparr>WLOCK_CACHE := 0, firstCacheObj := 0\<rparr> = (y\<lparr>firstCacheObj := 0\<rparr>)\<lparr>WLOCK_CACHE := 0\<rparr>"
      by simp
    also have "\<dots> = (x\<lparr>WLOCK_CACHE := - 1, firstCacheObj := 0\<rparr>)\<lparr>WLOCK_CACHE := 0\<rparr>"
      by (simp only: y(2))
    also have "\<dots> = x\<lparr>firstCacheObj := 0\<rparr>"
      using assms(2) by (cases x) simp
    finally show ?thesis .
  qed
  show ?thesis
  proof (rule that [of y])
    show "foundObjs u g = Some y"
      using u y by simp
    then show "cache_lock spinlock_cnt_write_release g u =
        Inr ((), u\<lparr>foundObjs := (foundObjs u)(g \<mapsto> y\<lparr>WLOCK_CACHE := 0\<rparr>)\<rparr>)"
      by (rule cache_lock_run) (simp add: spinlock_cnt_defs lk)
    show "cache_frame g s (u\<lparr>foundObjs := (foundObjs u)(g \<mapsto> y\<lparr>WLOCK_CACHE := 0\<rparr>)\<rparr>)"
      by (rule cache_frameI [where F = "F(g \<mapsto> y\<lparr>WLOCK_CACHE := 0\<rparr>)" and C = C and n = n and b = b])
        (use F assms(1) yx in \<open>simp_all add: u\<close>)
    show "cache_ok (u\<lparr>foundObjs := (foundObjs u)(g \<mapsto> y\<lparr>WLOCK_CACHE := 0\<rparr>)\<rparr>) g ps"
      using assms(4) u y(1) by (simp add: cache_ok_def)
  qed
qed

definition insert_range :: "range \<Rightarrow> range list \<Rightarrow> range list" where
  "insert_range r xs = takeWhile (\<lambda>x. fst x < fst r) xs @ r # dropWhile (\<lambda>x. fst x < fst r) xs"

lemma ranges_append [simp]: "ranges C (xs @ ys) = ranges C xs @ ranges C ys"
  by (simp add: ranges_def)

lemma fst_ranges: "map fst (ranges C ps) = map (\<lambda>p. blockIndex (the (C p))) ps"
  by (simp add: ranges_def cdata_def)

lemma ranges_while:
  "ranges C (takeWhile (\<lambda>p. P (blockIndex (the (C p)))) ps) = takeWhile (\<lambda>x. P (fst x)) (ranges C ps)"
  "ranges C (dropWhile (\<lambda>p. P (blockIndex (the (C p)))) ps) = dropWhile (\<lambda>x. P (fst x)) (ranges C ps)"
  by (simp_all add: ranges_def takeWhile_map dropWhile_map comp_def cdata_def)

text \<open>In a sorted list, what starts in a window is one run.\<close>

lemma sorted_window:
  fixes xs :: "range list"
  assumes "sorted_wrt (<) (map fst xs)"
  shows "takeWhile (\<lambda>x. \<not> in_window b n (fst x)) xs @
      dropWhile (\<lambda>x. in_window b n (fst x)) (dropWhile (\<lambda>x. \<not> in_window b n (fst x)) xs) =
    filter (\<lambda>x. \<not> in_window b n (fst x)) xs"
  using assms
proof (induction xs)
  case (Cons x xs)
  show ?case
  proof (cases "in_window b n (fst x)")
    case True
    have "dropWhile (\<lambda>x. in_window b n (fst x)) xs = filter (\<lambda>x. \<not> in_window b n (fst x)) xs"
      using Cons.prems True
    proof (induction xs)
      case (Cons y ys)
      show ?case
      proof (cases "in_window b n (fst y)")
        case False
        then have "b + n \<le> fst y"
          using Cons.prems by (auto simp: in_window_def)
        then have "\<forall>z \<in> set ys. \<not> in_window b n (fst z)"
          using Cons.prems by (force simp: in_window_def)
        then show ?thesis
          using False by (simp add: filter_id_conv)
      qed (use Cons in simp)
    qed simp
    then show ?thesis
      using True by simp
  qed (use Cons in simp)
qed simp

lemma sorted_between:
  "sorted_wrt (<) (as @ bs) \<Longrightarrow> \<forall>a \<in> set as. a < m \<Longrightarrow> \<forall>b \<in> set bs. m < b \<Longrightarrow> sorted_wrt (<) (as @ m # bs)"
  for m :: nat
  by (auto simp: sorted_wrt_append)

lemma sorted_insert_range:
  fixes xs :: "range list"
  assumes "sorted_wrt (<) (map fst xs)" "fst r \<notin> fst ` set xs"
  shows "sorted_wrt (<) (map fst (insert_range r xs))"
proof -
  let ?P = "\<lambda>x. fst x < fst r"
  have s: "sorted_wrt (<) (map fst (takeWhile ?P xs @ dropWhile ?P xs))"
    using assms(1) by simp
  have lo: "\<forall>x \<in> set (takeWhile ?P xs). fst x < fst r"
    by (metis set_takeWhileD)
  have hi: "\<forall>x \<in> set (dropWhile ?P xs). fst r < fst x"
  proof (cases "dropWhile ?P xs")
    case (Cons d ds)
    have "\<not> fst d < fst r" "d \<in> set xs"
      using Cons hd_dropWhile [of ?P xs] set_dropWhileD [of d ?P xs] by auto
    then have "fst r < fst d"
      using assms(2) by (metis image_eqI linorder_neqE_nat)
    then show ?thesis
      using s Cons by (auto simp: sorted_wrt_append)
  next
    case Nil
    then show ?thesis by (simp only: list.set ball_simps)
  qed
  have "sorted_wrt (<) (map fst (takeWhile ?P xs) @ fst r # map fst (dropWhile ?P xs))"
    using lo hi s unfolding map_append by (intro sorted_between) (simp_all only: list.set_map ball_simps)
  then show ?thesis
    by (simp add: insert_range_def)
qed

lemma cache_add_clear:
  assumes "cache_ok s g ps" "foundObjs s g = Some x" "WLOCK_CACHE x = 0" "0 < blocks" "bi + blocks < 2 ^ 32"
    "\<forall>p \<in> set ps. \<not> in_window bi blocks (start_of s p)"
  shows "\<exists>s' ps'. cache_add_loop (Suc f) g buff bi blocks s = Inr ((), s') \<and> cache_ok s' g ps' \<and> cache_frame g s s' \<and>
    ranges (cacheObjs s') ps' = insert_range (bi, blocks, buff) (ranges (cacheObjs s) ps) \<and>
    (\<forall>y. y \<notin> set ps \<and> y < next_ptr s \<longrightarrow> cacheObjs s' y = cacheObjs s y) \<and>
    (\<forall>p \<in> set ps. p \<in> set ps' \<and> cdata (the (cacheObjs s' p)) = cdata (the (cacheObjs s p)))"
proof -
  let ?s = "write_locked g x s" and ?x = "x\<lparr>WLOCK_CACHE := - 1\<rparr>"
  let ?ps = "takeWhile (\<lambda>p. start_of s p < bi) ps @ next_ptr s # dropWhile (\<lambda>p. start_of s p < bi) ps"
  have ok: "cache_ok ?s g ps"
    using assms(1) cache_ok_locked [OF assms(2)] by simp
  have lock: "cache_lock spinlock_cnt_write_acquire g s = Inr ((), ?s)"
    using assms(2,3) by (simp add: cache_lock_run spinlock_cnt_defs)
  have dll: "dll (clinks (cacheObjs s)) 0 (firstCacheObj x) ps 0"
    using assms(1,2) by (auto simp: cache_ok_def dlist_def)
  have find: "find_cached (next_ptr s + 1) bi blocks (firstCacheObj x) (firstCacheObj x) ?s =
      Inr ((0, last (firstCacheObj x # ps)), ?s)"
    using find_cached_run [of ?s 0 "firstCacheObj x" ps "next_ptr s + 1" bi blocks "firstCacheObj x"] dll
      cache_ok_length(2) [OF assms(1)] assms(6)
    by (simp add: takeWhile_eq_all_conv [THEN iffD2] dropWhile_eq_Nil_conv [THEN iffD2] del: find_cached.simps)
  have "bi \<notin> start_of ?s ` set ps"
    using assms(4,6) by (auto simp: in_window_def)
  from cache_insert_ok [OF ok this, of "last (firstCacheObj x # ps)" blocks buff] assms(5) obtain u where
    u: "cache_insert g buff bi blocks (last (firstCacheObj x # ps)) ?s = Inr ((), u)" "cache_ok u g ?ps"
      "cache_frame g ?s u"
      "ranges (cacheObjs u) ?ps = ranges (cacheObjs s) (takeWhile (\<lambda>p. start_of s p < bi) ps) @
         (bi, blocks, buff) # ranges (cacheObjs s) (dropWhile (\<lambda>p. start_of s p < bi) ps)"
      "\<forall>y. y \<notin> set ps \<and> y < next_ptr s \<longrightarrow> cacheObjs u y = cacheObjs s y"
    by auto
  from cache_section_end [OF assms(2,3) u(3,2)] obtain y where
    y: "cache_lock spinlock_cnt_write_release g u = Inr ((), u\<lparr>foundObjs := (foundObjs u)(g \<mapsto> y\<lparr>WLOCK_CACHE := 0\<rparr>)\<rparr>)"
      "cache_frame g s (u\<lparr>foundObjs := (foundObjs u)(g \<mapsto> y\<lparr>WLOCK_CACHE := 0\<rparr>)\<rparr>)"
      "cache_ok (u\<lparr>foundObjs := (foundObjs u)(g \<mapsto> y\<lparr>WLOCK_CACHE := 0\<rparr>)\<rparr>) g ?ps"
    by blast
  let ?u = "u\<lparr>foundObjs := (foundObjs u)(g \<mapsto> y\<lparr>WLOCK_CACHE := 0\<rparr>)\<rparr>"
  have "cache_add_loop (Suc f) g buff bi blocks s = Inr ((), ?u)"
    using lock find u(1) y(1) by (simp add: cmd_simps get_found_def del: find_cached.simps)
  moreover have "ranges (cacheObjs ?u) ?ps = insert_range (bi, blocks, buff) (ranges (cacheObjs s) ps)"
    using u(4) by (simp add: insert_range_def ranges_while(1) [of _ "\<lambda>i. i < bi"] ranges_while(2) [of _ "\<lambda>i. i < bi"])
  moreover have "\<forall>p \<in> set ps. p \<in> set ?ps \<and> cdata (the (cacheObjs ?u p)) = cdata (the (cacheObjs s p))"
  proof -
    have "\<forall>p \<in> set (takeWhile (\<lambda>p. start_of s p < bi) ps @ dropWhile (\<lambda>p. start_of s p < bi) ps).
        cdata (the (cacheObjs u p)) = cdata (the (cacheObjs s p))"
      using u(4) by (simp add: ranges_def ball_Un del: takeWhile_dropWhile_id)
    then show ?thesis
      using set_append [of "takeWhile (\<lambda>p. start_of s p < bi) ps" "dropWhile (\<lambda>p. start_of s p < bi) ps"]
      by (simp only: takeWhile_dropWhile_id) simp
  qed
  ultimately show ?thesis
    using y(2,3) u(5) by (intro exI [of _ ?u] exI [of _ ?ps]) simp
qed

lemma dropWhile_keeps: "x \<in> set xs \<Longrightarrow> \<not> P x \<Longrightarrow> x \<in> set (dropWhile P xs)"
  by (induction xs) auto

text \<open>The nodes that do not start in the window stay in the list, with their contents.\<close>

lemma cache_add_run:
  assumes "cache_ok s g ps" "foundObjs s g = Some x" "WLOCK_CACHE x = 0"
    "sorted_wrt (<) (map fst (ranges (cacheObjs s) ps))" "0 < blocks" "bi + blocks < 2 ^ 32"
  shows "\<exists>s' ps'. ext2CacheAddSecurely g buff bi blocks s = Inr ((), s') \<and> cache_ok s' g ps' \<and> cache_frame g s s' \<and>
    ranges (cacheObjs s') ps' = insert_range (bi, blocks, buff)
      (filter (\<lambda>r. \<not> in_window bi blocks (fst r)) (ranges (cacheObjs s) ps)) \<and>
    sorted_wrt (<) (map fst (ranges (cacheObjs s') ps')) \<and>
    (\<forall>y. y \<notin> set ps \<and> y < next_ptr s \<longrightarrow> cacheObjs s' y = cacheObjs s y) \<and>
    (\<forall>p \<in> set ps. \<not> in_window bi blocks (start_of s p) \<longrightarrow>
       p \<in> set ps' \<and> cdata (the (cacheObjs s' p)) = cdata (the (cacheObjs s p)))"
proof -
  let ?out = "\<lambda>p. \<not> in_window bi blocks (start_of s p)" and ?inw = "\<lambda>p. in_window bi blocks (start_of s p)"
  let ?ys = "takeWhile ?out ps" and ?zs = "dropWhile ?out ps"
  let ?keep = "filter (\<lambda>r. \<not> in_window bi blocks (fst r)) (ranges (cacheObjs s) ps)"
  have sorted: "sorted_wrt (<) (map fst (insert_range (bi, blocks, buff) ?keep))"
  proof (rule sorted_insert_range)
    show "sorted_wrt (<) (map fst ?keep)"
      using assms(4) unfolding sorted_wrt_map by (rule sorted_wrt_filter)
    show "fst (bi, blocks, buff) \<notin> fst ` set ?keep"
      using assms(5) by (auto simp: in_window_def)
  qed
  show ?thesis
  proof (cases "\<forall>p \<in> set ps. ?out p")
    case True
    then have "?keep = ranges (cacheObjs s) ps"
      by (auto simp: filter_id_conv ranges_def cdata_def)
    moreover obtain s' ps' where "cache_add_loop (Suc (next_ptr s)) g buff bi blocks s = Inr ((), s')" "cache_ok s' g ps'"
        "cache_frame g s s'" "ranges (cacheObjs s') ps' = insert_range (bi, blocks, buff) (ranges (cacheObjs s) ps)"
        "\<forall>y. y \<notin> set ps \<and> y < next_ptr s \<longrightarrow> cacheObjs s' y = cacheObjs s y"
        "\<forall>p \<in> set ps. p \<in> set ps' \<and> cdata (the (cacheObjs s' p)) = cdata (the (cacheObjs s p))"
      using cache_add_clear [OF assms(1-3,5,6) True, of "next_ptr s" buff] by blast
    ultimately show ?thesis
      using sorted unfolding ext2CacheAddSecurely_def
      by (intro exI [of _ s'] exI [of _ ps']) (simp del: cache_add_loop.simps)
  next
    case False
    then have zs: "?zs \<noteq> []"
      by (simp add: dropWhile_eq_Nil_conv)
    let ?s = "write_locked g x s" and ?qs = "?ys @ dropWhile ?inw ?zs"
    have ok: "cache_ok ?s g (?ys @ ?zs)"
      using assms(1) cache_ok_locked [OF assms(2)] by simp
    have lock: "cache_lock spinlock_cnt_write_acquire g s = Inr ((), ?s)"
      using assms(2,3) by (simp add: cache_lock_run spinlock_cnt_defs)
    have "dll (clinks (cacheObjs s)) 0 (firstCacheObj x) ps 0"
      using assms(1,2) by (auto simp: cache_ok_def dlist_def)
    then have find: "find_cached (next_ptr s + 1) bi blocks (firstCacheObj x) (firstCacheObj x) ?s =
        Inr ((hd (?zs @ [0]), last (firstCacheObj x # ?ys)), ?s)"
      using find_cached_run [of ?s 0 "firstCacheObj x" ps "next_ptr s + 1" bi blocks "firstCacheObj x"]
        cache_ok_length(2) [OF assms(1)] by (simp del: find_cached.simps)
    have "length ?zs < next_ptr s + 1"
      using cache_ok_length(2) [OF assms(1)] length_dropWhile_le [of ?out ps] by linarith
    from cache_evict_run [OF ok this, of bi blocks] obtain u where
      u: "cache_evict (next_ptr s + 1) g bi blocks (hd (?zs @ [0])) ?s = Inr ((), u)" "cache_ok u g ?qs"
        "cache_frame g ?s u" "next_ptr u = next_ptr s"
        "\<forall>y \<in> set ?qs. map_option cdata (cacheObjs u y) = map_option cdata (cacheObjs s y)"
        "\<forall>y. y \<notin> set ps \<longrightarrow> cacheObjs u y = cacheObjs s y"
      by auto
    from cache_section_end [OF assms(2,3) u(3,2)] obtain y where
      y: "cache_lock spinlock_cnt_write_release g u = Inr ((), u\<lparr>foundObjs := (foundObjs u)(g \<mapsto> y\<lparr>WLOCK_CACHE := 0\<rparr>)\<rparr>)"
        "cache_frame g s (u\<lparr>foundObjs := (foundObjs u)(g \<mapsto> y\<lparr>WLOCK_CACHE := 0\<rparr>)\<rparr>)"
        "cache_ok (u\<lparr>foundObjs := (foundObjs u)(g \<mapsto> y\<lparr>WLOCK_CACHE := 0\<rparr>)\<rparr>) g ?qs"
      by blast
    define v where "v = u\<lparr>foundObjs := (foundObjs u)(g \<mapsto> y\<lparr>WLOCK_CACHE := 0\<rparr>)\<rparr>"
    have v: "cache_ok v g ?qs" "foundObjs v g = Some (y\<lparr>WLOCK_CACHE := 0\<rparr>)" "cacheObjs v = cacheObjs u"
      "next_ptr v = next_ptr s" "cache_frame g s v"
      using y(2,3) u(4) by (simp_all add: v_def)
    have "ranges (cacheObjs u) ?qs = ranges (cacheObjs s) ?qs"
      using u(5) cache_ok_nodes [OF u(2)] by (intro ranges_cong) blast+
    also have "\<dots> = ?keep"
      using sorted_window [OF assms(4), of bi blocks]
      by (simp add: ranges_while(1) [of _ "\<lambda>i. \<not> in_window bi blocks i"] ranges_while(2) [of _ "\<lambda>i. in_window bi blocks i"]
          ranges_while(2) [of _ "\<lambda>i. \<not> in_window bi blocks i"])
    finally have keep: "ranges (cacheObjs v) ?qs = ?keep"
      by (simp add: v(3))
    have "\<not> in_window bi blocks (start_of v p)" if "p \<in> set ?qs" for p
    proof -
      have "cdata (the (cacheObjs v p)) \<in> set (ranges (cacheObjs v) ?qs)"
        using that unfolding ranges_def by (metis (no_types, lifting) image_eqI list.set_map)
      then have "\<not> in_window bi blocks (fst (cdata (the (cacheObjs v p))))"
        unfolding keep by simp
      then show ?thesis
        by (simp add: cdata_def)
    qed
    moreover obtain f where f: "next_ptr s = Suc f"
      using assms(1) by (cases "next_ptr s") (auto simp: cache_ok_def)
    ultimately obtain s' ps' where s': "cache_add_loop (Suc f) g buff bi blocks v = Inr ((), s')" "cache_ok s' g ps'"
        "cache_frame g v s'" "ranges (cacheObjs s') ps' = insert_range (bi, blocks, buff) ?keep"
        "\<forall>y. y \<notin> set ?qs \<and> y < next_ptr v \<longrightarrow> cacheObjs s' y = cacheObjs v y"
        "\<forall>p \<in> set ?qs. p \<in> set ps' \<and> cdata (the (cacheObjs s' p)) = cdata (the (cacheObjs v p))"
      using cache_add_clear [OF v(1,2) _ assms(5,6), of f buff] keep by auto
    have "hd (?zs @ [0]) \<noteq> 0"
      using zs cache_ok_nodes [OF assms(1), of "hd ?zs"] set_dropWhileD [of "hd ?zs" ?out ps] by simp
    then have "ext2CacheAddSecurely g buff bi blocks s = Inr ((), s')"
      using lock find u(1) y(1) s'(1) unfolding ext2CacheAddSecurely_def
      by (simp add: cmd_simps get_found_def assms(2) f v_def del: find_cached.simps cache_evict.simps
          cache_add_loop.simps(2)) (simp add: cmd_simps get_found_def assms(2) f v_def del: find_cached.simps cache_evict.simps)
    moreover have "cacheObjs s' y = cacheObjs s y" if "y \<notin> set ps" "y < next_ptr s" for y
    proof -
      have "y \<notin> set ?qs"
        using that(1) by (metis Un_iff set_append set_dropWhileD set_takeWhileD)
      then show ?thesis
        using s'(5) u(6) that v(3,4) by simp
    qed
    moreover have "p \<in> set ps' \<and> cdata (the (cacheObjs s' p)) = cdata (the (cacheObjs s p))"
      if "p \<in> set ps" "?out p" for p
    proof -
      have "p \<in> set ?qs"
        using that dropWhile_keeps [of p ?zs ?inw] by (metis Un_iff set_append takeWhile_dropWhile_id)
      note q = bspec [OF s'(6) this] bspec [OF u(5) this] cache_ok_nodes [OF assms(1) that(1)]
      from q(2,3) have "cdata (the (cacheObjs u p)) = cdata (the (cacheObjs s p))"
        by (cases "cacheObjs s p"; cases "cacheObjs u p") auto
      with q(1) show ?thesis
        unfolding v(3) by simp
    qed
    ultimately show ?thesis
      using s'(2,4) cache_frame_trans [OF v(5) s'(3)] sorted by (intro exI [of _ s'] exI [of _ ps']) simp
  qed
qed


end
