(* ===== verification/Ext2_Io.thy ===== *)
theory Ext2_Io
  imports Ext2_Dirs Ext2_Caching Page_Bitmap
begin

text \<open>
  Reading and writing an open file, from \<^verbatim>\<open>ext2_controller.c\<close>. A read returns the bytes it put in
  the caller's buffer, from its start; a write takes the bytes of the caller's buffer.

  Two values of the memory the source leaves open are parameters: \<open>fresh\<close> gives the bytes of
  newly allocated pages, and \<open>past\<close> the word behind the array of block numbers, which
  \<^verbatim>\<open>ext2ReadInner\<close> reads once when all the entries are used. The page allocator is taken to
  succeed.
\<close>

section \<open>Reading\<close>

text \<open>
  The cluster loop of \<^verbatim>\<open>ext2ReadInner\<close>: \<open>n\<close> is \<^verbatim>\<open>blocksRequired\<close>, the array has one entry more;
  \<open>run\<close> is \<^verbatim>\<open>consecStart\<close> unless it is negative.
\<close>

function read_loop ::
  "u32 \<Rightarrow> nat \<Rightarrow> u32 list \<Rightarrow> nat \<Rightarrow> nat option \<Rightarrow> nat \<Rightarrow> byte list \<Rightarrow> byte list ext2_cmd" where
  "read_loop past n blocks i run currBlock tmp = (\<lambda>s.
     if i < n + 1 then
       (if length blocks \<le> i then Inl Out_of_bounds
        else if blocks ! i = 0 then Inr (tmp, s)
        else
          let last = (i + 1 = n);
              nxt = (if i + 1 < length blocks then blocks ! (i + 1) else past);
              more = (\<not> last \<and> nxt = blocks ! i + 1);
              start = (case run of None \<Rightarrow> i | Some c \<Rightarrow> c);
              needed = i - start + 1
          in if more then read_loop past n blocks (i + 1) (Some start) currBlock tmp s
             else bnd (get_sectors (BLOCK_TO_LBA s 0 (unat (blocks ! start))) (needed * blockSize s div SECTOR_SIZE))
               (\<lambda>b. bnd (lift (wr tmp (currBlock * blockSize s) b)) (\<lambda>tmp'.
                read_loop past n blocks (i + 1) None (currBlock + needed) tmp')) s)
     else Inr (tmp, s))"
  by pat_completeness auto
termination
  by (relation "measure (\<lambda>(p, n, b, i, r, c, t). n + 1 - i)") auto

declare read_loop.simps [simp del]

definition fresh_pages :: "(nat \<Rightarrow> byte) \<Rightarrow> nat \<Rightarrow> byte list" where
  "fresh_pages fresh pages = map fresh [0..<pages * BLOCK_SIZE]"

definition ext2ReadInner ::
  "u32 \<Rightarrow> (nat \<Rightarrow> byte) \<Rightarrow> Ext2OpenFd \<Rightarrow> nat \<Rightarrow> (byte list \<times> Ext2OpenFd) ext2_cmd" where
  "ext2ReadInner past fresh fd limit = (\<lambda>s.
     let bs = blockSize s; blocksRequired = CEILING_DIVISION limit bs; ptr = fd_ptr fd in
     bnd (ext2BlockChain fd (ptr div bs) blocksRequired) (\<lambda>(blocks, fd).
     bnd (read_loop past blocksRequired blocks 0 None 0
           (fresh_pages fresh (CEILING_DIVISION ((blocksRequired + 1) * bs) BLOCK_SIZE))) (\<lambda>tmp.
     let offsetStarting = ptr mod bs; headtoCopy = min (bs - offsetStarting) limit in
     bnd (lift (rdseg tmp offsetStarting headtoCopy)) (\<lambda>head.
     bnd (if headtoCopy < limit then lift (rdseg tmp bs (limit - headtoCopy)) else ret []) (\<lambda>rest.
     andthen (ext2CacheAddSecurely (globalObject fd) tmp (ptr div bs) blocksRequired)
     (ret (head @ rest, fd\<lparr>fd_ptr := ptr + limit\<rparr>)))))) s)"

definition ext2GetFilesize :: "Ext2OpenFd \<Rightarrow> nat" where
  "ext2GetFilesize dir = unat (COMBINE_64 (i_size_high (fd_inode dir)) (i_size (fd_inode dir)))"

definition sub64 :: "nat \<Rightarrow> nat \<Rightarrow> nat" where
  "sub64 a b = (a + (2 ^ 64 - b)) mod 2 ^ 64"

text \<open>The search for the first cached range that starts inside the blocks to read.\<close>

fun find_range :: "nat \<Rightarrow> nat \<Rightarrow> nat \<Rightarrow> ptr \<Rightarrow> ptr ext2_cmd" where
  "find_range 0 start blocks obj = fail Diverges"
| "find_range (Suc fuel) start blocks obj =
     (if obj = 0 then ret 0
      else bnd (get_cache obj) (\<lambda>x.
        if in_window start blocks (blockIndex x) then ret obj
        else find_range fuel start blocks (c_next x)))"

text \<open>
  The main loop of \<^verbatim>\<open>ext2Read\<close>: cached ranges are copied, the gaps before them and the rest are
  read. An iteration that does not end the loop advances \<open>i\<close>, so \<open>blocksRequired + 2\<close>
  iterations are enough; the parameters of \<open>ext2ReadInner\<close> may differ at each of them.
\<close>

primrec read_parts ::
  "(nat \<Rightarrow> u32) \<Rightarrow> (nat \<Rightarrow> nat \<Rightarrow> byte) \<Rightarrow> nat \<Rightarrow> nat \<Rightarrow> nat \<Rightarrow> nat \<Rightarrow> ptr \<Rightarrow> nat \<Rightarrow> byte list \<Rightarrow> Ext2OpenFd \<Rightarrow>
   (nat \<times> byte list \<times> Ext2OpenFd) ext2_cmd" where
  "read_parts past fresh 0 start n i obj left out fd = fail Diverges"
| "read_parts past fresh (Suc fuel) start n i obj left out fd = (\<lambda>s.
     if i < n + 1 then
       bnd (if obj = 0 then ret None else bnd (get_cache obj) (\<lambda>c. ret (Some c))) (\<lambda>co.
       let rem = fd_ptr fd mod blockSize s in
       case co of
         Some c \<Rightarrow>
           if blockIndex c = start + i then
             andthen (cache_lock spinlock_cnt_read_acquire (globalObject fd))
             (let toCopy = min left (sub64 (c_blocks c * blockSize s) rem) in
              bnd (lift (rdseg (c_buff c) rem toCopy)) (\<lambda>b.
              andthen (cache_lock spinlock_cnt_read_release (globalObject fd))
              (let fd' = fd\<lparr>fd_ptr := fd_ptr fd + toCopy\<rparr> in
               if left = toCopy then ret (0, out @ b, fd')
               else read_parts past fresh fuel start n (i + trunc32 (c_blocks c + (2 ^ 32 - 1)) + 1) (c_next c)
                      (left - toCopy) (out @ b) fd')))
           else
             (let blocksToScan = sub64 (blockIndex c) (fd_ptr fd div blockSize s);
                  toCopy = min left (sub64 (blocksToScan * blockSize s mod 2 ^ 64) rem) in
              bnd (ext2ReadInner (past i) (fresh i) fd toCopy) (\<lambda>(b, fd').
              if left = toCopy then ret (0, out @ b, fd')
              else read_parts past fresh fuel start n ((i + blocksToScan) mod 2 ^ 64) obj (left - toCopy) (out @ b) fd'))
       | None \<Rightarrow>
           (let blocksToScan = (if n - i = 0 then 1 else n - i);
                toCopy = min left (sub64 (blocksToScan * blockSize s mod 2 ^ 64) rem) in
            bnd (ext2ReadInner (past i) (fresh i) fd toCopy) (\<lambda>(b, fd').
            if left = toCopy then ret (0, out @ b, fd')
            else read_parts past fresh fuel start n ((i + blocksToScan) mod 2 ^ 64) obj (left - toCopy) (out @ b) fd'))) s
     else Inr ((left, out, fd), s))"

definition ext2Read ::
  "(nat \<Rightarrow> u32) \<Rightarrow> (nat \<Rightarrow> nat \<Rightarrow> byte) \<Rightarrow> Ext2OpenFd \<Rightarrow> nat \<Rightarrow> (u64 \<times> byte list \<times> Ext2OpenFd) ext2_cmd" where
  "ext2Read past fresh dir naiveLimit =
     (if dir_bit (fd_inode dir) then ret (ERR EISDIR, [], dir)
      else andthen (ext2CachePush dir)
       (let filesize = ext2GetFilesize dir in
        if filesize \<le> fd_ptr dir then ret (0, [], dir)
        else (\<lambda>s.
          let limit = min naiveLimit (filesize - fd_ptr dir);
              blocksRequired = CEILING_DIVISION limit (blockSize s);
              start = fd_ptr dir div blockSize s;
              g = globalObject dir
          in andthen (file_lock spinlock_cnt_read_acquire g)
             (andthen (cache_lock spinlock_cnt_read_acquire g)
             (bnd (get_found g) (\<lambda>go.
              bnd (find_range (next_ptr s + 1) start blocksRequired (firstCacheObj go)) (\<lambda>obj.
              andthen (cache_lock spinlock_cnt_read_release g)
              (bnd (read_parts past fresh (blocksRequired + 2) start blocksRequired 0 obj limit [] dir)
                (\<lambda>(left, out, dir').
               andthen (check Assert_failed (left = 0))
               (andthen (file_lock spinlock_cnt_read_release g)
               (ret (of_nat limit, out, dir'))))))))) s)))"

section \<open>Writing\<close>

text \<open>The cluster loop of \<^verbatim>\<open>ext2Write\<close>: every block number must be assigned by now.\<close>

function write_loop ::
  "nat \<Rightarrow> u32 list \<Rightarrow> nat \<Rightarrow> nat option \<Rightarrow> nat \<Rightarrow> byte list \<Rightarrow> unit ext2_cmd" where
  "write_loop n blocks i run currBlock tmp = (\<lambda>s.
     if i < n then
       (if length blocks \<le> i then Inl Out_of_bounds
        else if blocks ! i = 0 then Inl Halted
        else
          let last = (i + 1 = n);
              more = (\<not> last \<and> blocks ! (i + 1) = blocks ! i + 1);
              start = (case run of None \<Rightarrow> i | Some c \<Rightarrow> c);
              needed = i - start + 1
          in if more then write_loop n blocks (i + 1) (Some start) currBlock tmp s
             else bnd (lift (rdseg tmp (currBlock * blockSize s) (needed * blockSize s)))
               (\<lambda>b. andthen (set_sectors b (BLOCK_TO_LBA s 0 (unat (blocks ! start)))
                        (needed * blockSize s div SECTOR_SIZE))
                (write_loop n blocks (i + 1) None (currBlock + needed) tmp)) s)
     else Inr ((), s))"
  by pat_completeness auto
termination
  by (relation "measure (\<lambda>(n, b, i, r, c, t). n - i)") auto

declare write_loop.simps [simp del]

text \<open>Writing the rest of a block that the position is in the middle of.\<close>

definition write_head :: "Ext2OpenFd \<Rightarrow> byte list \<Rightarrow> (nat \<times> Ext2OpenFd) ext2_cmd" where
  "write_head dir buff = (\<lambda>s.
     let bs = blockSize s; ignoredBytes = fd_ptr dir mod bs; left = min (bs - ignoredBytes) (length buff) in
     bnd (ext2BlockFetch (fd_inode dir) (fd_inodeNum dir) (fd_lookup dir) (fd_ptr dir div bs)) (\<lambda>(block, control).
     let lba = BLOCK_TO_LBA s 0 (unat block) in
     bnd (get_sectors lba (bs div SECTOR_SIZE)) (\<lambda>tmp.
     bnd (lift (wr tmp ignoredBytes (take left buff))) (\<lambda>tmp'.
     andthen (set_sectors tmp' lba (bs div SECTOR_SIZE))
     (ret (left, dir\<lparr>fd_lookup := control, fd_ptr := fd_ptr dir + left\<rparr>))))) s)"

fun assign_run :: "nat \<Rightarrow> Ext2OpenFd \<Rightarrow> nat \<Rightarrow> u32 \<Rightarrow> Ext2OpenFd ext2_cmd" where
  "assign_run 0 dir cur block = ret dir"
| "assign_run (Suc k) dir cur block =
     bnd (ext2BlockAssign (fd_inode dir) (fd_inodeNum dir) (fd_lookup dir) cur block) (\<lambda>(ino, control).
     assign_run k (dir\<lparr>fd_inode := ino, fd_lookup := control\<rparr>) (cur + 1) (block + 1))"

text \<open>Finding blocks for the part of the range that has none, from the first hole on.\<close>

definition fill_blocks :: "Ext2OpenFd \<Rightarrow> nat \<Rightarrow> u32 list \<Rightarrow> (u32 list \<times> Ext2OpenFd) ext2_cmd" where
  "fill_blocks dir first blocks = (\<lambda>s.
     case find (\<lambda>i. blocks ! i = 0) [0..<length blocks] of
       None \<Rightarrow> Inr ((blocks, dir), s)
     | Some startsAt \<Rightarrow>
         (let needed = length blocks - startsAt in
          bnd (ext2BlockFind (INODE_TO_BLOCK_GROUP 32 s (fd_inodeNum dir)) needed) (\<lambda>freeBlocks.
          bnd (assign_run needed dir (first + startsAt) (of_nat freeBlocks)) (\<lambda>dir'.
          ret (take startsAt blocks @ map (\<lambda>i. of_nat freeBlocks + of_nat i) [0..<needed], dir'))) s))"

definition write_body :: "(nat \<Rightarrow> byte) \<Rightarrow> Ext2OpenFd \<Rightarrow> nat \<Rightarrow> byte list \<Rightarrow> Ext2OpenFd ext2_cmd" where
  "write_body fresh dir first rest = (\<lambda>s.
     let bs = blockSize s; blocksRequired = CEILING_DIVISION (length rest) bs; n = bs div SECTOR_SIZE in
     bnd (ext2BlockChain dir first (blocksRequired - 1)) (\<lambda>(blocks, dir).
     bnd (fill_blocks dir first blocks) (\<lambda>(blocks, dir).
     let tmp = fresh_pages fresh (CEILING_DIVISION ((blocksRequired + 1) * bs) BLOCK_SIZE);
         target = blocksRequired - 1 in
     bnd (get_sectors (BLOCK_TO_LBA s 0 (unat (blocks ! 0))) n) (\<lambda>b.
     bnd (lift (wr tmp 0 b)) (\<lambda>tmp.
     bnd (if 0 < target
          then bnd (get_sectors (BLOCK_TO_LBA s 0 (unat (blocks ! target))) n) (\<lambda>b. lift (wr tmp (target * bs) b))
          else ret tmp) (\<lambda>tmp.
     bnd (lift (wr tmp 0 rest)) (\<lambda>tmp.
     andthen (write_loop blocksRequired blocks 0 None 0 tmp)
     (ret (dir\<lparr>fd_ptr := fd_ptr dir + length rest\<rparr>)))))))) s)"

definition write_size :: "Ext2OpenFd \<Rightarrow> Ext2OpenFd ext2_cmd" where
  "write_size dir = (\<lambda>s.
     if unat (i_size (fd_inode dir)) < fd_ptr dir then
       (let sz = (of_nat (fd_ptr dir) :: u32) in
        bnd (lift (ext2BlockSizeCalculate s (unat sz))) (\<lambda>bytes.
        let ino = (fd_inode dir)\<lparr>i_size := sz, i_num_sectors := of_nat (bytes div SECTOR_SIZE)\<rparr> in
        andthen (ext2InodeModifyM (fd_inodeNum dir) ino) (ret (dir\<lparr>fd_inode := ino\<rparr>))) s)
     else Inr (dir, s))"

definition ext2Write ::
  "(nat \<Rightarrow> byte) \<Rightarrow> u32 \<Rightarrow> Ext2OpenFd \<Rightarrow> byte list \<Rightarrow> (u64 \<times> Ext2OpenFd) ext2_cmd" where
  "ext2Write fresh flags dir buff =
     (let g = globalObject dir in
      andthen (ext2CachePush dir)
      (andthen (cache_lock spinlock_cnt_write_acquire g)
      (andthen (upd_found g (firstCacheObj_update (\<lambda>_. 0)))
      (andthen (cache_lock spinlock_cnt_write_release g)
      (if dir_bit (fd_inode dir) then ret (ERR EISDIR, dir)
       else andthen (file_lock spinlock_cnt_write_acquire g)
         (let app = has_flag flags O_APPEND;
              dir1 = (if app then dir\<lparr>fd_ptr := ext2GetFilesize dir\<rparr> else dir)
          in (\<lambda>s.
            let bs = blockSize s; inside = (0 < fd_ptr dir1 mod bs);
                first = fd_ptr dir1 div bs + (if inside then 1 else 0) in
            bnd (if inside then write_head dir1 buff else ret (0, dir1)) (\<lambda>(left, dir2).
            bnd (if left < length buff then write_body fresh dir2 first (drop left buff) else ret dir2) (\<lambda>dir3.
            bnd (write_size dir3) (\<lambda>dir4.
            andthen (file_lock spinlock_cnt_write_release g)
            (ret (of_nat (length buff), if app then dir4\<lparr>fd_ptr := fd_ptr dir\<rparr> else dir4))))) s)))))))"

section \<open>Seeking\<close>

text \<open>
  \<^verbatim>\<open>int written\<close> holds the \<^verbatim>\<open>size_t\<close> result of the write: it equals \<^verbatim>\<open>remainder\<close> only below 2 GiB.
\<close>

definition ext2Seek :: "(nat \<Rightarrow> byte) \<Rightarrow> u32 \<Rightarrow> Ext2OpenFd \<Rightarrow> nat \<Rightarrow> nat \<Rightarrow> (u64 \<times> Ext2OpenFd) ext2_cmd" where
  "ext2Seek fresh flags dir target whence =
     (let target = (if whence = SEEK_CURR then (target + fd_ptr dir) mod 2 ^ 64 else target);
          filesize = ext2GetFilesize dir in
      if filesize < target then
        (if \<not> has_flag flags O_RDWR \<and> \<not> has_flag flags O_WRONLY then ret (ERR EINVAL, dir)
         else let rest = target - filesize in
           bnd (ext2Write fresh flags (dir\<lparr>fd_ptr := filesize\<rparr>) (replicate rest 0)) (\<lambda>(written, dir).
           andthen (check Halted (scast (ucast written :: u32) = (of_nat rest :: u64)))
           (andthen (check Halted (fd_ptr dir = target))
           (ret (of_nat target, dir\<lparr>fd_ptr := target\<rparr>)))))
      else ret (of_nat target, dir\<lparr>fd_ptr := target\<rparr>))"

end
