(* ===== verification/Ext2_Controller.thy ===== *)
theory Ext2_Controller
  imports Ext2_Create Ext2_Io "HOL-Library.Signed_Division"
begin

text \<open>
  The rest of \<^verbatim>\<open>ext2_controller.c\<close>: mounting, opening and closing, status, symbolic links,
  memory mapping, deletion and hard links. \<^verbatim>\<open>symlinkResolve\<close> is an additional result: the path
  left there by a path resolution that stopped at a link. It is null when a call begins.
\<close>

section \<open>Mounting\<close>

definition EXT2_R_F_TYPE_FIELD :: u32 where "EXT2_R_F_TYPE_FIELD = 2"
definition EXT2_FS_S_CLEAN :: u16 where "EXT2_FS_S_CLEAN = 1"
definition EXT2_FS_E_REMOUNT_RO :: u16 where "EXT2_FS_E_REMOUNT_RO = 2"
definition EXT2_FS_E_KHalt :: u16 where "EXT2_FS_E_KHalt = 3"

text \<open>
  \<^verbatim>\<open>CEILING_DIVISION\<close> on \<^verbatim>\<open>uint32_t\<close> operands, which wraps and faults on a zero divisor.
  \<^verbatim>\<open>1024 << log2block_size\<close> is a shift of an \<^verbatim>\<open>int\<close>: defined only while the result fits.
\<close>

definition ceil32 :: "u32 \<Rightarrow> u32 \<Rightarrow> nat res" where
  "ceil32 a b = (if b = 0 then Inl Undefined else Inr (unat ((a + b - 1) div b)))"

definition mount_checks :: "Ext2Superblock \<Rightarrow> bool res" where
  "mount_checks sb =
     (if ext2_magic sb \<noteq> 0xEF53 then Inr False
      else if major sb < 1 then Inr False
      else if required_feature (extended sb) \<noteq> EXT2_R_F_TYPE_FIELD then Inr False
      else if fs_state sb \<noteq> EXT2_FS_S_CLEAN \<and> s_err sb = EXT2_FS_E_REMOUNT_RO then Inr False
      else if fs_state sb \<noteq> EXT2_FS_S_CLEAN \<and> s_err sb = EXT2_FS_E_KHalt then Inl Halted
      else Inr True)"

definition ext2_mount :: "blkdev \<Rightarrow> mbr_partition \<Rightarrow> nat \<Rightarrow> ext2_sys option res" where
  "ext2_mount d mbr time =
     (let offSuper = unat (lba_first_sector mbr + 2) in
      bindR (get_disk_bytes d (replicate 1024 0) offSuper 2) (\<lambda>tmp.
      let sb = dec_superblock tmp in
      bindR (mount_checks sb) (\<lambda>ok.
      if \<not> ok then Inr None
      else if 21 \<le> unat (log2block_size sb) then Inl Undefined
      else
        let bs = 1024 * 2 ^ unat (log2block_size sb) in
        if bs mod SECTOR_SIZE \<noteq> 0 then Inr None
        else
          bindR (ceil32 (total_blocks sb) (blocks_per_group sb)) (\<lambda>blockGroups1.
          bindR (ceil32 (total_inodes sb) (inodes_per_group sb)) (\<lambda>blockGroups2.
          if blockGroups1 \<noteq> blockGroups2 then Inr None
          else
            let offBGDT = unat (lba_first_sector mbr) + (unat (superblock_idx sb + 1) * bs) div SECTOR_SIZE in
            bindR (get_disk_bytes d (replicate bs 0) offBGDT (CEILING_DIVISION bs SECTOR_SIZE)) (\<lambda>g.
            let isz = unat (inode_size (extended sb)) in
            Inr (Some
              \<lparr>offsetBase = unat (lba_first_sector mbr), offsetSuperblock = offSuper, offsetBGDT = offBGDT,
               blockSize = bs, inodeSize = isz, inodeSizeRounded = CEILING_DIVISION isz SECTOR_SIZE * SECTOR_SIZE,
               blockGroups = blockGroups1, bgdts = dec_groups (bs div 32) g, superblock = sb,
               LOCK_OBJECT = False, firstObject = 0, WLOCK_GLOBAL_NOFD = 0,
               WLOCKS_BLOCK_BITMAP = replicate blockGroups1 0, WLOCKS_INODE = replicate blockGroups1 0,
               LOCK_BGDT_WRITE = False, LOCK_SUPERBLOCK_WRITE = False, LOCK_DIRALLOC = False,
               dev = d, foundObjs = \<lambda>_. None, cacheObjs = \<lambda>_. None, next_ptr = 1,
               blocksCached = 0, unix_time = time\<rparr>)))))))"

section \<open>Opening and closing\<close>

fun find_object :: "nat \<Rightarrow> nat \<Rightarrow> ptr \<Rightarrow> ptr ext2_cmd" where
  "find_object 0 inode obj = fail Diverges"
| "find_object (Suc fuel) inode obj =
     (if obj = 0 then ret 0
      else bnd (get_found obj) (\<lambda>x. if f_inode x = inode then ret obj else find_object fuel inode (f_next x)))"

definition ext2GlobalFetch :: "nat \<Rightarrow> ptr ext2_cmd" where
  "ext2GlobalFetch inode = (\<lambda>s.
     andthen (spin_object spinlock_acquire)
     (bnd (find_object (next_ptr s + 1) inode (firstObject s)) (\<lambda>browse.
      andthen (spin_object release) (ret browse))) s)"

definition new_found :: "nat \<Rightarrow> ptr ext2_cmd" where
  "new_found inode = (\<lambda>s.
     let p = next_ptr s;
         obj = \<lparr>f_next = 0, f_prev = 0, f_inode = 0, openFds = 0, LOCK_PROP = False, WLOCK_FILE = 0,
                WLOCK_CACHE = 0, firstCacheObj = 0\<rparr> in
     andthen (modify (\<lambda>s. s\<lparr>foundObjs := (foundObjs s)(p \<mapsto> obj), next_ptr := p + 1\<rparr>))
     (andthen (spin_object spinlock_acquire)
     (andthen (upd_found p (f_inode_update (\<lambda>_. inode)))
     (andthen (upd_found p (f_next_update (\<lambda>_. firstObject s)))
     (andthen (modify (firstObject_update (\<lambda>_. p)))
     (andthen (cond (firstObject s \<noteq> 0) (upd_found (firstObject s) (f_prev_update (\<lambda>_. p))))
     (andthen (spin_object release) (ret p))))))) s)"

definition count_fd :: "(nat \<Rightarrow> nat) \<Rightarrow> ptr \<Rightarrow> unit ext2_cmd" where
  "count_fd f p =
     andthen (prop_lock spinlock_acquire p)
     (andthen (upd_found p (openFds_update f)) (prop_lock release p))"

definition keep_link :: "byte list option \<Rightarrow> byte list option \<Rightarrow> byte list option" where
  "keep_link old new = (case new of None \<Rightarrow> old | Some p \<Rightarrow> Some p)"

text \<open>
  The middle of \<^verbatim>\<open>ext2Open\<close> when the path does not exist: create it under the write lock. The
  result is the error to return, or the inode found or created.
\<close>

definition open_create ::
  "byte list \<Rightarrow> u32 \<Rightarrow> byte list option \<Rightarrow> ((u64 + nat) \<times> byte list option) ext2_cmd" where
  "open_create filename mode link =
     andthen (nofd_lock spinlock_cnt_read_release)
     (andthen (nofd_lock spinlock_cnt_write_acquire)
     (bnd (ext2TraversePath filename EXT2_ROOT_INODE True True) (\<lambda>(inode, link1).
      let link = keep_link link link1 in
      bnd (if inode = 0 then
             bnd (ext2Touch filename mode) (\<lambda>(touch, link2).
             let link = keep_link link link2 in
             if RET_IS_ERR touch then ret (Inl touch, link)
             else bnd (ext2TraversePath filename EXT2_ROOT_INODE True True) (\<lambda>(inode, link3).
               ret (Inr inode, keep_link link link3)))
           else ret (Inr inode, link)) (\<lambda>r.
      andthen (nofd_lock spinlock_cnt_write_release)
      (andthen (nofd_lock spinlock_cnt_read_acquire) (ret r))))))"

text \<open>The end of \<^verbatim>\<open>ext2Open\<close>: the object shared by all descriptors of the inode, and the new descriptor.\<close>

definition open_inode :: "byte list \<Rightarrow> u32 \<Rightarrow> nat \<Rightarrow> (u64 \<times> (Ext2OpenFd \<times> byte list option) option) ext2_cmd" where
  "open_inode filename flags inode =
     bnd (ext2InodeFetch inode) (\<lambda>inodeFetched.
     if has_flag flags O_DIRECTORY \<and> \<not> dir_bit inodeFetched then ret (ERR ENOTDIR, None)
     else
       let ino = (if has_flag flags O_TRUNC then inodeFetched\<lparr>i_size := 0, i_size_high := 0, i_num_sectors := 0\<rparr>
                  else inodeFetched) in
       andthen (cond (has_flag flags O_TRUNC) (ext2InodeModifyM inode ino))
       (bnd (ext2GlobalFetch inode) (\<lambda>found.
        bnd (if found = 0 then new_found inode else ret found) (\<lambda>targetObject.
        andthen (count_fd (\<lambda>n. trunc32 (n + 1)) targetObject)
        (\<lambda>s. Inr ((0, Some
          (\<lparr>fd_lookup = ext2BlockFetchInit s control0, globalObject = targetObject, fd_ptr = 0,
            fd_inodeNum = inode, fd_inode = ino\<rparr>,
           if i_permission ino AND 0xF000 = EXT2_S_IFDIR then Some filename else None)), s))))))"

definition ext2Open ::
  "byte list \<Rightarrow> u32 \<Rightarrow> u32 \<Rightarrow> (u64 \<times> (Ext2OpenFd \<times> byte list option) option \<times> byte list option) ext2_cmd" where
  "ext2Open filename flags mode =
     andthen (nofd_lock spinlock_cnt_read_acquire)
     (bnd (ext2TraversePath filename EXT2_ROOT_INODE True True) (\<lambda>(inode, link).
      bnd (if inode = 0 \<and> link \<noteq> None then
             ret ((ERR (if has_flag flags O_NOFOLLOW then ELOOP else ENOENT), None), link)
           else if inode \<noteq> 0 \<and> has_flag flags O_EXCL \<and> has_flag flags O_CREAT then ret ((ERR EEXIST, None), link)
           else if inode = 0 \<and> \<not> has_flag flags O_CREAT then ret ((ERR ENOENT, None), link)
           else bnd (if inode = 0 then open_create filename mode link else ret (Inr inode, link)) (\<lambda>(r, link).
             case r of Inl e \<Rightarrow> ret ((e, None), link)
             | Inr inode \<Rightarrow> bnd (open_inode filename flags inode) (\<lambda>x. ret (x, link)))) (\<lambda>((res, fd), link).
      andthen (nofd_lock spinlock_cnt_read_release) (ret (res, fd, link)))))"

definition ext2Close :: "Ext2OpenFd \<Rightarrow> bool ext2_cmd" where
  "ext2Close dir = andthen (count_fd (\<lambda>n. trunc32 (n + (2 ^ 32 - 1))) (globalObject dir)) (ret True)"

definition ext2DuplicateNodeUnsafe ::
  "Ext2OpenFd \<times> byte list option \<Rightarrow> (bool \<times> Ext2OpenFd \<times> byte list option) ext2_cmd" where
  "ext2DuplicateNodeUnsafe original = (case original of (dirOriginal, dirname) \<Rightarrow>
     andthen (count_fd (\<lambda>n. trunc32 (n + 1)) (globalObject dirOriginal)) (ret (True, dirOriginal, dirname)))"

section \<open>Status and links\<close>

definition ext2StatInternal :: "('x Ext2_scheme) \<Rightarrow> Ext2Inode \<Rightarrow> nat \<Rightarrow> stat" where
  "ext2StatInternal s inode inodeNum =
     (let blk = int (blockSize s); sz = sint (COMBINE_64 (i_size_high inode) (i_size inode)) in
      \<lparr>st_dev = 69, st_ino = inodeNum, st_mode = i_permission inode, st_nlink = i_hard_links inode,
       st_uid = 0, st_gid = 0, st_rdev = 0, st_blksize = blk, st_size = sz,
       st_blocks = ((sz + blk - 1) sdiv blk * blk) sdiv 512,
       st_atime = i_atime inode, st_mtime = i_mtime inode, st_ctime = i_ctime inode\<rparr>)"

definition stat_path :: "bool \<Rightarrow> byte list \<Rightarrow> (stat option \<times> byte list option) ext2_cmd" where
  "stat_path follow filename =
     andthen (nofd_lock spinlock_cnt_read_acquire)
     (bnd (ext2TraversePath filename EXT2_ROOT_INODE follow True) (\<lambda>(inodeNum, link).
      bnd (if inodeNum = 0 then ret None
           else bnd (ext2InodeFetch inodeNum) (\<lambda>inode s. Inr (Some (ext2StatInternal s inode inodeNum), s))) (\<lambda>r.
      andthen (nofd_lock spinlock_cnt_read_release) (ret (r, link)))))"

definition ext2Stat :: "byte list \<Rightarrow> (stat option \<times> byte list option) ext2_cmd" where
  "ext2Stat filename = stat_path True filename"

definition ext2Lstat :: "byte list \<Rightarrow> (stat option \<times> byte list option) ext2_cmd" where
  "ext2Lstat filename = stat_path False filename"

definition ext2StatFd :: "Ext2OpenFd \<Rightarrow> (u64 \<times> stat) ext2_cmd" where
  "ext2StatFd dir = (\<lambda>s. Inr ((0, ext2StatInternal s (fd_inode dir) (fd_inodeNum dir)), s))"

text \<open>\<open>size\<close> of \<^verbatim>\<open>ext2Readlink\<close> is an \<^verbatim>\<open>int\<close>; the result is the return value with the bytes copied.\<close>

definition ext2Readlink :: "byte list \<Rightarrow> int \<Rightarrow> (u64 \<times> byte list \<times> byte list option) ext2_cmd" where
  "ext2Readlink path sz =
     (if sz < 0 then ret (ERR EINVAL, [], None)
      else if sz = 0 then ret (0, [], None)
      else andthen (nofd_lock spinlock_cnt_read_acquire)
        (bnd (ext2TraversePath path EXT2_ROOT_INODE False True) (\<lambda>(inodeNum, link).
         bnd (if inodeNum = 0 then ret (ERR ENOENT, [])
              else bnd (ext2InodeFetch inodeNum) (\<lambda>inode.
                if \<not> is_link inode then ret (ERR EINVAL, [])
                else bnd (link_text inode) (\<lambda>start.
                  let toCopy = min (unat (i_size inode)) (nat sz) in
                  bnd (lift (rdseg start 0 toCopy)) (\<lambda>b. ret (of_nat toCopy, b))))) (\<lambda>(res, b).
         andthen (nofd_lock spinlock_cnt_read_release) (ret (res, b, link))))))"

section \<open>Deleting\<close>

text \<open>
  The emptiness check looks at the first block of the directory only: an entry with a name
  longer than two bytes, or any entry after two live ones, makes it non-empty.
\<close>

function empty_scan :: "byte list \<Rightarrow> nat \<Rightarrow> nat \<Rightarrow> bool res" where
  "empty_scan names off i =
     (if off < length names then
        bindR (dir_at names off) (\<lambda>d.
        if 2 < unat (d_filenameLength d) \<or> 1 < i then Inr False
        else if d_size d = 0 then Inl Diverges
        else empty_scan names (off + unat (d_size d)) (if d_inode d \<noteq> 0 then i + 1 else i))
      else Inr True)"
  by pat_completeness auto
termination
  by (relation "measure (\<lambda>(names, off, i). length names - off)") (auto simp flip: unat_gt_0)

declare empty_scan.simps [simp del]

text \<open>
  The loop that frees the blocks stops when the file's sectors are used up, before the last
  block is freed. \<open>sectors\<close> is \<^verbatim>\<open>num_sectors * 512\<close>, a 32-bit product.
\<close>

function free_blocks_loop ::
  "nat \<Rightarrow> nat \<Rightarrow> Ext2Inode \<Rightarrow> nat \<Rightarrow> Ext2LookupControl \<Rightarrow> nat \<Rightarrow> unit ext2_cmd" where
  "free_blocks_loop bs sectors inode num control i =
     bnd (ext2BlockFetch inode num control i) (\<lambda>(block, control) s.
       if block = 0 \<or> sectors \<le> (i + 1) * bs then Inr ((), s)
       else if bs = 0 then Inl Undefined
       else andthen (ext2BlockDelete (unat block div bpg s) (unat block mod bpg s))
              (free_blocks_loop bs sectors inode num control (i + 1)) s)"
  by pat_completeness auto
termination
  by (relation "measure (\<lambda>(bs, sectors, inode, num, control, i). sectors - i * bs)") (auto simp: not_le)

declare free_blocks_loop.simps [simp del]

definition delete_inode :: "Ext2Inode \<Rightarrow> nat \<Rightarrow> Ext2Inode \<Rightarrow> nat \<Rightarrow> (Ext2Inode \<times> Ext2Inode) ext2_cmd" where
  "delete_inode inode inodeNum parentInode parentInodeNum = (\<lambda>s.
     andthen
       (cond (i_permission inode AND S_IFREG \<noteq> 0 \<or> dir_bit inode)
         (free_blocks_loop (blockSize s) (unat (i_num_sectors inode * 512)) inode inodeNum
            (ext2BlockFetchInit s control0) 0))
     (let inode = inode\<lparr>i_dtime := of_nat (unix_time s), i_blocks := replicate (EXT2_DIRECT_BLOCKS + 3) 0,
                        i_num_sectors := 0, i_size := 0, i_size_high := 0\<rparr> in
      andthen (ext2InodeModifyM inodeNum inode)
      (andthen (ext2InodeDelete inodeNum)
      (if dir_bit inode then
         let parentInode = parentInode\<lparr>i_hard_links := i_hard_links parentInode - 1\<rparr> in
         andthen (ext2InodeModifyM parentInodeNum parentInode) (ret (inode, parentInode))
       else ret (inode, parentInode)))) s)"

text \<open>The parent of a path: everything before the last slash, or \<^verbatim>\<open>/\<close>; nothing without a slash.\<close>

definition parent_path :: "byte list \<Rightarrow> byte list \<times> nat" where
  "parent_path filename =
     (case find (\<lambda>i. filename ! i = slash) (rev [0..<length filename]) of
        None \<Rightarrow> ([], 0)
      | Some i \<Rightarrow> (if i = 0 then [slash] else take i filename, i))"

definition unlink_inode :: "byte list \<Rightarrow> Ext2Inode \<Rightarrow> nat \<Rightarrow> u64 ext2_cmd" where
  "unlink_inode filename inode inodeNum =
     (case parent_path filename of (parent, parentLen) \<Rightarrow>
      bnd (ext2TraversePath parent 2 False False) (\<lambda>(parentInodeNum, _).
      andthen (check Assert_failed (parentInodeNum \<noteq> 0))
      (bnd (ext2InodeFetch parentInodeNum) (\<lambda>parentInode.
       andthen (check Assert_failed (dir_bit parentInode))
       (let links = i_hard_links inode - 1;
            links = (if dir_bit inode \<and> links = 1 then 0 else links);
            inode = inode\<lparr>i_hard_links := links\<rparr> in
        bnd (if links = 0 then delete_inode inode inodeNum parentInode parentInodeNum
             else andthen (ext2InodeModifyM inodeNum inode) (ret (inode, parentInode))) (\<lambda>(inode, parentInode).
        let name = drop (parentLen + 1) filename in
        bnd (ext2DirRemove parentInode parentInodeNum (take (length name mod 256) name)) (\<lambda>removed.
        ret (if removed then 0 else - 1))))))))"

definition ext2Delete :: "byte list \<Rightarrow> bool \<Rightarrow> (u64 \<times> byte list option) ext2_cmd" where
  "ext2Delete filename directory =
     bnd (ext2TraversePath filename 2 False True) (\<lambda>(inodeNum, link).
     andthen (nofd_lock spinlock_cnt_write_acquire)
     (bnd (if inodeNum = 0 then ret (ERR ENOENT)
           else bnd (ext2GlobalFetch inodeNum) (\<lambda>global.
             andthen (if global = 0 then ret ()
                      else bnd (get_found global) (\<lambda>g. check Assert_failed (openFds g = 0)))
             (bnd (ext2InodeFetch inodeNum) (\<lambda>inode.
              if directory \<and> \<not> dir_bit inode then ret (ERR ENOTDIR)
              else if \<not> directory \<and> dir_bit inode then ret (ERR EISDIR)
              else if length filename = 1 then ret (ERR (if directory then ENOTEMPTY else EISDIR))
              else
                bnd (if directory then (\<lambda>s.
                       bnd (get_sectors (BLOCK_TO_LBA s 0 (unat (i_blocks inode ! 0))) (blockSize s div SECTOR_SIZE))
                         (\<lambda>names. lift (empty_scan names 0 0)) s)
                     else ret True) (\<lambda>empty.
                if \<not> empty then ret (ERR ENOTEMPTY)
                else unlink_inode filename inode inodeNum))))) (\<lambda>r.
      andthen (nofd_lock spinlock_cnt_write_release) (ret (r, link)))))"

section \<open>Hard links\<close>

definition split_target :: "byte list \<Rightarrow> (byte list \<times> byte list) option" where
  "split_target target = map_option (\<lambda>i. (take i target, drop (i + 1) target))
     (find (\<lambda>i. target ! i = slash) (rev [0..<length target]))"

definition ext2Link ::
  "byte list \<Rightarrow> byte list \<Rightarrow> (u64 \<times> byte list option \<times> byte list option) ext2_cmd" where
  "ext2Link filename target =
     bnd (ext2TraversePath filename 2 False True) (\<lambda>(inodeNum, link).
     if inodeNum = 0 then ret (ERR ENOENT, link, None)
     else bnd (ext2InodeFetch inodeNum) (\<lambda>inode.
     if \<not> (i_permission inode AND S_IFREG \<noteq> 0 \<or> dir_bit inode) then ret (ERR EPERM, link, None)
     else case split_target target of
       None \<Rightarrow> ret (ERR ENOENT, link, None)
     | Some (targetDir, targetFilename) \<Rightarrow>
         bnd (ext2TraversePath targetDir 2 False True) (\<lambda>(targetDirInodeNum, linkTarget).
         if targetDirInodeNum = 0 then ret (ERR ENOENT, link, linkTarget)
         else bnd (ext2InodeFetch targetDirInodeNum) (\<lambda>targetDirInode.
         andthen (check Assert_failed (dir_bit targetDirInode))
         (andthen (ext2InodeModifyM inodeNum (inode\<lparr>i_hard_links := i_hard_links inode + 1\<rparr>))
         (bnd (ext2DirAllocate targetDirInodeNum targetDirInode (entry_name targetFilename)
                (if i_permission inode AND S_IFREG \<noteq> 0 then 1 else 2) (of_nat inodeNum)) (\<lambda>_.
          ret (0, link, linkTarget))))))))"

end
