(* ===== verification/Ext2_Read.thy ===== *)
theory Ext2_Read
  imports Ext2_Io
begin

text \<open>
  What reading returns: the cluster loop of \<^verbatim>\<open>ext2ReadInner\<close> leaves the blocks of the file in the
  buffer, in whatever runs it reads them, and \<^verbatim>\<open>ext2Read\<close> puts cached ranges and blocks read from
  the disk together to the bytes of the file.
\<close>

section \<open>Runs of consecutive blocks\<close>

text \<open>Reading the blocks of a file one by one, into consecutive places of a buffer; writing them back.\<close>

definition get_one :: "ext2_sys \<Rightarrow> u32 list \<Rightarrow> byte list \<Rightarrow> nat \<Rightarrow> byte list" where
  "get_one s blocks tmp k = blit tmp (k * blockSize s) (block_bytes s (unat (blocks ! k)))"

definition put_one :: "ext2_sys \<Rightarrow> u32 list \<Rightarrow> byte list \<Rightarrow> blkdev \<Rightarrow> nat \<Rightarrow> blkdev" where
  "put_one s blocks tmp d k = dev_patch d (block_pos s (unat (blocks ! k))) (seg tmp (k * blockSize s) (blockSize s))"

text \<open>Blocks \<open>c\<close> to \<open>i\<close> of the list are consecutive on the disk.\<close>

definition consec :: "u32 list \<Rightarrow> nat \<Rightarrow> nat \<Rightarrow> bool" where
  "consec blocks c i \<longleftrightarrow> (\<forall>j. c \<le> j \<and> j < i \<longrightarrow> blocks ! (j + 1) = blocks ! j + 1)"

lemma consec_pos:
  assumes "consec blocks c i" "c \<le> k" "k \<le> i" "\<forall>j. c \<le> j \<and> j \<le> i \<longrightarrow> blocks ! j \<noteq> 0"
  shows "unat (blocks ! k) = unat (blocks ! c) + (k - c)"
  using assms(2,3)
proof (induction k rule: dec_induct)
  case (step k)
  then have "blocks ! Suc k = blocks ! k + 1" "blocks ! Suc k \<noteq> 0"
    using assms(1,4) by (auto simp: consec_def)
  then have "unat (blocks ! Suc k) = Suc (unat (blocks ! k))"
    by (metis unatSuc add.commute)
  with step show ?case by simp
qed simp

lemma get_one_run:
  assumes "\<forall>k < m. unat (blocks ! (c + k)) = b + k"
    "(c + m) * blockSize s \<le> length tmp"
  shows "foldl (get_one s blocks) tmp [c..<c + m] =
    blit tmp (c * blockSize s) (dev_seg (dev s) (block_pos s b) (m * blockSize s))"
  using assms
proof (induction m)
  case 0
  then show ?case by (simp add: dev_seg_def blit_def)
next
  case (Suc m)
  have IH: "foldl (get_one s blocks) tmp [c..<c + m] =
    blit tmp (c * blockSize s) (dev_seg (dev s) (block_pos s b) (m * blockSize s))"
    using Suc.prems by (intro Suc.IH) simp_all
  have pos: "block_pos s (unat (blocks ! (c + m))) = block_pos s b + m * blockSize s"
    using Suc.prems(1) by (simp add: block_pos_def add_mult_distrib)
  have "foldl (get_one s blocks) tmp [c..<c + Suc m] = get_one s blocks (foldl (get_one s blocks) tmp [c..<c + m]) (c + m)"
    by simp
  then show ?case
    unfolding IH get_one_def block_bytes_def pos
    using Suc.prems(2) dev_seg_append [of "dev s" "block_pos s b" "m * blockSize s" "blockSize s"]
    by (simp add: blit_blit_end add_mult_distrib add.commute add.left_commute)
qed

lemma length_get_one [simp]:
  "(k + 1) * blockSize s \<le> length tmp \<Longrightarrow> length (get_one s blocks tmp k) = length tmp"
  by (simp add: get_one_def block_bytes_def algebra_simps)

lemma put_one_run:
  assumes "\<forall>k < m. unat (blocks ! (c + k)) = b + k"
    "(c + m) * blockSize s \<le> length tmp"
  shows "foldl (put_one s blocks tmp) d [c..<c + m] =
    dev_patch d (block_pos s b) (seg tmp (c * blockSize s) (m * blockSize s))"
  using assms
proof (induction m)
  case 0
  then show ?case by (intro blkdev_eqI) (auto simp: dev_bytes_patch)
next
  case (Suc m)
  have IH: "foldl (put_one s blocks tmp) d [c..<c + m] =
    dev_patch d (block_pos s b) (seg tmp (c * blockSize s) (m * blockSize s))"
    using Suc.prems by (intro Suc.IH) simp_all
  have pos: "block_pos s (unat (blocks ! (c + m))) = block_pos s b + m * blockSize s"
    using Suc.prems(1) by (simp add: block_pos_def add_mult_distrib)
  have sp: "seg tmp (c * blockSize s) (Suc m * blockSize s) =
      seg tmp (c * blockSize s) (m * blockSize s) @ seg tmp ((c + m) * blockSize s) (blockSize s)"
    by (simp add: seg_join algebra_simps)
  have le: "c * blockSize s + m * blockSize s \<le> length tmp"
    using Suc.prems(2) by (simp add: algebra_simps)
  have "foldl (put_one s blocks tmp) d [c..<c + Suc m] = put_one s blocks tmp (foldl (put_one s blocks tmp) d [c..<c + m]) (c + m)"
    by simp
  then show ?case
    unfolding IH put_one_def pos sp using le by (simp add: dev_patch_append)
qed


lemma consec_blocks:
  assumes "consec blocks c i" "\<forall>j. c \<le> j \<and> j \<le> i \<longrightarrow> blocks ! j \<noteq> 0"
  shows "\<forall>k < i + 1 - c. unat (blocks ! (c + k)) = unat (blocks ! c) + k"
proof (intro allI impI)
  fix k
  assume "k < i + 1 - c"
  then show "unat (blocks ! (c + k)) = unat (blocks ! c) + k"
    using consec_pos [OF assms(1) _ _ assms(2), of "c + k"] by simp
qed

lemma word_succ_nz: "unat (w :: u32) < unat (v :: u32) \<Longrightarrow> w + 1 \<noteq> 0"
proof
  assume lt: "unat w < unat v" and "w + 1 = 0"
  then have "w = - 1" by (simp add: eq_neg_iff_add_eq_0)
  moreover have "unat (- 1 :: u32) = 2 ^ 32 - 1" by (simp add: unsigned_minus_1_eq_mask mask_eq_exp_minus_1)
  ultimately have "unat w = 2 ^ 32 - 1" by simp
  with lt unat_less_u32 [of v] show False by simp
qed

lemma read_loop_end:
  assumes "n < i"
  shows "read_loop past n blocks i run c tmp s = Inr (tmp, s)"
  using assms by (simp add: read_loop.simps)

lemma foldl_upt_split: "c \<le> i \<Longrightarrow> i \<le> m \<Longrightarrow> foldl f (foldl f t [c..<i]) [i..<m] = foldl f t [c..<m]"
  by (metis foldl_append upt_add_eq_append le_add_diff_inverse)

lemma length_get_fold:
  "(m::nat) * blockSize s \<le> length tmp \<Longrightarrow> length (foldl (get_one s blocks) tmp [c..<m]) = length tmp"
proof (induction m)
  case (Suc m)
  then show ?case
    by (cases "c \<le> m") simp_all
qed simp

lemma read_loop_run:
  assumes geom: "ext2_geom s" and len: "length blocks = n + 1" and tmp: "(n + 1) * blockSize s \<le> length tmp"
    and m: "m \<le> n + 1" "m < n + 1 \<longrightarrow> blocks ! m = 0" "\<forall>j < m. blocks ! j \<noteq> 0 \<and> unat (blocks ! j) < nblocks s"
    and inv: "c = (case run of None \<Rightarrow> i | Some x \<Rightarrow> x)" "c \<le> i" "i \<le> m" "i \<le> n \<Longrightarrow> consec blocks c i"
      "run \<noteq> None \<Longrightarrow> i \<noteq> n \<and> (i < m \<or> i = n + 1 \<and> c = n \<and> past = blocks ! n + 1)"
    and m': "m' = (if m = n + 1 \<and> past = blocks ! n + 1 then n else m)"
  shows "read_loop past n blocks i run c tmp s = Inr (foldl (get_one s blocks) tmp [c..<m'], s)"
  using tmp inv
proof (induction "n + 1 - i" arbitrary: i run c tmp rule: less_induct)
  case less
  note IH = less.hyps and tmp = less.prems(1) and inv = less.prems(2-)
  show ?case
  proof (cases "i < n + 1")
    case False
    then have "i = n + 1" "m = n + 1" using inv(3) m(1) by auto
    then have "m' \<le> c"
      using inv(1,5) m' by (cases run) auto
    with False show ?thesis by (simp add: read_loop_end)
  next
    case i: True
    show ?thesis
    proof (cases "blocks ! i = 0")
      case True
      then have "i = m" using inv(3) m(3) by (metis le_neq_implies_less)
      moreover then have "run = None" using inv(5) i by fastforce
      ultimately have "m' \<le> c" using inv(1) m' i by simp
      with True i len show ?thesis by (simp add: read_loop.simps)
    next
      case nz: False
      then have im: "i < m" using i inv(3) m(2) by (metis le_neq_implies_less)
      define nxt where "nxt = (if i + 1 < length blocks then blocks ! (i + 1) else past)"
      show ?thesis
      proof (cases "i + 1 \<noteq> n \<and> nxt = blocks ! i + 1")
        case more: True
        have last: "c = n" if "i = n"
          using that inv(1,5) by (cases run) auto
        have below: "unat (blocks ! i) < nblocks s" using m(3) im by blast
        then have "blocks ! i + 1 \<noteq> 0" unfolding nblocks_def by (rule word_succ_nz)
        with more have m1: "i < n \<Longrightarrow> i + 1 < m"
          using len m(2) im by (metis nxt_def Suc_eq_plus1 Suc_lessI add_less_cancel_right)
        have "read_loop past n blocks (i + 1) (Some c) c tmp s =
            Inr (foldl (get_one s blocks) tmp [c..<m'], s)"
        proof (rule IH)
          show "i + 1 \<le> n \<Longrightarrow> consec blocks c (i + 1)"
            using inv(4) more len by (auto simp: consec_def nxt_def less_Suc_eq)
          show "i + 1 \<noteq> n \<and> (i + 1 < m \<or> i + 1 = n + 1 \<and> c = n \<and> past = blocks ! n + 1)"
            using more m1 i last len by (cases "i = n") (auto simp: nxt_def)
        qed (use i im inv tmp in auto)
        moreover have "(case run of None \<Rightarrow> i | Some c \<Rightarrow> c) = c" using inv(1) by simp
        ultimately show ?thesis
          using i nz more len by (subst read_loop.simps) (simp add: Let_def nxt_def)
      next
        case stop: False
        have run: "\<forall>k < i + 1 - c. unat (blocks ! (c + k)) = unat (blocks ! c) + k"
          using inv(4) i m(3) im by (intro consec_blocks) auto
        let ?k = "i - c + 1" and ?b = "unat (blocks ! c)"
        have "?b + (i - c) < nblocks s"
          using run inv(2) m(3) im by (metis less_add_one Nat.add_diff_assoc2 le_add_diff_inverse less_diff_conv)
        then have bound: "?b + ?k \<le> nblocks s" by simp
        have m1: "i + 1 \<le> m'"
          using im m' stop i len by (cases "i = n") (auto simp: nxt_def)
        have "(i + 1) * blockSize s \<le> (n + 1) * blockSize s"
          using i by (intro mult_le_mono1) simp
        also note tmp
        finally have fits: "(c + ?k) * blockSize s \<le> length tmp"
          using inv(2) by simp
        have t: "blit tmp (c * blockSize s) (dev_seg (dev s) (block_pos s ?b) (?k * blockSize s)) =
            foldl (get_one s blocks) tmp [c..<i + 1]"
          using get_one_run [of ?k blocks c ?b s tmp] run fits inv(2) by (simp add: add.commute)
        have "read_loop past n blocks (i + 1) None (i + 1) (foldl (get_one s blocks) tmp [c..<i + 1]) s =
            Inr (foldl (get_one s blocks) (foldl (get_one s blocks) tmp [c..<i + 1]) [i + 1..<m'], s)"
          using i im tmp fits inv(2)
          by (intro IH) (auto simp: length_get_fold consec_def simp del: upt_Suc)
        also have "\<dots> = Inr (foldl (get_one s blocks) tmp [c..<m'], s)"
          using inv(2) m1 by (simp add: foldl_upt_split del: upt_Suc)
        finally have rest: "read_loop past n blocks (i + 1) None (i + 1) (foldl (get_one s blocks) tmp [c..<i + 1]) s =
            Inr (foldl (get_one s blocks) tmp [c..<m'], s)" .
        have "(case run of None \<Rightarrow> i | Some c \<Rightarrow> c) = c" using inv(1) by simp
        moreover have "wr tmp (c * blockSize s) (dev_seg (dev s) (block_pos s ?b) (?k * blockSize s)) =
            Inr (foldl (get_one s blocks) tmp [c..<i + 1])"
          using fits t by (simp add: wr_def add_mult_distrib del: upt_Suc)
        moreover have "c + ?k = i + 1" using inv(2) by simp
        ultimately show ?thesis
          using i nz stop len rest get_run [OF geom bound]
          by (subst read_loop.simps) (cases "i < n"; cases "Suc i = n"; simp add: Let_def nxt_def cmd_simps del: upt_Suc)
      qed
    qed
  qed
qed

section \<open>File contents\<close>

text \<open>The bytes of a file without holes.\<close>

definition file_byte :: "ext2_sys \<Rightarrow> Ext2Inode \<Rightarrow> nat \<Rightarrow> byte" where
  "file_byte s ino p = block_bytes s (unat (block_of s ino (p div blockSize s))) ! (p mod blockSize s)"

definition file_bytes :: "ext2_sys \<Rightarrow> Ext2Inode \<Rightarrow> nat \<Rightarrow> nat \<Rightarrow> byte list" where
  "file_bytes s ino p n = map (file_byte s ino) [p..<p + n]"

definition data_ok :: "ext2_sys \<Rightarrow> Ext2Inode \<Rightarrow> bool" where
  "data_ok s ino \<longleftrightarrow> (\<forall>k < file_blocks_max s. unat (block_of s ino k) < nblocks s)"

lemma length_file_bytes [simp]: "length (file_bytes s ino p n) = n"
  by (simp add: file_bytes_def)

lemma nth_file_bytes [simp]: "i < n \<Longrightarrow> file_bytes s ino p n ! i = file_byte s ino (p + i)"
  by (simp add: file_bytes_def)

lemma file_bytes_append: "q = p + m \<Longrightarrow> file_bytes s ino p m @ file_bytes s ino q n = file_bytes s ino p (m + n)"
  by (rule nth_equalityI) (auto simp: nth_append)

lemma get_fold_nth:
  assumes "m * blockSize s \<le> length tmp" "c \<le> k" "k < m" "r < blockSize s"
  shows "foldl (get_one s blocks) tmp [c..<m] ! (k * blockSize s + r) = block_bytes s (unat (blocks ! k)) ! r"
  using assms
proof (induction m)
  case (Suc m)
  let ?t = "foldl (get_one s blocks) tmp [c..<m]"
  have len: "length ?t = length tmp"
    using Suc.prems(1) by (intro length_get_fold) simp
  have step: "foldl (get_one s blocks) tmp [c..<Suc m] =
      blit ?t (m * blockSize s) (block_bytes s (unat (blocks ! m)))"
    using Suc.prems(2,3) by (simp add: get_one_def [of s blocks _ m])
  have fits: "m * blockSize s + blockSize s \<le> length tmp"
    using Suc.prems(1) by simp
  show ?case
  proof (cases "k = m")
    case True
    then show ?thesis
      unfolding step using fits Suc.prems(4) len by (subst nth_blit) auto
  next
    case False
    then have "(k + 1) * blockSize s \<le> m * blockSize s"
      using Suc.prems(3) by (intro mult_le_mono1) simp
    then have "k * blockSize s + r < m * blockSize s"
      using Suc.prems(4) by simp
    then show ?thesis
      unfolding step using False fits Suc len by (subst nth_blit) auto
  qed
qed simp

lemma file_blocks_max_less: "ext2_geom s \<Longrightarrow> file_blocks_max s < 2 ^ 32"
proof -
  assume "ext2_geom s"
  then have "blockSize s div 4 \<le> 8192"
    using block_size_ok_facts(4) [OF ext2_geom_simps(2)] by fastforce
  then have "file_blocks_max s \<le> 12 + 8192 + 8192 * 8192"
    unfolding file_blocks_max_def by (intro add_mono mult_le_mono) simp_all
  then show ?thesis by simp
qed

lemma length_fresh_pages: "m \<le> length (fresh_pages fresh (CEILING_DIVISION m BLOCK_SIZE))"
  using CEILING_DIVISION_ge [of BLOCK_SIZE m] by (simp add: fresh_pages_def BLOCK_SIZE_def)

text \<open>The buffer that the cluster loop leaves holds the file's blocks, up to the first hole.\<close>

lemma read_loop_file:
  assumes wf: "ext2_geom s" "data_ok s ino" "cur + n < file_blocks_max s"
    and full: "\<forall>k \<in> {cur..<cur + n}. block_of s ino k \<noteq> 0"
    and tmp: "(n + 1) * blockSize s \<le> length tmp"
  shows "\<exists>tmp'. read_loop past n (map (block_of s ino) [cur..<cur + n + 1]) 0 None 0 tmp s = Inr (tmp', s) \<and>
    length tmp' = length tmp \<and> take (n * blockSize s) tmp' = file_bytes s ino (cur * blockSize s) (n * blockSize s)"
proof -
  let ?bs = "blockSize s" and ?blocks = "map (block_of s ino) [cur..<cur + n + 1]"
  have nth: "?blocks ! k = block_of s ino (cur + k)" if "k \<le> n" for k
    using that by (simp del: upt_Suc)
  define m where "m = (if block_of s ino (cur + n) = 0 then n else n + 1)"
  define m' where "m' = (if m = n + 1 \<and> past = ?blocks ! n + 1 then n else m)"
  let ?t = "foldl (get_one s ?blocks) tmp [0..<m']"
  have m: "n \<le> m'" "m' \<le> n + 1"
    by (simp_all add: m'_def m_def)
  have "read_loop past n ?blocks 0 None 0 tmp s = Inr (?t, s)"
  proof (rule read_loop_run [OF wf(1) _ tmp])
    show "\<forall>j < m. ?blocks ! j \<noteq> 0 \<and> unat (?blocks ! j) < nblocks s"
      using full wf(2,3) by (auto simp: m_def nth data_ok_def less_Suc_eq simp del: upt_Suc split: if_splits)
    show "m < n + 1 \<longrightarrow> ?blocks ! m = 0"
      by (simp add: m_def nth del: upt_Suc)
  qed (simp_all add: m_def m'_def consec_def)
  moreover have fits: "m' * ?bs \<le> length tmp"
    using mult_le_mono1 [OF m(2), of ?bs] tmp by linarith
  moreover have "take (n * ?bs) ?t = file_bytes s ino (cur * ?bs) (n * ?bs)"
  proof (rule nth_equalityI)
    show "length (take (n * ?bs) ?t) = length (file_bytes s ino (cur * ?bs) (n * ?bs))"
      using tmp by (simp add: length_get_fold [OF fits])
    fix i
    assume "i < length (take (n * ?bs) ?t)"
    then have i: "i < n * ?bs" by simp
    then have bs: "0 < ?bs" by (cases ?bs) auto
    from i bs have k: "i div ?bs < n" by (simp add: less_mult_imp_div_less)
    have "?t ! (i div ?bs * ?bs + i mod ?bs) = block_bytes s (unat (?blocks ! (i div ?bs))) ! (i mod ?bs)"
      using k m(1) bs by (intro get_fold_nth [OF fits]) simp_all
    with i k bs show "take (n * ?bs) ?t ! i = file_bytes s ino (cur * ?bs) (n * ?bs) ! i"
      by (simp add: nth file_byte_def del: upt_Suc)
  qed
  ultimately show ?thesis
    by (intro exI [of _ ?t]) (simp add: length_get_fold)
qed

section \<open>Reading without the cache\<close>

lemma cache_frame_dev:
  assumes "cache_frame g s s'"
  shows "dev s' = dev s" "blockSize s' = blockSize s" "file_bytes s' = file_bytes s" "block_of s' = block_of s"
    "file_blocks_max s' = file_blocks_max s"
  using assms unfolding cache_frame_def
  by (auto simp: fun_eq_iff file_bytes_def file_byte_def block_of_def ind_words_def block_bytes_def file_blocks_max_def
      Let_def)

text \<open>The lookup control of a descriptor caches pointer blocks of its file only, as they are on the disk.\<close>

definition look_ok :: "ext2_sys \<Rightarrow> Ext2Inode \<Rightarrow> Ext2LookupControl \<Rightarrow> bool" where
  "look_ok s ino c \<longleftrightarrow> control_ok s c \<and> control_in s ino c"

definition fd_ok :: "ext2_sys \<Rightarrow> Ext2OpenFd \<Rightarrow> bool" where
  "fd_ok s fd \<longleftrightarrow> inode_num_ok s (fd_inodeNum fd) \<and> ptrs_ok s (fd_inode fd) \<and> look_ok s (fd_inode fd) (fd_lookup fd) \<and>
     data_ok s (fd_inode fd)"

text \<open>What the cached ranges hold: the start of each buffer is the file's contents.\<close>

definition coherent :: "ext2_sys \<Rightarrow> Ext2Inode \<Rightarrow> range \<Rightarrow> bool" where
  "coherent s ino = (\<lambda>(bi, n, buff). 0 < n \<and> n * blockSize s \<le> length buff \<and>
     take (n * blockSize s) buff = file_bytes s ino (bi * blockSize s) (n * blockSize s))"

lemma coherent_seg:
  assumes "coherent s ino (bi, n, buff)" "off + m \<le> n * blockSize s"
  shows "rdseg buff off m = Inr (file_bytes s ino (bi * blockSize s + off) m)"
proof -
  have "seg buff off m = seg (take (n * blockSize s) buff) off m"
    using assms(2) by (simp add: seg_def take_drop min_def)
  also have "\<dots> = file_bytes s ino (bi * blockSize s + off) m"
    using assms by (intro nth_equalityI) (auto simp: coherent_def add.assoc)
  finally show ?thesis
    using assms by (simp add: rdseg_def coherent_def)
qed

lemma ext2ReadInner_run:
  fixes s fd limit
  defines "bs \<equiv> blockSize s" and "n \<equiv> CEILING_DIVISION limit (blockSize s)" and "cur \<equiv> fd_ptr fd div blockSize s"
    and "ino \<equiv> fd_inode fd" and "g \<equiv> globalObject fd"
  assumes wf: "ext2_wf s" "fd_ok s fd" and lim: "0 < limit" "fd_ptr fd mod bs + limit \<le> n * bs"
    and full: "cur + n < file_blocks_max s" "\<forall>k \<in> {cur..<cur + n}. block_of s ino k \<noteq> 0"
    and cache: "cache_ok s g ps" "foundObjs s g = Some x" "WLOCK_CACHE x = 0"
      "sorted_wrt (<) (map fst (ranges (cacheObjs s) ps))"
  shows "\<exists>s' ps' c' buff. ext2ReadInner past fresh fd limit s =
      Inr ((file_bytes s ino (fd_ptr fd) limit, fd\<lparr>fd_lookup := c', fd_ptr := fd_ptr fd + limit\<rparr>), s') \<and>
    look_ok s ino c' \<and> cache_ok s' g ps' \<and> cache_frame g s s' \<and> coherent s ino (cur, n, buff) \<and>
    ranges (cacheObjs s') ps' = insert_range (cur, n, buff)
      (filter (\<lambda>r. \<not> in_window cur n (fst r)) (ranges (cacheObjs s) ps)) \<and>
    sorted_wrt (<) (map fst (ranges (cacheObjs s') ps')) \<and>
    (\<forall>p \<in> set ps. \<not> in_window cur n (start_of s p) \<longrightarrow>
       p \<in> set ps' \<and> cdata (the (cacheObjs s' p)) = cdata (the (cacheObjs s p)))"
proof -
  note geom = ext2_wf_def [THEN iffD1, OF wf(1), THEN conjunct1]
  let ?p = "fd_ptr fd"
  have bs: "0 < bs"
    using block_size_ok_facts(3) [OF ext2_geom_simps(2) [OF geom]] by (simp add: bs_def)
  have n: "0 < n"
    using lim by (cases n) auto
  have fd: "inode_num_ok s (fd_inodeNum fd)" "ptrs_ok s ino" "look_ok s ino (fd_lookup fd)" "data_ok s ino"
    using wf(2) by (auto simp: fd_ok_def ino_def)
  from ext2BlockChain_run [OF wf(1) fd(1) fd(2) [unfolded ino_def] _ full(1)] fd(3) obtain c' where
    chain: "ext2BlockChain fd cur n s =
      Inr ((map (block_of s ino) [cur..<cur + n + 1], fd\<lparr>fd_lookup := c'\<rparr>), s)" "look_ok s ino c'"
    by (auto simp: ino_def look_ok_def)
  let ?tmp = "fresh_pages fresh (CEILING_DIVISION ((n + 1) * bs) BLOCK_SIZE)"
  from read_loop_file [OF geom fd(4) full length_fresh_pages, of past fresh] obtain buff where
    buff: "read_loop past n (map (block_of s ino) [cur..<cur + n + 1]) 0 None 0 ?tmp s = Inr (buff, s)"
      "length buff = length ?tmp" "take (n * bs) buff = file_bytes s ino (cur * bs) (n * bs)"
    by (auto simp: bs_def)
  have coh: "coherent s ino (cur, n, buff)"
    using n buff(2,3) length_fresh_pages [of "(n + 1) * bs" fresh] by (simp add: coherent_def bs_def)
  have pos: "cur * bs + ?p mod bs = ?p"
    by (simp add: cur_def bs_def)
  let ?off = "?p mod bs" and ?head = "min (bs - ?p mod bs) limit"
  have head: "rdseg buff ?off ?head = Inr (file_bytes s ino ?p ?head)"
    using coherent_seg [OF coh, of ?off ?head] lim(2) pos by (simp add: bs_def)
  have rest: "rdseg buff bs (limit - ?head) = Inr (file_bytes s ino (?p + ?head) (limit - ?head))" if "?head < limit"
  proof -
    have h: "?head = bs - ?off" using that by linarith
    have "?off < bs" using bs by simp
    then have "cur * bs + bs = ?p + ?head" "bs + (limit - ?head) \<le> n * bs"
      using h pos lim(2) that by linarith+
    with coherent_seg [OF coh, of bs "limit - ?head"] show ?thesis by (simp add: bs_def)
  qed
  have "cur + n < 2 ^ 32"
    using full(1) file_blocks_max_less [OF geom] by linarith
  from cache_add_run [OF cache n this, of buff] obtain s' ps' where
    add: "ext2CacheAddSecurely g buff cur n s = Inr ((), s')" and
    rest': "cache_ok s' g ps'" "cache_frame g s s'"
    "ranges (cacheObjs s') ps' = insert_range (cur, n, buff)
      (filter (\<lambda>r. \<not> in_window cur n (fst r)) (ranges (cacheObjs s) ps))"
    "sorted_wrt (<) (map fst (ranges (cacheObjs s') ps'))"
    "\<forall>p \<in> set ps. \<not> in_window cur n (start_of s p) \<longrightarrow>
       p \<in> set ps' \<and> cdata (the (cacheObjs s' p)) = cdata (the (cacheObjs s p))"
    by blast
  have "ext2ReadInner past fresh fd limit s =
      Inr ((file_bytes s ino ?p limit, fd\<lparr>fd_lookup := c', fd_ptr := ?p + limit\<rparr>), s')"
  proof (cases "bs - ?p mod bs < limit")
    case True
    then have "?head < limit" by simp
    note rest = rest [OF this]
    show ?thesis
      unfolding ext2ReadInner_def Let_def
      using chain(1) buff(1) head rest add True unfolding bs_def n_def cur_def
      by (simp add: cmd_simps g_def file_bytes_append del: upt_Suc)
  next
    case False
    show ?thesis
      unfolding ext2ReadInner_def Let_def
      using chain(1) buff(1) head add False unfolding bs_def n_def cur_def
      by (simp add: cmd_simps g_def del: upt_Suc)
  qed
  with chain(2) rest' coh show ?thesis by blast
qed

section \<open>Reading through the cache\<close>

lemma ext2_wf_frame [simp]:
  "ext2_wf (s\<lparr>foundObjs := F, cacheObjs := C, next_ptr := n, blocksCached := b\<rparr>) = ext2_wf s"
  by (simp add: ext2_wf_def locks_free_def)

lemma cache_frame_ok:
  assumes "cache_frame g s s'"
  shows "ext2_wf s' = ext2_wf s" "fd_ok s' = fd_ok s" "coherent s' = coherent s" "look_ok s' = look_ok s"
proof -
  from assms obtain F C n b where s': "s' = s\<lparr>foundObjs := F, cacheObjs := C, next_ptr := n, blocksCached := b\<rparr>"
    unfolding cache_frame_def by blast
  show "ext2_wf s' = ext2_wf s" by (simp add: s')
  show "look_ok s' = look_ok s"
    by (simp add: s' fun_eq_iff look_ok_def control_in_def ptr_set_def ind_words_def block_bytes_def control_ok_def cached_ok_def)
  moreover have "ptrs_ok s' = ptrs_ok s" "inode_num_ok s' = inode_num_ok s" "nblocks s' = nblocks s"
    by (simp_all add: s' fun_eq_iff ptrs_ok_def inode_num_ok_def ind_words_def block_bytes_def inode_group_def)
  ultimately show "fd_ok s' = fd_ok s"
    using cache_frame_dev [OF assms] by (simp add: fun_eq_iff fd_ok_def data_ok_def)
  show "coherent s' = coherent s"
    using cache_frame_dev [OF assms] by (simp add: fun_eq_iff coherent_def)
qed

lemma ceil_exact: "rem < bs \<Longrightarrow> 0 < b \<Longrightarrow> CEILING_DIVISION (b * bs - rem) bs = b"
proof -
  assume a: "rem < bs" "0 < b"
  then have "rem \<le> b * bs" by (cases b) auto
  with a have "b * bs - rem + bs - 1 = (bs - 1 - rem) + b * bs" by linarith
  then have "CEILING_DIVISION (b * bs - rem) bs = ((bs - 1 - rem) + b * bs) div bs"
    by (simp only: CEILING_DIVISION_def)
  also have "\<dots> = b"
    using a by (subst div_mult_self1) auto
  finally show ?thesis .
qed

lemma sub64_simps: "b \<le> a \<Longrightarrow> a < 2 ^ 64 \<Longrightarrow> sub64 a b = a - b"
  "a < b \<Longrightarrow> b < 2 ^ 64 \<Longrightarrow> sub64 a b = a + (2 ^ 64 - b)"
  by (simp_all add: sub64_def mod_if)


text \<open>What holds between the steps of a read: the cache list of the file is well formed and coherent.\<close>

definition read_state :: "ext2_sys \<Rightarrow> Ext2Inode \<Rightarrow> ptr \<Rightarrow> ptr list \<Rightarrow> bool" where
  "read_state s ino g ps \<longleftrightarrow> cache_ok s g ps \<and> (\<exists>x. foundObjs s g = Some x \<and> WLOCK_CACHE x = 0) \<and>
     sorted_wrt (<) (map fst (ranges (cacheObjs s) ps)) \<and>
     (\<forall>r \<in> set (ranges (cacheObjs s) ps). coherent s ino r \<and> fst r + fst (snd r) < 2 ^ 32)"

definition filled :: "ext2_sys \<Rightarrow> Ext2Inode \<Rightarrow> nat \<Rightarrow> nat \<Rightarrow> bool" where
  "filled s ino p n \<longleftrightarrow> (p + n - 1) div blockSize s + 1 < file_blocks_max s \<and>
     (\<forall>k. p div blockSize s \<le> k \<and> k \<le> (p + n - 1) div blockSize s \<longrightarrow> block_of s ino k \<noteq> 0)"

lemma filled_part:
  assumes "filled s ino p n" "p \<le> q" "q + m \<le> p + n"
  shows "filled s ino q m"
proof -
  have "(q + m - 1) div blockSize s \<le> (p + n - 1) div blockSize s" "p div blockSize s \<le> q div blockSize s"
    using assms(2,3) by (intro div_le_mono; simp)+
  with assms(1) show ?thesis
    unfolding filled_def by (meson le_trans add_le_mono1 le_less_trans)
qed

lemma cache_frame_lock:
  assumes "cache_frame g s s'" "\<exists>x. foundObjs s g = Some x \<and> WLOCK_CACHE x = 0"
  shows "\<exists>x. foundObjs s' g = Some x \<and> WLOCK_CACHE x = 0"
proof -
  obtain x where x: "foundObjs s g = Some x" "WLOCK_CACHE x = 0" using assms(2) by blast
  then obtain y where y: "foundObjs s' g = Some y" "y\<lparr>firstCacheObj := 0\<rparr> = x\<lparr>firstCacheObj := 0\<rparr>"
    using assms(1) unfolding cache_frame_def by auto
  have "WLOCK_CACHE y = WLOCK_CACHE x"
    using arg_cong [OF y(2), of WLOCK_CACHE] by simp
  with x y show ?thesis by simp
qed

lemma set_insert_range: "set (insert_range r xs) = insert r (set xs)"
proof -
  have "set (insert_range r xs) = insert r (set (takeWhile (\<lambda>x. fst x < fst r) xs @ dropWhile (\<lambda>x. fst x < fst r) xs))"
    by (simp only: insert_range_def set_append list.set) blast
  then show ?thesis by (simp only: takeWhile_dropWhile_id)
qed

text \<open>Reading \<open>m\<close> bytes from the disk, up to the end of a block or less.\<close>

lemma read_inner_step:
  fixes s fd m
  defines "bs \<equiv> blockSize s" and "ino \<equiv> fd_inode fd" and "g \<equiv> globalObject fd" and "p \<equiv> fd_ptr fd"
  assumes wf: "ext2_wf s" "fd_ok s fd" "read_state s ino g ps" "filled s ino p m"
    and m: "0 < m" "p mod bs + m \<le> CEILING_DIVISION m bs * bs"
  shows "\<exists>s' ps' c'. ext2ReadInner past fresh fd m s =
      Inr ((file_bytes s ino p m, fd\<lparr>fd_lookup := c', fd_ptr := p + m\<rparr>), s') \<and>
    look_ok s ino c' \<and> cache_frame g s s' \<and> read_state s' ino g ps' \<and>
    (\<forall>q \<in> set ps. \<not> in_window (p div bs) (CEILING_DIVISION m bs) (start_of s q) \<longrightarrow>
       q \<in> set ps' \<and> cdata (the (cacheObjs s' q)) = cdata (the (cacheObjs s q)))"
proof -
  let ?n = "CEILING_DIVISION m bs" and ?cur = "p div bs"
  note geom = ext2_wf_def [THEN iffD1, OF wf(1), THEN conjunct1]
  have bs: "0 < bs"
    using block_size_ok_facts(3) [OF ext2_geom_simps(2) [OF geom]] by (simp add: bs_def)
  have "?n * bs < m + bs" using bs by (rule CEILING_DIVISION_le)
  then have "(?cur + ?n - 1) * bs \<le> p + m - 1"
  proof (cases ?n)
    case (Suc k)
    have "?cur * bs \<le> p" by simp
    moreover have "k * bs < m" using Suc \<open>?n * bs < m + bs\<close> by simp
    moreover have "(?cur + ?n - 1) * bs = ?cur * bs + k * bs" using Suc by (simp add: add_mult_distrib)
    ultimately show ?thesis by linarith
  qed (use m in simp)
  then have last: "?cur + ?n - 1 \<le> (p + m - 1) div bs"
    using bs by (simp add: less_eq_div_iff_mult_less_eq)
  have n: "0 < ?n" using m by (cases ?n) auto
  have full: "?cur + ?n < file_blocks_max s" "\<forall>k \<in> {?cur..<?cur + ?n}. block_of s ino k \<noteq> 0"
    using wf(4) last n by (auto simp: filled_def bs_def)
  obtain x where x: "foundObjs s g = Some x" "WLOCK_CACHE x = 0"
    and c: "cache_ok s g ps" "sorted_wrt (<) (map fst (ranges (cacheObjs s) ps))"
    using wf(3) by (auto simp: read_state_def)
  from ext2ReadInner_run [OF wf(1,2) m(1) m(2) [unfolded p_def bs_def] full(1) [unfolded p_def bs_def]
      full(2) [unfolded p_def bs_def ino_def] c(1) [unfolded g_def] x(1) [unfolded g_def] x(2) c(2), of past fresh]
  obtain s' ps' c' buff where r: "ext2ReadInner past fresh fd m s =
      Inr ((file_bytes s ino p m, fd\<lparr>fd_lookup := c', fd_ptr := p + m\<rparr>), s')"
    "look_ok s ino c'" "cache_ok s' g ps'" "cache_frame g s s'" "coherent s ino (?cur, ?n, buff)"
    "ranges (cacheObjs s') ps' = insert_range (?cur, ?n, buff)
      (filter (\<lambda>r. \<not> in_window ?cur ?n (fst r)) (ranges (cacheObjs s) ps))"
    "sorted_wrt (<) (map fst (ranges (cacheObjs s') ps'))"
    "\<forall>q \<in> set ps. \<not> in_window ?cur ?n (start_of s q) \<longrightarrow>
       q \<in> set ps' \<and> cdata (the (cacheObjs s' q)) = cdata (the (cacheObjs s q))"
    unfolding bs_def p_def ino_def g_def by blast
  have "?cur + ?n < 2 ^ 32"
    using full(1) file_blocks_max_less [OF geom] by linarith
  then have "read_state s' ino g ps'"
    using r(3,5,7) cache_frame_lock [OF r(4)] x wf(3)
    by (auto simp: read_state_def r(6) set_insert_range cache_frame_ok(3) [OF r(4)])
  with r show ?thesis by blast
qed


lemma cache_ok_next:
  assumes "cache_ok s g ps" "q \<in> set ps" "cacheObjs s q = Some c"
  shows "c_next c = 0 \<or> c_next c \<in> set ps"
proof -
  obtain x :: Ext2FoundObject where "dlist (clinks (cacheObjs s)) (firstCacheObj x) ps"
    using assms(1) by (auto simp: cache_ok_def)
  then have "dll (clinks (cacheObjs s)) 0 (firstCacheObj x) ps 0" by (simp add: dlist_def)
  from dll_next [OF this assms(2)] assms(3) show ?thesis
    by (simp add: clinks_def)
qed

text \<open>A read lock taken and released around a copy leaves the state as it was.\<close>

lemma read_locked_run:
  assumes "foundObjs s g = Some x" "WLOCK_CACHE x = 0" "b = Inr v"
  shows "andthen (cache_lock spinlock_cnt_read_acquire g)
      (bnd (lift b) (\<lambda>v. andthen (cache_lock spinlock_cnt_read_release g) (k v))) s = k v s"
proof -
  have "cache_lock spinlock_cnt_read_acquire g s = Inr ((), s\<lparr>foundObjs := (foundObjs s)(g \<mapsto> x\<lparr>WLOCK_CACHE := 1\<rparr>)\<rparr>)"
    using assms(1,2) by (simp add: cache_lock_run spinlock_cnt_defs)
  moreover have "cache_lock spinlock_cnt_read_release g (s\<lparr>foundObjs := (foundObjs s)(g \<mapsto> x\<lparr>WLOCK_CACHE := 1\<rparr>)\<rparr>) = Inr ((), s)"
    using assms(1,2) by (subst cache_lock_run) (auto simp: spinlock_cnt_defs fun_upd_idem)
  ultimately show ?thesis
    using assms(3) by (simp add: cmd_simps)
qed



text \<open>
  The invariant of the main loop: the position is at block \<open>start + i\<close>, at its start unless
  this is the first iteration, and \<open>obj\<close> is a node of the cache list or null.
\<close>

definition read_inv ::
  "ext2_sys \<Rightarrow> Ext2OpenFd \<Rightarrow> ptr list \<Rightarrow> nat \<Rightarrow> nat \<Rightarrow> nat \<Rightarrow> ptr \<Rightarrow> nat \<Rightarrow> bool" where
  "read_inv s fd ps start n i obj left \<longleftrightarrow>
     ext2_wf s \<and> fd_ok s fd \<and> read_state s (fd_inode fd) (globalObject fd) ps \<and>
     filled s (fd_inode fd) (fd_ptr fd) left \<and> 0 < left \<and> fd_ptr fd div blockSize s = start + i \<and>
     fd_ptr fd + left < (start + n + 1) * blockSize s \<and> start + n < 2 ^ 33 \<and>
     (fd_ptr fd mod blockSize s = 0 \<or> i = 0 \<and> n = CEILING_DIVISION left (blockSize s) \<and>
       (obj = 0 \<or> start \<le> start_of s obj \<and> start_of s obj < start + n)) \<and>
     (obj = 0 \<or> obj \<in> set ps)"

lemma read_inv_facts:
  assumes "read_inv s fd ps start n i obj left"
  shows "ext2_wf s" "fd_ok s fd" "read_state s (fd_inode fd) (globalObject fd) ps"
    "filled s (fd_inode fd) (fd_ptr fd) left" "0 < left" "fd_ptr fd div blockSize s = start + i"
    "fd_ptr fd + left < (start + n + 1) * blockSize s" "start + n < 2 ^ 33"
    "fd_ptr fd mod blockSize s = 0 \<or> i = 0 \<and> n = CEILING_DIVISION left (blockSize s) \<and>
       (obj = 0 \<or> start \<le> start_of s obj \<and> start_of s obj < start + n)"
    "obj = 0 \<or> obj \<in> set ps"
  using assms unfolding read_inv_def by blast+

lemma read_inv_bounds:
  assumes "read_inv s fd ps start n i obj left"
  shows "i < n + 1" "fd_ptr fd = (start + i) * blockSize s + fd_ptr fd mod blockSize s"
    "fd_ptr fd mod blockSize s < blockSize s" "0 < b \<Longrightarrow> b * blockSize s - fd_ptr fd mod blockSize s + fd_ptr fd mod blockSize s = b * blockSize s"
    "b < 2 ^ 34 \<Longrightarrow> b * blockSize s < 2 ^ 64"
proof -
  note inv = read_inv_facts [OF assms]
  let ?bs = "blockSize s" and ?p = "fd_ptr fd"
  note geom = ext2_wf_def [THEN iffD1, OF inv(1), THEN conjunct1]
  have bs: "0 < ?bs" "?bs \<le> 2 ^ 15"
    using block_size_ok_facts(3,4) [OF ext2_geom_simps(2) [OF geom]] by simp_all
  show pos: "?p = (start + i) * ?bs + ?p mod ?bs" using inv(6) by (metis div_mult_mod_eq)
  then have "(start + i) * ?bs < (start + n + 1) * ?bs" using inv(7) by linarith
  then have "start + i < start + n + 1" by (simp only: mult_less_cancel2)
  then show "i < n + 1" by simp
  show r: "?p mod ?bs < ?bs" using bs by simp
  show "0 < b \<Longrightarrow> b * ?bs - ?p mod ?bs + ?p mod ?bs = b * ?bs" using r by (cases b) auto
  show "b < 2 ^ 34 \<Longrightarrow> b * ?bs < 2 ^ 64"
    using mult_less_le_imp_less [of b "2 ^ 34" ?bs "2 ^ 15"] bs by simp
qed

text \<open>Moving on to a block boundary keeps the invariant.\<close>

lemma read_inv_next:
  fixes s fd b
  defines "m \<equiv> b * blockSize s - fd_ptr fd mod blockSize s"
  assumes inv: "read_inv s fd ps start n i obj left" and b: "0 < b" "m < left"
    and fr: "cache_frame (globalObject fd) s s'" "read_state s' (fd_inode fd) (globalObject fd) ps'" "look_ok s (fd_inode fd) c'"
    and obj: "obj' = 0 \<or> obj' \<in> set ps'"
  shows "read_inv s' (fd\<lparr>fd_lookup := c', fd_ptr := fd_ptr fd + m\<rparr>) ps' start n (i + b) obj' (left - m)"
proof -
  let ?bs = "blockSize s" and ?p = "fd_ptr fd"
  note i = read_inv_facts [OF inv] and bd = read_inv_bounds [OF inv] and f = cache_frame_dev [OF fr(1)] cache_frame_ok [OF fr(1)]
  have p: "?p + m = (start + (i + b)) * ?bs"
    using bd(2) bd(4) [OF b(1)] unfolding m_def by (simp add: add_mult_distrib)
  have bs: "0 < ?bs" using bd(3) by simp
  have "filled s (fd_inode fd) (?p + m) (left - m)"
    using b(2) by (intro filled_part [OF i(4)]) auto
  then have "filled s' (fd_inode fd) (?p + m) (left - m)"
    using f by (simp add: filled_def)
  moreover have "fd_ok s' (fd\<lparr>fd_lookup := c', fd_ptr := ?p + m\<rparr>)"
    using i(2) fr(3) f by (simp add: fd_ok_def)
  moreover have "(?p + m) div ?bs = start + (i + b)" "(?p + m) mod ?bs = 0"
    using bs by (simp_all add: p)
  ultimately show ?thesis
    unfolding read_inv_def using i(1,7,8) f fr(2) b(2) obj by simp
qed

text \<open>The four ways an iteration can go.\<close>

lemma read_parts_none:
  fixes s fd b
  defines "m \<equiv> sub64 (b * blockSize s mod 2 ^ 64) (fd_ptr fd mod blockSize s)"
  assumes "i < n + 1" "obj = 0" "b = (if n - i = 0 then 1 else n - i)"
  shows "read_parts past fresh (Suc fuel) start n i obj left out fd s =
    bnd (ext2ReadInner (past i) (fresh i) fd (min left m)) (\<lambda>(bytes, fd').
      if left = min left m then ret (0, out @ bytes, fd')
      else read_parts past fresh fuel start n ((i + b) mod 2 ^ 64) obj (left - min left m) (out @ bytes) fd') s"
  unfolding read_parts.simps if_P [OF assms(2)] m_def assms(3,4)
  by (simp only: bnd_run ret_run Let_def simp_thms if_True sum.case prod.case option.case)

lemma read_parts_some:
  fixes s fd b
  defines "m \<equiv> sub64 (b * blockSize s mod 2 ^ 64) (fd_ptr fd mod blockSize s)"
  assumes "i < n + 1" "obj \<noteq> 0" "cacheObjs s obj = Some c" "blockIndex c \<noteq> start + i"
    "b = sub64 (blockIndex c) (fd_ptr fd div blockSize s)"
  shows "read_parts past fresh (Suc fuel) start n i obj left out fd s =
    bnd (ext2ReadInner (past i) (fresh i) fd (min left m)) (\<lambda>(bytes, fd').
      if left = min left m then ret (0, out @ bytes, fd')
      else read_parts past fresh fuel start n ((i + b) mod 2 ^ 64) obj (left - min left m) (out @ bytes) fd') s"
  unfolding read_parts.simps if_P [OF assms(2)] m_def assms(6)
  using assms(3-5)
  by (simp only: bnd_run ret_run get_cache_def Let_def simp_thms if_True if_False sum.case prod.case option.case)

lemma read_parts_cached:
  assumes "i < n + 1" "obj \<noteq> 0" "cacheObjs s obj = Some c" "blockIndex c = start + i"
    "sub64 (c_blocks c * blockSize s) (fd_ptr fd mod blockSize s) = m"
    "rdseg (c_buff c) (fd_ptr fd mod blockSize s) (min left m) = Inr bytes"
    "foundObjs s (globalObject fd) = Some x" "WLOCK_CACHE x = 0"
  shows "read_parts past fresh (Suc fuel) start n i obj left out fd s =
     (if left = min left m then ret (0, out @ bytes, fd\<lparr>fd_ptr := fd_ptr fd + min left m\<rparr>)
      else read_parts past fresh fuel start n (i + trunc32 (c_blocks c + (2 ^ 32 - 1)) + 1) (c_next c)
        (left - min left m) (out @ bytes) (fd\<lparr>fd_ptr := fd_ptr fd + min left m\<rparr>)) s"
  unfolding read_parts.simps if_P [OF assms(1)] assms(5) [symmetric]
  using assms(2-4) read_locked_run [OF assms(7,8) assms(6) [folded assms(5)]]
  by (simp only: bnd_run ret_run get_cache_def Let_def simp_thms if_True if_False sum.case prod.case option.case)


text \<open>The outcome of the loop: the rest of the bytes, with the cache list still coherent.\<close>

definition read_ok ::
  "fault + (nat \<times> byte list \<times> Ext2OpenFd) \<times> ext2_sys \<Rightarrow> ext2_sys \<Rightarrow> Ext2OpenFd \<Rightarrow> nat \<Rightarrow> byte list \<Rightarrow> bool" where
  "read_ok R s fd left out \<longleftrightarrow> (\<exists>s' ps' c'.
     R = Inr ((0, out @ file_bytes s (fd_inode fd) (fd_ptr fd) left, fd\<lparr>fd_lookup := c', fd_ptr := fd_ptr fd + left\<rparr>), s') \<and>
     look_ok s (fd_inode fd) c' \<and> cache_frame (globalObject fd) s s' \<and> read_state s' (fd_inode fd) (globalObject fd) ps')"

lemma read_ok_append:
  assumes "read_ok R s' (fd\<lparr>fd_lookup := c, fd_ptr := fd_ptr fd + m\<rparr>) (left - m) (out @ file_bytes s (fd_inode fd) (fd_ptr fd) m)"
    "cache_frame (globalObject fd) s s'" "m \<le> left"
  shows "read_ok R s fd left out"
proof -
  note f = cache_frame_dev [OF assms(2)] cache_frame_ok [OF assms(2)]
  let ?F = "file_bytes s (fd_inode fd)"
  from assms(1) obtain s'' ps'' c'' where r:
    "R = Inr ((0, (out @ ?F (fd_ptr fd) m) @ ?F (fd_ptr fd + m) (left - m),
        fd\<lparr>fd_lookup := c'', fd_ptr := fd_ptr fd + left\<rparr>), s'')"
    "look_ok s (fd_inode fd) c''" "cache_frame (globalObject fd) s' s''" "read_state s'' (fd_inode fd) (globalObject fd) ps''"
    using assms(3) by (auto simp: read_ok_def f)
  have "?F (fd_ptr fd) m @ ?F (fd_ptr fd + m) (left - m) = ?F (fd_ptr fd) left"
    using assms(3) by (simp add: file_bytes_append)
  with r cache_frame_trans [OF assms(2) r(3)] show ?thesis
    unfolding read_ok_def by (intro exI [of _ s''] exI [of _ ps''] exI [of _ c'']) simp
qed

lemma read_disk_step:
  fixes s fd b
  defines "rem \<equiv> fd_ptr fd mod blockSize s"
  assumes inv: "read_inv s fd ps start n i obj left" and fuel: "n + 1 < Suc fuel + i"
    and IH: "\<And>s fd ps i obj left out. read_inv s fd ps start n i obj left \<Longrightarrow> n + 1 < fuel + i \<Longrightarrow>
      read_ok (read_parts past fresh fuel start n i obj left out fd s) s fd left out"
    and run: "R = bnd (ext2ReadInner (past i) (fresh i) fd (min left m)) (\<lambda>(bytes, fd').
      if left = min left m then ret (0, out @ bytes, fd')
      else read_parts past fresh fuel start n ((i + b) mod 2 ^ 64) obj (left - min left m) (out @ bytes) fd') s"
    and all: "left \<le> m \<Longrightarrow> rem + left \<le> CEILING_DIVISION left (blockSize s) * blockSize s"
    and part: "m < left \<Longrightarrow> m = b * blockSize s - rem \<and> 0 < b \<and> i + b < 2 ^ 64 \<and>
      (obj = 0 \<or> start + i + b \<le> start_of s obj)"
  shows "read_ok R s fd left out"
proof -
  note i = read_inv_facts [OF inv] and bd = read_inv_bounds [OF inv]
  show ?thesis
  proof (cases "left \<le> m")
    case True
    from read_inner_step [OF i(1-4,5) all [unfolded rem_def, OF True], of "past i" "fresh i"] run True
    show ?thesis unfolding read_ok_def by (fastforce simp: cmd_simps)
  next
    case False
    then have m: "m = b * blockSize s - rem" "0 < b" "i + b < 2 ^ 64" "obj = 0 \<or> start + i + b \<le> start_of s obj" "m < left"
      using part by auto
    have "0 < m" "rem + m = b * blockSize s" "CEILING_DIVISION m (blockSize s) = b"
      using m(2) bd(3) bd(4) [OF m(2)] ceil_exact [OF bd(3) m(2)] unfolding m(1) rem_def by (cases b; simp)+
    moreover have "filled s (fd_inode fd) (fd_ptr fd) m"
      using m(5) by (intro filled_part [OF i(4)]) auto
    ultimately obtain s' ps' c' where
      r: "ext2ReadInner (past i) (fresh i) fd m s =
        Inr ((file_bytes s (fd_inode fd) (fd_ptr fd) m, fd\<lparr>fd_lookup := c', fd_ptr := fd_ptr fd + m\<rparr>), s')"
      "look_ok s (fd_inode fd) c'" "cache_frame (globalObject fd) s s'" "read_state s' (fd_inode fd) (globalObject fd) ps'"
      "\<forall>q \<in> set ps. \<not> in_window (start + i) b (start_of s q) \<longrightarrow> q \<in> set ps'"
      using read_inner_step [OF i(1-3), of m "past i" "fresh i"] i(6) by (auto simp: rem_def)
    have "obj = 0 \<or> obj \<in> set ps'"
      using i(10) m(4) r(5) by (auto simp: in_window_def)
    from read_inv_next [OF inv m(2) m(5) [unfolded m(1) rem_def] r(3,4,2) this]
    have "read_ok (read_parts past fresh fuel start n (i + b) obj (left - m)
        (out @ file_bytes s (fd_inode fd) (fd_ptr fd) m) (fd\<lparr>fd_lookup := c', fd_ptr := fd_ptr fd + m\<rparr>) s')
      s' (fd\<lparr>fd_lookup := c', fd_ptr := fd_ptr fd + m\<rparr>) (left - m) (out @ file_bytes s (fd_inode fd) (fd_ptr fd) m)"
      using fuel m(2) by (intro IH) (auto simp: m(1) rem_def)
    note next_ok = this
    have "min left m = m" "left \<noteq> m" "(i + b) mod 2 ^ 64 = i + b" using m(3,5) by auto
    then have R: "R = read_parts past fresh fuel start n (i + b) obj (left - m)
        (out @ file_bytes s (fd_inode fd) (fd_ptr fd) m) (fd\<lparr>fd_lookup := c', fd_ptr := fd_ptr fd + m\<rparr>) s'"
      using run r(1) by (simp only: bnd_run sum.case prod.case if_False)
    show ?thesis
      unfolding R by (rule read_ok_append [OF next_ok r(3) less_imp_le [OF m(5)]])
  qed
qed

lemma wrap_mult:
  assumes "0 < d" "d * k < 2 ^ 64" "0 < k"
  shows "(2 ^ 64 - d) * k mod 2 ^ 64 = (2 ^ 64 - d * k :: nat)"
proof -
  obtain j where j: "k = Suc j" using assms(3) by (cases k) auto
  have "(2 ^ 64 - d) * k = 2 ^ 64 * k - d * k" by (simp add: diff_mult_distrib)
  also have "\<dots> = 2 ^ 64 * j + (2 ^ 64 - d * k)" using assms(2) j by simp
  finally have "(2 ^ 64 - d) * k mod 2 ^ 64 = (2 ^ 64 - d * k) mod 2 ^ 64" by simp
  also have "\<dots> = 2 ^ 64 - d * k" using assms by (intro mod_less) simp
  finally show ?thesis .
qed

lemma read_parts_run:
  assumes "read_inv s fd ps start n i obj left" "n + 1 < fuel + i"
  shows "read_ok (read_parts past fresh fuel start n i obj left out fd s) s fd left out"
  using assms
proof (induction fuel arbitrary: s fd ps i obj left out)
  case 0
  then show ?case using read_inv_bounds(1) [OF 0(1)] by simp
next
  case (Suc fuel)
  note inv = Suc.prems(1)
  note f = read_inv_facts [OF inv] and bd = read_inv_bounds [OF inv]
  let ?bs = "blockSize s" and ?rem = "fd_ptr fd mod blockSize s"
  have aligned: "left \<le> CEILING_DIVISION left ?bs * ?bs"
    using bd(3) by (intro CEILING_DIVISION_ge) simp
  show ?case
  proof (cases "obj = 0")
    case True
    define b where "b = (if n - i = 0 then 1 else n - i)"
    have b: "0 < b" "b \<le> n + 1" "i + b \<le> n + 1" using bd(1) by (auto simp: b_def)
    then have m: "sub64 (b * ?bs mod 2 ^ 64) ?rem = b * ?bs - ?rem"
      using bd(5) [of b] bd(4) [OF b(1)] f(8) by (intro sub64_simps(1) [of ?rem "b * ?bs", THEN trans [rotated]]) auto
    have "?rem + left \<le> CEILING_DIVISION left ?bs * ?bs" if "left \<le> b * ?bs - ?rem"
      using f(5,9) that aligned bd(4) [OF b(1)] b(1) by (auto simp: b_def split: if_splits)
    then show ?thesis
      using b f(8) True m
      by (intro read_disk_step [OF Suc.prems _ read_parts_none [OF bd(1) True b_def]] Suc.IH) auto
  next
    case False
    then have o: "obj \<in> set ps" using f(10) by blast
    have ok: "cache_ok s (globalObject fd) ps" using f(3) by (simp add: read_state_def)
    obtain c where c: "cacheObjs s obj = Some c" using cache_ok_nodes [OF ok o] by blast
    then have "cdata c \<in> set (ranges (cacheObjs s) ps)"
      using o by (force simp: ranges_def)
    then have coh: "coherent s (fd_inode fd) (blockIndex c, c_blocks c, c_buff c)" "blockIndex c + c_blocks c < 2 ^ 32"
      using f(3) by (force simp: read_state_def cdata_def)+
    consider "blockIndex c = start + i" | "start + i < blockIndex c" | "blockIndex c < start + i" by linarith
    then show ?thesis
    proof cases
      case 1
      let ?m = "c_blocks c * ?bs - ?rem"
      have nb: "0 < c_blocks c" using coh(1) by (simp add: coherent_def)
      have m: "sub64 (c_blocks c * ?bs) ?rem = ?m"
        using bd(5) [of "c_blocks c"] bd(4) [OF nb] coh(2) by (intro sub64_simps(1)) auto
      have data: "rdseg (c_buff c) ?rem (min left ?m) = Inr (file_bytes s (fd_inode fd) (fd_ptr fd) (min left ?m))"
        using coherent_seg [OF coh(1), of ?rem "min left ?m"] bd(2) bd(4) [OF nb] 1 by simp
      obtain x where x: "foundObjs s (globalObject fd) = Some x" "WLOCK_CACHE x = 0"
        using f(3) by (auto simp: read_state_def)
      note run = read_parts_cached [OF bd(1) False c 1 m data x]
      have k: "i + trunc32 (c_blocks c + (2 ^ 32 - 1)) + 1 = i + c_blocks c"
        using nb coh(2) by (auto simp: trunc32_def mod_if)
      show ?thesis
      proof (cases "left \<le> ?m")
        case True
        then show ?thesis
          unfolding run read_ok_def using f(2,3)
          by (intro exI [of _ s] exI [of _ ps] exI [of _ "fd_lookup fd"]) (simp add: cmd_simps fd_ok_def)
      next
        case less: False
        then have le: "?m < left" by simp
        let ?fd = "fd\<lparr>fd_lookup := fd_lookup fd, fd_ptr := fd_ptr fd + ?m\<rparr>"
        have "read_inv s ?fd ps start n (i + c_blocks c) (c_next c) (left - ?m)"
          using f(2,3) cache_ok_next [OF ok o c]
          by (intro read_inv_next [OF inv nb le]) (auto simp: fd_ok_def)
        then have "read_ok (read_parts past fresh fuel start n (i + c_blocks c) (c_next c) (left - ?m)
            (out @ file_bytes s (fd_inode fd) (fd_ptr fd) ?m) ?fd s) s ?fd (left - ?m)
            (out @ file_bytes s (fd_inode fd) (fd_ptr fd) ?m)"
          using Suc.prems(2) nb by (intro Suc.IH) auto
        from read_ok_append [OF this cache_frame_refl less_imp_le [OF le]] show ?thesis
          unfolding run k using le by (simp add: min_def)
      qed
    next
      case 2
      define b where "b = blockIndex c - (start + i)"
      have b: "0 < b" "b < 2 ^ 32" using 2 coh(2) by (auto simp: b_def)
      have sub: "b = sub64 (blockIndex c) (fd_ptr fd div ?bs)"
        using 2 coh(2) unfolding b_def f(6) by (subst sub64_simps(1)) auto
      have m: "sub64 (b * ?bs mod 2 ^ 64) ?rem = b * ?bs - ?rem"
        using bd(5) [of b] bd(4) [OF b(1)] b(2) by (intro sub64_simps(1) [of ?rem "b * ?bs", THEN trans [rotated]]) auto
      have "?rem + left \<le> CEILING_DIVISION left ?bs * ?bs" if "left \<le> b * ?bs - ?rem"
      proof (cases "?rem = 0")
        case False
        then have "b < n" "n = CEILING_DIVISION left ?bs" using f(9) c \<open>obj \<noteq> 0\<close> 2 by (auto simp: b_def)
        moreover from this have "n * ?bs < left + ?bs" using bd(3) by (simp add: CEILING_DIVISION_le)
        moreover have "(b + 1) * ?bs \<le> n * ?bs" using \<open>b < n\<close> by (intro mult_le_mono1) simp
        ultimately show ?thesis using that bd(4) [OF b(1)] False by simp
      qed (use aligned in simp)
      moreover have "i + b < 2 ^ 64" "start + i + b \<le> start_of s obj"
        using b(2) bd(1) f(8) 2 c by (simp_all add: b_def)
      ultimately show ?thesis
        using b m 2
        by (intro read_disk_step [OF Suc.prems _ read_parts_some [OF bd(1) False c _ sub]] Suc.IH) auto
    next
      case 3
      then have rem: "?rem = 0" using f(9) c False by auto
      define b where "b = sub64 (blockIndex c) (fd_ptr fd div ?bs)"
      have "left \<le> sub64 (b * ?bs mod 2 ^ 64) ?rem"
      proof -
        define d where "d = start + i - blockIndex c"
        have d: "0 < d" "d \<le> start + i" "(start + n + 1) * ?bs < 2 ^ 64" using 3 bd(5) [of "start + n + 1"] f(8) by (auto simp: d_def)
        have "d * ?bs + left \<le> fd_ptr fd + left"
          using mult_le_mono1 [OF d(2), of ?bs] bd(2) by linarith
        then have le: "d * ?bs + left < 2 ^ 64" using f(7) d(3) by linarith
        have "b = 2 ^ 64 - d"
          using 3 bd(1) f(8) unfolding b_def f(6) d_def by (subst sub64_simps(2)) auto
        then have "b * ?bs mod 2 ^ 64 = 2 ^ 64 - d * ?bs"
          using d(1) le bd(3) by (simp only:) (rule wrap_mult; simp)
        then show ?thesis
          using le d(1) bd(3) by (simp add: rem sub64_simps(1))
      qed
      then show ?thesis
        using 3 rem aligned
        by (intro read_disk_step [OF Suc.prems _ read_parts_some [OF bd(1) False c _ b_def]] Suc.IH) auto
    qed
  qed
qed

section \<open>The read operation\<close>

lemma find_range_run:
  assumes "dll (clinks (cacheObjs s)) a obj ps 0" "length ps < fuel"
  shows "\<exists>q. find_range fuel start n obj s = Inr (q, s) \<and>
    (q = 0 \<or> q \<in> set ps \<and> in_window start n (start_of s q))"
  using assms
proof (induction ps arbitrary: fuel a obj)
  case Nil
  then show ?case by (cases fuel) (simp_all add: cmd_simps)
next
  case (Cons x ps)
  obtain c where c: "obj = x" "x \<noteq> 0" "cacheObjs s x = Some c" "dll (clinks (cacheObjs s)) x (c_next c) ps 0"
    using Cons.prems(1) by (rule dll_step)
  obtain f where f: "fuel = Suc f" "length ps < f"
    using Cons.prems(2) by (cases fuel) auto
  show ?case
    using c f Cons.IH [OF c(4) f(2)] by (auto simp: cmd_simps get_cache_def)
qed

lemma file_lock_run:
  "foundObjs s g = Some x \<Longrightarrow> op (WLOCK_FILE x) = Inr l \<Longrightarrow>
   file_lock op g s = Inr ((), s\<lparr>foundObjs := (foundObjs s)(g \<mapsto> x\<lparr>WLOCK_FILE := l\<rparr>)\<rparr>)"
  by (simp add: file_lock_def lock_found_def get_found_def upd_found_def cmd_simps)

text \<open>
  What the read depends on of an object is its cache list and its cache lock; the other fields,
  and the order of the objects in use, may change.
\<close>

definition same_cache :: "ptr \<Rightarrow> ext2_sys \<Rightarrow> ext2_sys \<Rightarrow> bool" where
  "same_cache g s s' \<longleftrightarrow> (\<exists>F f. s' = s\<lparr>foundObjs := F, firstObject := f\<rparr>) \<and>
     map_option (\<lambda>x. (firstCacheObj x, WLOCK_CACHE x)) (foundObjs s' g) =
     map_option (\<lambda>x. (firstCacheObj x, WLOCK_CACHE x)) (foundObjs s g)"

lemma same_cache_ok:
  assumes "same_cache g s s'"
  shows "ext2_wf s' = ext2_wf s" "fd_ok s' = fd_ok s" "read_state s' ino g ps = read_state s ino g ps"
    "filled s' = filled s" "file_bytes s' = file_bytes s" "look_ok s' = look_ok s" "dev s' = dev s"
    "blockSize s' = blockSize s" "coherent s' = coherent s" "file_blocks_max s' = file_blocks_max s"
proof -
  from assms obtain F f where s': "s' = s\<lparr>foundObjs := F, firstObject := f\<rparr>"
    and F: "map_option (\<lambda>x. (firstCacheObj x, WLOCK_CACHE x)) (F g) =
      map_option (\<lambda>x. (firstCacheObj x, WLOCK_CACHE x)) (foundObjs s g)"
    unfolding same_cache_def by auto
  show "ext2_wf s' = ext2_wf s" by (simp add: s' ext2_wf_def locks_free_def)
  show bb: "file_bytes s' = file_bytes s" "look_ok s' = look_ok s" "dev s' = dev s" "blockSize s' = blockSize s"
    "file_blocks_max s' = file_blocks_max s"
    by (simp_all add: s' fun_eq_iff file_bytes_def file_byte_def block_of_def ind_words_def block_bytes_def
        look_ok_def control_in_def ptr_set_def ind_words_def block_bytes_def control_ok_def cached_ok_def Let_def file_blocks_max_def)
  show coh: "coherent s' = coherent s"
    using bb by (simp add: fun_eq_iff coherent_def)
  have bo: "block_of s' = block_of s"
    by (simp add: s' fun_eq_iff block_of_def ind_words_def block_bytes_def Let_def)
  then show "filled s' = filled s"
    using bb by (simp add: fun_eq_iff filled_def)
  have "ptrs_ok s' = ptrs_ok s" "inode_num_ok s' = inode_num_ok s" "nblocks s' = nblocks s"
    by (simp_all add: s' fun_eq_iff ptrs_ok_def inode_num_ok_def ind_words_def block_bytes_def inode_group_def)
  then show "fd_ok s' = fd_ok s"
    using bb bo by (simp add: fun_eq_iff fd_ok_def data_ok_def)
  have "cache_ok s' g ps = cache_ok s g ps"
    "(\<exists>x. F g = Some x \<and> WLOCK_CACHE x = 0) = (\<exists>x. foundObjs s g = Some x \<and> WLOCK_CACHE x = 0)"
    using F by (cases "F g"; cases "foundObjs s g"; auto simp: s' cache_ok_def)+
  then show "read_state s' ino g ps = read_state s ino g ps"
    using coh by (simp add: read_state_def) (simp add: s')
qed

lemma same_cache_refl [simp]: "same_cache g s s"
  unfolding same_cache_def by (rule conjI, rule exI [of _ "foundObjs s"], rule exI [of _ "firstObject s"]) simp_all

lemma same_cache_trans: "same_cache g s t \<Longrightarrow> same_cache g t u \<Longrightarrow> same_cache g s u"
  unfolding same_cache_def by (elim conjE exE) (simp, blast)

lemma same_cache_file:
  "foundObjs s g = Some x \<Longrightarrow> same_cache g s (s\<lparr>foundObjs := (foundObjs s)(g \<mapsto> x\<lparr>WLOCK_FILE := l\<rparr>)\<rparr>)"
  unfolding same_cache_def by (rule conjI, rule exI [of _ "(foundObjs s)(g \<mapsto> x\<lparr>WLOCK_FILE := l\<rparr>)"],
      rule exI [of _ "firstObject s"]) simp_all

lemma same_cache_push:
  assumes "dlist (flinks (foundObjs s)) (firstObject s) xs" "globalObject fd \<in> set xs" "foundObjs s 0 = None"
    "\<not> LOCK_OBJECT s"
  shows "\<exists>s'. ext2CachePush fd s = Inr ((), s') \<and> same_cache (globalObject fd) s s' \<and>
    map_option WLOCK_FILE (foundObjs s' (globalObject fd)) = map_option WLOCK_FILE (foundObjs s (globalObject fd)) \<and>
    dlist (flinks (foundObjs s')) (firstObject s') (globalObject fd # remove1 (globalObject fd) xs) \<and> foundObjs s' 0 = None"
proof -
  obtain F where F: "ext2CachePush fd s = Inr ((), s\<lparr>foundObjs := F, firstObject := globalObject fd\<rparr>)"
    "dlist (flinks F) (globalObject fd) (globalObject fd # remove1 (globalObject fd) xs)"
    "\<forall>x. map_option fdata (F x) = map_option fdata (foundObjs s x)"
    using cache_push_run [OF assms] by blast
  have sel: "firstCacheObj (fdata x) = firstCacheObj x" "WLOCK_CACHE (fdata x) = WLOCK_CACHE x"
    "WLOCK_FILE (fdata x) = WLOCK_FILE x" for x
    by (simp_all add: fdata_def)
  have via: "map_option h (F x) = map_option h (foundObjs s x)" if "\<And>y. h (fdata y) = h y" for h :: "Ext2FoundObject \<Rightarrow> 'b" and x
  proof -
    have "map_option h (F x) = map_option h (map_option fdata (F x))"
      using that by (simp add: option.map_comp comp_def)
    also have "\<dots> = map_option h (foundObjs s x)"
      using that F(3) by (simp add: option.map_comp comp_def)
    finally show ?thesis .
  qed
  have "F 0 = None"
    using F(3) [THEN spec, of 0] assms(3) by simp
  with via [of "\<lambda>x. (firstCacheObj x, WLOCK_CACHE x)"] via [of WLOCK_FILE]
  show ?thesis
    using F(1,2) by (intro exI [of _ "s\<lparr>foundObjs := F, firstObject := globalObject fd\<rparr>"]) (auto simp: same_cache_def sel)
qed


text \<open>An open file between operations: nothing is locked and its cached ranges hold its contents.\<close>

definition file_ready :: "ext2_sys \<Rightarrow> Ext2OpenFd \<Rightarrow> ptr list \<Rightarrow> bool" where
  "file_ready s dir ps \<longleftrightarrow> ext2_wf s \<and> fd_ok s dir \<and>
     (\<exists>xs. dlist (flinks (foundObjs s)) (firstObject s) xs \<and> globalObject dir \<in> set xs) \<and> foundObjs s 0 = None \<and>
     read_state s (fd_inode dir) (globalObject dir) ps \<and>
     map_option WLOCK_FILE (foundObjs s (globalObject dir)) = Some 0"

lemma find_locked_run:
  assumes "read_state s ino g ps" "next_ptr s + 1 = fuel"
  shows "\<exists>q. (\<forall>k :: ptr \<Rightarrow> 'a ext2_cmd. andthen (cache_lock spinlock_cnt_read_acquire g)
      (bnd (get_found g) (\<lambda>go. bnd (find_range fuel start n (firstCacheObj go)) (\<lambda>obj.
        andthen (cache_lock spinlock_cnt_read_release g) (k obj)))) s = k q s) \<and>
    (q = 0 \<or> q \<in> set ps \<and> in_window start n (start_of s q))"
proof -
  obtain x where x: "foundObjs s g = Some x" "WLOCK_CACHE x = 0" and ok: "cache_ok s g ps"
    using assms(1) by (auto simp: read_state_def)
  let ?s = "s\<lparr>foundObjs := (foundObjs s)(g \<mapsto> x\<lparr>WLOCK_CACHE := 1\<rparr>)\<rparr>"
  have "dll (clinks (cacheObjs ?s)) 0 (firstCacheObj x) ps 0"
    using ok x(1) by (auto simp: cache_ok_def dlist_def)
  from find_range_run [OF this, of fuel start n] cache_ok_length(2) [OF ok] assms(2) obtain q where
    q: "find_range fuel start n (firstCacheObj x) ?s = Inr (q, ?s)" "q = 0 \<or> q \<in> set ps \<and> in_window start n (start_of s q)"
    by auto
  have "cache_lock spinlock_cnt_read_acquire g s = Inr ((), ?s)"
    using x by (simp add: cache_lock_run spinlock_cnt_defs)
  moreover have "cache_lock spinlock_cnt_read_release g ?s = Inr ((), s)"
    using x by (subst cache_lock_run) (auto simp: spinlock_cnt_defs fun_upd_idem)
  ultimately show ?thesis
    using q by (intro exI [of _ q]) (simp add: cmd_simps get_found_def del: find_range.simps)
qed

lemma read_inv_start:
  assumes "ext2_wf s" "fd_ok s dir" "read_state s (fd_inode dir) (globalObject dir) ps"
    "filled s (fd_inode dir) (fd_ptr dir) left" "0 < left"
    "obj = 0 \<or> obj \<in> set ps \<and> in_window (fd_ptr dir div blockSize s) (CEILING_DIVISION left (blockSize s)) (start_of s obj)"
  shows "read_inv s dir ps (fd_ptr dir div blockSize s) (CEILING_DIVISION left (blockSize s)) 0 obj left"
proof -
  let ?bs = "blockSize s" and ?p = "fd_ptr dir"
  let ?n = "CEILING_DIVISION left ?bs"
  note geom = ext2_wf_def [THEN iffD1, OF assms(1), THEN conjunct1]
  have bs: "0 < ?bs"
    using block_size_ok_facts(3) [OF ext2_geom_simps(2) [OF geom]] by simp
  note n = CEILING_DIVISION_ge [OF bs, of left] CEILING_DIVISION_le [OF bs, of left]
  have "?p = ?p div ?bs * ?bs + ?p mod ?bs" "?p mod ?bs < ?bs" using bs by simp_all
  then have lt: "?p + left < (?p div ?bs + ?n + 1) * ?bs"
    using n(1) by (simp only: add_mult_distrib)
  have "(?n - 1) * ?bs < left" "0 < ?n"
    using n assms(5) by (cases ?n; simp)+
  then have "(?p div ?bs + ?n - 1) * ?bs \<le> ?p + left - 1"
    using \<open>?p = ?p div ?bs * ?bs + ?p mod ?bs\<close> by (simp only: add_mult_distrib diff_add_assoc Suc_leI One_nat_def)
  then have "?p div ?bs + ?n - 1 \<le> (?p + left - 1) div ?bs"
    using bs by (simp add: less_eq_div_iff_mult_less_eq)
  then have "?p div ?bs + ?n < 2 ^ 33"
    using assms(4) file_blocks_max_less [OF geom] by (auto simp: filled_def)
  then show ?thesis
    unfolding read_inv_def using assms lt by (auto simp: in_window_def)
qed

lemma read_parts_ready:
  assumes "read_inv s dir ps start n 0 obj left" "foundObjs s (globalObject dir) = Some x" "WLOCK_FILE x = 1"
  shows "\<exists>s' c' ps' y. read_parts past fresh (n + 2) start n 0 obj left [] dir s =
      Inr ((0, file_bytes s (fd_inode dir) (fd_ptr dir) left, dir\<lparr>fd_lookup := c', fd_ptr := fd_ptr dir + left\<rparr>), s') \<and>
    look_ok s (fd_inode dir) c' \<and> cache_frame (globalObject dir) s s' \<and> read_state s' (fd_inode dir) (globalObject dir) ps' \<and>
    foundObjs s' (globalObject dir) = Some y \<and> WLOCK_FILE y = 1 \<and>
    flinks (foundObjs s') = flinks (foundObjs s) \<and> firstObject s' = firstObject s"
proof -
  have "read_ok (read_parts past fresh (n + 2) start n 0 obj left [] dir s) s dir left []"
    using assms(1) by (intro read_parts_run) auto
  then obtain s' c' ps' where r: "read_parts past fresh (n + 2) start n 0 obj left [] dir s =
      Inr ((0, file_bytes s (fd_inode dir) (fd_ptr dir) left, dir\<lparr>fd_lookup := c', fd_ptr := fd_ptr dir + left\<rparr>), s')"
    "look_ok s (fd_inode dir) c'" "cache_frame (globalObject dir) s s'" "read_state s' (fd_inode dir) (globalObject dir) ps'"
    unfolding read_ok_def by auto
  let ?e = "firstCacheObj_update (\<lambda>_. 0)"
  have all: "map_option ?e (foundObjs s' z) = map_option ?e (foundObjs s z)" for z
    using r(3) unfolding cache_frame_def by (cases "z = globalObject dir") auto
  then obtain y where y: "foundObjs s' (globalObject dir) = Some y" "?e y = ?e x"
    using assms(2) by (metis map_option_eq_Some)
  have "flinks (foundObjs s') z = flinks (foundObjs s) z" for z
  proof -
    have "flinks (foundObjs t) z = map_option (\<lambda>x. (f_prev x, f_next x)) (map_option ?e (foundObjs t z))" for t :: ext2_sys
      by (simp add: flinks_def option.map_comp comp_def)
    then show ?thesis by (simp only: all)
  qed
  moreover have "WLOCK_FILE y = 1"
    using arg_cong [OF y(2), of WLOCK_FILE] assms(3) by simp
  moreover have "firstObject s' = firstObject s"
    using r(3) unfolding cache_frame_def by auto
  ultimately show ?thesis
    using r y(1) by (intro exI [of _ s'] exI [of _ c'] exI [of _ ps'] exI [of _ y]) auto
qed


lemma file_lock_links: "F g = Some x \<Longrightarrow> flinks (F(g \<mapsto> x\<lparr>WLOCK_FILE := l\<rparr>)) = flinks F"
  by (auto simp: flinks_def fun_eq_iff)

lemma cache_frame_other: "cache_frame g s s' \<Longrightarrow> z \<noteq> g \<Longrightarrow> foundObjs s' z = foundObjs s z"
  by (simp add: cache_frame_def)

lemma read_run:
  assumes "file_ready s dir ps" "\<not> dir_bit (fd_inode dir)" "fd_ptr dir < ext2GetFilesize dir" "0 < naiveLimit"
    "limit = min naiveLimit (ext2GetFilesize dir - fd_ptr dir)" "filled s (fd_inode dir) (fd_ptr dir) limit"
  shows "\<exists>s' c' ps'. ext2Read past fresh dir naiveLimit s =
      Inr ((of_nat limit, file_bytes s (fd_inode dir) (fd_ptr dir) limit,
        dir\<lparr>fd_lookup := c', fd_ptr := fd_ptr dir + limit\<rparr>), s') \<and> dev s' = dev s \<and>
    file_ready s' (dir\<lparr>fd_lookup := c', fd_ptr := fd_ptr dir + limit\<rparr>) ps'"
proof -
  let ?g = "globalObject dir" and ?ino = "fd_inode dir" and ?p = "fd_ptr dir"
  from assms(1) obtain xs where r: "ext2_wf s" "fd_ok s dir" "dlist (flinks (foundObjs s)) (firstObject s) xs"
    "?g \<in> set xs" "foundObjs s 0 = None" "read_state s ?ino ?g ps" "map_option WLOCK_FILE (foundObjs s ?g) = Some 0"
    by (auto simp: file_ready_def)
  have lim: "0 < limit" using assms(3-5) by simp
  have "\<not> LOCK_OBJECT s" using r(1) by (simp add: ext2_wf_def locks_free_def)
  from same_cache_push [OF r(3-5) this] r(7) obtain s1 x where
    push: "ext2CachePush dir s = Inr ((), s1)" and s1: "same_cache ?g s s1" "foundObjs s1 ?g = Some x" "WLOCK_FILE x = 0"
      "\<exists>ys. dlist (flinks (foundObjs s1)) (firstObject s1) ys \<and> ?g \<in> set ys" "foundObjs s1 0 = None"
    by fastforce
  define s2 where "s2 = s1\<lparr>foundObjs := (foundObjs s1)(?g \<mapsto> x\<lparr>WLOCK_FILE := 1\<rparr>)\<rparr>"
  have lock: "file_lock spinlock_cnt_read_acquire ?g s1 = Inr ((), s2)"
    using s1(2,3) by (simp add: file_lock_run spinlock_cnt_defs s2_def)
  have s2: "same_cache ?g s s2" "foundObjs s2 ?g = Some (x\<lparr>WLOCK_FILE := 1\<rparr>)"
    using same_cache_trans [OF s1(1) same_cache_file [OF s1(2)]] by (simp_all add: s2_def)
  note ok = same_cache_ok [OF s2(1)]
  have bs1: "blockSize s1 = blockSize s" "next_ptr s1 = next_ptr s2"
    using same_cache_ok(8) [OF s1(1)] by (simp_all add: s2_def)
  have bs2: "blockSize s1 = blockSize s2" by (simp add: s2_def)
  let ?n = "CEILING_DIVISION limit (blockSize s2)" and ?start = "?p div blockSize s2"
  from find_locked_run [of s2 ?ino ?g ps "next_ptr s1 + 1" ?start ?n] r(6) ok(3) bs1 obtain q where
    q: "\<And>k :: ptr \<Rightarrow> (u64 \<times> byte list \<times> Ext2OpenFd) ext2_cmd. andthen (cache_lock spinlock_cnt_read_acquire ?g)
      (bnd (get_found ?g) (\<lambda>go. bnd (find_range (next_ptr s1 + 1) ?start ?n (firstCacheObj go)) (\<lambda>obj.
        andthen (cache_lock spinlock_cnt_read_release ?g) (k obj)))) s2 = k q s2"
      "q = 0 \<or> q \<in> set ps \<and> in_window ?start ?n (start_of s2 q)" by metis
  have "read_inv s2 dir ps ?start ?n 0 q limit"
    using r(1,2,6) ok assms(6) lim q(2) by (intro read_inv_start) simp_all
  from read_parts_ready [OF this s2(2), of past fresh] obtain s3 c' ps' y where
    p: "read_parts past fresh (?n + 2) ?start ?n 0 q limit [] dir s2 =
      Inr ((0, file_bytes s ?ino ?p limit, dir\<lparr>fd_lookup := c', fd_ptr := ?p + limit\<rparr>), s3)"
    and s3: "look_ok s ?ino c'" "cache_frame ?g s2 s3" "read_state s3 ?ino ?g ps'" "foundObjs s3 ?g = Some y" "WLOCK_FILE y = 1"
      "flinks (foundObjs s3) = flinks (foundObjs s2)" "firstObject s3 = firstObject s2"
    unfolding ok(5,6) by auto
  let ?s4 = "s3\<lparr>foundObjs := (foundObjs s3)(?g \<mapsto> y\<lparr>WLOCK_FILE := 0\<rparr>)\<rparr>" and ?dir = "dir\<lparr>fd_lookup := c', fd_ptr := ?p + limit\<rparr>"
  have unlock: "file_lock spinlock_cnt_read_release ?g s3 = Inr ((), ?s4)"
    using s3(4,5) by (simp add: file_lock_run spinlock_cnt_defs)
  note fr = cache_frame_ok [OF s3(2)] and same = same_cache_ok [OF same_cache_file [OF s3(4), of 0]]
  have "foundObjs s3 0 = None" "flinks (foundObjs ?s4) = flinks (foundObjs s1)" "firstObject s3 = firstObject s1"
    using s1 s3 cache_frame_other [OF s3(2)] dlist_nodes [OF r(3,4)]
    by (auto simp: file_lock_links s2_def fun_upd_same)
  moreover have "read_state ?s4 ?ino ?g ps'" using same(3) s3(3) by simp
  moreover have "fd_ok s ?dir" using r(2) s3(1) by (simp add: fd_ok_def)
  ultimately have ready: "file_ready ?s4 ?dir ps'"
    unfolding file_ready_def same(1,2) fr(1,2) ok(1,2) using s1(4) r(1) dlist_nodes [OF r(3,4)] by auto
  have "dev ?s4 = dev s"
    using same(7) cache_frame_dev(1) [OF s3(2)] ok(7) by simp
  have steps: "andthen (ext2CachePush dir) k s = k s1" "andthen (file_lock spinlock_cnt_read_acquire ?g) k s1 = k s2"
    "bnd (read_parts past fresh (?n + 2) ?start ?n 0 q limit [] dir) h s2 = h (0, file_bytes s ?ino ?p limit, ?dir) s3"
    for k :: "(u64 \<times> byte list \<times> Ext2OpenFd) ext2_cmd" and h :: "_ \<Rightarrow> (u64 \<times> byte list \<times> Ext2OpenFd) ext2_cmd"
    using push lock p by (simp_all add: andthen_run bnd_run del: read_parts.simps)
  have "ext2Read past fresh dir naiveLimit s =
      Inr ((of_nat limit, file_bytes s ?ino ?p limit, ?dir), ?s4)"
    unfolding ext2Read_def if_not_P [OF assms(2)] steps(1) Let_def assms(5) [symmetric]
      if_not_P [OF assms(3) [unfolded not_le [symmetric]]] bs2 steps(2) q(1) steps(3)
    by (simp add: andthen_run check_run ret_run unlock)
  with ready \<open>dev ?s4 = dev s\<close> show ?thesis by blast
qed

text \<open>
  C1. Reading an open file returns the bytes of the file at the position, up to the limit or the
  end of the file, and moves the position behind them; the disk does not change. This holds
  whatever block ranges are cached, as long as they are coherent, and they stay coherent, so
  that the same can be said of the next read. The blocks of the range must be allocated.
\<close>

theorem ext2Read_contents:
  assumes "file_ready s dir ps" "\<not> dir_bit (fd_inode dir)" "fd_ptr dir < ext2GetFilesize dir" "0 < naiveLimit"
    "limit = min naiveLimit (ext2GetFilesize dir - fd_ptr dir)" "filled s (fd_inode dir) (fd_ptr dir) limit"
  shows "\<exists>s' c' ps'. ext2Read past fresh dir naiveLimit s =
      Inr ((of_nat limit, file_bytes s (fd_inode dir) (fd_ptr dir) limit,
        dir\<lparr>fd_lookup := c', fd_ptr := fd_ptr dir + limit\<rparr>), s') \<and> dev s' = dev s \<and>
    file_ready s' (dir\<lparr>fd_lookup := c', fd_ptr := fd_ptr dir + limit\<rparr>) ps'"
  by (rule read_run [OF assms])

end
