(* ===== verification/Ext2_Write.thy ===== *)
theory Ext2_Write
  imports Ext2_Read
begin

text \<open>
  What writing does to a file whose blocks are allocated: the bytes at the position are replaced,
  through the part of a block at the start (\<^verbatim>\<open>write_head\<close>), the runs of whole blocks and the last
  one, and nothing else changes. With \<open>Ext2_Read\<close> this gives that what was written is read back.
\<close>

section \<open>Writing runs of blocks\<close>

lemma put_one_frame [simp]: "put_one (s\<lparr>dev := d\<rparr>) = put_one s"
  by (simp add: put_one_def fun_eq_iff)

lemma sata_put_fold [simp]: "sata (foldl (put_one s blocks tmp) d ks) = sata d"
  by (induction ks arbitrary: d) (simp_all add: put_one_def)

lemma write_loop_run:
  assumes "ext2_geom s" "length blocks = n" "n * blockSize s \<le> length tmp"
    "\<forall>j < n. blocks ! j \<noteq> 0 \<and> unat (blocks ! j) < nblocks s"
    "c = (case run of None \<Rightarrow> i | Some x \<Rightarrow> x)" "c \<le> i" "i \<le> n" "i < n \<Longrightarrow> consec blocks c i" "run \<noteq> None \<Longrightarrow> i < n"
  shows "write_loop n blocks i run c tmp s = Inr ((), s\<lparr>dev := foldl (put_one s blocks tmp) (dev s) [c..<n]\<rparr>)"
  using assms
proof (induction "n - i" arbitrary: i run c s rule: less_induct)
  case less
  note IH = less.hyps and geom = less.prems(1) and len = less.prems(2) and tmp = less.prems(3)
    and nz = less.prems(4) and inv = less.prems(5-)
  show ?case
  proof (cases "i < n")
    case False
    then have "c = n" using inv by (cases run) auto
    with False show ?thesis by (simp add: write_loop.simps)
  next
    case i: True
    have start: "(case run of None \<Rightarrow> i | Some c \<Rightarrow> c) = c" using inv(1) by simp
    have bi: "blocks ! i \<noteq> 0" using nz i by blast
    show ?thesis
    proof (cases "i + 1 \<noteq> n \<and> blocks ! (i + 1) = blocks ! i + 1")
      case more: True
      have "write_loop n blocks (i + 1) (Some c) c tmp s =
          Inr ((), s\<lparr>dev := foldl (put_one s blocks tmp) (dev s) [c..<n]\<rparr>)"
        using i more inv by (intro IH geom len tmp nz) (auto simp: consec_def less_Suc_eq)
      then show ?thesis
        using i bi more len start by (subst write_loop.simps) (simp add: Let_def)
    next
      case stop: False
      have run: "\<forall>k < i + 1 - c. unat (blocks ! (c + k)) = unat (blocks ! c) + k"
        using inv(4) i nz by (intro consec_blocks) auto
      let ?k = "i - c + 1" and ?b = "unat (blocks ! c)"
      have "unat (blocks ! i) = ?b + (i - c)"
        using run [THEN spec, of "i - c"] inv(2) by simp
      then have bound: "?b + ?k \<le> nblocks s" using nz i by auto
      have "(c + ?k) * blockSize s \<le> n * blockSize s" using i inv(2) by (intro mult_le_mono1) simp
      also note tmp
      finally have fits: "(c + ?k) * blockSize s \<le> length tmp" .
      let ?s = "s\<lparr>dev := foldl (put_one s blocks tmp) (dev s) [c..<i + 1]\<rparr>"
      have t: "dev_patch (dev s) (block_pos s ?b) (seg tmp (c * blockSize s) (?k * blockSize s)) =
          foldl (put_one s blocks tmp) (dev s) [c..<i + 1]"
        using put_one_run [of ?k blocks c ?b s tmp "dev s"] run fits inv(2) by (simp add: add.commute)
      have rd: "rdseg tmp (c * blockSize s) (?k * blockSize s) = Inr (seg tmp (c * blockSize s) (?k * blockSize s))"
        using fits by (simp add: rdseg_def add_mult_distrib)
      have "length (seg tmp (c * blockSize s) (?k * blockSize s)) = ?k * blockSize s"
        using fits by (simp add: add_mult_distrib)
      from set_run [OF geom bound _ this] have st: "set_sectors (seg tmp (c * blockSize s) (?k * blockSize s))
          (BLOCK_TO_LBA s 0 ?b) (?k * blockSize s div SECTOR_SIZE) s = Inr ((), ?s)"
        by (simp only: t)
      have "write_loop n blocks (i + 1) None (i + 1) tmp ?s =
          Inr ((), ?s\<lparr>dev := foldl (put_one ?s blocks tmp) (dev ?s) [i + 1..<n]\<rparr>)"
        using i geom len tmp nz by (intro IH) (auto simp: consec_def simp del: upt_Suc)
      also have "\<dots> = Inr ((), s\<lparr>dev := foldl (put_one s blocks tmp) (dev s) [c..<n]\<rparr>)"
        using inv(2) i by (simp add: foldl_upt_split del: upt_Suc)
      finally have rest: "write_loop n blocks (i + 1) None (c + ?k) tmp ?s =
          Inr ((), s\<lparr>dev := foldl (put_one s blocks tmp) (dev s) [c..<n]\<rparr>)"
        using inv(2) by simp
      have "\<not> (\<not> i + 1 = n \<and> blocks ! (i + 1) = blocks ! i + 1)" using stop by simp
      then show ?thesis
        using i bi len start rd st rest
        by (subst write_loop.simps) (simp only: Let_def if_True if_False bnd_run lift_run sum.case prod.case andthen_run not_le, simp)
    qed
  qed
qed

section \<open>Which bytes change\<close>

lemma write_pos_apart:
  assumes "a \<noteq> b"
  shows "block_pos s a + blockSize s \<le> block_pos s b \<or> block_pos s b + blockSize s \<le> block_pos s a"
proof -
  have lt: "block_pos s x + blockSize s \<le> block_pos s y" if "x < y" for x y
    using mult_le_mono1 [of "Suc x" y "blockSize s"] that by (simp add: block_pos_def)
  from assms consider "a < b" | "b < a" by linarith
  then show ?thesis by cases (simp_all add: lt)
qed

lemma put_one_bytes:
  assumes "(k + 1) * blockSize s \<le> length tmp"
  shows "dev_seg (put_one s blocks tmp d k) (block_pos s b) (blockSize s) =
    (if b = unat (blocks ! k) then seg tmp (k * blockSize s) (blockSize s) else dev_seg d (block_pos s b) (blockSize s))"
proof -
  have "length (seg tmp (k * blockSize s) (blockSize s)) = blockSize s"
    using assms by simp
  then show ?thesis
    using write_pos_apart [of b "unat (blocks ! k)" s] by (auto simp: put_one_def intro!: dev_seg_patch_other)
qed

lemma put_fold_bytes:
  assumes "n * blockSize s \<le> length tmp" "distinct (take n blocks)" "n \<le> length blocks"
  shows "(\<forall>k < n. dev_seg (foldl (put_one s blocks tmp) d [0..<n]) (block_pos s (unat (blocks ! k))) (blockSize s) =
      seg tmp (k * blockSize s) (blockSize s)) \<and>
    (\<forall>b. b \<notin> unat ` set (take n blocks) \<longrightarrow>
      dev_seg (foldl (put_one s blocks tmp) d [0..<n]) (block_pos s b) (blockSize s) = dev_seg d (block_pos s b) (blockSize s))"
  using assms
proof (induction n)
  case (Suc n)
  have fits: "(n + 1) * blockSize s \<le> length tmp" and n: "n < length blocks" "distinct (take n blocks)"
    "blocks ! n \<notin> set (take n blocks)" "n * blockSize s \<le> length tmp"
    using Suc.prems by (simp_all add: take_Suc_conv_app_nth)
  let ?d = "foldl (put_one s blocks tmp) d [0..<n]"
  have step: "foldl (put_one s blocks tmp) d [0..<Suc n] = put_one s blocks tmp ?d n"
    by simp
  have IH: "\<forall>k < n. dev_seg ?d (block_pos s (unat (blocks ! k))) (blockSize s) = seg tmp (k * blockSize s) (blockSize s)"
    "\<forall>b. b \<notin> unat ` set (take n blocks) \<longrightarrow> dev_seg ?d (block_pos s b) (blockSize s) = dev_seg d (block_pos s b) (blockSize s)"
    using Suc.IH n by simp_all
  have ne: "unat (blocks ! k) \<noteq> unat (blocks ! n)" if "k < n" for k
  proof -
    have "blocks ! k \<in> set (take n blocks)"
      using that n(1) by (metis in_set_conv_nth length_take less_imp_le min_absorb2 nth_take)
    then show ?thesis using n(3) by (metis word_unat_eq_iff)
  qed
  have "b \<noteq> unat (blocks ! n) \<and> b \<notin> unat ` set (take n blocks)" if "b \<notin> unat ` set (take (Suc n) blocks)" for b
    using that n(1) by (auto simp: take_Suc_conv_app_nth)
  with IH ne show ?case
    unfolding step put_one_bytes [OF fits] by (auto simp: less_Suc_eq)
qed simp

text \<open>
  The blocks of a file are all different, and none of its data blocks is one of its pointer
  blocks.
\<close>

definition blocks_apart :: "ext2_sys \<Rightarrow> Ext2Inode \<Rightarrow> bool" where
  "blocks_apart s ino \<longleftrightarrow>
     (\<forall>k < file_blocks_max s. \<forall>k' < file_blocks_max s. block_of s ino k \<noteq> 0 \<and> block_of s ino k = block_of s ino k' \<longrightarrow> k = k') \<and>
     (\<forall>k < file_blocks_max s. block_of s ino k \<noteq> 0 \<longrightarrow> block_of s ino k \<notin> ptr_set s ino)"

lemma block_of_cong:
  assumes "blockSize s' = blockSize s" "\<forall>b \<in> ptr_set s ino. block_bytes s' (unat b) = block_bytes s (unat b)"
  shows "k < file_blocks_max s \<Longrightarrow> block_of s' ino k = block_of s ino k" "ptr_set s' ino = ptr_set s ino"
proof -
  let ?i = "\<lambda>j. unat (i_blocks ino ! j)" and ?p = "blockSize s div 4"
  have iw: "ind_words s' (unat b) = ind_words s (unat b)" if "b \<in> ptr_set s ino" for b
    using that assms(2) by (simp add: ind_words_def)
  have i12: "ind_words s' (?i 12) = ind_words s (?i 12)" if "i_blocks ino ! 12 \<noteq> 0"
    using that by (intro iw) (simp add: ptr_set_def)
  have i13: "ind_words s' (?i 13) = ind_words s (?i 13)" if "i_blocks ino ! 13 \<noteq> 0"
    using that by (intro iw) (simp add: ptr_set_def)
  show "ptr_set s' ino = ptr_set s ino"
    using i13 by (auto simp: ptr_set_def)
  assume k: "k < file_blocks_max s"
  show "block_of s' ino k = block_of s ino k"
  proof (cases "12 + ?p \<le> k \<and> i_blocks ino ! 13 \<noteq> 0")
    case True
    let ?q = "ind_words s (?i 13) ! ((k - 12 - ?p) div ?p)"
    have "(k - 12 - ?p) div ?p < ?p"
      using k True by (intro less_mult_imp_div_less) (auto simp: file_blocks_max_def)
    then have "ind_words s' (unat ?q) = ind_words s (unat ?q)" if "?q \<noteq> 0"
      using that True by (intro iw) (simp add: ptr_set_def)
    with True i13 show ?thesis
      by (simp add: block_of_def Let_def assms(1))
  qed (use i12 in \<open>auto simp: block_of_def Let_def assms(1)\<close>)
qed


text \<open>
  \<open>written s s' ino p xs\<close>: \<open>s'\<close> is \<open>s\<close> with the bytes \<open>xs\<close> at position \<open>p\<close> of the file, and no block
  of the disk changed but the data blocks of that range.
\<close>

definition written :: "ext2_sys \<Rightarrow> ext2_sys \<Rightarrow> Ext2Inode \<Rightarrow> nat \<Rightarrow> byte list \<Rightarrow> bool" where
  "written s s' ino p xs \<longleftrightarrow> (\<exists>d. s' = s\<lparr>dev := d\<rparr> \<and> sata d = sata (dev s)) \<and>
     (\<forall>b. b \<notin> (\<lambda>k. unat (block_of s ino k)) ` {p div blockSize s..(p + length xs - 1) div blockSize s} \<longrightarrow>
        block_bytes s' b = block_bytes s b) \<and>
     (\<forall>q. q div blockSize s < file_blocks_max s \<and> block_of s ino (q div blockSize s) \<noteq> 0 \<longrightarrow>
        file_byte s' ino q = (if p \<le> q \<and> q < p + length xs then xs ! (q - p) else file_byte s ino q))"

lemma written_frame:
  assumes "written s s' ino p xs" "blocks_apart s ino" "filled s ino p (length xs)"
  shows "blockSize s' = blockSize s" "ext2_wf s' = ext2_wf s" "foundObjs s' = foundObjs s" "cacheObjs s' = cacheObjs s"
    "firstObject s' = firstObject s" "next_ptr s' = next_ptr s"
    "k < file_blocks_max s \<Longrightarrow> block_of s' ino k = block_of s ino k" "ptr_set s' ino = ptr_set s ino"
    "file_blocks_max s' = file_blocks_max s" "nblocks s' = nblocks s" "block_pos s' = block_pos s"
    "b \<in> ptr_set s ino \<Longrightarrow> block_bytes s' (unat b) = block_bytes s (unat b)"
proof -
  from assms(1) obtain d where s': "s' = s\<lparr>dev := d\<rparr>" "sata d = sata (dev s)"
    and other: "\<forall>b. b \<notin> (\<lambda>k. unat (block_of s ino k)) ` {p div blockSize s..(p + length xs - 1) div blockSize s} \<longrightarrow>
        block_bytes s' b = block_bytes s b"
    unfolding written_def by blast
  show bs: "blockSize s' = blockSize s" "ext2_wf s' = ext2_wf s" "foundObjs s' = foundObjs s" "cacheObjs s' = cacheObjs s"
    "firstObject s' = firstObject s" "next_ptr s' = next_ptr s"
    "file_blocks_max s' = file_blocks_max s" "nblocks s' = nblocks s" "block_pos s' = block_pos s"
    using s' by (simp_all add: ext2_wf_def locks_free_def file_blocks_max_def)
  have ptr: "block_bytes s' (unat b) = block_bytes s (unat b)" if "b \<in> ptr_set s ino" for b
  proof -
    have "unat b \<noteq> unat (block_of s ino k)" if "k \<in> {p div blockSize s..(p + length xs - 1) div blockSize s}" for k
    proof -
      have "k < file_blocks_max s" "block_of s ino k \<noteq> 0"
        using that assms(3) by (auto simp: filled_def)
      then have "b \<noteq> block_of s ino k"
        using assms(2) \<open>b \<in> ptr_set s ino\<close> by (auto simp: blocks_apart_def)
      then show ?thesis by (metis word_unat_eq_iff)
    qed
    then show ?thesis using other by blast
  qed
  then show "b \<in> ptr_set s ino \<Longrightarrow> block_bytes s' (unat b) = block_bytes s (unat b)" .
  from block_of_cong [OF bs(1)] ptr
  show "k < file_blocks_max s \<Longrightarrow> block_of s' ino k = block_of s ino k" "ptr_set s' ino = ptr_set s ino"
    by blast+
qed

lemma written_fd_ok:
  assumes "written s s' ino p xs" "blocks_apart s ino" "filled s ino p (length xs)" "ext2_geom s" "ino = fd_inode fd"
  shows "fd_ok s fd \<Longrightarrow> fd_ok s' fd" "blocks_apart s' ino" "filled s ino q m \<Longrightarrow> filled s' ino q m"
    "look_ok s ino c \<Longrightarrow> look_ok s' ino c" 
proof -
  note f = written_frame [OF assms(1-3)]
  from assms(1) obtain d where s': "s' = s\<lparr>dev := d\<rparr>" unfolding written_def by blast
  have L: "BLOCK_TO_LBA s' = BLOCK_TO_LBA s" by (simp add: s')
  have cached: "cached_ok s' lba ws"
    if "cached_ok s lba ws" "lba \<in> insert 0 ((\<lambda>b. BLOCK_TO_LBA s 0 (unat b)) ` ptr_set s ino)" for lba ws
  proof (cases "lba = 0")
    case False
    with that(2) obtain b where b: "b \<in> ptr_set s ino" "lba = BLOCK_TO_LBA s 0 (unat b)" by auto
    have "dev_seg (dev s') (lba * SECTOR_SIZE) (blockSize s) = dev_seg (dev s) (lba * SECTOR_SIZE) (blockSize s)"
      using f(12) [OF b(1)] BLOCK_TO_LBA_pos [OF ext2_geom_simps(2) [OF assms(4)]] f(1,11)
      by (simp add: b(2) block_bytes_def)
    with that(1) f(1) show ?thesis by (simp add: cached_ok_def)
  qed (use that(1) f(1) in \<open>simp add: cached_ok_def\<close>)
  then show look: "look_ok s ino c \<Longrightarrow> look_ok s' ino c" for c
    unfolding look_ok_def control_ok_def control_in_def Let_def f(8) L by blast
  have iw: "ind_words s' (unat b) = ind_words s (unat b)" if "b \<in> ptr_set s ino" for b
    using f(12) [OF that] by (simp add: ind_words_def)
  then have "i_blocks ino ! 13 \<noteq> 0 \<Longrightarrow> ind_words s' (unat (i_blocks ino ! 13)) = ind_words s (unat (i_blocks ino ! 13))"
    by (simp add: ptr_set_def)
  moreover have "inode_num_ok s' = inode_num_ok s"
    by (simp add: s' fun_eq_iff inode_num_ok_def inode_group_def)
  ultimately show "fd_ok s fd \<Longrightarrow> fd_ok s' fd"
    using look [of "fd_lookup fd"] f(7,9,10) assms(5) by (auto simp: fd_ok_def ptrs_ok_def data_ok_def)
  show "blocks_apart s' ino"
    using assms(2) f(7,8,9) by (auto simp: blocks_apart_def)
  show "filled s ino q m \<Longrightarrow> filled s' ino q m"
    using f(1,7,9) by (auto simp: filled_def)
qed


lemma div_between: "a \<le> b \<Longrightarrow> b \<le> (c::nat) \<Longrightarrow> a div n \<le> b div n \<and> b div n \<le> c div n"
  by (simp add: div_le_mono)

lemma written_append:
  assumes "written s s1 ino p xs" "written s1 s2 ino (p + length xs) ys" "xs \<noteq> []" "ys \<noteq> []"
    "blocks_apart s ino" "filled s ino p (length (xs @ ys))"
  shows "written s s2 ino p (xs @ ys)"
proof -
  let ?bs = "blockSize s" and ?n = "length xs" and ?m = "length ys"
  have part: "filled s ino p ?n" using assms(6) by (intro filled_part [OF assms(6)]) auto
  note f = written_frame [OF assms(1,5) part]
  have same: "block_of s1 ino k = block_of s ino k" if "k \<le> (p + ?n + ?m - 1) div ?bs" for k
    using that assms(6) by (intro f(7)) (auto simp: filled_def add.assoc)
  have low: "p div ?bs \<le> (p + ?n) div ?bs" "(p + ?n - 1) div ?bs \<le> (p + ?n + ?m - 1) div ?bs"
    using assms(3,4) by (intro div_le_mono; simp)+
  show ?thesis
    unfolding written_def
  proof (intro conjI allI impI)
    obtain d d' where "s1 = s\<lparr>dev := d\<rparr>" "sata d = sata (dev s)" "s2 = s1\<lparr>dev := d'\<rparr>" "sata d' = sata (dev s1)"
      using assms(1,2) unfolding written_def by blast
    then show "\<exists>d. s2 = s\<lparr>dev := d\<rparr> \<and> sata d = sata (dev s)" by auto
    fix b
    assume b: "b \<notin> (\<lambda>k. unat (block_of s ino k)) ` {p div ?bs..(p + length (xs @ ys) - 1) div ?bs}"
    have "b \<notin> (\<lambda>k. unat (block_of s1 ino k)) ` {(p + ?n) div ?bs..(p + ?n + ?m - 1) div ?bs}"
      using b same low(1) by (auto simp: add.assoc)
    moreover have "b \<notin> (\<lambda>k. unat (block_of s ino k)) ` {p div ?bs..(p + ?n - 1) div ?bs}"
      using b low(2) by (auto simp: add.assoc)
    ultimately show "block_bytes s2 b = block_bytes s b"
      using assms(1,2) f(1) unfolding written_def by metis
  next
    fix q
    assume q: "q div ?bs < file_blocks_max s \<and> block_of s ino (q div ?bs) \<noteq> 0"
    then have "file_byte s1 ino q = (if p \<le> q \<and> q < p + ?n then xs ! (q - p) else file_byte s ino q)"
      using assms(1) unfolding written_def by blast
    moreover have "file_byte s2 ino q =
        (if p + ?n \<le> q \<and> q < p + ?n + ?m then ys ! (q - (p + ?n)) else file_byte s1 ino q)"
      using assms(2) q f(1,7,9) unfolding written_def by auto
    ultimately show "file_byte s2 ino q =
        (if p \<le> q \<and> q < p + length (xs @ ys) then (xs @ ys) ! (q - p) else file_byte s ino q)"
      by (auto simp: nth_append)
  qed
qed

text \<open>Writing some blocks of the file as a whole.\<close>

lemma written_blocks:
  assumes "blocks_apart s ino" "0 < blockSize s" "filled s ino p (length xs)" "xs \<noteq> []" "sata d = sata (dev s)"
    and old: "\<forall>b. b \<notin> (\<lambda>k. unat (block_of s ino k)) ` {p div blockSize s..(p + length xs - 1) div blockSize s} \<longrightarrow>
      dev_seg d (block_pos s b) (blockSize s) = block_bytes s b"
    and new: "\<forall>k i. p div blockSize s \<le> k \<and> k \<le> (p + length xs - 1) div blockSize s \<and> i < blockSize s \<longrightarrow>
      dev_seg d (block_pos s (unat (block_of s ino k))) (blockSize s) ! i =
        (let q = k * blockSize s + i in if p \<le> q \<and> q < p + length xs then xs ! (q - p) else file_byte s ino q)"
  shows "written s (s\<lparr>dev := d\<rparr>) ino p xs"
proof -
  let ?s = "s\<lparr>dev := d\<rparr>" and ?bs = "blockSize s"
  let ?K = "{p div ?bs..(p + length xs - 1) div ?bs}"
  have bb: "block_bytes ?s b = dev_seg d (block_pos s b) ?bs" for b
    by (simp add: block_bytes_def)
  have out: "unat b \<notin> (\<lambda>k. unat (block_of s ino k)) ` ?K"
    if "\<forall>k \<in> ?K. block_of s ino k \<noteq> b" for b
    using that by (metis (no_types, lifting) imageE word_unat_eq_iff)
  have K: "k < file_blocks_max s \<and> block_of s ino k \<noteq> 0" if "k \<in> ?K" for k
    using that assms(3) by (auto simp: filled_def)
  have "\<forall>b \<in> ptr_set s ino. block_bytes ?s (unat b) = block_bytes s (unat b)"
    unfolding bb using assms(1) K out old by (metis (no_types, lifting) blocks_apart_def)
  then have bo: "k < file_blocks_max s \<Longrightarrow> block_of ?s ino k = block_of s ino k" for k
    by (intro block_of_cong) auto
  have byte: "file_byte ?s ino q = (if p \<le> q \<and> q < p + length xs then xs ! (q - p) else file_byte s ino q)"
    if q: "q div ?bs < file_blocks_max s" "block_of s ino (q div ?bs) \<noteq> 0" for q
  proof -
    have e: "file_byte ?s ino q = dev_seg d (block_pos s (unat (block_of s ino (q div ?bs)))) ?bs ! (q mod ?bs)"
      by (simp add: file_byte_def bo [OF q(1)] bb)
    show ?thesis
    proof (cases "q div ?bs \<in> ?K")
      case True
      then show ?thesis
        using new [THEN spec, THEN spec, of "q div ?bs" "q mod ?bs"] assms(2) by (simp add: e)
    next
      case False
      then have "\<not> (p \<le> q \<and> q \<le> p + length xs - 1)"
        using div_between [of p q "p + length xs - 1" ?bs] by auto
      then have no: "\<not> (p \<le> q \<and> q < p + length xs)" by linarith
      have "\<forall>k \<in> ?K. block_of s ino k \<noteq> block_of s ino (q div ?bs)"
        using assms(1) K q False unfolding blocks_apart_def by metis
      then have "dev_seg d (block_pos s (unat (block_of s ino (q div ?bs)))) ?bs = block_bytes s (unat (block_of s ino (q div ?bs)))"
        using old out by blast
      then show ?thesis
        unfolding e if_not_P [OF no] by (simp add: file_byte_def)
    qed
  qed
  show ?thesis
    unfolding written_def using assms(5) old byte bb by (intro conjI) auto
qed


section \<open>The steps of a write\<close>

lemma block_data:
  assumes "fd_ok s fd" "filled s (fd_inode fd) p n" "p div blockSize s \<le> k" "k \<le> (p + n - 1) div blockSize s"
  shows "block_of s (fd_inode fd) k \<noteq> 0" "unat (block_of s (fd_inode fd) k) < nblocks s" "k < file_blocks_max s"
  using assms by (auto simp: fd_ok_def data_ok_def filled_def)

lemma write_head_run:
  fixes s dir buff
  defines "bs \<equiv> blockSize s" and "ino \<equiv> fd_inode dir" and "p \<equiv> fd_ptr dir"
    and "left \<equiv> min (blockSize s - fd_ptr dir mod blockSize s) (length buff)"
  assumes wf: "ext2_wf s" "fd_ok s dir" "blocks_apart s ino" and full: "filled s ino p left" "buff \<noteq> []"
  shows "\<exists>s' c'. write_head dir buff s = Inr ((left, dir\<lparr>fd_lookup := c', fd_ptr := p + left\<rparr>), s') \<and>
    written s s' ino p (take left buff) \<and> look_ok s ino c'"
proof -
  note geom = ext2_wf_def [THEN iffD1, OF wf(1), THEN conjunct1]
  have bs: "0 < bs"
    using block_size_ok_facts(3) [OF ext2_geom_simps(2) [OF geom]] by (simp add: bs_def)
  let ?k = "p div bs" and ?r = "p mod bs" and ?xs = "take left buff"
  have r: "?r < bs" "p = ?k * bs + ?r" using bs by simp_all
  have len: "length ?xs = left" "0 < left" "?r + left \<le> bs"
    using full(2) r(1) by (auto simp: left_def bs_def p_def)
  have "(p + left - 1) div bs = (?r + left - 1 + ?k * bs) div bs"
    using r(2) len(2) by (simp add: algebra_simps)
  also have "\<dots> = ?k + (?r + left - 1) div bs" using bs by (intro div_mult_self1) simp
  also have "\<dots> = ?k" using len bs by simp
  finally have one: "(p + left - 1) div bs = ?k" .
  note b = block_data [OF wf(2) full(1) [unfolded ino_def], folded ino_def bs_def, unfolded one, OF le_refl le_refl]
  let ?b = "unat (block_of s ino ?k)"
  from ext2BlockFetch_run [of s "fd_inodeNum dir" ino "fd_lookup dir" ?k] obtain c' where
    c': "ext2BlockFetch ino (fd_inodeNum dir) (fd_lookup dir) ?k s = Inr ((block_of s ino ?k, c'), s)" "look_ok s ino c'"
    using geom wf(1,2) b(3) by (auto simp: fd_ok_def ino_def look_ok_def ext2_wf_def locks_free_def inode_num_ok_def)
  let ?new = "blit (block_bytes s ?b) ?r ?xs"
  have "length ?new = bs" using len by (simp add: bs_def)
  let ?d = "dev_patch (dev s) (block_pos s ?b) ?new"
  have run: "write_head dir buff s = Inr ((left, dir\<lparr>fd_lookup := c', fd_ptr := p + left\<rparr>), s\<lparr>dev := ?d\<rparr>)"
    unfolding write_head_def Let_def left_def [symmetric]
    using c'(1) get_block_run [OF geom b(2)] set_block_run [OF geom b(2), of ?new] \<open>length ?new = bs\<close> len(1,3)
    by (simp add: bnd_run andthen_run lift_run ret_run wr_def flip: bs_def ino_def p_def)
  have "written s (s\<lparr>dev := ?d\<rparr>) ino p ?xs"
  proof (rule written_blocks [OF wf(3)])
    show "filled s ino p (length ?xs)" using full(1) len(1) by simp
    show "0 < blockSize s" "?xs \<noteq> []" "sata ?d = sata (dev s)" using bs len by (auto simp: bs_def)
    show "\<forall>b. b \<notin> (\<lambda>k. unat (block_of s ino k)) ` {p div blockSize s..(p + length ?xs - 1) div blockSize s} \<longrightarrow>
        dev_seg ?d (block_pos s b) (blockSize s) = block_bytes s b"
    proof (intro allI impI)
      fix b
      assume "b \<notin> (\<lambda>k. unat (block_of s ino k)) ` {p div blockSize s..(p + length ?xs - 1) div blockSize s}"
      then have "b \<noteq> ?b" using one len(1) by (simp flip: bs_def)
      then show "dev_seg ?d (block_pos s b) (blockSize s) = block_bytes s b"
        using write_pos_apart [of b ?b s] \<open>length ?new = bs\<close> unfolding bs_def block_bytes_def [of s b]
        by (intro dev_seg_patch_other) linarith
    qed
    show "\<forall>k i. p div blockSize s \<le> k \<and> k \<le> (p + length ?xs - 1) div blockSize s \<and> i < blockSize s \<longrightarrow>
      dev_seg ?d (block_pos s (unat (block_of s ino k))) (blockSize s) ! i =
        (let q = k * blockSize s + i in if p \<le> q \<and> q < p + length ?xs then ?xs ! (q - p) else file_byte s ino q)"
    proof (intro allI impI)
      fix k i
      assume "p div blockSize s \<le> k \<and> k \<le> (p + length ?xs - 1) div blockSize s \<and> i < blockSize s"
      then have k: "k = ?k" "i < bs" using one len(1) by (auto simp flip: bs_def)
      have "dev_seg ?d (block_pos s ?b) (blockSize s) ! i = ?new ! i"
        using \<open>length ?new = bs\<close> by (simp add: bs_def del: length_blit)
      also have "\<dots> = (if ?r \<le> i \<and> i < ?r + left then ?xs ! (i - ?r) else block_bytes s ?b ! i)"
        using k len by (subst nth_blit) (auto simp: bs_def)
      also have "\<dots> = (let q = ?k * bs + i in if p \<le> q \<and> q < p + length ?xs then ?xs ! (q - p) else file_byte s ino q)"
      proof -
        have "file_byte s ino (?k * bs + i) = block_bytes s ?b ! i"
          using k(2) by (simp add: file_byte_def flip: bs_def)
        moreover have "(p \<le> ?k * bs + i) = (?r \<le> i)" "(?k * bs + i < p + left) = (i < ?r + left)" "?k * bs + i - p = i - ?r"
          using r(2) by linarith+
        ultimately show ?thesis unfolding Let_def len(1) by (simp only:)
      qed
      finally show "dev_seg ?d (block_pos s (unat (block_of s ino k))) (blockSize s) ! i =
        (let q = k * blockSize s + i in if p \<le> q \<and> q < p + length ?xs then ?xs ! (q - p) else file_byte s ino q)"
        by (simp only: k(1) bs_def)
    qed
  qed
  with run c'(2) show ?thesis by blast
qed


text \<open>The buffer of the aligned part: the bytes to write, then what the last block had behind them.\<close>

lemma body_buffer:
  fixes rest first last :: "byte list"
  assumes "length first = bs" "length last = bs" "n * bs \<le> length tmp" "0 < n" "length rest \<le> n * bs"
    "(n - 1) * bs < length rest" "n = 1 \<Longrightarrow> first = last"
  defines "t1 \<equiv> blit tmp 0 first" and "t2 \<equiv> (if 0 < n - 1 then blit (blit tmp 0 first) ((n - 1) * bs) last else blit tmp 0 first)"
  shows "length t1 = length tmp" "length t2 = length tmp" "bs \<le> length tmp" "(n - 1) * bs + bs \<le> length tmp"
    "q < n * bs \<Longrightarrow> blit t2 0 rest ! q = (if q < length rest then rest ! q else last ! (q - (n - 1) * bs))"
proof -
  obtain m where m: "n = Suc m" using assms(4) by (cases n) auto
  then show le: "(n - 1) * bs + bs \<le> length tmp" using assms(3) by simp
  then show l1: "bs \<le> length tmp" by linarith
  then show t1: "length t1 = length tmp" unfolding t1_def using assms(1) by simp
  then show t2: "length t2 = length tmp" unfolding t2_def t1_def using assms(2) le by (simp add: add.commute)
  assume q: "q < n * bs"
  have "blit t2 0 rest ! q = (if q < length rest then rest ! q else t2 ! q)"
    using q assms(3,5) t2 by (subst nth_blit) auto
  moreover have "t2 ! q = last ! (q - (n - 1) * bs)" if "\<not> q < length rest"
  proof -
    have big: "(n - 1) * bs \<le> q" "q < (n - 1) * bs + bs" "q < length tmp" using that assms(6) q m le by auto
    show ?thesis
    proof (cases "0 < n - 1")
      case True
      then show ?thesis
        unfolding t2_def if_P [OF True] using big assms(2) le t1 [unfolded t1_def] by (subst nth_blit) auto
    next
      case False
      then have "n = 1" using m by simp
      then show ?thesis
        unfolding t2_def if_not_P [OF False] using big assms l1 by (subst nth_blit) auto
    qed
  qed
  ultimately show "blit t2 0 rest ! q = (if q < length rest then rest ! q else last ! (q - (n - 1) * bs))" by simp
qed


lemma fill_blocks_none:
  assumes "0 \<notin> set blocks"
  shows "fill_blocks dir first blocks s = Inr ((blocks, dir), s)"
proof -
  have "find (\<lambda>i. blocks ! i = 0) [0..<length blocks] = None"
    using assms by (auto simp: find_None_iff in_set_conv_nth)
  then show ?thesis by (simp add: fill_blocks_def)
qed

text \<open>The blocks of an aligned range, as the chain lists them.\<close>

lemma range_blocks:
  fixes s dir first xs
  defines "bs \<equiv> blockSize s" and "n \<equiv> CEILING_DIVISION (length xs) (blockSize s)"
    and "blocks \<equiv> map (block_of s (fd_inode dir)) [first..<first + CEILING_DIVISION (length xs) (blockSize s)]"
  assumes wf: "ext2_wf s" "fd_ok s dir" "blocks_apart s (fd_inode dir)"
    and full: "filled s (fd_inode dir) (first * bs) (length xs)" "xs \<noteq> []"
  shows "0 < n" "length xs \<le> n * bs" "(n - 1) * bs < length xs" "(first * bs + length xs - 1) div bs = first + n - 1"
    "first + (n - 1) < file_blocks_max s" "distinct blocks" "length blocks = n"
    "\<forall>j < n. blocks ! j \<noteq> 0 \<and> unat (blocks ! j) < nblocks s" "k < n \<Longrightarrow> blocks ! k = block_of s (fd_inode dir) (first + k)"
    "0 < bs" "set blocks = block_of s (fd_inode dir) ` {first..<first + n}"
proof -
  note geom = ext2_wf_def [THEN iffD1, OF wf(1), THEN conjunct1]
  show bs: "0 < bs"
    using block_size_ok_facts(3) [OF ext2_geom_simps(2) [OF geom]] by (simp add: bs_def)
  show le: "length xs \<le> n * bs" unfolding n_def bs_def using bs [unfolded bs_def] by (rule CEILING_DIVISION_ge)
  have ub: "n * bs < length xs + bs" unfolding n_def bs_def using bs [unfolded bs_def] by (rule CEILING_DIVISION_le)
  show n: "0 < n" using le full(2) by (cases n) auto
  then obtain m where m: "n = Suc m" by (cases n) auto
  show lt: "(n - 1) * bs < length xs" using ub m by simp
  have "(first * bs + length xs - 1) div bs = (length xs - 1 + first * bs) div bs"
    using full(2) by (simp add: Suc_leI add.commute)
  also have "\<dots> = first + (length xs - 1) div bs" using bs by (intro div_mult_self1) simp
  also have "(length xs - 1) div bs = n - 1"
    using lt le m full(2) by (intro div_nat_eqI) (auto simp: mult.commute)
  finally show last: "(first * bs + length xs - 1) div bs = first + n - 1" using n by simp
  have k: "block_of s (fd_inode dir) k \<noteq> 0 \<and> unat (block_of s (fd_inode dir) k) < nblocks s \<and> k < file_blocks_max s"
    if "first \<le> k" "k < first + n" for k
    using block_data [OF wf(2) full(1), of k] that last bs by (auto simp flip: bs_def)
  from k [of "first + (n - 1)"] n show "first + (n - 1) < file_blocks_max s" by simp
  show len: "length blocks = n" by (simp add: blocks_def n_def)
  show nth: "k < n \<Longrightarrow> blocks ! k = block_of s (fd_inode dir) (first + k)" for k
    by (simp add: blocks_def n_def)
  then show "\<forall>j < n. blocks ! j \<noteq> 0 \<and> unat (blocks ! j) < nblocks s" using k by simp
  show "set blocks = block_of s (fd_inode dir) ` {first..<first + n}" by (simp add: blocks_def n_def)
  show "distinct blocks"
    unfolding blocks_def distinct_map n_def [symmetric]
    using wf(3) k by (auto simp: inj_on_def blocks_apart_def)
qed


lemma write_body_run:
  fixes s dir first rest
  defines "bs \<equiv> blockSize s" and "ino \<equiv> fd_inode dir"
  assumes wf: "ext2_wf s" "fd_ok s dir" "blocks_apart s ino" and full: "filled s ino (first * bs) (length rest)" "rest \<noteq> []"
  shows "\<exists>s' c'. write_body fresh dir first rest s =
      Inr (dir\<lparr>fd_lookup := c', fd_ptr := fd_ptr dir + length rest\<rparr>, s') \<and>
    written s s' ino (first * bs) rest \<and> look_ok s ino c'"
proof -
  note geom = ext2_wf_def [THEN iffD1, OF wf(1), THEN conjunct1]
  define n where "n = CEILING_DIVISION (length rest) bs"
  define blocks where "blocks = map (block_of s ino) [first..<first + n]"
  note rb = range_blocks [OF wf(1,2) wf(3) [unfolded ino_def] full(1) [unfolded bs_def ino_def] full(2),
      folded bs_def ino_def, folded n_def, folded blocks_def]
  from ext2BlockChain_run [of s dir first "n - 1"] wf(1,2) rb(1,5) obtain c' where
    c': "ext2BlockChain dir first (n - 1) s = Inr ((blocks, dir\<lparr>fd_lookup := c'\<rparr>), s)" "look_ok s ino c'"
    by (auto simp: fd_ok_def look_ok_def ino_def blocks_def)
  have nz: "0 \<notin> set blocks" using rb(7,8) by (metis in_set_conv_nth)
  let ?tmp = "fresh_pages fresh (CEILING_DIVISION ((n + 1) * bs) BLOCK_SIZE)"
  let ?B = "\<lambda>k. block_bytes s (unat (blocks ! k))"
  have "n * bs \<le> length ?tmp"
    using length_fresh_pages [of "(n + 1) * bs" fresh] by simp
  note bb = body_buffer [of "?B 0" bs "?B (n - 1)" n ?tmp rest, OF _ _ this rb(1-3)]
  define t2 where "t2 = (if 0 < n - 1 then blit (blit ?tmp 0 (?B 0)) ((n - 1) * bs) (?B (n - 1)) else blit ?tmp 0 (?B 0))"
  let ?t = "blit t2 0 rest"
  have t2: "length t2 = length ?tmp" "q < n * bs \<Longrightarrow> ?t ! q = (if q < length rest then rest ! q else ?B (n - 1) ! (q - (n - 1) * bs))" for q
    using bb(2,5) rb(1) by (auto simp: t2_def bs_def)
  have len: "length ?t = length ?tmp" "n * bs \<le> length ?t" using t2(1) rb(2) \<open>n * bs \<le> length ?tmp\<close> by auto
  let ?d = "foldl (put_one s blocks ?t) (dev s) [0..<n]"
  have loop: "write_loop n blocks 0 None 0 ?t s = Inr ((), s\<lparr>dev := ?d\<rparr>)"
    using rb(7,8) len(2) by (intro write_loop_run [OF geom]) (auto simp: consec_def bs_def)
  have run: "write_body fresh dir first rest s =
      Inr (dir\<lparr>fd_lookup := c', fd_ptr := fd_ptr dir + length rest\<rparr>, s\<lparr>dev := ?d\<rparr>)"
  proof -
    have g: "get_sectors (BLOCK_TO_LBA s 0 (unat (blocks ! k))) (bs div SECTOR_SIZE) s = Inr (?B k, s)" if "k < n" for k
      unfolding bs_def using rb(8) that by (intro get_block_run [OF geom]) simp
    have w1: "wr ?tmp 0 (?B 0) = Inr (blit ?tmp 0 (?B 0))" and w3: "wr t2 0 rest = Inr ?t"
      using bb(3) t2(1) rb(2) \<open>n * bs \<le> length ?tmp\<close> by (auto simp: wr_def bs_def)
    have mid: "(if 0 < n - 1
          then bnd (get_sectors (BLOCK_TO_LBA s 0 (unat (blocks ! (n - 1)))) (bs div SECTOR_SIZE))
            (\<lambda>b. lift (wr (blit ?tmp 0 (?B 0)) ((n - 1) * bs) b))
          else ret (blit ?tmp 0 (?B 0))) s = Inr (t2, s)"
      using g [of "n - 1"] rb(1) bb(1,4) unfolding t2_def by (auto simp: cmd_simps wr_def bs_def)
    show ?thesis
      unfolding write_body_def Let_def bs_def [symmetric] n_def [symmetric]
      by (simp only: bnd_run c'(1) fill_blocks_none [OF nz] g [OF rb(1)] lift_run w1 mid w3 andthen_run loop ret_run
          sum.case prod.case) simp
  qed
  have pf: "k < n \<Longrightarrow> dev_seg ?d (block_pos s (unat (blocks ! k))) bs = seg ?t (k * bs) bs"
    "b \<notin> unat ` set blocks \<Longrightarrow> dev_seg ?d (block_pos s b) bs = block_bytes s b" for k b
    using put_fold_bytes [of n s ?t blocks "dev s"] len(2) rb(6,7) by (simp_all add: bs_def block_bytes_def)
  have "written s (s\<lparr>dev := ?d\<rparr>) ino (first * bs) rest"
  proof (rule written_blocks [OF wf(3) _ full])
    let ?R = "{first * bs div blockSize s..(first * bs + length rest - 1) div blockSize s}"
    have R: "?R = {first..<first + n}" using rb(1,4,10) unfolding bs_def [symmetric] by auto
    show "\<forall>b. b \<notin> (\<lambda>k. unat (block_of s ino k)) ` ?R \<longrightarrow> dev_seg ?d (block_pos s b) (blockSize s) = block_bytes s b"
      unfolding R using pf(2) rb(11) by (auto simp: bs_def image_image)
    show "\<forall>k i. first * bs div blockSize s \<le> k \<and> k \<le> (first * bs + length rest - 1) div blockSize s \<and> i < blockSize s \<longrightarrow>
      dev_seg ?d (block_pos s (unat (block_of s ino k))) (blockSize s) ! i =
        (let q = k * blockSize s + i in if first * bs \<le> q \<and> q < first * bs + length rest then rest ! (q - first * bs)
         else file_byte s ino q)"
    proof (intro allI impI)
      fix k i
      assume "first * bs div blockSize s \<le> k \<and> k \<le> (first * bs + length rest - 1) div blockSize s \<and> i < blockSize s"
      then obtain j where j: "k = first + j" "j < n" "i < bs"
        using rb(1,4,10) unfolding bs_def [symmetric] by (auto simp: le_iff_add)
      then have fit: "j * bs + i < n * bs" "j * bs + bs \<le> n * bs"
        using mult_le_mono1 [of "Suc j" n bs] by auto
      have "dev_seg ?d (block_pos s (unat (block_of s ino k))) bs ! i = ?t ! (j * bs + i)"
        using pf(1) [OF j(2)] rb(9) [OF j(2)] j len(2) fit(2) by simp
      also have "\<dots> = (if j * bs + i < length rest then rest ! (j * bs + i) else file_byte s ino (k * bs + i))"
      proof (cases "j * bs + i < length rest")
        case False
        have "n - 1 \<le> j"
        proof (rule ccontr)
          assume "\<not> n - 1 \<le> j"
          then have "Suc j * bs \<le> (n - 1) * bs" by (intro mult_le_mono1) simp
          then show False using False rb(3) j(3) by simp
        qed
        then have "j = n - 1" using j(2) by simp
        then show ?thesis
          using t2(2) [OF fit(1)] False rb(9) [OF j(2)] j by (simp add: file_byte_def bs_def)
      qed (use t2(2) [OF fit(1)] in simp)
      also have "\<dots> = (let q = k * bs + i in if first * bs \<le> q \<and> q < first * bs + length rest then rest ! (q - first * bs)
         else file_byte s ino q)"
        by (simp add: j(1) Let_def add_mult_distrib)
      finally show "dev_seg ?d (block_pos s (unat (block_of s ino k))) (blockSize s) ! i =
        (let q = k * blockSize s + i in if first * bs \<le> q \<and> q < first * bs + length rest then rest ! (q - first * bs)
         else file_byte s ino q)" by (simp only: bs_def)
    qed
  qed (use rb(10) in \<open>simp_all add: bs_def\<close>)
  with run c'(2) show ?thesis by blast
qed


text \<open>The part up to the first block boundary and the rest, together.\<close>

definition write_parts :: "(nat \<Rightarrow> byte) \<Rightarrow> Ext2OpenFd \<Rightarrow> byte list \<Rightarrow> Ext2OpenFd ext2_cmd" where
  "write_parts fresh dir buff = (\<lambda>s.
     let inside = (0 < fd_ptr dir mod blockSize s);
         first = fd_ptr dir div blockSize s + (if inside then 1 else 0) in
     bnd (if inside then write_head dir buff else ret (0, dir)) (\<lambda>(left, dir2).
     if left < length buff then write_body fresh dir2 first (drop left buff) else ret dir2) s)"

lemma bnd_head: "m s = m' s \<Longrightarrow> bnd m k s = bnd m' k s"
  by (simp add: bnd_def)

lemma bnd_assoc: "bnd (bnd m f) k s = bnd m (\<lambda>x. bnd (f x) k) s"
  by (cases "m s") (auto simp: bnd_def)

lemma write_parts_bnd:
  fixes dir s
  defines "inside \<equiv> 0 < fd_ptr dir mod blockSize s"
  shows "bnd (write_parts fresh dir buff) k s =
    bnd (if inside then write_head dir buff else ret (0, dir)) (\<lambda>(left, dir2).
    bnd (if left < length buff then write_body fresh dir2 (fd_ptr dir div blockSize s + (if inside then 1 else 0)) (drop left buff)
         else ret dir2) k) s"
proof -
  have "bnd (write_parts fresh dir buff) k s =
    bnd (bnd (if inside then write_head dir buff else ret (0, dir)) (\<lambda>(left, dir2).
      if left < length buff then write_body fresh dir2 (fd_ptr dir div blockSize s + (if inside then 1 else 0)) (drop left buff)
      else ret dir2)) k s"
    by (rule bnd_head) (simp only: write_parts_def inside_def Let_def)
  then show ?thesis by (simp add: bnd_assoc case_prod_unfold)
qed

lemma write_parts_run:
  fixes s dir buff
  defines "ino \<equiv> fd_inode dir" and "p \<equiv> fd_ptr dir"
  assumes wf: "ext2_wf s" "fd_ok s dir" "blocks_apart s ino" and full: "filled s ino p (length buff)" "buff \<noteq> []"
  shows "\<exists>s' c'. write_parts fresh dir buff s = Inr (dir\<lparr>fd_lookup := c', fd_ptr := p + length buff\<rparr>, s') \<and>
    written s s' ino p buff \<and> look_ok s' ino c'"
proof -
  let ?bs = "blockSize s" and ?r = "p mod blockSize s"
  note geom = ext2_wf_def [THEN iffD1, OF wf(1), THEN conjunct1]
  show ?thesis
  proof (cases "0 < ?r")
    case False
    then have al: "p div ?bs * ?bs = p" by (simp add: mod_0_imp_dvd)
    from write_body_run [of s dir "p div ?bs" buff fresh] wf full al obtain s' c' where
      "write_body fresh dir (p div ?bs) buff s = Inr (dir\<lparr>fd_lookup := c', fd_ptr := p + length buff\<rparr>, s')"
      "written s s' ino p buff" "look_ok s ino c'"
      by (auto simp: ino_def p_def)
    moreover from this have "look_ok s' ino c'"
      using written_fd_ok(4) [of s s' ino p buff dir] wf(3) full(1) geom by (simp add: ino_def)
    ultimately show ?thesis
      using False full(2) by (auto simp: write_parts_def cmd_simps p_def)
  next
    case in_block: True
    define left where "left = min (?bs - ?r) (length buff)"
    have r: "?r < ?bs" using block_size_ok_facts(3) [OF ext2_geom_simps(2) [OF geom]] by simp
    have left: "0 < left" "left \<le> length buff" using r full(2) by (auto simp: left_def)
    have part: "filled s ino p left" using left by (intro filled_part [OF full(1)]) auto
    from write_head_run [of s dir buff] wf part full(2) obtain s1 c1 where
      h: "write_head dir buff s = Inr ((left, dir\<lparr>fd_lookup := c1, fd_ptr := p + left\<rparr>), s1)"
      "written s s1 ino p (take left buff)" "look_ok s ino c1"
      by (auto simp: ino_def p_def left_def)
    let ?dir = "dir\<lparr>fd_lookup := c1, fd_ptr := p + left\<rparr>"
    have part': "filled s ino p (length (take left buff))" using part left by (simp add: min_def)
    note f = written_frame [OF h(2) wf(3) part'] and ok = written_fd_ok [OF h(2) wf(3) part' geom]
    show ?thesis
    proof (cases "left < length buff")
      case False
      then have "left = length buff" using left by simp
      with h ok(4) [OF _ h(3)] in_block show ?thesis
        by (auto simp: write_parts_def cmd_simps p_def ino_def)
    next
      case more: True
      let ?rest = "drop left buff"
      have "left = ?bs - ?r" using more by (auto simp: left_def)
      then have al: "(p div ?bs + 1) * ?bs = p + left"
        using r div_mult_mod_eq [of p ?bs] unfolding add_mult_distrib nat_mult_1 by linarith
      have "fd_ok s ?dir" using wf(2) h(3) by (simp add: fd_ok_def ino_def)
      then have dir: "fd_ok s1 ?dir" using ok(1) [of ?dir] by (simp add: ino_def)
      have rest: "filled s ino (p + left) (length ?rest)" "?rest \<noteq> []"
        using more by (auto intro!: filled_part [OF full(1)])
      from write_body_run [of s1 ?dir "p div ?bs + 1" ?rest fresh] f(1,2) wf(1) dir ok(2,3) rest al obtain s' c' where
        b: "write_body fresh ?dir (p div ?bs + 1) ?rest s1 =
          Inr (?dir\<lparr>fd_lookup := c', fd_ptr := p + left + length ?rest\<rparr>, s')"
          "written s1 s' ino (p + left) ?rest" "look_ok s1 ino c'"
        by (auto simp: ino_def)
      have tl: "length (take left buff) = left" "take left buff \<noteq> []" using left by auto
      have "written s s' ino p (take left buff @ ?rest)"
        using h(2) b(2) tl rest(2) wf(3) full(1) left by (intro written_append) auto
      moreover have "look_ok s' ino c'"
        using written_fd_ok(4) [of s1 s' ino "p + left" ?rest dir c'] b(2,3) ok(2,3) rest(1) geom f(2) wf(1)
        by (auto simp: ino_def ext2_wf_def)
      moreover have "p + left + length ?rest = p + length buff" using left by simp
      ultimately show ?thesis
        using h(1) b(1) in_block more by (auto simp: write_parts_def cmd_simps p_def)
    qed
  qed
qed


section \<open>The write operation\<close>

text \<open>The file system proper does not depend on the objects in use.\<close>

lemma obj_frame:
  fixes s F f
  defines "t \<equiv> s\<lparr>firstObject := f, foundObjs := F\<rparr>"
  shows "ext2_wf t = ext2_wf s" "fd_ok t = fd_ok s" "blocks_apart t = blocks_apart s" "filled t = filled s"
    "block_of t = block_of s" "block_bytes t = block_bytes s" "blockSize t = blockSize s" "file_byte t = file_byte s"
    "file_blocks_max t = file_blocks_max s" "look_ok t = look_ok s" "cacheObjs t = cacheObjs s" "next_ptr t = next_ptr s"
    "dev t = dev s"
proof -
  show bo: "block_of t = block_of s" "block_bytes t = block_bytes s" "blockSize t = blockSize s"
    "file_blocks_max t = file_blocks_max s" "cacheObjs t = cacheObjs s" "next_ptr t = next_ptr s" "dev t = dev s"
    by (simp_all add: t_def fun_eq_iff block_of_def ind_words_def block_bytes_def Let_def file_blocks_max_def)
  show "file_byte t = file_byte s" "filled t = filled s"
    by (simp_all add: fun_eq_iff file_byte_def filled_def bo)
  have ps: "ptr_set t = ptr_set s" by (simp add: fun_eq_iff ptr_set_def ind_words_def bo)
  then show "blocks_apart t = blocks_apart s" by (simp add: fun_eq_iff blocks_apart_def bo)
  have "control_ok t = control_ok s" "BLOCK_TO_LBA t = BLOCK_TO_LBA s"
    by (simp_all add: t_def fun_eq_iff control_ok_def cached_ok_def)
  with ps show lk: "look_ok t = look_ok s" by (simp add: fun_eq_iff look_ok_def control_in_def)
  have "ptrs_ok t = ptrs_ok s" "inode_num_ok t = inode_num_ok s" "nblocks t = nblocks s"
    by (simp_all add: t_def fun_eq_iff ptrs_ok_def inode_num_ok_def ind_words_def block_bytes_def inode_group_def)
  with lk bo show "fd_ok t = fd_ok s" by (simp add: fun_eq_iff fd_ok_def data_ok_def)
  show "ext2_wf t = ext2_wf s" by (simp add: t_def ext2_wf_def locks_free_def)
qed

lemma file_ready_objects:
  assumes "file_ready s dir ps"
  obtains F x where "ext2CachePush dir s = Inr ((), s\<lparr>foundObjs := F, firstObject := globalObject dir\<rparr>)"
    "F (globalObject dir) = Some x" "WLOCK_FILE x = 0" "WLOCK_CACHE x = 0" "F 0 = None"
    "\<exists>xs. dlist (flinks F) (globalObject dir) xs \<and> globalObject dir \<in> set xs"
proof -
  let ?g = "globalObject dir"
  from assms obtain xs x where r: "ext2_wf s" "dlist (flinks (foundObjs s)) (firstObject s) xs" "?g \<in> set xs"
    "foundObjs s 0 = None" "foundObjs s ?g = Some x" "WLOCK_CACHE x = 0" "WLOCK_FILE x = 0"
    by (auto simp: file_ready_def read_state_def)
  have "\<not> LOCK_OBJECT s" using r(1) by (simp add: ext2_wf_def locks_free_def)
  from cache_push_run [OF r(2-4) this] obtain F where
    F: "ext2CachePush dir s = Inr ((), s\<lparr>foundObjs := F, firstObject := ?g\<rparr>)"
      "dlist (flinks F) ?g (?g # remove1 ?g xs)" "\<forall>z. map_option fdata (F z) = map_option fdata (foundObjs s z)"
    by blast
  from F(3) [THEN spec, of ?g] r(5) obtain y where y: "F ?g = Some y" "fdata y = fdata x"
    by (auto simp: map_option_eq_Some)
  have "WLOCK_FILE y = WLOCK_FILE x" "WLOCK_CACHE y = WLOCK_CACHE x"
    using arg_cong [OF y(2), of WLOCK_FILE] arg_cong [OF y(2), of WLOCK_CACHE] by (simp_all add: fdata_def)
  moreover have "F 0 = None" using F(3) [THEN spec, of 0] r(4) by simp
  ultimately show ?thesis
    using that [of F y] F(1,2) y(1) r(6,7) by (metis list.set_intros(1))
qed

text \<open>
  Write, with the transfer in one piece. The position given back is that of \<open>O_APPEND\<close>
  descriptors before the call.
\<close>

lemma ext2Write_unfold:
  assumes "file_ready s dir ps" "\<not> dir_bit (fd_inode dir)" "\<not> has_flag flags O_APPEND"
  obtains F x where "F (globalObject dir) = Some x" "WLOCK_FILE x = 0" "WLOCK_CACHE x = 0" "firstCacheObj x = 0" "F 0 = None"
    "\<exists>xs. dlist (flinks F) (globalObject dir) xs \<and> globalObject dir \<in> set xs"
    "ext2Write fresh flags dir buff s =
      bnd (write_parts fresh dir buff) (\<lambda>dir3. bnd (write_size dir3) (\<lambda>dir4.
        andthen (file_lock spinlock_cnt_write_release (globalObject dir)) (ret (of_nat (length buff), dir4))))
      (s\<lparr>firstObject := globalObject dir, foundObjs := F(globalObject dir \<mapsto> x\<lparr>WLOCK_FILE := - 1\<rparr>)\<rparr>)"
proof -
  let ?g = "globalObject dir"
  from file_ready_objects [OF assms(1)] obtain F x where
    F: "ext2CachePush dir s = Inr ((), s\<lparr>foundObjs := F, firstObject := ?g\<rparr>)" "F ?g = Some x" "WLOCK_FILE x = 0"
      "WLOCK_CACHE x = 0" "F 0 = None" "\<exists>xs. dlist (flinks F) ?g xs \<and> ?g \<in> set xs" by metis
  let ?x = "x\<lparr>firstCacheObj := 0\<rparr>"
  have x: "x\<lparr>firstCacheObj := 0, WLOCK_CACHE := 0, WLOCK_FILE := - 1\<rparr> = x\<lparr>firstCacheObj := 0, WLOCK_FILE := - 1\<rparr>"
    using F(4) by (cases x) simp
  show ?thesis
  proof (rule that [of "F(?g \<mapsto> ?x)" ?x])
    have "flinks (F(?g \<mapsto> ?x)) = flinks F" using F(2) by (auto simp: flinks_def fun_eq_iff)
    then show "\<exists>xs. dlist (flinks (F(?g \<mapsto> ?x))) ?g xs \<and> ?g \<in> set xs" using F(6) by simp
    then show "(F(?g \<mapsto> ?x)) 0 = None" using F(5) dlist_nodes by fastforce
    show "ext2Write fresh flags dir buff s =
      bnd (write_parts fresh dir buff) (\<lambda>dir3. bnd (write_size dir3) (\<lambda>dir4.
        andthen (file_lock spinlock_cnt_write_release ?g) (ret (of_nat (length buff), dir4))))
      (s\<lparr>firstObject := ?g, foundObjs := (F(?g \<mapsto> ?x))(?g \<mapsto> ?x\<lparr>WLOCK_FILE := - 1\<rparr>)\<rparr>)"
      unfolding write_parts_bnd using F(1-4) assms(2,3)
      by (simp add: ext2Write_def andthen_run cache_lock_run spinlock_cnt_defs upd_found_def file_lock_run Let_def x
          cong del: if_weak_cong)
  qed (use F in simp_all)
qed


lemma write_run:
  assumes "file_ready s dir ps" "\<not> dir_bit (fd_inode dir)" "\<not> has_flag flags O_APPEND" "blocks_apart s (fd_inode dir)"
    "filled s (fd_inode dir) (fd_ptr dir) (length buff)" "buff \<noteq> []"
    "fd_ptr dir + length buff \<le> unat (i_size (fd_inode dir))"
  shows "\<exists>s' c'. ext2Write fresh flags dir buff s =
      Inr ((of_nat (length buff), dir\<lparr>fd_lookup := c', fd_ptr := fd_ptr dir + length buff\<rparr>), s') \<and>
    file_ready s' (dir\<lparr>fd_lookup := c', fd_ptr := fd_ptr dir + length buff\<rparr>) [] \<and> blocks_apart s' (fd_inode dir) \<and>
    blockSize s' = blockSize s \<and>
    (\<forall>k < file_blocks_max s. block_of s' (fd_inode dir) k = block_of s (fd_inode dir) k) \<and>
    (\<forall>q. q div blockSize s < file_blocks_max s \<and> block_of s (fd_inode dir) (q div blockSize s) \<noteq> 0 \<longrightarrow>
       file_byte s' (fd_inode dir) q =
         (if fd_ptr dir \<le> q \<and> q < fd_ptr dir + length buff then buff ! (q - fd_ptr dir)
          else file_byte s (fd_inode dir) q)) \<and>
    (\<forall>b. b \<notin> (\<lambda>k. unat (block_of s (fd_inode dir) k)) `
          {fd_ptr dir div blockSize s..(fd_ptr dir + length buff - 1) div blockSize s} \<longrightarrow>
       block_bytes s' b = block_bytes s b)"
proof -
  let ?g = "globalObject dir" and ?ino = "fd_inode dir" and ?p = "fd_ptr dir"
  obtain F x where
    F: "F ?g = Some x" "WLOCK_FILE x = 0" "WLOCK_CACHE x = 0" "firstCacheObj x = 0" "F 0 = None"
      "\<exists>xs. dlist (flinks F) ?g xs \<and> ?g \<in> set xs"
    and code: "ext2Write fresh flags dir buff s =
      bnd (write_parts fresh dir buff) (\<lambda>dir3. bnd (write_size dir3) (\<lambda>dir4.
        andthen (file_lock spinlock_cnt_write_release ?g) (ret (of_nat (length buff), dir4))))
      (s\<lparr>firstObject := ?g, foundObjs := F(?g \<mapsto> x\<lparr>WLOCK_FILE := - 1\<rparr>)\<rparr>)"
    by (rule ext2Write_unfold [OF assms(1-3), of fresh buff])
  let ?G = "F(?g \<mapsto> x\<lparr>WLOCK_FILE := - 1\<rparr>)"
  let ?s3 = "s\<lparr>firstObject := ?g, foundObjs := ?G\<rparr>"
  note o = obj_frame [where s = s and f = ?g and F = ?G]
  have r: "ext2_wf s" "fd_ok s dir" "read_state s ?ino ?g ps" using assms(1) by (auto simp: file_ready_def)
  have apart: "blocks_apart ?s3 ?ino" "filled ?s3 ?ino ?p (length buff)"
    and pre: "ext2_wf ?s3" "fd_ok ?s3 dir"
    using assms(4,5) r(1,2) unfolding o(1-4) by blast+
  from write_parts_run [OF pre apart assms(6), of fresh] obtain s4 c' where
    w: "write_parts fresh dir buff ?s3 = Inr (dir\<lparr>fd_lookup := c', fd_ptr := ?p + length buff\<rparr>, s4)"
      "written ?s3 s4 ?ino ?p buff" "look_ok s4 ?ino c'"
    by blast
  let ?dir = "dir\<lparr>fd_lookup := c', fd_ptr := ?p + length buff\<rparr>"
  note f = written_frame [OF w(2) apart]
  have geom: "ext2_geom ?s3" using r(1) o(1) by (simp add: ext2_wf_def)
  note ok = written_fd_ok [OF w(2) apart geom]
  let ?s5 = "s4\<lparr>foundObjs := F\<rparr>"
  have s5: "?s5 = s4\<lparr>firstObject := ?g, foundObjs := F\<rparr>" using f(5) by simp
  note o5 = obj_frame [where s = s4 and f = ?g and F = F, folded s5]
  have size: "write_size ?dir s4 = Inr (?dir, s4)" using assms(7) by (simp add: write_size_def)
  have unlock: "file_lock spinlock_cnt_write_release ?g s4 = Inr ((), ?s5)"
    using f(3) F(1,2) by (subst file_lock_run [of _ _ "x\<lparr>WLOCK_FILE := - 1\<rparr>"])
      (auto simp: spinlock_cnt_defs fun_upd_idem)
  have run: "ext2Write fresh flags dir buff s = Inr ((of_nat (length buff), ?dir), ?s5)"
    unfolding code by (simp add: bnd_run andthen_run ret_run w(1) size unlock)
  have "read_state ?s5 ?ino ?g []"
    using F r(3) f(4,6) by (simp add: read_state_def cache_ok_def ranges_def dlist_def)
  moreover have "fd_ok s4 ?dir"
    using ok(1) [of dir] r(2) o(2) w(3) by (simp add: fd_ok_def)
  ultimately have "file_ready ?s5 ?dir []"
    unfolding file_ready_def o5(1,2) using F f(2,5) r(1) o(1) by simp
  note ready = this
  show ?thesis
  proof (intro exI conjI)
    show "ext2Write fresh flags dir buff s = Inr ((of_nat (length buff), ?dir), ?s5)" by (fact run)
    show "file_ready ?s5 ?dir []" by (fact ready)
    show "blocks_apart ?s5 ?ino" unfolding o5(3) using ok(2) [OF refl] .
    show "blockSize ?s5 = blockSize s" unfolding o5(7) f(1) o(7) ..
    show "\<forall>k < file_blocks_max s. block_of ?s5 ?ino k = block_of s ?ino k"
      unfolding o5(5) using f(7) unfolding o(5,9) by blast
  qed (use w(2) in \<open>unfold written_def o5(6,8) o(5,6,7,8,9), blast+\<close>)
qed




end
