(* ===== verification/Ext2_Io_Demo.thy ===== *)
theory Ext2_Io_Demo
  imports Ext2_Demo Ext2_Write
begin

text \<open>
  The theorems on caching, reading and writing at work on the volume of \<open>Ext2_Demo\<close>, with the
  file \<^verbatim>\<open>/hello\<close> open: its object is at address 1, another object at address 2.
\<close>

definition demo_object :: "nat \<Rightarrow> ptr \<Rightarrow> ptr \<Rightarrow> Ext2FoundObject" where
  "demo_object inode prv nxt = \<lparr>f_next = nxt, f_prev = prv, f_inode = inode, openFds = 1, LOCK_PROP = False,
     WLOCK_FILE = 0, WLOCK_CACHE = 0, firstCacheObj = 0\<rparr>"

definition demo_open :: ext2_sys where
  "demo_open = demo_fs\<lparr>firstObject := 2, foundObjs := [1 \<mapsto> demo_object 12 2 0, 2 \<mapsto> demo_object 2 0 1], next_ptr := 3\<rparr>"

definition demo_fd :: Ext2OpenFd where
  "demo_fd = \<lparr>fd_lookup = ext2BlockFetchInit demo_fs control0, globalObject = 1, fd_ptr = 0, fd_inodeNum = 12,
     fd_inode = file_inode\<rparr>"

lemma demo_open_objects:
  "dlist (flinks (foundObjs demo_open)) (firstObject demo_open) [2, 1]" "foundObjs demo_open 0 = None"
  "\<not> LOCK_OBJECT demo_open" "foundObjs demo_open 1 = Some (demo_object 12 2 0)" "cacheObjs demo_open = (\<lambda>_. None)"
  "next_ptr demo_open = 3" "blockSize demo_open = 1024" "nblocks demo_open = 64" "dev demo_open = demo_dev"
  "block_pos demo_open = block_pos demo_fs"
  by (simp_all add: demo_open_def dlist_def flinks_def demo_object_def) (simp add: demo_fs_def)

theorem ext2CachePush_front_witness:
  "\<exists>F. ext2CachePush demo_fd demo_open = Inr ((), demo_open\<lparr>foundObjs := F, firstObject := 1\<rparr>) \<and>
     dlist (flinks F) 1 [1, 2]"
  using ext2CachePush_front [of demo_open "[2, 1]" demo_fd] demo_open_objects by (auto simp: demo_fd_def)

lemma demo_cache: "cache_ok demo_open 1 []"
  using demo_open_objects by (simp add: cache_ok_def dlist_def demo_object_def)


lemma demo_open_frame:
  "demo_open = (demo_fs\<lparr>next_ptr := 3\<rparr>)\<lparr>firstObject := 2, foundObjs := [1 \<mapsto> demo_object 12 2 0, 2 \<mapsto> demo_object 2 0 1]\<rparr>"
  by (simp add: demo_open_def)

lemma demo_open_blocks: "block_of demo_open file_inode k = (if k = 0 then 8 else 0)"
  if "k < file_blocks_max demo_open" for k
  using that by (auto simp: block_of_def file_inode_def Let_def nth_Cons')

lemma demo_open_ok: "ext2_wf demo_open" "fd_ok demo_open demo_fd" "blocks_apart demo_open file_inode"
proof -
  show "ext2_wf demo_open"
    using demo_wf(1) by (simp add: demo_open_def ext2_wf_def locks_free_def)
  have "ptr_set demo_open file_inode = {}"
    by (simp add: ptr_set_def file_inode_def)
  then show "blocks_apart demo_open file_inode"
    by (auto simp: blocks_apart_def demo_open_blocks split: if_splits)
  have "look_ok demo_open file_inode (ext2BlockFetchInit demo_fs control0)"
    by (simp add: look_ok_def control_ok_def control_in_def cached_ok_def ext2BlockFetchInit_def control0_def
        demo_open_objects Let_def)
  moreover have "data_ok demo_open file_inode"
    by (auto simp: data_ok_def demo_open_blocks demo_open_objects)
  moreover have "ptrs_ok demo_open file_inode"
    using demo_ptrs(2) by (simp add: ptrs_ok_def demo_open_def file_inode_def)
  moreover have "inode_num_ok demo_open 12"
    by (simp add: inode_num_ok_def inode_group_def demo_open_def)
  ultimately show "fd_ok demo_open demo_fd"
    by (simp add: fd_ok_def demo_fd_def)
qed

lemma demo_ready: "file_ready demo_open demo_fd []"
  unfolding file_ready_def read_state_def
  using demo_open_ok demo_open_objects demo_cache by (auto simp: demo_fd_def demo_object_def ranges_def)

lemma demo_filled: "n \<le> 5 \<Longrightarrow> filled demo_open file_inode 0 n"
  by (auto simp: filled_def demo_open_objects file_blocks_max_def demo_open_blocks)

lemma demo_contents: "file_bytes demo_open file_inode 0 5 = [119, 111, 114, 108, 100]"
proof (rule nth_equalityI)
  fix i
  assume "i < length (file_bytes demo_open file_inode 0 5)"
  then have i: "i < 5" by simp
  have "block_of demo_open file_inode 0 = 8"
    by (intro demo_open_blocks [THEN trans]) (simp_all add: file_blocks_max_def)
  then have "file_byte demo_open file_inode i = dev_bytes demo_dev (demo_base + 8 * 1024 + i)"
    using i by (simp add: file_byte_def demo_open_objects block_bytes_def)
  moreover from i consider "i = 0" | "i = 1" | "i = 2" | "i = 3" | "i = 4" by linarith
  ultimately show "file_bytes demo_open file_inode 0 5 ! i = [119, 111, 114, 108, 100] ! i"
    using i by (cases; simp add: demo_dev_def dev_bytes_patch demo_base_def)
qed simp

lemma demo_fd_fields: "fd_inode demo_fd = file_inode" "fd_ptr demo_fd = 0" "ext2GetFilesize demo_fd = 5"
  "i_size file_inode = 5" "\<not> has_flag 2 O_APPEND"
  by (simp_all add: demo_fd_def ext2GetFilesize_def unat_COMBINE_64 file_inode_def zero_inode_def dec_inode_def
      dec32_def le32_def has_flag_def O_APPEND_def)

theorem ext2Read_contents_witness:
  "\<exists>s' fd'. ext2Read (\<lambda>_. 0) (\<lambda>_ _. 0) demo_fd 100 demo_open = Inr ((5, [119, 111, 114, 108, 100], fd'), s')"
proof -
  have "\<exists>s' c' ps'. ext2Read (\<lambda>_. 0) (\<lambda>_ _. 0) demo_fd 100 demo_open =
      Inr ((of_nat 5, file_bytes demo_open (fd_inode demo_fd) (fd_ptr demo_fd) 5,
        demo_fd\<lparr>fd_lookup := c', fd_ptr := fd_ptr demo_fd + 5\<rparr>), s') \<and> dev s' = dev demo_open \<and>
    file_ready s' (demo_fd\<lparr>fd_lookup := c', fd_ptr := fd_ptr demo_fd + 5\<rparr>) ps'"
    by (rule ext2Read_contents [OF demo_ready]) (simp_all add: demo_fd_fields demo_filled)
  then show ?thesis
    unfolding demo_fd_fields demo_contents of_nat_numeral by blast
qed

lemma demo_write:
  "\<not> dir_bit (fd_inode demo_fd)" "\<not> has_flag 2 O_APPEND" "blocks_apart demo_open (fd_inode demo_fd)"
  "filled demo_open (fd_inode demo_fd) (fd_ptr demo_fd) (length [1, 2, 3 :: byte])" "[1, 2, 3 :: byte] \<noteq> []"
  "fd_ptr demo_fd + length [1, 2, 3 :: byte] \<le> unat (i_size (fd_inode demo_fd))"
  using demo_open_ok(3) by (simp_all add: demo_fd_fields demo_filled)



end
