(* ===== verification/Spec2Isabelle.thy ===== *)
theory Spec2Isabelle
  imports Spinlock Avl_Tree Physical_Memory Pipe Eventfd Linked_List Fd_Table Page_Mapping Fat32_Demo Fat32_Time
    Ext2_Demo Ext2_Controller Ext2_Io_Demo
begin

text \<open>
  Verification development for the DualFuse kernel (\<^verbatim>\<open>src/kernel/arch/x86_64\<close>).
\<close>

end
